(* ===== verification/Prelude.thy ===== *)
theory Prelude
  imports Main "HOL-Library.Word" "HOL-Library.Signed_Division" "HOL-Library.Code_Target_Nat"
    "HOL-Library.Code_Target_Int"
begin

text \<open>
  Shared vocabulary of the development: machine integers, byte strings, Rust results and
  panics, the pieces of the Rust standard library the sources use (slices, \<open>str\<close>,
  \<open>parse\<close>, \<open>format!\<close>, byte-order conversions), and the generic lemmas the components
  share.  Every other theory imports this one.
\<close>

unbundle bit_operations_syntax

section \<open>Machine integers and byte strings\<close>

text \<open>
  An unsigned \<open>uN\<close> and a signed \<open>iN\<close> are both an \<open>N\<close>-bit word; the operations of the
  model say how a word is read (\<open>unat\<close>, \<open>uint\<close> or \<open>sint\<close>).  Addition, subtraction
  and multiplication wrap, as in a release build.  Lengths and indices (\<open>usize\<close>) are
  natural numbers.
\<close>

type_synonym u8 = "8 word"
type_synonym u16 = "16 word"
type_synonym u32 = "32 word"
type_synonym u64 = "64 word"
type_synonym u128 = "128 word"
type_synonym i32 = "32 word"
type_synonym i64 = "64 word"
type_synonym bytes = "8 word list"

section \<open>Results and panics\<close>

text \<open>
  A fallible operation returns \<open>'e + 'a\<close>: \<open>Inl\<close> is Rust's \<open>Err\<close>.  Where the code could
  also panic (an out-of-range slice, \<open>copy_from_slice\<close> with unequal lengths, an
  \<open>unwrap\<close>), the error side is \<open>'e fault\<close>, so that the absence of panics is a theorem.
\<close>

datatype 'e fault = Panic | Fail 'e

type_synonym ('e, 'a) outcome = "'e fault + 'a"

abbreviation Ok :: "'a \<Rightarrow> 'e + 'a" where "Ok \<equiv> Inr"
abbreviation Err :: "'e \<Rightarrow> 'e fault + 'a" where "Err e \<equiv> Inl (Fail e)"
abbreviation Panicked :: "'e fault + 'a" where "Panicked \<equiv> Inl Panic"

definition and_then :: "'e + 'a \<Rightarrow> ('a \<Rightarrow> 'e + 'b) \<Rightarrow> 'e + 'b" where
  "and_then m k = (case m of Inl e \<Rightarrow> Inl e | Inr x \<Rightarrow> k x)"

fun map_err :: "('e \<Rightarrow> 'f) \<Rightarrow> 'e + 'a \<Rightarrow> 'f + 'a" where
  "map_err f (Inl e) = Inl (f e)"
| "map_err f (Inr x) = Inr x"

fun map_fault_fn :: "('e \<Rightarrow> 'f) \<Rightarrow> 'e fault \<Rightarrow> 'f fault" where
  "map_fault_fn f Panic = Panic"
| "map_fault_fn f (Fail e) = Fail (f e)"

definition get_range :: "nat \<Rightarrow> nat \<Rightarrow> 'a list \<Rightarrow> ('e, 'a list) outcome" where
  "get_range i j xs = (if i \<le> j \<and> j \<le> length xs then Inr (take (j - i) (drop i xs)) else Panicked)"

definition copy_from_slice :: "nat \<Rightarrow> 'a list \<Rightarrow> ('e, 'a list) outcome" where
  "copy_from_slice n xs = (if length xs = n then Inr xs else Panicked)"

section \<open>Strings of the Rust standard library\<close>

text \<open>
  A \<open>str\<close> is its list of Unicode scalar values; \<open>len()\<close> counts UTF-8 bytes
  (\<open>str_len\<close>), while \<open>chars()\<close> walks the list.
\<close>

type_synonym rstr = "nat list"

definition utf8_len :: "nat \<Rightarrow> nat" where
  "utf8_len c = (if c < 0x80 then 1 else if c < 0x800 then 2 else if c < 0x10000 then 3 else 4)"

text \<open>A string literal of the sources.\<close>

definition rlit :: "string \<Rightarrow> rstr" where
  "rlit s = map of_char s"

definition str_len :: "rstr \<Rightarrow> nat" where
  "str_len s = sum_list (map utf8_len s)"

definition utf8_encode_char :: "nat \<Rightarrow> bytes" where
  "utf8_encode_char c =
    (if c < 0x80 then [word_of_nat c]
     else if c < 0x800 then [word_of_nat (0xC0 + c div 64), word_of_nat (0x80 + c mod 64)]
     else if c < 0x10000 then
       [word_of_nat (0xE0 + c div 4096), word_of_nat (0x80 + c div 64 mod 64), word_of_nat (0x80 + c mod 64)]
     else [word_of_nat (0xF0 + c div 262144), word_of_nat (0x80 + c div 4096 mod 64),
           word_of_nat (0x80 + c div 64 mod 64), word_of_nat (0x80 + c mod 64)])"

definition as_bytes :: "rstr \<Rightarrow> bytes" where
  "as_bytes s = concat (map utf8_encode_char s)"

definition in_rng :: "nat \<Rightarrow> nat \<Rightarrow> nat \<Rightarrow> bool" where
  "in_rng lo hi x \<longleftrightarrow> lo \<le> x \<and> x \<le> hi"

text \<open>A string slice by byte offsets: \<open>None\<close> is the panic on an offset inside a character or out of range.\<close>

fun skip_bytes :: "nat \<Rightarrow> rstr \<Rightarrow> rstr option" where
  "skip_bytes 0 s = Some s"
| "skip_bytes (Suc n) [] = None"
| "skip_bytes (Suc n) (c # cs) = (if utf8_len c \<le> Suc n then skip_bytes (Suc n - utf8_len c) cs else None)"

fun first_bytes :: "nat \<Rightarrow> rstr \<Rightarrow> rstr option" where
  "first_bytes 0 s = Some []"
| "first_bytes (Suc n) [] = None"
| "first_bytes (Suc n) (c # cs) =
    (if utf8_len c \<le> Suc n then map_option ((#) c) (first_bytes (Suc n - utf8_len c) cs) else None)"

definition str_slice :: "nat \<Rightarrow> nat \<Rightarrow> rstr \<Rightarrow> rstr option" where
  "str_slice i j s = Option.bind (skip_bytes i s) (first_bytes (j - i))"

text \<open>\<open>str::split\<close> at a character.\<close>

fun split_on :: "nat \<Rightarrow> rstr \<Rightarrow> rstr list" where
  "split_on sep [] = [[]]"
| "split_on sep (c # cs) = (if c = sep then [] # split_on sep cs else (c # hd (split_on sep cs)) # tl (split_on sep cs))"

text \<open>\<open>str::from_utf8\<close>: the well-formed byte sequences of the Unicode standard.\<close>

fun from_utf8_nat :: "nat list \<Rightarrow> rstr option" where
  "from_utf8_nat [] = Some []"
| "from_utf8_nat (a # r) =
    (if a < 0x80 then map_option ((#) a) (from_utf8_nat r)
     else if in_rng 0xC2 0xDF a then
       (case r of b # r' \<Rightarrow>
          (if in_rng 0x80 0xBF b
           then map_option ((#) ((a - 0xC0) * 64 + (b - 0x80))) (from_utf8_nat r') else None)
        | _ \<Rightarrow> None)
     else if in_rng 0xE0 0xEF a then
       (case r of b # c # r' \<Rightarrow>
          (if in_rng (if a = 0xE0 then 0xA0 else 0x80) (if a = 0xED then 0x9F else 0xBF) b
              \<and> in_rng 0x80 0xBF c
           then map_option ((#) ((a - 0xE0) * 4096 + (b - 0x80) * 64 + (c - 0x80))) (from_utf8_nat r')
           else None)
        | _ \<Rightarrow> None)
     else if in_rng 0xF0 0xF4 a then
       (case r of b # c # d # r' \<Rightarrow>
          (if in_rng (if a = 0xF0 then 0x90 else 0x80) (if a = 0xF4 then 0x8F else 0xBF) b
              \<and> in_rng 0x80 0xBF c \<and> in_rng 0x80 0xBF d
           then map_option ((#) ((a - 0xF0) * 262144 + (b - 0x80) * 4096 + (c - 0x80) * 64 + (d - 0x80)))
                  (from_utf8_nat r')
           else None)
        | _ \<Rightarrow> None)
     else None)"

definition from_utf8 :: "bytes \<Rightarrow> rstr option" where
  "from_utf8 bs = from_utf8_nat (map unat bs)"

text \<open>\<open>char::is_whitespace\<close> (the Unicode White\_Space property) and \<open>str::trim\<close>.\<close>

definition is_whitespace :: "nat \<Rightarrow> bool" where
  "is_whitespace c \<longleftrightarrow> in_rng 9 13 c \<or> c = 32 \<or> c = 0x85 \<or> c = 0xA0 \<or> c = 0x1680
     \<or> in_rng 0x2000 0x200A c \<or> c = 0x2028 \<or> c = 0x2029 \<or> c = 0x202F \<or> c = 0x205F \<or> c = 0x3000"

definition trim :: "rstr \<Rightarrow> rstr" where
  "trim s = rev (dropWhile is_whitespace (rev (dropWhile is_whitespace s)))"

definition is_ascii_digit :: "nat \<Rightarrow> bool" where
  "is_ascii_digit c \<longleftrightarrow> in_rng 48 57 c"

definition dec_value :: "rstr \<Rightarrow> nat" where
  "dec_value s = foldl (\<lambda>acc c. acc * 10 + (c - 48)) 0 s"

text \<open>\<open>str::parse\<close> at \<open>usize\<close> and \<open>u64\<close>: one leading plus sign is accepted.\<close>

definition parse_usize :: "rstr \<Rightarrow> nat option" where
  "parse_usize s = (case s of [] \<Rightarrow> None
     | c # cs \<Rightarrow> (let ds = (if c = 43 \<and> cs \<noteq> [] then cs else s) in
         if list_all is_ascii_digit ds \<and> dec_value ds < 2 ^ 64 then Some (dec_value ds) else None))"

text \<open>\<open>format!\<close> of an unsigned integer, zero-padded to a width.\<close>

fun dec_digits :: "nat \<Rightarrow> rstr" where
  "dec_digits n = (if n < 10 then [48 + n] else dec_digits (n div 10) @ [48 + n mod 10])"

declare dec_digits.simps [simp del]

definition fmt_pad :: "nat \<Rightarrow> nat \<Rightarrow> rstr" where
  "fmt_pad w n = (let ds = dec_digits n in replicate (w - length ds) 48 @ ds)"

definition hex_digit :: "nat \<Rightarrow> nat \<Rightarrow> nat" where
  "hex_digit base d = (if d < 10 then 48 + d else base + (d - 10))"

text \<open>\<open>{:02X}\<close> (base 65) and \<open>{:02x}\<close> (base 97) of a byte.\<close>

definition fmt_hex2 :: "nat \<Rightarrow> u8 \<Rightarrow> rstr" where
  "fmt_hex2 base b = [hex_digit base (unat b div 16), hex_digit base (unat b mod 16)]"

definition hex_val :: "nat \<Rightarrow> nat option" where
  "hex_val c = (if in_rng 48 57 c then Some (c - 48)
     else if in_rng 65 70 c then Some (c - 55)
     else if in_rng 97 102 c then Some (c - 87) else None)"

text \<open>\<open>u8::from_str_radix(_, 16)\<close>: a leading plus sign is accepted before a digit.\<close>

definition from_str_radix_16 :: "rstr \<Rightarrow> u8 option" where
  "from_str_radix_16 s =
    (let ds = (case s of c # cs \<Rightarrow> if c = 43 \<and> cs \<noteq> [] then cs else s | [] \<Rightarrow> s);
         v = foldl (\<lambda>acc c. acc * 16 + (case hex_val c of Some d \<Rightarrow> d | None \<Rightarrow> 0)) 0 ds
     in if ds \<noteq> [] \<and> list_all (\<lambda>c. hex_val c \<noteq> None) ds \<and> v < 256 then Some (word_of_nat v) else None)"

text \<open>Rust's \<open>/\<close> and \<open>%\<close> on signed integers truncate towards zero.\<close>

definition idiv :: "'a :: len word \<Rightarrow> 'a word \<Rightarrow> 'a word" where
  "idiv a b = word_of_int (sint a sdiv sint b)"

definition irem :: "'a :: len word \<Rightarrow> 'a word \<Rightarrow> 'a word" where
  "irem a b = word_of_int (sint a smod sint b)"

text \<open>\<open>saturating_sub\<close> and \<open>saturating_add\<close> of \<open>u64\<close>.\<close>

definition saturating_sub :: "u64 \<Rightarrow> u64 \<Rightarrow> u64" where
  "saturating_sub a b = (if a < b then 0 else a - b)"

definition saturating_add :: "u64 \<Rightarrow> u64 \<Rightarrow> u64" where
  "saturating_add a b = (if a + b < a then - 1 else a + b)"

section \<open>Byte-order conversions\<close>

fun be_bytes :: "nat \<Rightarrow> nat \<Rightarrow> bytes" where
  "be_bytes 0 v = []"
| "be_bytes (Suc n) v = word_of_nat (v div 256 ^ n mod 256) # be_bytes n v"

definition from_be :: "bytes \<Rightarrow> nat" where
  "from_be bs = foldl (\<lambda>acc b. acc * 256 + unat b) 0 bs"

definition le_bytes :: "nat \<Rightarrow> nat \<Rightarrow> bytes" where
  "le_bytes n v = rev (be_bytes n v)"

definition from_le :: "bytes \<Rightarrow> nat" where
  "from_le bs = from_be (rev bs)"

section \<open>Lemmas on results\<close>

named_theorems outcome_simps "rewriting of results, ranges and copies"
named_theorems byte_simps "rewriting of byte and string conversions"

lemma and_then_Inl [simp, outcome_simps]: "and_then (Inl e) k = Inl e"
  by (simp add: and_then_def)

lemma and_then_Inr [simp, outcome_simps]: "and_then (Inr x) k = k x"
  by (simp add: and_then_def)

lemma and_then_eq_Inr: "and_then m k = Inr y \<longleftrightarrow> (\<exists>x. m = Inr x \<and> k x = Inr y)"
  by (cases m) auto

lemma and_then_eq_Inl: "and_then m k = Inl e \<longleftrightarrow> m = Inl e \<or> (\<exists>x. m = Inr x \<and> k x = Inl e)"
  by (cases m) auto

lemma and_then_cong [fundef_cong]:
  "m = m' \<Longrightarrow> (\<And>x. m' = Inr x \<Longrightarrow> k x = k' x) \<Longrightarrow> and_then m k = and_then m' k'"
  by (cases m') auto

lemma map_err_eq_Inr [simp, outcome_simps]: "map_err f m = Inr x \<longleftrightarrow> m = Inr x"
  by (cases m) auto

lemma map_fault_fn_Panic [simp]: "map_fault_fn f e = Panic \<longleftrightarrow> e = Panic"
  by (cases e) auto

lemma get_range_ok [outcome_simps]:
  "i \<le> j \<Longrightarrow> j \<le> length xs \<Longrightarrow> get_range i j xs = Inr (take (j - i) (drop i xs))"
  by (simp add: get_range_def)

lemma get_range_middle [outcome_simps]:
  "get_range (length xs) (length xs + length ys) (xs @ ys @ zs) = Inr ys"
  by (simp add: get_range_def)

lemma copy_from_slice_ok [outcome_simps]: "length xs = n \<Longrightarrow> copy_from_slice n xs = Inr xs"
  by (simp add: copy_from_slice_def)

section \<open>Lemmas on strings and bytes\<close>

lemma dec_value_snoc [simp]: "dec_value (s @ [c]) = dec_value s * 10 + (c - 48)"
  by (simp add: dec_value_def)

lemma dec_value_zeros: "dec_value (replicate k 48 @ s) = dec_value s"
  by (induction s rule: rev_induct) (auto simp: dec_value_def simp flip: append_assoc, induction k, auto)

lemma dec_value_dec_digits [simp]: "dec_value (dec_digits n) = n"
proof (induction n rule: dec_digits.induct)
  case (1 n)
  show ?case
  proof (cases "n < 10")
    case True
    then show ?thesis by (simp add: dec_digits.simps [of n] dec_value_def)
  next
    case False
    with 1 show ?thesis by (simp add: dec_digits.simps [of n])
  qed
qed

lemma dec_digits_digit: "list_all is_ascii_digit (dec_digits n)"
proof (induction n rule: dec_digits.induct)
  case (1 n)
  then show ?case
    by (cases "n < 10") (auto simp: dec_digits.simps [of n] is_ascii_digit_def in_rng_def)
qed

lemma dec_digits_length: "n < 10 ^ w \<Longrightarrow> 0 < w \<Longrightarrow> length (dec_digits n) \<le> w"
proof (induction n arbitrary: w rule: dec_digits.induct)
  case (1 n)
  show ?case
  proof (cases "n < 10")
    case True
    with 1 show ?thesis by (simp add: dec_digits.simps [of n])
  next
    case False
    with "1.prems" obtain v where v: "w = Suc v" "0 < v"
      by (metis One_nat_def gr0_implies_Suc neq0_conv power_one_right)
    with "1.prems" have "n div 10 < 10 ^ v"
      by (simp add: less_mult_imp_div_less mult.commute)
    with 1 False v have "length (dec_digits (n div 10)) \<le> v" by simp
    with False v show ?thesis by (simp add: dec_digits.simps [of n])
  qed
qed

lemma fmt_pad_length [byte_simps]: "n < 10 ^ w \<Longrightarrow> 0 < w \<Longrightarrow> length (fmt_pad w n) = w"
  using dec_digits_length [of n w] by (simp add: fmt_pad_def Let_def)

lemma fmt_pad_digit [byte_simps]: "list_all is_ascii_digit (fmt_pad w n)"
  using dec_digits_digit [of n]
  by (auto simp: fmt_pad_def Let_def is_ascii_digit_def in_rng_def list_all_iff)

lemma fmt_pad_value [byte_simps]: "dec_value (fmt_pad w n) = n"
  by (simp add: fmt_pad_def Let_def dec_value_zeros)

lemma dec_digits_nonempty: "dec_digits n \<noteq> []"
  by (simp add: dec_digits.simps [of n])

lemma fmt_pad_nonempty: "fmt_pad w n \<noteq> []"
  by (simp add: fmt_pad_def Let_def dec_digits_nonempty)

lemma parse_usize_digits:
  assumes "list_all is_ascii_digit s" and "s \<noteq> []" and "dec_value s < 2 ^ 64"
  shows "parse_usize s = Some (dec_value s)"
proof -
  obtain c cs where s: "s = c # cs" using assms(2) by (cases s) auto
  with assms(1) have "c \<noteq> 43" by (simp add: is_ascii_digit_def in_rng_def)
  with s assms show ?thesis by (simp add: parse_usize_def Let_def)
qed

lemma parse_usize_fmt_pad [byte_simps]: "n < 2 ^ 64 \<Longrightarrow> parse_usize (fmt_pad w n) = Some n"
  by (simp add: parse_usize_digits fmt_pad_digit fmt_pad_value fmt_pad_nonempty)

lemma from_utf8_nat_ascii: "list_all (\<lambda>c. c < 128) s \<Longrightarrow> from_utf8_nat s = Some s"
  by (induction s) auto

lemma from_utf8_ascii [byte_simps]:
  "list_all (\<lambda>b. unat b < 128) bs \<Longrightarrow> from_utf8 bs = Some (map unat bs)"
  by (simp add: from_utf8_def from_utf8_nat_ascii list_all_iff)

lemma as_bytes_ascii [byte_simps]:
  "list_all (\<lambda>c. c < 128) s \<Longrightarrow> as_bytes s = map word_of_nat s"
  by (induction s) (auto simp: as_bytes_def utf8_encode_char_def)

lemma unat_word_of_nat_u8 [simp, byte_simps]: "unat (word_of_nat n :: u8) = n mod 256"
  by (simp add: unat_of_nat)

lemma from_utf8_as_bytes_ascii [byte_simps]:
  assumes "list_all (\<lambda>c. c < 128) s"
  shows "from_utf8 (as_bytes s) = Some s"
proof -
  have "map unat (map word_of_nat s :: bytes) = s"
    using assms by (induction s) auto
  with assms show ?thesis
    by (simp add: as_bytes_ascii from_utf8_def from_utf8_nat_ascii)
qed

lemma as_bytes_length_ascii [byte_simps]:
  "list_all (\<lambda>c. c < 128) s \<Longrightarrow> length (as_bytes s) = length s"
  by (simp add: as_bytes_ascii)

lemma list_all_digit_ascii: "list_all is_ascii_digit s \<Longrightarrow> list_all (\<lambda>c. c < 128) s"
  by (auto simp: list_all_iff is_ascii_digit_def in_rng_def)

lemma str_len_digits [simp]: "list_all is_ascii_digit s \<Longrightarrow> str_len s = length s"
  by (induction s) (auto simp: str_len_def utf8_len_def is_ascii_digit_def in_rng_def)

lemma as_bytes_digits: "list_all is_ascii_digit s \<Longrightarrow> list_all (\<lambda>b. is_ascii_digit (unat b)) (as_bytes s)"
  by (induction s) (auto simp: as_bytes_def utf8_encode_char_def is_ascii_digit_def in_rng_def)

lemma hex_val_hex_digit [byte_simps]:
  "d < 16 \<Longrightarrow> base = 65 \<or> base = 97 \<Longrightarrow> hex_val (hex_digit base d) = Some d"
  by (auto simp: hex_val_def hex_digit_def in_rng_def)

lemma unat_u8_less [simp]: "unat (b :: u8) < 256"
  using unsigned_less [of b, where ?'a = nat] by simp

lemma high_nibble: "unat (b :: u8) div 16 < 16"
  using unat_u8_less [of b] by (simp add: less_mult_imp_div_less del: unat_u8_less)

lemma hex_digit_ascii: "d < 16 \<Longrightarrow> base = 65 \<or> base = 97 \<Longrightarrow> hex_digit base d < 128"
  by (auto simp: hex_digit_def)

lemma from_str_radix_hex2:
  assumes "base = 65 \<or> base = 97"
  shows "from_str_radix_16 (fmt_hex2 base b) = Some b"
proof -
  have d: "unat b div 16 < 16" "unat b mod 16 < 16" using high_nibble [of b] by simp_all
  have "hex_digit base (unat b div 16) \<noteq> 43" using assms by (auto simp: hex_digit_def)
  then show ?thesis
    using d hex_val_hex_digit [of "unat b div 16" base] hex_val_hex_digit [of "unat b mod 16" base] assms
    by (auto simp: from_str_radix_16_def fmt_hex2_def Let_def)
qed

lemma saturating_sub_unat: "unat (saturating_sub a b) = unat a - unat b"
  by (simp add: saturating_sub_def unat_sub word_le_nat_alt word_less_nat_alt not_less)

lemma unat_u64_less: "unat (w :: u64) < 2 ^ 64"
  using unsigned_less [of w, where ?'a = nat] by simp

lemma saturating_add_unat: "unat (saturating_add a b) = min (unat a + unat b) (2 ^ 64 - 1)"
proof -
  have sum: "unat (a + b) = (unat a + unat b) mod 2 ^ 64" by (simp add: unat_word_ariths)
  have a: "unat a < 2 ^ 64" and b: "unat b < 2 ^ 64" by (simp_all only: unat_u64_less)
  have top: "unat (- 1 :: u64) = 2 ^ 64 - 1" by (simp add: unsigned_minus_1_eq_mask mask_eq_exp_minus_1)
  show ?thesis
  proof (cases "unat a + unat b < 2 ^ 64")
    case True
    then show ?thesis using sum by (simp add: saturating_add_def word_less_nat_alt)
  next
    case False
    then have "unat (a + b) = unat a + unat b - 2 ^ 64" using sum a b by (simp add: mod_if)
    then have "a + b < a" using False a b by (simp add: word_less_nat_alt)
    then show ?thesis using False top by (simp add: saturating_add_def)
  qed
qed

lemma length_be_bytes [simp, byte_simps]: "length (be_bytes n v) = n"
  by (induction n) auto

lemma from_be_snoc [simp]: "from_be (bs @ [b]) = from_be bs * 256 + unat b"
  by (simp add: from_be_def)

lemma from_be_Cons: "from_be (b # bs) = unat b * 256 ^ length bs + from_be bs"
proof (induction bs rule: rev_induct)
  case Nil
  then show ?case by (simp add: from_be_def)
next
  case (snoc c cs)
  then show ?case by (simp add: algebra_simps flip: append_Cons)
qed

lemma from_be_be_bytes [byte_simps]: "from_be (be_bytes n v) = v mod 256 ^ n"
proof (induction n)
  case 0
  then show ?case by (simp add: from_be_def)
next
  case (Suc n)
  have "v mod 256 ^ Suc n = 256 ^ n * (v div 256 ^ n mod 256) + v mod 256 ^ n"
    by (simp add: mod_mult2_eq power_Suc2 del: power_Suc)
  with Suc show ?case by (simp add: from_be_Cons mult.commute del: power_Suc)
qed

lemma from_be_bound: "from_be bs < 256 ^ length bs"
proof (induction bs rule: rev_induct)
  case Nil
  then show ?case by (simp add: from_be_def)
next
  case (snoc b bs)
  have "from_be bs * 256 + unat b < (from_be bs + 1) * 256" by simp
  also have "\<dots> \<le> 256 ^ length bs * 256"
    using snoc by (intro mult_right_mono) auto
  finally show ?case by (simp add: mult.commute)
qed

lemma be_bytes_cong: "v mod 256 ^ n = w mod 256 ^ n \<Longrightarrow> be_bytes n v = be_bytes n w"
proof (induction n)
  case 0
  then show ?case by simp
next
  case (Suc n)
  have *: "x div 256 ^ n mod 256 = x mod 256 ^ Suc n div 256 ^ n" for x :: nat
    by (simp add: mod_mult2_eq power_Suc2 del: power_Suc)
  have "x mod 256 ^ n = x mod 256 ^ Suc n mod 256 ^ n" for x :: nat
    by (rule mod_mod_cancel [symmetric]) simp
  with Suc.prems have "v mod 256 ^ n = w mod 256 ^ n" by metis
  with Suc show ?case by (simp only: be_bytes.simps * Suc.prems)
qed

lemma be_bytes_from_be [byte_simps]: "length bs = n \<Longrightarrow> be_bytes n (from_be bs) = bs"
proof (induction bs arbitrary: n)
  case Nil
  then show ?case by simp
next
  case (Cons b bs)
  have lt: "from_be bs < 256 ^ length bs" by (rule from_be_bound)
  have "(unat b * 256 ^ length bs + from_be bs) div 256 ^ length bs mod 256 = unat b"
    using lt by simp
  moreover have "be_bytes (length bs) (from_be (b # bs)) = be_bytes (length bs) (from_be bs)"
    by (rule be_bytes_cong) (simp add: from_be_Cons)
  ultimately show ?case using Cons by (auto simp: from_be_Cons)
qed

lemma length_le_bytes [simp, byte_simps]: "length (le_bytes n v) = n"
  by (simp add: le_bytes_def)

lemma from_le_le_bytes [byte_simps]: "from_le (le_bytes n v) = v mod 256 ^ n"
  by (simp add: from_le_def le_bytes_def from_be_be_bytes)

lemma le_bytes_from_le [byte_simps]: "length bs = n \<Longrightarrow> le_bytes n (from_le bs) = bs"
  by (simp add: from_le_def le_bytes_def be_bytes_from_be)

section \<open>Tables\<close>

text \<open>The entries of a constant table, one equation each.\<close>

lemma nth_entries: "xs = ys \<Longrightarrow> length ys = n \<Longrightarrow> map ((!) ys) [0..<n] = xs"
  by (metis map_nth)

lemma upt_heads:
  "[0..<numeral n] = 0 # [Suc 0..<numeral n]"
  "[Suc 0..<numeral n] = (if (1 :: nat) < numeral n then Suc 0 # [2..<numeral n] else [])"
  by (simp_all add: upt_conv_Cons numeral_2_eq_2)

section \<open>Signed words\<close>

lemma sint_word_of_int_self:
  assumes "- (2 ^ (LENGTH('a) - 1)) \<le> x" and "x < 2 ^ (LENGTH('a) - 1)"
  shows "sint (word_of_int x :: 'a :: len word) = x"
  using assms by (simp add: sint_sbintrunc' signed_take_bit_int_eq_self)

section \<open>Congruence of integers\<close>

definition eqmod :: "int \<Rightarrow> int \<Rightarrow> int \<Rightarrow> bool" where
  "eqmod n a b \<longleftrightarrow> a mod n = b mod n"

lemma eqmod_refl [simp, intro]: "eqmod n a a"
  by (simp add: eqmod_def)

lemma eqmod_sym: "eqmod n a b \<Longrightarrow> eqmod n b a"
  by (simp add: eqmod_def)

lemma eqmod_trans [trans]: "eqmod n a b \<Longrightarrow> eqmod n b c \<Longrightarrow> eqmod n a c"
  by (simp add: eqmod_def)

lemma eqmod_eq_trans [trans]: "eqmod n a b \<Longrightarrow> b = c \<Longrightarrow> eqmod n a c" "a = b \<Longrightarrow> eqmod n b c \<Longrightarrow> eqmod n a c"
  by simp_all

lemma eqmod_add: "eqmod n a b \<Longrightarrow> eqmod n c d \<Longrightarrow> eqmod n (a + c) (b + d)"
  by (metis eqmod_def mod_add_eq)

lemma eqmod_diff: "eqmod n a b \<Longrightarrow> eqmod n c d \<Longrightarrow> eqmod n (a - c) (b - d)"
  by (metis eqmod_def mod_diff_eq)

lemma eqmod_mult: "eqmod n a b \<Longrightarrow> eqmod n c d \<Longrightarrow> eqmod n (a * c) (b * d)"
  by (metis eqmod_def mod_mult_eq)

lemma eqmod_minus: "eqmod n a b \<Longrightarrow> eqmod n (- a) (- b)"
  by (metis eqmod_def mod_minus_eq)

lemma eqmod_mod [simp]: "eqmod n (a mod n) b \<longleftrightarrow> eqmod n a b" "eqmod n a (b mod n) \<longleftrightarrow> eqmod n a b"
  by (simp_all add: eqmod_def)

lemma eqmod_dvd: "eqmod n a b \<longleftrightarrow> n dvd a - b"
  by (simp add: eqmod_def mod_eq_dvd_iff)

lemma eqmod_mult_self [simp]: "eqmod n (a * n) 0" "eqmod n (n * a) 0"
  by (simp_all add: eqmod_def)

lemmas eqmod_intros = eqmod_add eqmod_diff eqmod_mult eqmod_minus eqmod_refl

lemma eqmod_unique: "eqmod n a b \<Longrightarrow> 0 \<le> a \<Longrightarrow> a < n \<Longrightarrow> 0 \<le> b \<Longrightarrow> b < n \<Longrightarrow> a = b"
  by (simp add: eqmod_def)

end
