(* ===== verification/Bcd.thy ===== *)
theory Bcd
  imports Prelude
begin

text \<open>
  The BCD packing engine (\<open>solomon-core/src/bcd.rs\<close>): digit strings to packed nibbles and
  back, and the one- and two-byte BCD length prefixes of the LLVAR, LLLVAR and LLLLVAR
  fields.  The theorems are the round trips of every encoder with its decoder, the
  rejection of every byte that is not BCD, and the one input class the packer drops
  silently.
\<close>

section \<open>Definitions\<close>

datatype BcdError =
    InvalidDigit nat
  | InvalidNibble u8
  | LengthOverflow nat
  | BcdBufferTooShort nat nat
  | InvalidBcdLengthHeader u8

definition digit_to_val :: "nat \<Rightarrow> BcdError + u8" where
  "digit_to_val c = (if is_ascii_digit c then Inr (word_of_nat c - 48) else Inl (InvalidDigit c))"

text \<open>
  The pair loop of \<open>pack_bcd_left_padded\<close>.  The tuple pattern draws two characters before
  it is tested: when only one is left it has been consumed and the loop ends.
\<close>

fun pack_pairs :: "rstr \<Rightarrow> bytes \<Rightarrow> BcdError + bytes" where
  "pack_pairs (c1 # c2 # cs) out =
     and_then (digit_to_val c1) (\<lambda>n1. and_then (digit_to_val c2) (\<lambda>n2.
       pack_pairs cs (out @ [push_bit 4 n1 OR n2])))"
| "pack_pairs _ out = Inr out"

definition pack_bcd_left_padded :: "rstr \<Rightarrow> (BcdError, bytes) outcome" where
  "pack_bcd_left_padded digits =
    (let d = trim digits in
     if str_len d mod 2 \<noteq> 0 then
       (case d of [] \<Rightarrow> Panicked
        | first # chars \<Rightarrow> map_err Fail (and_then (digit_to_val first) (\<lambda>val. pack_pairs chars [val])))
     else map_err Fail (pack_pairs d []))"

fun pack_pairs_right :: "u8 \<Rightarrow> rstr \<Rightarrow> bytes \<Rightarrow> BcdError + bytes" where
  "pack_pairs_right pad [] out = Inr out"
| "pack_pairs_right pad [c1] out =
     and_then (digit_to_val c1) (\<lambda>n1. Inr (out @ [push_bit 4 n1 OR (pad AND 0x0F)]))"
| "pack_pairs_right pad (c1 # c2 # cs) out =
     and_then (digit_to_val c1) (\<lambda>n1. and_then (digit_to_val c2) (\<lambda>n2.
       pack_pairs_right pad cs (out @ [push_bit 4 n1 OR n2])))"

definition pack_bcd_right_padded :: "rstr \<Rightarrow> u8 \<Rightarrow> BcdError + bytes" where
  "pack_bcd_right_padded digits pad_nibble = pack_pairs_right pad_nibble (trim digits) []"

fun unpack_loop :: "bool \<Rightarrow> nat \<Rightarrow> rstr \<Rightarrow> bytes \<Rightarrow> BcdError + rstr" where
  "unpack_loop left_padded_odd num_digits out [] = Inr out"
| "unpack_loop left_padded_odd num_digits out (b # bs) =
    (if length out = num_digits then Inr out
     else let high = drop_bit 4 b AND 0x0F in
       if high > 9 then Inl (InvalidNibble high)
       else let out1 = out @ [48 + unat high] in
         if length out1 < num_digits then
           let low = b AND 0x0F in
           if low > 9 then
             (if low = 0x0F \<and> \<not> left_padded_odd then Inr out1 else Inl (InvalidNibble low))
           else unpack_loop left_padded_odd num_digits (out1 @ [48 + unat low]) bs
         else unpack_loop left_padded_odd num_digits out1 bs)"

definition unpack_bcd :: "bytes \<Rightarrow> nat \<Rightarrow> bool \<Rightarrow> BcdError + rstr" where
  "unpack_bcd bs num_digits left_padded_odd =
    (let expected_bytes = (num_digits + 1) div 2 in
     if length bs < expected_bytes then Inl (BcdBufferTooShort expected_bytes (length bs))
     else if num_digits mod 2 \<noteq> 0 \<and> left_padded_odd then
       let low = (bs ! 0) AND 0x0F in
       if low > 9 then Inl (InvalidNibble low)
       else unpack_loop left_padded_odd num_digits [48 + unat low]
              (take (expected_bytes - 1) (drop 1 bs))
     else unpack_loop left_padded_odd num_digits [] (take expected_bytes bs))"

definition pack_llvar_len_bcd :: "nat \<Rightarrow> BcdError + u8" where
  "pack_llvar_len_bcd len =
    (if len > 99 then Inl (LengthOverflow len)
     else let tens = (word_of_nat (len div 10) :: u8); units = word_of_nat (len mod 10)
       in Inr (push_bit 4 tens OR units))"

definition unpack_llvar_len_bcd :: "u8 \<Rightarrow> BcdError + nat" where
  "unpack_llvar_len_bcd byte =
    (let tens = drop_bit 4 byte AND 0x0F; units = byte AND 0x0F in
     if tens > 9 \<or> units > 9 then Inl (InvalidBcdLengthHeader byte)
     else Inr (unat tens * 10 + unat units))"

definition pack_lllvar_len_bcd :: "nat \<Rightarrow> BcdError + bytes" where
  "pack_lllvar_len_bcd len =
    (if len > 999 then Inl (LengthOverflow len)
     else let hundreds = (word_of_nat (len div 100) :: u8); remainder = len mod 100;
              tens = (word_of_nat (remainder div 10) :: u8); units = word_of_nat (remainder mod 10)
       in Inr [hundreds, push_bit 4 tens OR units])"

definition unpack_lllvar_len_bcd :: "u8 \<Rightarrow> u8 \<Rightarrow> BcdError + nat" where
  "unpack_lllvar_len_bcd b0 b1 =
    (let hundreds = b0 AND 0x0F; tens = drop_bit 4 b1 AND 0x0F; units = b1 AND 0x0F in
     if hundreds > 9 \<or> tens > 9 \<or> units > 9 then Inl (InvalidBcdLengthHeader b1)
     else Inr (unat hundreds * 100 + unat tens * 10 + unat units))"

definition pack_llllvar_len_bcd :: "nat \<Rightarrow> BcdError + bytes" where
  "pack_llllvar_len_bcd len =
    (if len > 9999 then Inl (LengthOverflow len)
     else let high = (word_of_nat (len div 100) :: u8); low = (word_of_nat (len mod 100) :: u8);
              thousands = high div 10; hundreds = high mod 10; tens = low div 10; units = low mod 10
       in Inr [push_bit 4 thousands OR hundreds, push_bit 4 tens OR units])"

definition unpack_llllvar_len_bcd :: "u8 \<Rightarrow> u8 \<Rightarrow> BcdError + nat" where
  "unpack_llllvar_len_bcd b0 b1 =
    (let thousands = drop_bit 4 b0 AND 0x0F; hundreds = b0 AND 0x0F;
         tens = drop_bit 4 b1 AND 0x0F; units = b1 AND 0x0F in
     if thousands > 9 \<or> hundreds > 9 \<or> tens > 9 \<or> units > 9 then Inl (InvalidBcdLengthHeader b0)
     else Inr (unat thousands * 1000 + unat hundreds * 100 + unat tens * 10 + unat units))"

section \<open>Nibbles\<close>

named_theorems nibble_simps "values of packed nibbles"

lemma unat_low_nibble [nibble_simps]: "unat ((b :: u8) AND 0x0F) = unat b mod 16"
proof -
  have "b AND 0x0F = take_bit 4 b" by (simp add: take_bit_eq_mask mask_numeral)
  then show ?thesis by (simp only: unsigned_take_bit_eq) (simp add: take_bit_eq_mod)
qed

lemma unat_high_nibble [nibble_simps]: "unat (drop_bit 4 (b :: u8) AND 0x0F) = unat b div 16"
proof -
  have "unat b div 16 < 16" using unat_u8_less [of b] by linarith
  then show ?thesis
    by (simp only: unat_low_nibble unsigned_drop_bit_eq) (simp add: drop_bit_eq_div take_bit_eq_mod)
qed

lemma unat_drop_nibble: "unat (drop_bit 4 (b :: u8)) mod 16 = unat b div 16"
  using unat_high_nibble [of b] by (simp only: unat_low_nibble)

lemma unat_pack_nibbles [nibble_simps]:
  assumes "unat (a :: u8) < 16" and "unat (b :: u8) < 16"
  shows "unat (push_bit 4 a OR b) = 16 * unat a + unat b"
proof -
  have "\<forall>x\<in>set [0..<16]. \<forall>y\<in>set [0..<16].
      unat (push_bit 4 (word_of_nat x :: u8) OR word_of_nat y) = 16 * x + y"
    by code_simp
  moreover have "unat a \<in> set [0..<16]" and "unat b \<in> set [0..<16]" using assms by simp_all
  ultimately have "unat (push_bit 4 (word_of_nat (unat a) :: u8) OR word_of_nat (unat b))
      = 16 * unat a + unat b"
    by blast
  then show ?thesis by simp
qed

lemma u8_eq_iff: "(a :: u8) = b \<longleftrightarrow> unat a = unat b"
  by (simp add: word_unat_eq_iff)

lemma high_nibble_pack:
  assumes "unat (a :: u8) < 16" and "unat (b :: u8) < 16"
  shows "drop_bit 4 (push_bit 4 a OR b) AND 0x0F = a"
  using assms by (simp add: u8_eq_iff unat_high_nibble unat_pack_nibbles del: drop_bit_or)

lemma low_nibble_pack:
  assumes "unat (a :: u8) < 16" and "unat (b :: u8) < 16"
  shows "(push_bit 4 a OR b) AND 0x0F = b"
  using assms by (simp add: u8_eq_iff unat_low_nibble unat_pack_nibbles)

lemma u8_gt_9 [nibble_simps]: "(b :: u8) > 9 \<longleftrightarrow> unat b > 9"
  by (simp add: word_less_nat_alt)

section \<open>Digit strings\<close>

lemma digit_to_val_digit:
  assumes "is_ascii_digit c"
  obtains v where "digit_to_val c = Inr v" "unat v = c - 48" "c = 48 + unat v" "unat v \<le> 9"
proof
  from assms have c: "48 \<le> c" "c \<le> 57" by (auto simp: is_ascii_digit_def in_rng_def)
  have "unat (word_of_nat c - 48 :: u8) = c - 48"
    using c by (simp add: unat_sub word_le_nat_alt)
  then show "unat (word_of_nat c - 48 :: u8) = c - 48"
    and "c = 48 + unat (word_of_nat c - 48 :: u8)" and "unat (word_of_nat c - 48 :: u8) \<le> 9"
    using c by simp_all
  show "digit_to_val c = Inr (word_of_nat c - 48)" using assms by (simp add: digit_to_val_def)
qed

lemma trim_digits [simp]: "list_all is_ascii_digit s \<Longrightarrow> trim s = s"
proof -
  assume d: "list_all is_ascii_digit s"
  have nw: "\<not> is_whitespace c" if "c \<in> set s" for c
    using that d by (auto simp: list_all_iff is_ascii_digit_def is_whitespace_def in_rng_def)
  have "dropWhile is_whitespace s = s"
    using nw by (cases s) auto
  moreover have "dropWhile is_whitespace (rev s) = rev s"
    using nw by (cases s rule: rev_cases) auto
  ultimately show ?thesis by (simp add: trim_def)
qed

text \<open>Unpacking one byte of two digits appends both.\<close>

lemma unpack_loop_byte:
  assumes "unat n1 \<le> 9" and "unat n2 \<le> 9" and "length out + 2 \<le> n"
  shows "unpack_loop lp n out ((push_bit 4 n1 OR n2) # bs)
       = unpack_loop lp n (out @ [48 + unat n1, 48 + unat n2]) bs"
  using assms high_nibble_pack [of n1 n2] low_nibble_pack [of n1 n2]
  by (simp add: Let_def u8_gt_9 del: drop_bit_or)

lemma pack_pairs_unpack:
  "list_all is_ascii_digit s \<Longrightarrow> even (length s) \<Longrightarrow>
   \<exists>bs. (\<forall>acc. pack_pairs s acc = Inr (acc @ bs)) \<and> length bs = length s div 2
      \<and> (\<forall>lp n out rest. length out + length s \<le> n \<longrightarrow>
            unpack_loop lp n out (bs @ rest) = unpack_loop lp n (out @ s) rest)"
proof (induction s rule: induct_list012)
  case 1
  then show ?case by auto
next
  case (2 x)
  then show ?case by simp
next
  case (3 x y zs)
  from "3.prems" obtain n1 where n1: "digit_to_val x = Inr n1" "x = 48 + unat n1" "unat n1 \<le> 9"
    by (auto elim: digit_to_val_digit)
  from "3.prems" obtain n2 where n2: "digit_to_val y = Inr n2" "y = 48 + unat n2" "unat n2 \<le> 9"
    by (auto elim: digit_to_val_digit)
  from 3 obtain bs where bs: "\<forall>acc. pack_pairs zs acc = Inr (acc @ bs)" "length bs = length zs div 2"
      "\<forall>lp n out rest. length out + length zs \<le> n \<longrightarrow>
          unpack_loop lp n out (bs @ rest) = unpack_loop lp n (out @ zs) rest"
    by auto
  let ?b = "push_bit 4 n1 OR n2"
  have "unpack_loop lp n out ((?b # bs) @ rest) = unpack_loop lp n (out @ x # y # zs) rest"
    if "length out + length (x # y # zs) \<le> n" for lp n out rest
    using that n1(2,3) n2(2,3) bs(3) [rule_format, of "out @ [x, y]" n lp rest]
    by (simp add: unpack_loop_byte del: unpack_loop.simps)
  with n1 n2 bs(1,2) show ?case by (intro exI [of _ "?b # bs"]) simp
qed

lemma unpack_loop_full: "length out = n \<Longrightarrow> unpack_loop lp n out bs = Inr out"
  by (cases bs) auto

text \<open>
  packing a string of decimal digits and unpacking as many digits gives the string back,
  left padding an odd count with a zero nibble.
\<close>

theorem bcd_left_padded_roundtrip:
  assumes "list_all is_ascii_digit s"
  shows "\<exists>bs. pack_bcd_left_padded s = Inr bs \<and> length bs = (length s + 1) div 2
           \<and> unpack_bcd bs (length s) True = Inr s"
proof (cases "even (length s)")
  case True
  from pack_pairs_unpack [OF assms True] obtain bs where
    bs: "pack_pairs s [] = Inr bs" "length bs = length s div 2"
      "unpack_loop True (length s) [] (bs @ []) = unpack_loop True (length s) ([] @ s) []"
    by (metis add_0 append_Nil list.size(3) order_refl)
  from True have "length s mod 2 = 0" by presburger
  with True bs assms show ?thesis
    by (intro exI [of _ bs]) (simp add: pack_bcd_left_padded_def unpack_bcd_def Let_def)
next
  case False
  then obtain c cs where s: "s = c # cs" and ev: "even (length cs)" by (cases s) auto
  from assms s obtain v where v: "digit_to_val c = Inr v" "c = 48 + unat v" "unat v \<le> 9"
    by (auto elim: digit_to_val_digit)
  from assms s have "list_all is_ascii_digit cs" by simp
  from pack_pairs_unpack [OF this ev] obtain bs where
    bs: "pack_pairs cs [v] = Inr ([v] @ bs)" "length bs = length cs div 2"
      "unpack_loop True (length s) [c] (bs @ []) = unpack_loop True (length s) ([c] @ cs) []"
    by (metis One_nat_def length_Cons list.size(3) plus_1_eq_Suc s order_refl)
  from False have odd: "length s mod 2 \<noteq> 0" by presburger
  have exp: "(length s + 1) div 2 = Suc (length bs)" using ev s bs(2) by simp
  have low: "v AND 0x0F = v" using v(3) by (simp add: u8_eq_iff unat_low_nibble)
  have "pack_bcd_left_padded s = Inr (v # bs)"
    using assms odd s v(1) bs(1) by (simp add: pack_bcd_left_padded_def Let_def)
  moreover have "unpack_bcd (v # bs) (length s) True = Inr s"
    using odd exp low v(2,3) bs(3) s by (simp add: unpack_bcd_def Let_def u8_gt_9)
  ultimately show ?thesis using exp by auto
qed

theorem bcd_left_padded_roundtrip_witness:
  "\<exists>bs. pack_bcd_left_padded [49, 50, 51] = Inr bs \<and> length bs = (length [49::nat, 50, 51] + 1) div 2
      \<and> unpack_bcd bs (length [49::nat, 50, 51]) True = Inr [49, 50, 51]"
  by (rule bcd_left_padded_roundtrip) (simp add: is_ascii_digit_def in_rng_def)

lemma pack_pairs_right_even:
  "even (length s) \<Longrightarrow> pack_pairs_right pad s acc = pack_pairs s acc"
  by (induction s arbitrary: acc rule: induct_list012) (auto intro!: and_then_cong)

lemma pack_pairs_right_snoc:
  "even (length s) \<Longrightarrow> pack_pairs_right pad (s @ [c]) acc =
     and_then (pack_pairs s acc) (\<lambda>out. and_then (digit_to_val c)
       (\<lambda>n. Inr (out @ [push_bit 4 n OR (pad AND 0x0F)])))"
  by (induction s arbitrary: acc rule: induct_list012) (auto simp: and_then_def split: sum.split)

text \<open>
  right padding round-trips as well, whatever the pad nibble: \<open>unpack_bcd\<close> with
  \<open>left_padded_odd = false\<close> stops before it reads the pad.
\<close>

theorem bcd_right_padded_roundtrip:
  assumes "list_all is_ascii_digit s"
  shows "\<exists>bs. pack_bcd_right_padded s pad = Inr bs \<and> length bs = (length s + 1) div 2
           \<and> unpack_bcd bs (length s) False = Inr s"
proof (cases "even (length s)")
  case True
  from pack_pairs_unpack [OF assms True] obtain bs where
    bs: "pack_pairs s [] = Inr bs" "length bs = length s div 2"
      "unpack_loop False (length s) [] (bs @ []) = unpack_loop False (length s) ([] @ s) []"
    by (metis add_0 append_Nil list.size(3) order_refl)
  with True assms show ?thesis
    by (intro exI [of _ bs]) (simp add: pack_bcd_right_padded_def pack_pairs_right_even unpack_bcd_def Let_def)
next
  case False
  then obtain t c where s: "s = t @ [c]" and ev: "even (length t)" by (cases s rule: rev_cases) auto
  from assms s obtain v where v: "digit_to_val c = Inr v" "c = 48 + unat v" "unat v \<le> 9"
    by (auto elim: digit_to_val_digit)
  let ?b = "push_bit 4 v OR (pad AND 0x0F)"
  from assms s have "list_all is_ascii_digit t" by simp
  from pack_pairs_unpack [OF this ev] obtain bs where
    bs: "pack_pairs t [] = Inr bs" "length bs = length t div 2"
      "unpack_loop False (length s) [] (bs @ [?b]) = unpack_loop False (length s) ([] @ t) [?b]"
    using s by (metis append_Nil length_append le_add1)
  have "pack_bcd_right_padded s pad = Inr (bs @ [?b])"
    using assms s ev v(1) bs(1) by (simp add: pack_bcd_right_padded_def pack_pairs_right_snoc)
  moreover have "length (bs @ [?b]) = (length s + 1) div 2" using s ev bs(2) by simp
  moreover have "unpack_loop False (length s) t [?b] = Inr s"
    using s v high_nibble_pack [of v "pad AND 0x0F"]
    by (simp add: Let_def u8_gt_9 unat_low_nibble del: drop_bit_or)
  ultimately show ?thesis
    using s bs(3) by (intro exI [of _ "bs @ [?b]"]) (simp add: unpack_bcd_def Let_def)
qed

theorem bcd_right_padded_roundtrip_witness:
  "\<exists>bs. pack_bcd_right_padded [49, 50, 51] 0x0F = Inr bs
      \<and> length bs = (length [49::nat, 50, 51] + 1) div 2
      \<and> unpack_bcd bs (length [49::nat, 50, 51]) False = Inr [49, 50, 51]"
  by (rule bcd_right_padded_roundtrip) (simp add: is_ascii_digit_def in_rng_def)

section \<open>Length prefixes\<close>

lemma llvar_roundtrip [nibble_simps]:
  assumes "n \<le> 99"
  shows "\<exists>b. pack_llvar_len_bcd n = Inr b \<and> unpack_llvar_len_bcd b = Inr n"
proof -
  let ?t = "word_of_nat (n div 10) :: u8" and ?u = "word_of_nat (n mod 10) :: u8"
  have *: "unat ?t = n div 10" "unat ?u = n mod 10" using assms by simp_all
  have "n div 10 \<le> 9" using assms by linarith
  with * have "unat ?t < 16" "unat ?u < 16" by simp_all
  note nib = high_nibble_pack [OF this] low_nibble_pack [OF this]
  have "pack_llvar_len_bcd n = Inr (push_bit 4 ?t OR ?u)"
    using assms by (simp add: pack_llvar_len_bcd_def Let_def)
  moreover have "unpack_llvar_len_bcd (push_bit 4 ?t OR ?u) = Inr n"
    using * \<open>n div 10 \<le> 9\<close> unfolding unpack_llvar_len_bcd_def Let_def nib by (simp add: u8_gt_9)
  ultimately show ?thesis by blast
qed

lemma lllvar_roundtrip [nibble_simps]:
  assumes "n \<le> 999"
  shows "\<exists>b0 b1. pack_lllvar_len_bcd n = Inr [b0, b1] \<and> unpack_lllvar_len_bcd b0 b1 = Inr n"
proof -
  let ?h = "word_of_nat (n div 100) :: u8"
  let ?t = "word_of_nat (n mod 100 div 10) :: u8" and ?u = "word_of_nat (n mod 100 mod 10) :: u8"
  have lim: "n div 100 \<le> 9" "n mod 100 div 10 \<le> 9" using assms by simp_all
  then have *: "unat ?h = n div 100" "unat ?t = n mod 100 div 10" "unat ?u = n mod 100 mod 10" by simp_all
  with lim have "unat ?t < 16" "unat ?u < 16" by simp_all
  note nib = high_nibble_pack [OF this] low_nibble_pack [OF this]
  have h: "?h AND 0x0F = ?h" using * lim by (simp add: u8_eq_iff unat_low_nibble)
  have "pack_lllvar_len_bcd n = Inr [?h, push_bit 4 ?t OR ?u]"
    using assms by (simp add: pack_lllvar_len_bcd_def Let_def)
  moreover have "n div 100 * 100 + n mod 100 div 10 * 10 + n mod 100 mod 10 = n"
    using div_mult_mod_eq [of n 100] div_mult_mod_eq [of "n mod 100" 10] by linarith
  then have "unpack_lllvar_len_bcd ?h (push_bit 4 ?t OR ?u) = Inr n"
    using * lim unfolding unpack_lllvar_len_bcd_def Let_def nib h by (simp add: u8_gt_9)
  ultimately show ?thesis by blast
qed

lemma llllvar_roundtrip [nibble_simps]:
  assumes "n \<le> 9999"
  shows "\<exists>b0 b1. pack_llllvar_len_bcd n = Inr [b0, b1] \<and> unpack_llllvar_len_bcd b0 b1 = Inr n"
proof -
  let ?hi = "word_of_nat (n div 100) :: u8" and ?lo = "word_of_nat (n mod 100) :: u8"
  have lim: "n div 100 \<le> 99" using assms by simp
  have *: "unat (?hi div 10) = n div 100 div 10" "unat (?hi mod 10) = n div 100 mod 10"
    "unat (?lo div 10) = n mod 100 div 10" "unat (?lo mod 10) = n mod 100 mod 10"
    using lim by (simp_all add: unat_div unat_mod)
  have l9: "n div 100 div 10 \<le> 9" "n mod 100 div 10 \<le> 9" using lim by linarith+
  have lt: "unat (?hi div 10) < 16" "unat (?hi mod 10) < 16" "unat (?lo div 10) < 16" "unat (?lo mod 10) < 16"
    unfolding * using l9 by simp_all
  note nib = high_nibble_pack [OF lt(1,2)] low_nibble_pack [OF lt(1,2)]
    high_nibble_pack [OF lt(3,4)] low_nibble_pack [OF lt(3,4)]
  have "pack_llllvar_len_bcd n
      = Inr [push_bit 4 (?hi div 10) OR (?hi mod 10), push_bit 4 (?lo div 10) OR (?lo mod 10)]"
    using assms by (simp add: pack_llllvar_len_bcd_def Let_def)
  moreover have "n div 100 div 10 * 1000 + n div 100 mod 10 * 100 + n mod 100 div 10 * 10
      + n mod 100 mod 10 = n"
    using div_mult_mod_eq [of n 100] div_mult_mod_eq [of "n div 100" 10] div_mult_mod_eq [of "n mod 100" 10]
    by linarith
  then have "unpack_llllvar_len_bcd (push_bit 4 (?hi div 10) OR (?hi mod 10))
      (push_bit 4 (?lo div 10) OR (?lo mod 10)) = Inr n"
    using l9 unfolding unpack_llllvar_len_bcd_def Let_def nib u8_gt_9 * by (simp add: not_less less_Suc_eq_le [symmetric])
  ultimately show ?thesis by blast
qed

text \<open>
  every BCD length prefix decodes to the length it was built from, and a length that does
  not fit the prefix is refused with \<open>LengthOverflow\<close>.
\<close>

theorem bcd_length_prefixes:
  "and_then (pack_llvar_len_bcd n) unpack_llvar_len_bcd
     = (if n \<le> 99 then Inr n else Inl (LengthOverflow n))
   \<and> and_then (pack_lllvar_len_bcd n) (\<lambda>bs. unpack_lllvar_len_bcd (bs ! 0) (bs ! 1))
     = (if n \<le> 999 then Inr n else Inl (LengthOverflow n))
   \<and> and_then (pack_llllvar_len_bcd n) (\<lambda>bs. unpack_llllvar_len_bcd (bs ! 0) (bs ! 1))
     = (if n \<le> 9999 then Inr n else Inl (LengthOverflow n))"
  using llvar_roundtrip [of n] lllvar_roundtrip [of n] llllvar_roundtrip [of n]
  by (auto simp: pack_llvar_len_bcd_def [of n] pack_lllvar_len_bcd_def [of n]
      pack_llllvar_len_bcd_def [of n])

section \<open>Panics and dropped characters\<close>

text \<open>
  the packer never panics: its only \<open>unwrap\<close> is reached when the byte length is odd, so
  there is a first character.
\<close>

theorem pack_bcd_no_panic: "pack_bcd_left_padded s \<noteq> Panicked"
proof -
  have "map_err Fail (m :: BcdError + bytes) \<noteq> Panicked" for m by (cases m) auto
  then show ?thesis
    by (auto simp: pack_bcd_left_padded_def Let_def str_len_def split: list.split)
qed

text \<open>
  the parity is taken from the UTF-8 length and the loop runs over characters, so a
  non-ASCII last character of an odd-length string is dropped without \<open>InvalidDigit\<close>: the
  two-character string of a digit and U+00E9 packs to one byte.
\<close>

theorem pack_bcd_drops_trailing_char:
  "pack_bcd_left_padded [49, 0xE9] = Inr [0x01] \<and> digit_to_val 0xE9 = Inl (InvalidDigit 0xE9)"
  by code_simp

end
