(* ===== verification/Iso8583.thy ===== *)
theory Iso8583
  imports Bcd
begin

text \<open>
  The ISO 8583 engine (\<open>solomon-core/src/iso8583.rs\<close>, lines 1 to 766): the data element
  schema, the message type with its field operations, the parsers for the ASCII wire format
  (hexadecimal or binary bitmap, told apart by inspection) and for the AS2805 BCD format, the
  serializers of the three encodings and the two-byte TCP frame.

  Both field codecs satisfy one contract, the locale \<open>field_codec\<close>: what the serializer
  writes for a field is what the parser reads, up to the padding and truncation the schema
  prescribes.  The message round trips are proved once from that contract.
\<close>

section \<open>Definitions\<close>

subsection \<open>Schema, errors, messages\<close>

datatype FieldType = Fixed nat | LLVAR nat | LLLVAR nat | LLLLVAR nat

datatype Iso8583Error =
    BufferTooShort nat nat
  | InvalidMtiLength nat
  | InvalidMtiFormat
  | InvalidBitmap
  | FieldOutOfBounds nat
  | FieldLengthExceeded nat nat nat
  | InvalidVarLengthHeader nat bytes
  | TcpFramingError
  | SerializationError
  | BcdErr BcdError

datatype EncodingFormat = AsciiHexBitmap | AsciiBinaryBitmap | BinaryBcd

definition field_table :: "(nat \<times> FieldType) list" where
  "field_table =
    [(1, Fixed 8), (2, LLVAR 19), (3, Fixed 6), (4, Fixed 12), (5, Fixed 12), (6, Fixed 12),
     (7, Fixed 10), (8, Fixed 8), (9, Fixed 8), (10, Fixed 8), (11, Fixed 6), (12, Fixed 6),
     (13, Fixed 4), (14, Fixed 4), (15, Fixed 4), (16, Fixed 4), (17, Fixed 4), (18, Fixed 4),
     (19, Fixed 3), (22, Fixed 3), (23, Fixed 3), (24, Fixed 3), (25, Fixed 2), (26, Fixed 2),
     (28, Fixed 9), (32, LLVAR 11), (33, LLVAR 11), (35, LLVAR 37), (37, Fixed 12), (38, Fixed 6),
     (39, Fixed 2), (41, Fixed 8), (42, Fixed 15), (43, Fixed 40), (44, LLVAR 25), (45, LLVAR 76),
     (48, LLLVAR 999), (49, Fixed 3), (50, Fixed 3), (51, Fixed 3), (52, Fixed 8), (53, Fixed 16),
     (54, LLLVAR 120), (55, LLLVAR 255), (60, LLLVAR 999), (61, LLLVAR 999), (62, LLLVAR 999),
     (63, LLLVAR 999), (64, Fixed 8), (70, Fixed 3), (90, Fixed 42), (100, LLVAR 11),
     (102, LLVAR 28), (103, LLVAR 28), (112, LLLLVAR 9999), (123, LLLLVAR 9999),
     (127, LLLLVAR 9999), (128, Fixed 8)]"

definition get_field_type :: "nat \<Rightarrow> FieldType" where
  "get_field_type field = (case map_of field_table field of Some t \<Rightarrow> t | None \<Rightarrow> LLLVAR 999)"

record Iso8583Message =
  mti :: bytes
  msg_fields :: "nat \<rightharpoonup> bytes"

definition new_message :: "bytes \<Rightarrow> Iso8583Message" where
  "new_message m = \<lparr>mti = m, msg_fields = Map.empty\<rparr>"

definition set_field :: "nat \<Rightarrow> bytes \<Rightarrow> Iso8583Message \<Rightarrow> Iso8583Message" where
  "set_field field_num data m =
    (if field_num \<ge> 1 \<and> field_num \<le> 128 then m\<lparr>msg_fields := (msg_fields m)(field_num \<mapsto> data)\<rparr> else m)"

definition get_field :: "nat \<Rightarrow> Iso8583Message \<Rightarrow> bytes option" where
  "get_field field_num m = msg_fields m field_num"

definition get_field_str :: "nat \<Rightarrow> Iso8583Message \<Rightarrow> rstr option" where
  "get_field_str field_num m = Option.bind (get_field field_num m) from_utf8"

definition remove_field :: "nat \<Rightarrow> Iso8583Message \<Rightarrow> bytes option \<times> Iso8583Message" where
  "remove_field field_num m = (msg_fields m field_num, m\<lparr>msg_fields := (msg_fields m)(field_num := None)\<rparr>)"

definition has_field :: "nat \<Rightarrow> Iso8583Message \<Rightarrow> bool" where
  "has_field field_num m = (msg_fields m field_num \<noteq> None)"

definition inject_pqc_field :: "nat \<Rightarrow> bytes \<Rightarrow> Iso8583Message \<Rightarrow> Iso8583Message" where
  "inject_pqc_field field_num data m = set_field field_num data m"

definition strip_pqc_field :: "nat \<Rightarrow> Iso8583Message \<Rightarrow> bytes option \<times> Iso8583Message" where
  "strip_pqc_field field_num m = remove_field field_num m"

text \<open>The keys of the \<open>BTreeMap<u8, _>\<close>, ascending.\<close>

definition field_keys :: "Iso8583Message \<Rightarrow> nat list" where
  "field_keys m = filter (\<lambda>k. msg_fields m k \<noteq> None) [0..<256]"

subsection \<open>Bitmaps\<close>

definition bit_set :: "bytes \<Rightarrow> nat \<Rightarrow> bool" where
  "bit_set bitmap field_num =
    (let byte_idx = (field_num - 1) div 8; bit_idx = 7 - (field_num - 1) mod 8
     in (bitmap ! byte_idx) AND push_bit bit_idx 1 \<noteq> 0)"

definition is_hex_byte :: "u8 \<Rightarrow> bool" where
  "is_hex_byte b \<longleftrightarrow> (b \<ge> 48 \<and> b \<le> 57) \<or> (b \<ge> 65 \<and> b \<le> 70) \<or> (b \<ge> 97 \<and> b \<le> 102)"

fun hex_bitmap_loop :: "bytes \<Rightarrow> nat \<Rightarrow> nat \<Rightarrow> nat list \<Rightarrow> bytes \<Rightarrow> (Iso8583Error, bytes) outcome" where
  "hex_bitmap_loop buf offset base [] bitmap = Inr bitmap"
| "hex_bitmap_loop buf offset base (i # is) bitmap =
    and_then (get_range (offset + 2 * i) (offset + 2 * i + 2) buf) (\<lambda>chunk.
      case from_utf8 chunk of None \<Rightarrow> Err InvalidBitmap
      | Some byte_str \<Rightarrow> (case from_str_radix_16 byte_str of None \<Rightarrow> Err InvalidBitmap
          | Some v \<Rightarrow> hex_bitmap_loop buf offset base is (bitmap[base + i := v])))"

text \<open>The bitmap, the offset after it, and whether the secondary bitmap is present.\<close>

definition parse_hex_bitmap :: "bytes \<Rightarrow> (Iso8583Error, bytes \<times> nat \<times> bool) outcome" where
  "parse_hex_bitmap buf =
    (if length buf < 4 + 16 then Err (BufferTooShort (4 + 16) (length buf))
     else and_then (hex_bitmap_loop buf 4 0 [0..<8] (replicate 16 0)) (\<lambda>bitmap.
       if (bitmap ! 0) AND 0x80 \<noteq> 0 then
         (if length buf < 20 + 16 then Err (BufferTooShort (20 + 16) (length buf))
          else and_then (hex_bitmap_loop buf 20 8 [0..<8] bitmap) (\<lambda>bitmap'. Inr (bitmap', 36, True)))
       else Inr (bitmap, 20, False)))"

text \<open>The binary bitmap at \<open>offset\<close>, the same code in both parsers.\<close>

definition parse_bin_bitmap :: "bytes \<Rightarrow> nat \<Rightarrow> (Iso8583Error, bytes \<times> nat \<times> bool) outcome" where
  "parse_bin_bitmap buf offset =
    (if length buf < offset + 8 then Err (BufferTooShort (offset + 8) (length buf))
     else and_then (and_then (get_range offset (offset + 8) buf) (copy_from_slice 8)) (\<lambda>primary.
       if (primary ! 0) AND 0x80 \<noteq> 0 then
         (if length buf < offset + 8 + 8 then Err (BufferTooShort (offset + 8 + 8) (length buf))
          else and_then (and_then (get_range (offset + 8) (offset + 8 + 8) buf) (copy_from_slice 8))
            (\<lambda>secondary. Inr (primary @ secondary, offset + 16, True)))
       else Inr (primary @ replicate 8 0, offset + 8, False)))"

subsection \<open>Parsing\<close>

text \<open>The tail every variable-length case shares: bound, length check, slice.\<close>

definition read_var :: "bytes \<Rightarrow> nat \<Rightarrow> nat \<Rightarrow> nat \<Rightarrow> nat \<Rightarrow> (Iso8583Error, bytes \<times> nat) outcome" where
  "read_var buf field_num max_len len offset =
    (if len > max_len then Err (FieldLengthExceeded field_num max_len len)
     else if length buf < offset + len then Err (BufferTooShort (offset + len) (length buf))
     else and_then (get_range offset (offset + len) buf) (\<lambda>d. Inr (d, offset + len)))"

definition read_fixed :: "bytes \<Rightarrow> nat \<Rightarrow> nat \<Rightarrow> (Iso8583Error, bytes \<times> nat) outcome" where
  "read_fixed buf len offset =
    (if length buf < offset + len then Err (BufferTooShort (offset + len) (length buf))
     else and_then (get_range offset (offset + len) buf) (\<lambda>d. Inr (d, offset + len)))"

text \<open>An ASCII length header of \<open>w\<close> digits (2 for LLVAR, 3 for LLLVAR, 4 for LLLLVAR).\<close>

definition read_ascii_len :: "nat \<Rightarrow> bytes \<Rightarrow> nat \<Rightarrow> nat \<Rightarrow> (Iso8583Error, nat) outcome" where
  "read_ascii_len w buf field_num offset =
    (if length buf < offset + w then Err (BufferTooShort (offset + w) (length buf))
     else and_then (get_range offset (offset + w) buf) (\<lambda>hdr.
       case from_utf8 hdr of None \<Rightarrow> Err (InvalidVarLengthHeader field_num hdr)
       | Some len_str \<Rightarrow> (case parse_usize len_str of
             None \<Rightarrow> Err (InvalidVarLengthHeader field_num hdr)
           | Some len \<Rightarrow> Inr len)))"

definition parse_field_ascii :: "bytes \<Rightarrow> nat \<Rightarrow> nat \<Rightarrow> (Iso8583Error, bytes \<times> nat) outcome" where
  "parse_field_ascii buf field_num offset =
    (case get_field_type field_num of
       Fixed len \<Rightarrow> read_fixed buf len offset
     | LLVAR max_len \<Rightarrow> and_then (read_ascii_len 2 buf field_num offset)
         (\<lambda>len. read_var buf field_num max_len len (offset + 2))
     | LLLVAR max_len \<Rightarrow> and_then (read_ascii_len 3 buf field_num offset)
         (\<lambda>len. read_var buf field_num max_len len (offset + 3))
     | LLLLVAR max_len \<Rightarrow> and_then (read_ascii_len 4 buf field_num offset)
         (\<lambda>len. read_var buf field_num max_len len (offset + 4)))"

text \<open>The loop over the field numbers, given the reader of one field.\<close>

fun parse_fields :: "(nat \<Rightarrow> nat \<Rightarrow> (Iso8583Error, bytes \<times> nat) outcome) \<Rightarrow> bytes \<Rightarrow> nat list \<Rightarrow> nat
    \<Rightarrow> (nat \<rightharpoonup> bytes) \<Rightarrow> (Iso8583Error, nat \<rightharpoonup> bytes) outcome" where
  "parse_fields read bitmap [] offset fs = Inr fs"
| "parse_fields read bitmap (field_num # ns) offset fs =
    (if \<not> bit_set bitmap field_num then parse_fields read bitmap ns offset fs
     else and_then (read field_num offset)
       (\<lambda>(d, offset'). parse_fields read bitmap ns offset' (fs(field_num \<mapsto> d))))"

definition max_fields :: "bool \<Rightarrow> nat" where
  "max_fields is_secondary_present = (if is_secondary_present then 128 else 64)"

definition field_range :: "bool \<Rightarrow> nat list" where
  "field_range is_secondary_present = [2..<Suc (max_fields is_secondary_present)]"

definition is_hex_ascii_bitmap :: "bytes \<Rightarrow> bool" where
  "is_hex_ascii_bitmap buf \<longleftrightarrow> length buf \<ge> 20 \<and> list_all is_hex_byte (take 16 (drop 4 buf))"

definition parse :: "bytes \<Rightarrow> (Iso8583Error, Iso8583Message) outcome" where
  "parse buf =
    (if length buf < 12 then Err (BufferTooShort 12 (length buf))
     else and_then (and_then (get_range 0 4 buf) (copy_from_slice 4)) (\<lambda>m.
       if list_ex (\<lambda>b. b < 48 \<or> b > 57) m then Err InvalidMtiFormat
       else and_then (if is_hex_ascii_bitmap buf then parse_hex_bitmap buf else parse_bin_bitmap buf 4)
         (\<lambda>(bitmap, offset, sec).
            and_then (parse_fields (parse_field_ascii buf) bitmap (field_range sec) offset Map.empty)
              (\<lambda>fs. Inr \<lparr>mti = m, msg_fields = fs\<rparr>))))"

definition parse_field_bcd :: "bytes \<Rightarrow> nat \<Rightarrow> nat \<Rightarrow> (Iso8583Error, bytes \<times> nat) outcome" where
  "parse_field_bcd buf field_num offset =
    (case get_field_type field_num of
       Fixed len \<Rightarrow> read_fixed buf len offset
     | LLVAR max_len \<Rightarrow>
         (if length buf < offset + 1 then Err (BufferTooShort (offset + 1) (length buf))
          else and_then (map_err (\<lambda>e. Fail (BcdErr e)) (unpack_llvar_len_bcd (buf ! offset)))
            (\<lambda>len. read_var buf field_num max_len len (offset + 1)))
     | LLLVAR max_len \<Rightarrow>
         (if length buf < offset + 2 then Err (BufferTooShort (offset + 2) (length buf))
          else and_then (map_err (\<lambda>e. Fail (BcdErr e))
              (unpack_lllvar_len_bcd (buf ! offset) (buf ! (offset + 1))))
            (\<lambda>len. read_var buf field_num max_len len (offset + 2)))
     | LLLLVAR max_len \<Rightarrow>
         (if length buf < offset + 2 then Err (BufferTooShort (offset + 2) (length buf))
          else and_then (map_err (\<lambda>e. Fail (BcdErr e))
              (unpack_llllvar_len_bcd (buf ! offset) (buf ! (offset + 1))))
            (\<lambda>len. read_var buf field_num max_len len (offset + 2))))"

definition parse_as2805_bcd :: "bytes \<Rightarrow> (Iso8583Error, Iso8583Message) outcome" where
  "parse_as2805_bcd buf =
    (if length buf < 10 then Err (BufferTooShort 10 (length buf))
     else and_then (get_range 0 2 buf) (\<lambda>head.
       and_then (map_err (\<lambda>e. Fail (BcdErr e)) (unpack_bcd head 4 False)) (\<lambda>mti_str.
         and_then (copy_from_slice 4 (as_bytes mti_str)) (\<lambda>m.
           and_then (parse_bin_bitmap buf 2) (\<lambda>(bitmap, offset, sec).
             and_then (parse_fields (parse_field_bcd buf) bitmap (field_range sec) offset Map.empty)
               (\<lambda>fs. Inr \<lparr>mti = m, msg_fields = fs\<rparr>))))))"

fun parse_with_encoding :: "bytes \<Rightarrow> EncodingFormat \<Rightarrow> (Iso8583Error, Iso8583Message) outcome" where
  "parse_with_encoding buf AsciiHexBitmap = parse buf"
| "parse_with_encoding buf AsciiBinaryBitmap = parse buf"
| "parse_with_encoding buf BinaryBcd = parse_as2805_bcd buf"

subsection \<open>Serialization\<close>

definition has_secondary :: "Iso8583Message \<Rightarrow> bool" where
  "has_secondary m = list_ex (\<lambda>k. k > 64) (field_keys m)"

definition mark_field :: "nat \<Rightarrow> bytes \<Rightarrow> bytes" where
  "mark_field field_num bitmap =
    (if field_num \<ge> 2 \<and> field_num \<le> 128 then
       let byte_idx = (field_num - 1) div 8; bit_idx = 7 - (field_num - 1) mod 8
       in bitmap[byte_idx := (bitmap ! byte_idx) OR push_bit bit_idx 1]
     else bitmap)"

definition compute_bitmap :: "Iso8583Message \<Rightarrow> bytes" where
  "compute_bitmap m =
    (let bitmap = replicate 16 (0 :: u8);
         bitmap = (if has_secondary m then bitmap[0 := (bitmap ! 0) OR 0x80] else bitmap)
     in fold mark_field (field_keys m) bitmap)"

definition bitmap_len :: "Iso8583Message \<Rightarrow> nat" where
  "bitmap_len m = (if has_secondary m then 16 else 8)"

definition write_fixed :: "nat \<Rightarrow> bytes \<Rightarrow> bytes" where
  "write_fixed len data =
    (if length data = len then data
     else if length data < len then data @ replicate (len - length data) 0x20
     else take len data)"

definition write_ascii_var :: "nat \<Rightarrow> nat \<Rightarrow> nat \<Rightarrow> bytes \<Rightarrow> bytes" where
  "write_ascii_var w cap max_len data =
    (let write_len = min (min (length data) max_len) cap
     in as_bytes (fmt_pad w write_len) @ take write_len data)"

definition write_field_ascii :: "nat \<Rightarrow> bytes \<Rightarrow> bytes" where
  "write_field_ascii field_num data =
    (case get_field_type field_num of
       Fixed len \<Rightarrow> write_fixed len data
     | LLVAR max_len \<Rightarrow> write_ascii_var 2 99 max_len data
     | LLLVAR max_len \<Rightarrow> write_ascii_var 3 999 max_len data
     | LLLLVAR max_len \<Rightarrow> write_ascii_var 4 9999 max_len data)"

fun write_fields_ascii :: "(nat \<rightharpoonup> bytes) \<Rightarrow> nat list \<Rightarrow> bytes \<Rightarrow> bytes" where
  "write_fields_ascii fs [] out = out"
| "write_fields_ascii fs (k # ks) out =
    (if k = 1 then write_fields_ascii fs ks out
     else write_fields_ascii fs ks (out @ write_field_ascii k (the (fs k))))"

definition serialize_internal :: "Iso8583Message \<Rightarrow> bool \<Rightarrow> bytes" where
  "serialize_internal m hex_bitmap =
    (let bitmap = compute_bitmap m;
         out = mti m @ (if hex_bitmap
           then concat (map (\<lambda>i. as_bytes (fmt_hex2 65 (bitmap ! i))) [0..<bitmap_len m])
           else take (bitmap_len m) bitmap)
     in write_fields_ascii (msg_fields m) (field_keys m) out)"

definition serialize_binary_bitmap :: "Iso8583Message \<Rightarrow> bytes" where
  "serialize_binary_bitmap m = serialize_internal m False"

definition serialize_hex_bitmap :: "Iso8583Message \<Rightarrow> bytes" where
  "serialize_hex_bitmap m = serialize_internal m True"

definition serialize :: "Iso8583Message \<Rightarrow> bytes" where
  "serialize m = serialize_hex_bitmap m"

definition write_field_bcd :: "nat \<Rightarrow> bytes \<Rightarrow> BcdError + bytes" where
  "write_field_bcd field_num data =
    (case get_field_type field_num of
       Fixed len \<Rightarrow> Inr (write_fixed len data)
     | LLVAR max_len \<Rightarrow> (let write_len = min (length data) max_len in
         and_then (pack_llvar_len_bcd write_len) (\<lambda>b. Inr (b # take write_len data)))
     | LLLVAR max_len \<Rightarrow> (let write_len = min (length data) max_len in
         and_then (pack_lllvar_len_bcd write_len) (\<lambda>bs. Inr (bs @ take write_len data)))
     | LLLLVAR max_len \<Rightarrow> (let write_len = min (length data) max_len in
         and_then (pack_llllvar_len_bcd write_len) (\<lambda>bs. Inr (bs @ take write_len data))))"

fun write_fields_bcd :: "(nat \<rightharpoonup> bytes) \<Rightarrow> nat list \<Rightarrow> bytes \<Rightarrow> BcdError + bytes" where
  "write_fields_bcd fs [] out = Inr out"
| "write_fields_bcd fs (k # ks) out =
    (if k = 1 then write_fields_bcd fs ks out
     else and_then (write_field_bcd k (the (fs k))) (\<lambda>bs. write_fields_bcd fs ks (out @ bs)))"

definition serialize_as2805_bcd :: "Iso8583Message \<Rightarrow> (Iso8583Error, bytes) outcome" where
  "serialize_as2805_bcd m =
    (case from_utf8 (mti m) of None \<Rightarrow> Err InvalidMtiFormat
     | Some mti_str \<Rightarrow>
         and_then (map_err (map_fault_fn BcdErr) (pack_bcd_left_padded mti_str)) (\<lambda>mti_bcd.
           map_err (\<lambda>e. Fail (BcdErr e)) (write_fields_bcd (msg_fields m) (field_keys m)
             (mti_bcd @ take (bitmap_len m) (compute_bitmap m)))))"

fun serialize_with_encoding :: "Iso8583Message \<Rightarrow> EncodingFormat \<Rightarrow> (Iso8583Error, bytes) outcome" where
  "serialize_with_encoding m AsciiHexBitmap = Inr (serialize_hex_bitmap m)"
| "serialize_with_encoding m AsciiBinaryBitmap = Inr (serialize_binary_bitmap m)"
| "serialize_with_encoding m BinaryBcd = serialize_as2805_bcd m"

definition serialize_tcp_framed_with_encoding ::
    "Iso8583Message \<Rightarrow> EncodingFormat \<Rightarrow> (Iso8583Error, bytes) outcome" where
  "serialize_tcp_framed_with_encoding m encoding =
    and_then (serialize_with_encoding m encoding) (\<lambda>payload.
      if length payload > 65535 then Err SerializationError
      else let frame_len = (word_of_nat (length payload) :: u16)
        in Inr (ucast (drop_bit 8 frame_len) # ucast (frame_len AND 0xFF) # payload))"

definition serialize_tcp_framed :: "Iso8583Message \<Rightarrow> (Iso8583Error, bytes) outcome" where
  "serialize_tcp_framed m = serialize_tcp_framed_with_encoding m AsciiHexBitmap"

subsection \<open>What a round trip keeps\<close>

text \<open>
  A message is well formed when its MTI is four ASCII digits and its keys are in 1..128, as
  \<open>set_field\<close> keeps them.  The wire holds the schema's normal form of each field: fixed
  fields padded with spaces or cut, variable ones cut at their maximum, field 1 absent.
\<close>

definition wf_message :: "Iso8583Message \<Rightarrow> bool" where
  "wf_message m \<longleftrightarrow> length (mti m) = 4 \<and> list_all (\<lambda>b. is_ascii_digit (unat b)) (mti m)
     \<and> dom (msg_fields m) \<subseteq> {1..128}"

definition field_norm :: "nat \<Rightarrow> bytes \<Rightarrow> bytes" where
  "field_norm f d = (case get_field_type f of
       Fixed len \<Rightarrow> take len (d @ replicate (len - length d) 0x20)
     | LLVAR n \<Rightarrow> take n d | LLLVAR n \<Rightarrow> take n d | LLLLVAR n \<Rightarrow> take n d)"

definition norm_message :: "Iso8583Message \<Rightarrow> Iso8583Message" where
  "norm_message m = m\<lparr>msg_fields := (\<lambda>f. if 2 \<le> f \<and> f \<le> 128 then map_option (field_norm f) (msg_fields m f) else None)\<rparr>"

section \<open>The schema\<close>

lemma field_table_bounds:
  "list_all (\<lambda>(f, t). case t of Fixed n \<Rightarrow> True | LLVAR n \<Rightarrow> n \<le> 99 | LLLVAR n \<Rightarrow> n \<le> 999
     | LLLLVAR n \<Rightarrow> n \<le> 9999) field_table"
  by (simp add: field_table_def)

lemma get_field_type_bounds:
  "get_field_type f = LLVAR n \<Longrightarrow> n \<le> 99"
  "get_field_type f = LLLVAR n \<Longrightarrow> n \<le> 999"
  "get_field_type f = LLLLVAR n \<Longrightarrow> n \<le> 9999"
  using field_table_bounds
  by (auto simp: get_field_type_def list_all_iff split: option.splits dest!: map_of_SomeD)

lemma field_norm_idem [simp]: "field_norm f (field_norm f d) = field_norm f d"
  by (auto simp: field_norm_def min_def split: FieldType.split)

section \<open>The contract of a field codec\<close>

text \<open>
  \<open>enc\<close> writes one field, \<open>dec buf\<close> reads one at an offset.  Whatever stands before and
  after, reading what was written gives the normal form and the offset after it; reading never
  panics, stays in the buffer and returns a normal form.
\<close>

locale field_codec =
  fixes enc :: "nat \<Rightarrow> bytes \<Rightarrow> bytes"
    and dec :: "bytes \<Rightarrow> nat \<Rightarrow> nat \<Rightarrow> (Iso8583Error, bytes \<times> nat) outcome"
  assumes dec_enc: "dec (pre @ enc f d @ post) f (length pre)
      = Inr (field_norm f d, length pre + length (enc f d))"
    and dec_no_panic: "dec buf f offset \<noteq> Panicked"
    and dec_normal: "dec buf f offset = Inr (d, offset') \<Longrightarrow> field_norm f d = d"
begin

text \<open>What the serializer writes for the field numbers \<open>ns\<close>, in order.\<close>

abbreviation body :: "(nat \<rightharpoonup> bytes) \<Rightarrow> nat list \<Rightarrow> bytes" where
  "body fs ns \<equiv> concat (map (\<lambda>n. case fs n of None \<Rightarrow> [] | Some d \<Rightarrow> enc n d) ns)"

lemma parse_fields_body:
  assumes "\<forall>n\<in>set ns. bit_set bitmap n \<longleftrightarrow> fs n \<noteq> None" and "distinct ns"
  shows "parse_fields (dec (pre @ body fs ns)) bitmap ns (length pre) acc
    = Inr (\<lambda>n. if n \<in> set ns \<and> fs n \<noteq> None then map_option (field_norm n) (fs n) else acc n)"
  using assms
proof (induction ns arbitrary: pre acc)
  case Nil
  then show ?case by simp
next
  case (Cons n ns)
  show ?case
  proof (cases "fs n")
    case None
    with Cons.prems have "\<not> bit_set bitmap n" by simp
    with Cons None show ?thesis by (auto simp: fun_eq_iff)
  next
    case (Some d)
    with Cons.prems have bit: "bit_set bitmap n" by simp
    have IH: "parse_fields (dec ((pre @ enc n d) @ body fs ns)) bitmap ns (length (pre @ enc n d))
        (acc(n \<mapsto> field_norm n d))
      = Inr (\<lambda>k. if k \<in> set ns \<and> fs k \<noteq> None then map_option (field_norm k) (fs k)
             else (acc(n \<mapsto> field_norm n d)) k)"
      using Cons.prems by (intro Cons.IH) auto
    from Some bit dec_enc [of pre n d "body fs ns"] IH Cons.prems show ?thesis
      by (auto simp: fun_eq_iff)
  qed
qed

lemma parse_fields_no_panic: "parse_fields (dec buf) bitmap ns offset acc \<noteq> Panicked"
  by (induction ns arbitrary: offset acc) (auto simp: and_then_eq_Inl dec_no_panic split: prod.splits)

lemma parse_fields_normal:
  "parse_fields (dec buf) bitmap ns offset acc = Inr fs \<Longrightarrow>
   (\<And>n d. acc n = Some d \<Longrightarrow> field_norm n d = d) \<Longrightarrow> fs n = Some d \<Longrightarrow>
   field_norm n d = d \<and> (acc n = Some d \<or> n \<in> set ns)"
proof (induction ns arbitrary: offset acc)
  case Nil
  then show ?case by simp
next
  case (Cons k ns)
  show ?case
  proof (cases "bit_set bitmap k")
    case False
    with Cons.prems(1) have "parse_fields (dec buf) bitmap ns offset acc = Inr fs" by simp
    from Cons.IH [OF this Cons.prems(2,3)] show ?thesis by auto
  next
    case True
    with Cons.prems(1) obtain e offset' where
      e: "dec buf k offset = Inr (e, offset')" and
      rest: "parse_fields (dec buf) bitmap ns offset' (acc(k \<mapsto> e)) = Inr fs"
      by (auto simp: and_then_eq_Inr)
    have *: "(acc(k \<mapsto> e)) n = Some d \<Longrightarrow> field_norm n d = d" for n d
      using Cons.prems(2) dec_normal [OF e] by (auto split: if_splits)
    from Cons.IH [OF rest * Cons.prems(3)] show ?thesis by (auto split: if_splits)
  qed
qed

end

section \<open>The ASCII codec\<close>

lemma read_fixed_ok:
  "length d = n \<Longrightarrow> length pre = k \<Longrightarrow> read_fixed (pre @ d @ post) n k = Inr (d, k + n)"
  by (auto simp: read_fixed_def get_range_def)

lemma read_var_ok:
  "length d \<le> m \<Longrightarrow> length pre = k \<Longrightarrow>
   read_var (pre @ d @ post) f m (length d) k = Inr (d, k + length d)"
  by (auto simp: read_var_def get_range_def)

lemma read_fixed_no_panic: "read_fixed buf n k \<noteq> Panicked"
  by (auto simp: read_fixed_def get_range_def)

lemma read_var_no_panic: "read_var buf f m n k \<noteq> Panicked"
  by (auto simp: read_var_def get_range_def)

lemma read_fixed_length: "read_fixed buf n k = Inr (d, k') \<Longrightarrow> length d = n"
  by (auto simp: read_fixed_def get_range_def split: if_splits)

lemma read_var_length: "read_var buf f m n k = Inr (d, k') \<Longrightarrow> length d \<le> m"
  by (auto simp: read_var_def get_range_def split: if_splits)

lemma read_ascii_len_no_panic: "read_ascii_len w buf f k \<noteq> Panicked"
  by (auto simp: read_ascii_len_def get_range_def split: option.split)

lemmas reader_no_panic = read_fixed_no_panic read_var_no_panic read_ascii_len_no_panic

lemma length_as_bytes_fmt_pad: "n < 10 ^ w \<Longrightarrow> 0 < w \<Longrightarrow> length (as_bytes (fmt_pad w n)) = w"
  by (simp add: as_bytes_length_ascii list_all_digit_ascii fmt_pad_digit fmt_pad_length)

lemma read_ascii_len_ok:
  assumes "n < 10 ^ w" and "0 < w" and "w \<le> 4" and "length pre = k"
  shows "read_ascii_len w (pre @ as_bytes (fmt_pad w n) @ post) f k = Inr n"
proof -
  have "(10 :: nat) ^ w \<le> 10 ^ 4" using assms(3) by (intro power_increasing) auto
  with assms(1) have "n < 2 ^ 64" by simp
  then show ?thesis
    using assms length_as_bytes_fmt_pad [OF assms(1,2)]
    by (simp add: read_ascii_len_def get_range_def from_utf8_as_bytes_ascii list_all_digit_ascii
        fmt_pad_digit parse_usize_fmt_pad)
qed

lemma write_fixed_norm: "write_fixed n d = take n (d @ replicate (n - length d) 0x20)"
  by (auto simp: write_fixed_def)

lemma read_write_fixed:
  "read_fixed (pre @ write_fixed n d @ post) n (length pre)
     = Inr (take n (d @ replicate (n - length d) 0x20), length pre + length (write_fixed n d))"
proof -
  have "length (write_fixed n d) = n" by (auto simp: write_fixed_def)
  with read_fixed_ok [of "write_fixed n d" n pre "length pre" post] show ?thesis
    unfolding write_fixed_norm by simp
qed

text \<open>One variable-length ASCII field: header, then data.\<close>

lemma ascii_var_ok:
  assumes "0 < w" and "w \<le> 4" and "m \<le> cap" and "cap < 10 ^ w"
  shows "and_then (read_ascii_len w (pre @ write_ascii_var w cap m d @ post) f (length pre))
      (\<lambda>n. read_var (pre @ write_ascii_var w cap m d @ post) f m n (length pre + w))
    = Inr (take m d, length pre + length (write_ascii_var w cap m d))"
proof -
  let ?n = "min (length d) m"
  let ?h = "as_bytes (fmt_pad w ?n)"
  have n: "min ?n cap = ?n" "?n < 10 ^ w" "length (take m d) = ?n" using assms by auto
  have w: "write_ascii_var w cap m d = ?h @ take m d"
    using n(1) by (simp add: write_ascii_var_def Let_def min_def)
  have h: "length ?h = w" using length_as_bytes_fmt_pad [OF n(2) assms(1)] .
  have 1: "read_ascii_len w (pre @ ?h @ (take m d @ post)) f (length pre) = Inr ?n"
    using n(2) assms by (intro read_ascii_len_ok) auto
  have 2: "read_var ((pre @ ?h) @ take m d @ post) f m (length (take m d)) (length pre + w)
      = Inr (take m d, length pre + w + length (take m d))"
    using h by (intro read_var_ok) auto
  from 1 2 show ?thesis unfolding w n(3) by (simp add: h n(3))
qed

interpretation ascii: field_codec write_field_ascii parse_field_ascii
proof
  fix pre post d :: bytes and f :: nat
  show "parse_field_ascii (pre @ write_field_ascii f d @ post) f (length pre)
      = Inr (field_norm f d, length pre + length (write_field_ascii f d))"
    using get_field_type_bounds [of f]
    by (auto simp: parse_field_ascii_def write_field_ascii_def field_norm_def ascii_var_ok
        read_write_fixed simp del: add_2_eq_Suc' split: FieldType.split)
next
  fix buf :: bytes and f offset :: nat
  show "parse_field_ascii buf f offset \<noteq> Panicked"
    by (auto simp: parse_field_ascii_def reader_no_panic and_then_eq_Inl split: FieldType.split)
next
  fix buf d :: bytes and f offset offset' :: nat
  assume "parse_field_ascii buf f offset = Inr (d, offset')"
  then show "field_norm f d = d"
    by (auto simp: parse_field_ascii_def field_norm_def and_then_eq_Inr
        dest!: read_fixed_length read_var_length split: FieldType.splits)
qed

section \<open>The BCD codec\<close>

text \<open>\<open>write_field_bcd\<close> never fails, because the schema's maxima fit the prefixes.\<close>

definition bcd_field_bytes :: "nat \<Rightarrow> bytes \<Rightarrow> bytes" where
  "bcd_field_bytes f d = (case write_field_bcd f d of Inr bs \<Rightarrow> bs | Inl _ \<Rightarrow> [])"

lemma write_field_bcd_ok: "write_field_bcd f d = Inr (bcd_field_bytes f d)"
  using get_field_type_bounds [of f] llvar_roundtrip lllvar_roundtrip llllvar_roundtrip
  by (fastforce simp: bcd_field_bytes_def write_field_bcd_def Let_def min_def
      pack_llvar_len_bcd_def pack_lllvar_len_bcd_def pack_llllvar_len_bcd_def split: FieldType.split)

interpretation bcd: field_codec bcd_field_bytes parse_field_bcd
proof
  fix pre post d :: bytes and f :: nat
  show "parse_field_bcd (pre @ bcd_field_bytes f d @ post) f (length pre)
      = Inr (field_norm f d, length pre + length (bcd_field_bytes f d))"
  proof (cases "get_field_type f")
    case (Fixed n)
    then show ?thesis
      by (simp add: parse_field_bcd_def bcd_field_bytes_def write_field_bcd_def field_norm_def
          read_write_fixed)
  next
    case (LLVAR m)
    then have "min (length d) m \<le> 99" using get_field_type_bounds(1) by fastforce
    then obtain b where b: "pack_llvar_len_bcd (min (length d) m) = Inr b"
      "unpack_llvar_len_bcd b = Inr (min (length d) m)" using llvar_roundtrip by blast
    have "read_var ((pre @ [b]) @ take m d @ post) f m (length (take m d)) (length pre + 1)
        = Inr (take m d, length pre + 1 + length (take m d))"
      by (rule read_var_ok) auto
    with LLVAR b show ?thesis
      by (simp add: parse_field_bcd_def bcd_field_bytes_def write_field_bcd_def field_norm_def Let_def
          nth_append min_def split: if_splits)
  next
    case (LLLVAR m)
    then have "min (length d) m \<le> 999" using get_field_type_bounds(2) by fastforce
    then obtain b0 b1 where b: "pack_lllvar_len_bcd (min (length d) m) = Inr [b0, b1]"
      "unpack_lllvar_len_bcd b0 b1 = Inr (min (length d) m)" using lllvar_roundtrip by blast
    have "read_var ((pre @ [b0, b1]) @ take m d @ post) f m (length (take m d)) (length pre + 2)
        = Inr (take m d, length pre + 2 + length (take m d))"
      by (rule read_var_ok) auto
    with LLLVAR b show ?thesis
      by (simp add: parse_field_bcd_def bcd_field_bytes_def write_field_bcd_def field_norm_def Let_def
          nth_append min_def split: if_splits)
  next
    case (LLLLVAR m)
    then have "min (length d) m \<le> 9999" using get_field_type_bounds(3) by fastforce
    then obtain b0 b1 where b: "pack_llllvar_len_bcd (min (length d) m) = Inr [b0, b1]"
      "unpack_llllvar_len_bcd b0 b1 = Inr (min (length d) m)" using llllvar_roundtrip by blast
    have "read_var ((pre @ [b0, b1]) @ take m d @ post) f m (length (take m d)) (length pre + 2)
        = Inr (take m d, length pre + 2 + length (take m d))"
      by (rule read_var_ok) auto
    with LLLLVAR b show ?thesis
      by (simp add: parse_field_bcd_def bcd_field_bytes_def write_field_bcd_def field_norm_def Let_def
          nth_append min_def split: if_splits)
  qed
next
  have *: "map_err (\<lambda>e. Fail (BcdErr e)) (x :: BcdError + nat) \<noteq> Panicked" for x by (cases x) auto
  fix buf :: bytes and f offset :: nat
  show "parse_field_bcd buf f offset \<noteq> Panicked"
    by (auto simp: parse_field_bcd_def * reader_no_panic and_then_eq_Inl split: FieldType.split)
next
  fix buf d :: bytes and f offset offset' :: nat
  assume "parse_field_bcd buf f offset = Inr (d, offset')"
  then show "field_norm f d = d"
    by (auto simp: parse_field_bcd_def field_norm_def and_then_eq_Inr
        dest!: read_fixed_length read_var_length split: FieldType.splits if_splits)
qed

section \<open>Bitmaps\<close>

lemma bit_set_bit: "bit_set bm f \<longleftrightarrow> bit (bm ! ((f - 1) div 8)) (7 - (f - 1) mod 8)"
  by (simp add: bit_set_def Let_def bit_iff_and_push_bit_not_eq_0)

lemma bit_push_bit_one: "b < 8 \<Longrightarrow> bit (push_bit c (1 :: u8)) b \<longleftrightarrow> b = c"
  unfolding bit_push_bit_iff bit_1_iff by auto

lemma secondary_flag: "(bm ! 0) AND 0x80 \<noteq> 0 \<longleftrightarrow> bit_set bm 1" for bm :: bytes
proof -
  have "push_bit 7 (1 :: u8) = 0x80" by (simp add: push_bit_eq_mult)
  then show ?thesis by (simp add: bit_set_def)
qed

lemma length_mark_field [simp]: "length (mark_field g bm) = length bm"
  by (simp add: mark_field_def Let_def)

lemma bit_set_mark_field:
  assumes "length bm = 16" and "1 \<le> f" and "f \<le> 128"
  shows "bit_set (mark_field g bm) f \<longleftrightarrow> (f = g \<and> 2 \<le> g) \<or> bit_set bm f"
proof (cases "2 \<le> g \<and> g \<le> 128")
  case True
  let ?i = "(f - 1) div 8" and ?j = "(g - 1) div 8"
  let ?b = "7 - (f - 1) mod 8" and ?c = "7 - (g - 1) mod 8"
  have lt: "?i < 16" "?j < 16" "?b < 8" using assms True by auto
  have mods: "(f - 1) mod 8 < 8" "(g - 1) mod 8 < 8" by simp_all
  have eq: "f = g \<longleftrightarrow> ?i = ?j \<and> ?b = ?c"
  proof
    assume eqs: "?i = ?j \<and> ?b = ?c"
    have "a = b" if "7 - a = 7 - b" "a < 8" "b < 8" for a b :: nat using that by simp
    from this [OF _ mods] eqs have "(f - 1) mod 8 = (g - 1) mod 8" and "?i = ?j" by blast+
    then have "f - 1 = g - 1" by (metis div_mult_mod_eq)
    then show "f = g" using assms True by linarith
  qed simp
  have "bit_set (mark_field g bm) f \<longleftrightarrow> bit (if ?i = ?j then bm ! ?j OR push_bit ?c 1 else bm ! ?i) ?b"
    using lt assms True by (simp add: bit_set_bit mark_field_def Let_def nth_list_update)
  also have "\<dots> \<longleftrightarrow> (?i = ?j \<and> ?b = ?c) \<or> bit (bm ! ?i) ?b"
    using lt(3) by (auto simp: bit_or_iff bit_push_bit_one simp del: push_bit_of_1)
  finally show ?thesis using True by (simp add: eq bit_set_bit)
next
  case False
  with assms show ?thesis by (auto simp: mark_field_def)
qed

lemma bit_set_fold_mark:
  assumes "1 \<le> f" and "f \<le> 128"
  shows "length bm = 16 \<Longrightarrow>
    bit_set (fold mark_field ks bm) f \<longleftrightarrow> (f \<in> set ks \<and> 2 \<le> f) \<or> bit_set bm f"
  using assms by (induction ks arbitrary: bm) (auto simp: bit_set_mark_field)

lemma length_fold_mark [simp]: "length (fold mark_field ks bm) = length bm"
  by (induction ks arbitrary: bm) auto

lemma length_compute_bitmap [simp]: "length (compute_bitmap m) = 16"
  by (simp add: compute_bitmap_def Let_def)

lemma bit_set_compute_bitmap:
  assumes "1 \<le> f" and "f \<le> 128"
  shows "bit_set (compute_bitmap m) f
    \<longleftrightarrow> (if f = 1 then has_secondary m else msg_fields m f \<noteq> None)"
proof -
  let ?z = "replicate 16 (0 :: u8)"
  have zero: "\<not> bit_set ?z f" using assms by (simp add: bit_set_bit)
  have sec: "bit_set (?z[0 := 0x80]) f \<longleftrightarrow> f = 1"
  proof -
    let ?i = "(f - 1) div 8" and ?b = "7 - (f - 1) mod 8"
    have i: "?i < 16" "?b < 8" using assms by auto
    have e: "(0x80 :: u8) = push_bit 7 1" by (simp add: push_bit_eq_mult)
    have "bit_set (?z[0 := 0x80]) f \<longleftrightarrow> ?i = 0 \<and> bit (0x80 :: u8) ?b"
      using i(1) by (simp add: bit_set_bit nth_list_update)
    also have "\<dots> \<longleftrightarrow> ?i = 0 \<and> ?b = 7" unfolding e bit_push_bit_one [OF i(2)] by simp
    also have "\<dots> \<longleftrightarrow> f = 1" using assms by auto
    finally show ?thesis .
  qed
  show ?thesis
    using assms zero sec by (auto simp: compute_bitmap_def Let_def bit_set_fold_mark field_keys_def)
qed

lemma bit_set_append:
  assumes "length a = 8" and "1 \<le> f" and "f \<le> 64"
  shows "bit_set (a @ b) f \<longleftrightarrow> bit_set a f"
proof -
  have "(f - 1) div 8 < 8" using assms by auto
  then show ?thesis using assms(1) by (simp add: bit_set_bit nth_append)
qed

text \<open>The bitmap the parsers rebuild: the secondary half is zero when it was not sent.\<close>

definition wire_bitmap :: "Iso8583Message \<Rightarrow> bytes" where
  "wire_bitmap m = (if has_secondary m then compute_bitmap m else take 8 (compute_bitmap m) @ replicate 8 0)"

lemma bit_set_wire_bitmap:
  assumes "2 \<le> f" and "f \<le> max_fields (has_secondary m)"
  shows "bit_set (wire_bitmap m) f \<longleftrightarrow> msg_fields m f \<noteq> None"
proof (cases "has_secondary m")
  case True
  with assms show ?thesis by (simp add: wire_bitmap_def max_fields_def bit_set_compute_bitmap)
next
  case False
  with assms have f: "1 \<le> f" "f \<le> 64" by (auto simp: max_fields_def)
  have "bit_set (wire_bitmap m) f \<longleftrightarrow> bit_set (take 8 (compute_bitmap m) @ drop 8 (compute_bitmap m)) f"
    using False f by (simp add: wire_bitmap_def bit_set_append del: append_take_drop_id)
  with f assms show ?thesis by (simp add: bit_set_compute_bitmap)
qed

lemma primary_flag:
  "bit_set (take 8 (compute_bitmap m) @ b) 1 \<longleftrightarrow> has_secondary m"
  by (subst bit_set_append)
    (simp_all add: bit_set_compute_bitmap bit_set_append
      [of "take 8 (compute_bitmap m)" 1 "drop 8 (compute_bitmap m)", simplified, symmetric])

lemma parse_bin_bitmap_ok:
  assumes "length pre = k"
  shows "parse_bin_bitmap (pre @ take (bitmap_len m) (compute_bitmap m) @ post) k
    = Inr (wire_bitmap m, k + bitmap_len m, has_secondary m)"
proof (cases "has_secondary m")
  case True
  let ?c = "compute_bitmap m"
  have "(take 8 ?c ! 0) AND 0x80 \<noteq> 0" using True primary_flag [of m "[]"] secondary_flag [of "take 8 ?c"] by simp
  then show ?thesis
    using assms True
    by (simp add: parse_bin_bitmap_def bitmap_len_def get_range_def copy_from_slice_def wire_bitmap_def
        flip: take_add)
next
  case False
  let ?c = "compute_bitmap m"
  have "(take 8 ?c ! 0) AND 0x80 = 0" using False primary_flag [of m "[]"] secondary_flag [of "take 8 ?c"] by simp
  then show ?thesis
    using assms False
    by (simp add: parse_bin_bitmap_def bitmap_len_def get_range_def copy_from_slice_def wire_bitmap_def)
qed

section \<open>The hexadecimal bitmap\<close>

lemma fmt_hex2_ascii: "list_all (\<lambda>c. c < 128) (fmt_hex2 65 b)"
proof -
  have "unat b div 16 < 16" "unat b mod 16 < 16" using unat_u8_less [of b] by linarith+
  then show ?thesis by (simp add: fmt_hex2_def hex_digit_ascii)
qed

lemma length_hex2 [simp]: "length (as_bytes (fmt_hex2 65 b)) = 2"
  using fmt_hex2_ascii by (simp add: as_bytes_length_ascii) (simp add: fmt_hex2_def)

lemma hex2_is_hex: "list_all is_hex_byte (as_bytes (fmt_hex2 65 b))"
proof -
  have "unat b div 16 < 16" "unat b mod 16 < 16" using unat_u8_less [of b] by linarith+
  moreover have "is_hex_byte (word_of_nat (hex_digit 65 d))" if "d < 16" for d
    using that by (auto simp: is_hex_byte_def hex_digit_def word_le_nat_alt)
  ultimately show ?thesis using fmt_hex2_ascii [of b] by (simp add: as_bytes_ascii) (simp add: fmt_hex2_def)
qed

lemma concat_pairs_split:
  assumes "\<And>i. length (g i) = 2" and "i < n"
  shows "take 2 (drop (2 * i) (concat (map g [0..<n]) @ rest)) = g i"
proof -
  have "[0..<n] = [0..<i] @ i # [Suc i..<n]"
    using assms(2) upt_add_eq_append [of 0 i "n - i"] by (simp add: upt_conv_Cons)
  moreover have "length (concat (map g [0..<i])) = 2 * i"
    using assms(1) by (simp add: length_concat comp_def sum_list_triv)
  ultimately show ?thesis using assms(1) [of i] by simp
qed


lemma hex_bitmap_loop_ok:
  assumes "\<And>i. i \<in> set is \<Longrightarrow>
      get_range (offset + 2 * i) (offset + 2 * i + 2) buf = (Inr (as_bytes (fmt_hex2 65 (v i))) :: (Iso8583Error, bytes) outcome)"
  shows "hex_bitmap_loop buf offset base is bm = Inr (fold (\<lambda>i b. b[base + i := v i]) is bm)"
  using assms
  by (induction "is" arbitrary: bm)
    (simp_all add: from_utf8_as_bytes_ascii fmt_hex2_ascii from_str_radix_hex2)

lemma hex_chunk:
  assumes "length pre = k" and "i < n"
  shows "get_range (k + 2 * i) (k + 2 * i + 2) (pre @ concat (map (\<lambda>i. as_bytes (fmt_hex2 65 (v i))) [0..<n]) @ post)
    = Inr (as_bytes (fmt_hex2 65 (v i)))"
proof -
  let ?g = "\<lambda>i. as_bytes (fmt_hex2 65 (v i))"
  have "length (concat (map ?g [0..<n])) = 2 * n" by (simp add: length_concat comp_def sum_list_triv)
  moreover have "take 2 (drop (2 * i) (concat (map ?g [0..<n]) @ post)) = ?g i"
    by (rule concat_pairs_split) (use assms in auto)
  ultimately show ?thesis using assms by (simp add: get_range_def)
qed

lemma take_map_nth: "k \<le> length xs \<Longrightarrow> map ((!) xs) [0..<k] = take k xs"
  by (simp add: list_eq_iff_nth_eq)

lemma drop_map_nth: "k \<le> length xs \<Longrightarrow> map (\<lambda>i. xs ! (k + i)) [0..<length xs - k] = drop k xs"
  by (simp add: list_eq_iff_nth_eq)

lemma fold_update:
  "base + n \<le> length bm \<Longrightarrow>
   fold (\<lambda>i b. b[base + i := v i]) [0..<n] bm = take base bm @ map v [0..<n] @ drop (base + n) bm"
proof (induction n)
  case 0
  then show ?case by simp
next
  case (Suc n)
  then have "base + n < length bm" by simp
  with Suc show ?case
    by (simp add: list_update_append Cons_nth_drop_Suc [symmetric])
qed

lemma parse_hex_bitmap_ok:
  assumes "length pre = 4" and c: "c = compute_bitmap m"
  shows "parse_hex_bitmap (pre @ concat (map (\<lambda>i. as_bytes (fmt_hex2 65 (c ! i))) [0..<bitmap_len m]) @ post)
    = Inr (wire_bitmap m, 4 + 2 * bitmap_len m, has_secondary m)"
    (is "parse_hex_bitmap ?buf = _")
proof -
  define n where "n = bitmap_len m"
  define h where "h = concat (map (\<lambda>i. as_bytes (fmt_hex2 65 (c ! i))) [0..<n])"
  have n: "n = 8 \<or> n = 16" and hn: "length h = 2 * n"
    by (auto simp: n_def h_def bitmap_len_def length_concat comp_def sum_list_triv)
  have len: "length ?buf \<ge> 4 + 2 * n" using hn assms(1) by (simp add: n_def h_def)
  have chunk: "get_range (4 + 2 * i) (4 + 2 * i + 2) ?buf = Inr (as_bytes (fmt_hex2 65 (c ! i)))" if "i < n" for i
    using hex_chunk [OF assms(1) that, of "\<lambda>i. c ! i" post] by (simp add: n_def)
  have c16: "length c = 16" using c by simp
  let ?p = "take 8 c @ replicate 8 0"
  have p: "fold (\<lambda>i b. b[0 + i := c ! i]) [0..<8] (replicate 16 0) = ?p"
    using c16 by (subst fold_update) (simp_all add: take_map_nth)
  have loop1: "hex_bitmap_loop ?buf 4 0 [0..<8] (replicate 16 0) = Inr ?p"
    unfolding p [symmetric] by (rule hex_bitmap_loop_ok) (use n chunk in auto)
  have flag: "(?p ! 0) AND 0x80 \<noteq> 0 \<longleftrightarrow> has_secondary m"
    unfolding secondary_flag c by (rule primary_flag)
  show ?thesis
  proof (cases "has_secondary m")
    case False
    with loop1 flag len show ?thesis
      by (simp add: parse_hex_bitmap_def wire_bitmap_def bitmap_len_def c n_def)
  next
    case True
    then have n16: "n = 16" by (simp add: n_def bitmap_len_def)
    have q: "fold (\<lambda>i b. b[8 + i := c ! (8 + i)]) [0..<8] ?p = c"
      using c16 drop_map_nth [of 8 c] by (subst fold_update) simp_all
    have "hex_bitmap_loop ?buf 20 8 [0..<8] ?p = Inr (fold (\<lambda>i b. b[8 + i := c ! (8 + i)]) [0..<8] ?p)"
    proof (rule hex_bitmap_loop_ok)
      fix i assume "i \<in> set [0..<8]"
      then have "8 + i < n" using n16 by simp
      from chunk [OF this] show "get_range (20 + 2 * i) (20 + 2 * i + 2) ?buf
          = Inr (as_bytes (fmt_hex2 65 (c ! (8 + i))))" by (simp add: algebra_simps)
    qed
    with q loop1 flag len True n16 show ?thesis
      by (simp add: parse_hex_bitmap_def wire_bitmap_def bitmap_len_def c n_def)
  qed
qed


section \<open>Serialized messages\<close>

lemma write_fields_ascii_concat:
  "write_fields_ascii fs ks out = out @ concat (map (\<lambda>k. if k = 1 then [] else write_field_ascii k (the (fs k))) ks)"
  by (induction ks arbitrary: out) auto

lemma write_fields_bcd_concat:
  "write_fields_bcd fs ks out = Inr (out @ concat (map (\<lambda>k. if k = 1 then [] else bcd_field_bytes k (the (fs k))) ks))"
  by (induction ks arbitrary: out) (auto simp: write_field_bcd_ok)

lemma concat_filter_None: "concat (map g (filter P ks)) = concat (map (\<lambda>k. if P k then g k else []) ks)"
  by (induction ks) auto

lemma has_secondary_iff: "wf_message m \<Longrightarrow> has_secondary m \<longleftrightarrow> (\<exists>k>64. msg_fields m k \<noteq> None)"
  by (force simp: has_secondary_def field_keys_def list_ex_iff wf_message_def)

lemma set_field_range [simp]: "set (field_range sec) = {2..max_fields sec}"
  by (auto simp: field_range_def)

lemma distinct_field_range [simp]: "distinct (field_range sec)"
  by (simp add: field_range_def)

lemma upt_split: "i \<le> j \<Longrightarrow> j \<le> k \<Longrightarrow> [i..<k] = [i..<j] @ [j..<k]" for i j k :: nat
  by (metis le_add_diff_inverse upt_add_eq_append)

text \<open>The keys in ascending order are the field numbers the parser will ask for.\<close>

lemma body_keys:
  assumes wf: "wf_message m"
  shows "concat (map (\<lambda>k. if k = 1 then [] else enc k (the (msg_fields m k))) (field_keys m))
    = concat (map (\<lambda>n. case msg_fields m n of None \<Rightarrow> [] | Some d \<Rightarrow> enc n d) (field_range (has_secondary m)))"
    (is "concat (map ?g _) = concat (map ?h ?R)")
proof -
  define M where "M = max_fields (has_secondary m)"
  have M: "M \<le> 128" "2 \<le> Suc M" by (auto simp: max_fields_def M_def)
  have none: "msg_fields m k = None" if "k = 0 \<or> M < k" for k
    using that wf has_secondary_iff [OF wf] by (auto simp: M_def wf_message_def max_fields_def split: if_splits)
  let ?e = "\<lambda>k. if msg_fields m k \<noteq> None then ?g k else []"
  have R: "?R = [2..<Suc M]" by (simp add: field_range_def M_def)
  have split: "[0..<256] = [0..<2] @ [2..<Suc M] @ [Suc M..<256]"
    using M upt_split [of 0 2 256] upt_split [of 2 "Suc M" 256] by (simp del: upt_Suc)
  have "concat (map ?g (field_keys m)) = concat (map ?e [0..<256])"
    unfolding field_keys_def by (rule concat_filter_None)
  also have "\<dots> = concat (map ?e [0..<2]) @ concat (map ?e [2..<Suc M]) @ concat (map ?e [Suc M..<256])"
    unfolding split by (simp del: upt_Suc)
  also have "concat (map ?e [0..<2]) = []" using none [of 0] by (simp add: numeral_2_eq_2)
  also have "concat (map ?e [Suc M..<256]) = []" using none by auto
  also have "map ?e [2..<Suc M] = map ?h [2..<Suc M]" by (rule map_cong) (auto split: option.split)
  finally show ?thesis unfolding R by simp
qed

lemma norm_fields_upto:
  assumes wf: "wf_message m"
  shows "(\<lambda>n. if n \<in> set (field_range (has_secondary m)) \<and> msg_fields m n \<noteq> None
       then map_option (field_norm n) (msg_fields m n) else Map.empty n) = msg_fields (norm_message m)"
  using wf has_secondary_iff [OF wf]
  by (auto simp: norm_message_def max_fields_def wf_message_def fun_eq_iff split: if_splits)

lemma wf_mti_digits:
  "wf_message m \<Longrightarrow> list_ex (\<lambda>b. b < 48 \<or> b > 57) (mti m) = False"
  by (auto simp: wf_message_def list_ex_iff list_all_iff is_ascii_digit_def in_rng_def word_less_nat_alt)

lemma hex_detected:
  assumes "length pre = 4"
  shows "is_hex_ascii_bitmap (pre @ concat (map (\<lambda>i. as_bytes (fmt_hex2 65 (v i))) [0..<bitmap_len m]) @ post)"
proof -
  let ?h = "concat (map (\<lambda>i. as_bytes (fmt_hex2 65 (v i))) [0..<bitmap_len m])"
  have "length ?h \<ge> 16" by (simp add: bitmap_len_def length_concat comp_def sum_list_triv)
  moreover have "list_all is_hex_byte (take 16 ?h)"
    using hex2_is_hex by (auto simp: list_all_iff dest!: in_set_takeD)
  ultimately show ?thesis
    using assms by (simp add: is_hex_ascii_bitmap_def)
qed

text \<open>A secondary bitmap sets the top bit of the first byte, which no hexadecimal digit has.\<close>

lemma hex_byte_top_bit: "is_hex_byte b \<Longrightarrow> \<not> bit b 7"
proof -
  assume "is_hex_byte b"
  then have "unat b < 2 ^ 7" by (auto simp: is_hex_byte_def word_le_nat_alt)
  then have "\<not> bit (unat b) 7" by (simp add: bit_iff_odd)
  then show ?thesis by (simp add: bit_unsigned_iff)
qed

lemma secondary_not_hex:
  assumes "length (mti m) = 4" and "has_secondary m"
  shows "\<not> is_hex_ascii_bitmap (serialize_binary_bitmap m)"
proof
  let ?c = "compute_bitmap m"
  assume hex: "is_hex_ascii_bitmap (serialize_binary_bitmap m)"
  have "take 16 (drop 4 (serialize_binary_bitmap m)) = ?c"
    using assms by (simp add: serialize_binary_bitmap_def serialize_internal_def
        write_fields_ascii_concat bitmap_len_def Let_def)
  with hex have "list_all is_hex_byte ?c" by (simp add: is_hex_ascii_bitmap_def)
  then have "is_hex_byte (?c ! 0)" by (simp add: list_all_length)
  moreover have "bit_set ?c 1" using assms(2) by (simp add: bit_set_compute_bitmap)
  ultimately show False using hex_byte_top_bit by (simp add: bit_set_bit)
qed

section \<open>Properties\<close>

lemma parse_serialize_hex_lemma:
  assumes wf: "wf_message m"
  shows "parse (serialize_hex_bitmap m) = Inr (norm_message m)"
proof -
  let ?c = "compute_bitmap m"
  let ?h = "concat (map (\<lambda>i. as_bytes (fmt_hex2 65 (?c ! i))) [0..<bitmap_len m])"
  let ?b = "ascii.body (msg_fields m) (field_range (has_secondary m))"
  have len: "length (mti m) = 4" using wf by (simp add: wf_message_def)
  have buf: "serialize_hex_bitmap m = mti m @ ?h @ ?b"
    unfolding serialize_hex_bitmap_def serialize_internal_def write_fields_ascii_concat body_keys [OF wf] Let_def
    by simp
  have hl: "length ?h = 2 * bitmap_len m" by (simp add: length_concat comp_def sum_list_triv)
  have "length (serialize_hex_bitmap m) \<ge> 12" unfolding buf using len hl by (simp add: bitmap_len_def)
  moreover have "parse_fields (parse_field_ascii ((mti m @ ?h) @ ?b)) (wire_bitmap m)
      (field_range (has_secondary m)) (length (mti m @ ?h)) Map.empty = Inr (msg_fields (norm_message m))"
    by (subst ascii.parse_fields_body) (use norm_fields_upto [OF wf] in \<open>auto simp: bit_set_wire_bitmap\<close>)
  moreover have "get_range 0 4 (mti m @ ?h @ ?b) = (Inr (mti m) :: (Iso8583Error, bytes) outcome)"
    using get_range_middle [of "[]" "mti m" "?h @ ?b"] len by simp
  ultimately show ?thesis
    using len hl wf_mti_digits [OF wf] hex_detected [OF len] parse_hex_bitmap_ok [OF len refl, of m ?b]
    by (simp add: buf parse_def copy_from_slice_def norm_message_def)
qed


text \<open>
  C3: a message serialized with the hexadecimal bitmap (the standard serializer) parses back to
  its normal form: the same MTI, and every field padded or cut as its schema says.
\<close>

theorem parse_serialize_hex:
  assumes wf: "wf_message m"
  shows "parse (serialize_hex_bitmap m) = Inr (norm_message m)"
  using wf by (rule parse_serialize_hex_lemma)

theorem parse_serialize_hex_witness:
  "wf_message (set_field 3 [0x31] (new_message [0x30, 0x32, 0x30, 0x30]))
   \<and> parse (serialize_hex_bitmap (set_field 3 [0x31] (new_message [0x30, 0x32, 0x30, 0x30])))
     = Inr (norm_message (set_field 3 [0x31] (new_message [0x30, 0x32, 0x30, 0x30])))"
proof -
  have wf: "wf_message (set_field 3 [0x31] (new_message [0x30, 0x32, 0x30, 0x30]))"
    by (simp add: wf_message_def set_field_def new_message_def is_ascii_digit_def in_rng_def)
  from wf parse_serialize_hex [OF wf] show ?thesis by blast
qed

text \<open>
  with the binary bitmap the same holds whenever the sixteen bytes after the MTI are not all
  hexadecimal digits, which is how the parser tells the two formats apart.
\<close>

theorem parse_serialize_binary:
  assumes wf: "wf_message m" and nohex: "\<not> is_hex_ascii_bitmap (serialize_binary_bitmap m)"
  shows "parse (serialize_binary_bitmap m) = Inr (norm_message m)"
proof -
  let ?c = "take (bitmap_len m) (compute_bitmap m)"
  let ?b = "ascii.body (msg_fields m) (field_range (has_secondary m))"
  have len: "length (mti m) = 4" using wf by (simp add: wf_message_def)
  have buf: "serialize_binary_bitmap m = mti m @ ?c @ ?b"
    unfolding serialize_binary_bitmap_def serialize_internal_def write_fields_ascii_concat body_keys [OF wf] Let_def
    by simp
  have hl: "length ?c = bitmap_len m" by (simp add: bitmap_len_def)
  have "length (serialize_binary_bitmap m) \<ge> 12" unfolding buf using len by (simp add: bitmap_len_def)
  moreover have "parse_fields (parse_field_ascii ((mti m @ ?c) @ ?b)) (wire_bitmap m)
      (field_range (has_secondary m)) (length (mti m @ ?c)) Map.empty = Inr (msg_fields (norm_message m))"
    by (subst ascii.parse_fields_body) (use norm_fields_upto [OF wf] in \<open>auto simp: bit_set_wire_bitmap\<close>)
  moreover have "get_range 0 4 (mti m @ ?c @ ?b) = (Inr (mti m) :: (Iso8583Error, bytes) outcome)"
    using get_range_middle [of "[]" "mti m" "?c @ ?b"] len by simp
  ultimately show ?thesis
    using len hl wf_mti_digits [OF wf] nohex parse_bin_bitmap_ok [OF len, of m ?b]
    by (simp add: buf parse_def copy_from_slice_def norm_message_def)
qed

theorem parse_serialize_binary_witness:
  "parse (serialize_binary_bitmap (set_field 127 [0x31] (new_message [0x30, 0x32, 0x30, 0x30])))
     = Inr (norm_message (set_field 127 [0x31] (new_message [0x30, 0x32, 0x30, 0x30])))"
proof (rule parse_serialize_binary)
  show "wf_message (set_field 127 [0x31] (new_message [0x30, 0x32, 0x30, 0x30]))"
    by (simp add: wf_message_def set_field_def new_message_def is_ascii_digit_def in_rng_def)
  show "\<not> is_hex_ascii_bitmap (serialize_binary_bitmap (set_field 127 [0x31] (new_message [0x30, 0x32, 0x30, 0x30])))"
    by (rule secondary_not_hex) (simp_all add: new_message_def set_field_def has_secondary_def field_keys_def list_ex_iff)
qed

text \<open>
  The AS2805 MTI: four digits pack into two bytes that unpack to the same digits without the
  padding flag.
\<close>

lemma mti_bcd:
  assumes "length s = 4" and "list_all is_ascii_digit s"
  shows "\<exists>bs. pack_bcd_left_padded s = Inr bs \<and> length bs = 2 \<and> unpack_bcd bs 4 False = Inr s"
proof -
  have ev: "even (length s)" using assms(1) by simp
  from pack_pairs_unpack [OF assms(2) ev] obtain bs where
    bs: "pack_pairs s [] = Inr bs" "length bs = 2"
      "unpack_loop False 4 [] (bs @ []) = unpack_loop False 4 ([] @ s) []"
    using assms(1) by (metis add_0 append_Nil list.size(3) order_refl numeral_Bit0_div_2)
  with assms show ?thesis
    by (intro exI [of _ bs]) (simp add: pack_bcd_left_padded_def unpack_bcd_def Let_def)
qed

text \<open>
  every well-formed message serializes in the AS2805 BCD format, and the BCD parser reads its
  normal form back.
\<close>

theorem parse_serialize_as2805:
  assumes wf: "wf_message m"
  shows "\<exists>bs. serialize_as2805_bcd m = Inr bs \<and> parse_as2805_bcd bs = Inr (norm_message m)"
proof -
  let ?c = "take (bitmap_len m) (compute_bitmap m)"
  let ?b = "bcd.body (msg_fields m) (field_range (has_secondary m))"
  let ?s = "map unat (mti m)"
  have dig: "list_all is_ascii_digit ?s" "length ?s = 4" using wf by (simp_all add: wf_message_def list_all_iff)
  then obtain h where h: "pack_bcd_left_padded ?s = Inr h" "length h = 2" "unpack_bcd h 4 False = Inr ?s"
    using mti_bcd by blast
  have asc: "from_utf8 (mti m) = Some ?s"
    using dig(1) by (intro from_utf8_ascii) (auto simp: list_all_iff is_ascii_digit_def in_rng_def)
  have mtib: "as_bytes ?s = mti m"
    using as_bytes_ascii [OF list_all_digit_ascii [OF dig(1)]] by (simp add: comp_def)
  have ser: "serialize_as2805_bcd m = Inr (h @ ?c @ ?b)"
    unfolding serialize_as2805_bcd_def asc write_fields_bcd_concat body_keys [OF wf] using h(1) by simp
  have hl: "length ?c = bitmap_len m" by (simp add: bitmap_len_def)
  have "parse_fields (parse_field_bcd ((h @ ?c) @ ?b)) (wire_bitmap m)
      (field_range (has_secondary m)) (length (h @ ?c)) Map.empty = Inr (msg_fields (norm_message m))"
    by (subst bcd.parse_fields_body) (use norm_fields_upto [OF wf] in \<open>auto simp: bit_set_wire_bitmap\<close>)
  moreover have "get_range 0 2 (h @ ?c @ ?b) = (Inr h :: (Iso8583Error, bytes) outcome)"
    using h(2) by (simp add: get_range_def)
  moreover have "length (h @ ?c @ ?b) \<ge> 10" using h(2) by (simp add: bitmap_len_def)
  ultimately have "parse_as2805_bcd (h @ ?c @ ?b) = Inr (norm_message m)"
    using h hl dig(2) mtib parse_bin_bitmap_ok [OF h(2), of m ?b]
    by (simp add: parse_as2805_bcd_def copy_from_slice_def norm_message_def)
  with ser show ?thesis by blast
qed

theorem parse_serialize_as2805_witness:
  "\<exists>bs. serialize_as2805_bcd (set_field 2 [0x34, 0x31] (new_message [0x30, 0x32, 0x30, 0x30])) = Inr bs
     \<and> parse_as2805_bcd bs = Inr (norm_message (set_field 2 [0x34, 0x31] (new_message [0x30, 0x32, 0x30, 0x30])))"
  by (rule parse_serialize_as2805)
    (simp add: wf_message_def set_field_def new_message_def is_ascii_digit_def in_rng_def)


section \<open>Parsing arbitrary input\<close>

lemma hex_bitmap_loop_no_panic:
  "\<forall>i\<in>set is. offset + 2 * i + 2 \<le> length buf \<Longrightarrow> hex_bitmap_loop buf offset base is bm \<noteq> Panicked"
  by (induction "is" arbitrary: bm) (auto simp: get_range_def split: option.split)

lemma parse_hex_bitmap_no_panic: "parse_hex_bitmap buf \<noteq> Panicked"
  using hex_bitmap_loop_no_panic [of "[0..<8]"]
  by (auto simp: parse_hex_bitmap_def and_then_eq_Inl)

lemma parse_bin_bitmap_no_panic: "parse_bin_bitmap buf k \<noteq> Panicked"
  by (auto simp: parse_bin_bitmap_def get_range_def copy_from_slice_def)

lemma parse_never_panics: "parse buf \<noteq> Panicked"
  using parse_hex_bitmap_no_panic [of buf] parse_bin_bitmap_no_panic [of buf 4] ascii.parse_fields_no_panic [of buf]
  by (auto simp: parse_def and_then_eq_Inl get_range_def copy_from_slice_def split: prod.splits if_splits)

text \<open>
  the ASCII parser is total on untrusted input: whatever the bytes, it returns a message or
  one of its errors, and never panics.
\<close>

theorem parse_no_panic: "parse buf \<noteq> Panicked"
  by (rule parse_never_panics)

lemma unpack_mti_panics:
  assumes "length bs = 2"
  shows "(\<exists>s. unpack_bcd bs 4 False = Inr s \<and> length (as_bytes s) \<noteq> 4) \<longleftrightarrow>
    unat (bs ! 0) div 16 \<le> 9 \<and> (unat (bs ! 0) mod 16 = 15
      \<or> unat (bs ! 0) mod 16 \<le> 9 \<and> unat (bs ! 1) div 16 \<le> 9 \<and> unat (bs ! 1) mod 16 = 15)"
proof -
  obtain b c where bs: "bs = [b, c]"
    using assms by (auto simp: numeral_2_eq_2 length_Suc_conv)
  have F: "(x :: u8) = 0x0F \<longleftrightarrow> unat x = 15" for x by (simp add: u8_eq_iff)
  show ?thesis
    by (auto simp: bs unpack_bcd_def Let_def as_bytes_def utf8_encode_char_def u8_gt_9 F
        unat_low_nibble unat_drop_nibble)
qed

text \<open>
  the AS2805 parser does panic, on exactly these inputs: at least ten bytes whose BCD MTI
  has a padding nibble 0xF in a low position.  \<open>unpack_bcd\<close> then returns fewer than four
  characters and \<open>copy_from_slice\<close> into the four-byte MTI fails.
\<close>

theorem parse_as2805_panics_iff:
  "parse_as2805_bcd buf = Panicked \<longleftrightarrow>
    10 \<le> length buf \<and> unat (buf ! 0) div 16 \<le> 9 \<and> (unat (buf ! 0) mod 16 = 15
      \<or> unat (buf ! 0) mod 16 \<le> 9 \<and> unat (buf ! 1) div 16 \<le> 9 \<and> unat (buf ! 1) mod 16 = 15)"
proof (cases "10 \<le> length buf")
  case True
  let ?bs = "take 2 buf"
  have *: "map_err (\<lambda>e. Fail (BcdErr e)) (x :: BcdError + rstr) \<noteq> Panicked" for x by (cases x) auto
  have "parse_as2805_bcd buf = Panicked \<longleftrightarrow>
      (\<exists>s. unpack_bcd ?bs 4 False = Inr s \<and> length (as_bytes s) \<noteq> 4)"
    using True parse_bin_bitmap_no_panic [of buf 2] bcd.parse_fields_no_panic [of buf]
    by (auto simp: parse_as2805_bcd_def and_then_eq_Inl * get_range_def copy_from_slice_def split: prod.splits)
  with unpack_mti_panics [of ?bs] True show ?thesis by simp
next
  case False
  then show ?thesis by (simp add: parse_as2805_bcd_def)
qed

lemma parse_fields_wf:
  assumes "\<And>n d. fs n = Some d \<Longrightarrow> field_norm n d = d \<and> n \<in> {2..max_fields sec}"
    and "length h = 4" and "list_all (\<lambda>b. is_ascii_digit (unat b)) h"
  shows "wf_message \<lparr>mti = h, msg_fields = fs\<rparr> \<and> norm_message \<lparr>mti = h, msg_fields = fs\<rparr> = \<lparr>mti = h, msg_fields = fs\<rparr>"
proof -
  have "map_option (field_norm n) (fs n) = fs n" for n using assms(1) [of n] by (cases "fs n") auto
  moreover have "2 \<le> n \<and> n \<le> 128" if "fs n = Some d" for n d
    using assms(1) [OF that] by (auto simp: max_fields_def split: if_splits)
  ultimately have "(\<lambda>f. if 2 \<le> f \<and> f \<le> 128 then map_option (field_norm f) (fs f) else None) = fs"
    and "dom fs \<subseteq> {1..128}" by (force simp: fun_eq_iff)+
  with assms(2,3) show ?thesis by (simp add: wf_message_def norm_message_def cong: if_cong)
qed

lemma parse_normal_lemma:
  assumes "parse buf = Inr m"
  shows "wf_message m \<and> norm_message m = m \<and> parse (serialize m) = Inr m"
proof -
  define h where "h = take 4 buf"
  from assms obtain bm k sec fs where
    h: "12 \<le> length buf" "\<not> list_ex (\<lambda>b. b < 48 \<or> b > 57) h" and
    fs: "parse_fields (parse_field_ascii buf) bm (field_range sec) k Map.empty = Inr fs" and
    m: "m = \<lparr>mti = h, msg_fields = fs\<rparr>"
    by (auto simp: h_def parse_def and_then_eq_Inr get_range_def copy_from_slice_def not_less split: if_splits)
  have "length h = 4" using h(1) by (simp add: h_def)
  have "field_norm n d = d \<and> n \<in> {2..max_fields sec}" if "fs n = Some d" for n d
    using ascii.parse_fields_normal [OF fs _ that] by auto
  moreover have "list_all (\<lambda>b. is_ascii_digit (unat b)) h"
    using h(2) by (auto simp: list_ex_iff list_all_iff is_ascii_digit_def in_rng_def word_less_nat_alt)
  ultimately have "wf_message m \<and> norm_message m = m" unfolding m using \<open>length h = 4\<close> by (intro parse_fields_wf)
  moreover from this have "parse (serialize m) = Inr m"
    using parse_serialize_hex_lemma [of m] by (simp add: serialize_def)
  ultimately show ?thesis by blast
qed

text \<open>
  whatever the ASCII parser accepts is a well-formed message in normal form, so serializing
  it with the standard serializer and parsing again gives the same message.
\<close>

theorem parse_normal:
  assumes "parse buf = Inr m"
  shows "wf_message m \<and> norm_message m = m \<and> parse (serialize m) = Inr m"
  using assms by (rule parse_normal_lemma)

theorem parse_normal_witness:
  "\<exists>m. parse (serialize_hex_bitmap (new_message [0x30, 0x38, 0x30, 0x30])) = Inr m \<and> wf_message m
     \<and> norm_message m = m \<and> parse (serialize m) = Inr m"
proof -
  have "wf_message (new_message [0x30, 0x38, 0x30, 0x30])"
    by (simp add: wf_message_def new_message_def is_ascii_digit_def in_rng_def)
  note m = parse_serialize_hex_lemma [OF this]
  from parse_normal [OF m] m show ?thesis by blast
qed

text \<open>
  verify-and-strip.  A payload injected into the private field 127 of a message that has
  none travels over the wire and comes back from \<open>strip_pqc_field\<close>, and what is left is the
  original message.
\<close>

theorem inject_strip_over_wire:
  assumes wf: "wf_message m" and "msg_fields m 127 = None" and "length d \<le> 9999"
  shows "\<exists>m'. parse (serialize (inject_pqc_field 127 d m)) = Inr m'
           \<and> strip_pqc_field 127 m' = (Some d, norm_message m)"
proof -
  let ?i = "inject_pqc_field 127 d m"
  have "wf_message ?i" using wf by (auto simp: inject_pqc_field_def set_field_def wf_message_def)
  then have "parse (serialize ?i) = Inr (norm_message ?i)"
    unfolding serialize_def by (rule parse_serialize_hex_lemma)
  moreover have "field_norm 127 d = d"
    using assms(3) by (simp add: field_norm_def get_field_type_def field_table_def)
  then have "strip_pqc_field 127 (norm_message ?i) = (Some d, norm_message m)"
    using assms(2)
    by (auto simp: inject_pqc_field_def set_field_def strip_pqc_field_def remove_field_def norm_message_def fun_eq_iff)
  ultimately show ?thesis by blast
qed

theorem inject_strip_over_wire_witness:
  "\<exists>m'. parse (serialize (inject_pqc_field 127 [1, 2] (new_message [0x30, 0x31, 0x30, 0x30]))) = Inr m'
     \<and> strip_pqc_field 127 m' = (Some [1, 2], norm_message (new_message [0x30, 0x31, 0x30, 0x30]))"
  by (rule inject_strip_over_wire) (simp_all add: wf_message_def new_message_def is_ascii_digit_def in_rng_def)

text \<open>
  the TCP frame is two big-endian bytes holding the payload's length, then the payload;
  a payload over 65535 bytes is refused, and nothing else is.
\<close>

theorem tcp_frame:
  "serialize_tcp_framed_with_encoding m e =
    (case serialize_with_encoding m e of Inl x \<Rightarrow> Inl x
     | Inr payload \<Rightarrow> if length payload < 2 ^ 16 then Inr (be_bytes 2 (length payload) @ payload)
                    else Err SerializationError)"
proof -
  have *: "[ucast (drop_bit 8 w), ucast (w AND 0xFF)] = be_bytes 2 n"
    if w: "w = (word_of_nat n :: u16)" and n: "n < 2 ^ 16" for w n
  proof -
    have u: "unat w = n" using w n by (simp add: unat_of_nat)
    have "unat (ucast (drop_bit 8 w) :: u8) = n div 256 mod 256"
      by (simp add: u unsigned_ucast_eq unat_div drop_bit_eq_div take_bit_eq_mod)
    moreover have "w AND 0xFF = take_bit 8 w" by (simp add: take_bit_eq_mask mask_numeral)
    then have "unat (ucast (w AND 0xFF) :: u8) = n mod 256"
      by (simp add: u unsigned_ucast_eq unat_mod take_bit_eq_mod)
    ultimately show ?thesis by (simp add: numeral_2_eq_2 u8_eq_iff)
  qed
  show ?thesis
    using * by (auto simp: serialize_tcp_framed_with_encoding_def Let_def split: sum.split)
qed

end
