(* ===== verification/Ebcdic.thy ===== *)
theory Ebcdic
  imports Prelude
begin

text \<open>
  The IBM code page 037 translator (\<open>solomon-core/src/ebcdic.rs\<close>): the two 256-byte tables
  and the four translation functions.  The theorems say exactly which byte strings survive
  the trip to EBCDIC and back, and that the in-place variants agree with the copying ones.
\<close>

section \<open>Definitions\<close>

definition ASCII_TO_EBCDIC_CP037 :: bytes where
  "ASCII_TO_EBCDIC_CP037 =
    [0x00, 0x01, 0x02, 0x03, 0x37, 0x2D, 0x2E, 0x2F, 0x16, 0x05, 0x25, 0x0B, 0x0C, 0x0D, 0x0E, 0x0F,
     0x10, 0x11, 0x12, 0x13, 0x3C, 0x3D, 0x32, 0x26, 0x18, 0x19, 0x3F, 0x27, 0x1C, 0x1D, 0x1E, 0x1F,
     0x40, 0x5A, 0x7F, 0x7B, 0x5B, 0x6C, 0x50, 0x7D, 0x4D, 0x5D, 0x5C, 0x4E, 0x6B, 0x60, 0x4B, 0x61,
     0xF0, 0xF1, 0xF2, 0xF3, 0xF4, 0xF5, 0xF6, 0xF7, 0xF8, 0xF9, 0x7A, 0x5E, 0x4C, 0x7E, 0x6E, 0x6F,
     0x7C, 0xC1, 0xC2, 0xC3, 0xC4, 0xC5, 0xC6, 0xC7, 0xC8, 0xC9, 0xD1, 0xD2, 0xD3, 0xD4, 0xD5, 0xD6,
     0xD7, 0xD8, 0xD9, 0xE2, 0xE3, 0xE4, 0xE5, 0xE6, 0xE7, 0xE8, 0xE9, 0xBA, 0xE0, 0xBB, 0xB0, 0x6D,
     0x79, 0x81, 0x82, 0x83, 0x84, 0x85, 0x86, 0x87, 0x88, 0x89, 0x91, 0x92, 0x93, 0x94, 0x95, 0x96,
     0x97, 0x98, 0x99, 0xA2, 0xA3, 0xA4, 0xA5, 0xA6, 0xA7, 0xA8, 0xA9, 0xC0, 0x4F, 0xD0, 0xA1, 0x07,
     0x20, 0x21, 0x22, 0x23, 0x24, 0x15, 0x06, 0x17, 0x28, 0x29, 0x2A, 0x2B, 0x2C, 0x09, 0x0A, 0x1B,
     0x30, 0x31, 0x1A, 0x33, 0x34, 0x35, 0x36, 0x08, 0x38, 0x39, 0x3A, 0x3B, 0x04, 0x14, 0x3E, 0xFF,
     0x41, 0xAA, 0x4A, 0xB1, 0x9F, 0xB2, 0x6A, 0xB5, 0xBD, 0xB4, 0x9A, 0x8A, 0x5F, 0xCA, 0xAF, 0xBC,
     0x90, 0x8F, 0xEA, 0xFA, 0xBE, 0xA0, 0xB6, 0xB3, 0x9D, 0xDA, 0x9B, 0x8B, 0xB7, 0xB8, 0xB9, 0xAB,
     0x64, 0x65, 0x62, 0x66, 0x63, 0x67, 0x9E, 0x68, 0x74, 0x71, 0x72, 0x73, 0x78, 0x75, 0x76, 0x77,
     0xAC, 0x69, 0xED, 0xEE, 0xEB, 0xEF, 0xEC, 0xBF, 0x80, 0xFD, 0xFE, 0xFB, 0xFC, 0xAD, 0xAE, 0x59,
     0x44, 0x45, 0x42, 0x46, 0x43, 0x47, 0x9C, 0x48, 0x54, 0x51, 0x52, 0x53, 0x58, 0x55, 0x56, 0x57,
     0x8C, 0x49, 0xCD, 0xCE, 0xCB, 0xCF, 0xCC, 0xE1, 0x70, 0xDD, 0xDE, 0xDB, 0xDC, 0x8D, 0x8E, 0xDF]"

definition EBCDIC_TO_ASCII_CP037 :: bytes where
  "EBCDIC_TO_ASCII_CP037 =
    [0x00, 0x01, 0x02, 0x03, 0x9C, 0x09, 0x86, 0x7F, 0x97, 0x8D, 0x8E, 0x0B, 0x0C, 0x0D, 0x0E, 0x0F,
     0x10, 0x11, 0x12, 0x13, 0x9D, 0x85, 0x08, 0x87, 0x18, 0x19, 0x92, 0x8F, 0x1C, 0x1D, 0x1E, 0x1F,
     0x80, 0x81, 0x82, 0x83, 0x84, 0x0A, 0x17, 0x1B, 0x88, 0x89, 0x8A, 0x8B, 0x8C, 0x05, 0x06, 0x07,
     0x90, 0x91, 0x16, 0x93, 0x94, 0x95, 0x96, 0x04, 0x98, 0x99, 0x9A, 0x9B, 0x14, 0x15, 0x9E, 0x1A,
     0x20, 0xA0, 0xE2, 0xE4, 0xE0, 0xE1, 0xE3, 0xE5, 0xE7, 0xF1, 0xA2, 0x2E, 0x3C, 0x28, 0x2B, 0x7C,
     0x26, 0xE9, 0xEA, 0xEB, 0xE8, 0xED, 0xEE, 0xEF, 0xEC, 0xDF, 0x21, 0x24, 0x2A, 0x29, 0x3B, 0xAC,
     0x2D, 0x2F, 0xC2, 0xC4, 0xC0, 0xC1, 0xC3, 0xC5, 0xC7, 0xD1, 0xA6, 0x2C, 0x25, 0x5F, 0x3E, 0x3F,
     0xF8, 0xC9, 0xCA, 0xCB, 0xC8, 0xCD, 0xCE, 0xCF, 0xCC, 0x60, 0x3A, 0x23, 0x40, 0x27, 0x3D, 0x22,
     0xD8, 0x61, 0x62, 0x63, 0x64, 0x65, 0x66, 0x67, 0x68, 0x69, 0xAB, 0xBB, 0xF0, 0xFD, 0xFE, 0xB1,
     0xB0, 0x6A, 0x6B, 0x6C, 0x6D, 0x6E, 0x6F, 0x70, 0x71, 0x72, 0xAA, 0xBA, 0xE6, 0xB8, 0xC6, 0xA4,
     0xBF, 0x7E, 0x73, 0x74, 0x75, 0x76, 0x77, 0x78, 0x79, 0x7A, 0xA1, 0xBF, 0xD0, 0x5B, 0xDE, 0xAE,
     0xAC, 0xA3, 0xA5, 0xB7, 0xA9, 0xA7, 0xB6, 0xBC, 0xBD, 0xBE, 0x5B, 0x5D, 0xAF, 0xA8, 0xB4, 0xD7,
     0x7B, 0x41, 0x42, 0x43, 0x44, 0x45, 0x46, 0x47, 0x48, 0x49, 0xAD, 0xF4, 0xF6, 0xF2, 0xF3, 0xF5,
     0x7D, 0x4A, 0x4B, 0x4C, 0x4D, 0x4E, 0x4F, 0x50, 0x51, 0x52, 0xB9, 0xFB, 0xFC, 0xF9, 0xFA, 0xFF,
     0x5C, 0xF7, 0x53, 0x54, 0x55, 0x56, 0x57, 0x58, 0x59, 0x5A, 0xB2, 0xD4, 0xD6, 0xD2, 0xD3, 0xD5,
     0x30, 0x31, 0x32, 0x33, 0x34, 0x35, 0x36, 0x37, 0x38, 0x39, 0xB3, 0xDB, 0xDC, 0xD9, 0xDA, 0x9F]"

fun ascii_to_ebcdic_loop :: "bytes \<Rightarrow> bytes \<Rightarrow> bytes" where
  "ascii_to_ebcdic_loop [] ebcdic = ebcdic"
| "ascii_to_ebcdic_loop (b # bs) ebcdic =
     ascii_to_ebcdic_loop bs (ebcdic @ [ASCII_TO_EBCDIC_CP037 ! unat b])"

definition ascii_to_ebcdic :: "bytes \<Rightarrow> bytes" where
  "ascii_to_ebcdic ascii = ascii_to_ebcdic_loop ascii []"

fun ebcdic_to_ascii_loop :: "bytes \<Rightarrow> bytes \<Rightarrow> bytes" where
  "ebcdic_to_ascii_loop [] ascii = ascii"
| "ebcdic_to_ascii_loop (b # bs) ascii =
     ebcdic_to_ascii_loop bs (ascii @ [EBCDIC_TO_ASCII_CP037 ! unat b])"

definition ebcdic_to_ascii :: "bytes \<Rightarrow> bytes" where
  "ebcdic_to_ascii ebcdic = ebcdic_to_ascii_loop ebcdic []"

text \<open>The in-place loops: \<open>k\<close> is the index the iterator has reached.\<close>

fun translate_in_place :: "bytes \<Rightarrow> nat \<Rightarrow> bytes \<Rightarrow> bytes" where
  "translate_in_place table 0 buf = buf"
| "translate_in_place table (Suc k) buf =
     (let buf' = translate_in_place table k buf in buf'[k := table ! unat (buf' ! k)])"

definition ascii_to_ebcdic_in_place :: "bytes \<Rightarrow> bytes" where
  "ascii_to_ebcdic_in_place buf = translate_in_place ASCII_TO_EBCDIC_CP037 (length buf) buf"

definition ebcdic_to_ascii_in_place :: "bytes \<Rightarrow> bytes" where
  "ebcdic_to_ascii_in_place buf = translate_in_place EBCDIC_TO_ASCII_CP037 (length buf) buf"

text \<open>The bytes that do not come back: the two tables disagree on them.\<close>

definition cp037_lossy :: bytes where
  "cp037_lossy = [0x5E, 0xB5, 0xDD]"

section \<open>Lemmas\<close>

lemma ascii_to_ebcdic_loop_map:
  "ascii_to_ebcdic_loop bs acc = acc @ map (\<lambda>b. ASCII_TO_EBCDIC_CP037 ! unat b) bs"
  by (induction bs arbitrary: acc) auto

lemma ebcdic_to_ascii_loop_map:
  "ebcdic_to_ascii_loop bs acc = acc @ map (\<lambda>b. EBCDIC_TO_ASCII_CP037 ! unat b) bs"
  by (induction bs arbitrary: acc) auto

lemma translate_in_place_prefix:
  "k \<le> length buf \<Longrightarrow>
   translate_in_place t k buf = map (\<lambda>b. t ! unat b) (take k buf) @ drop k buf"
proof (induction k)
  case 0
  then show ?case by simp
next
  case (Suc k)
  then have len: "k < length buf" by simp
  let ?pre = "map (\<lambda>b. t ! unat b) (take k buf)"
  have "translate_in_place t k buf = ?pre @ buf ! k # drop (Suc k) buf"
    using Suc by (simp add: Cons_nth_drop_Suc)
  moreover have "length ?pre = k" using len by simp
  ultimately have "translate_in_place t (Suc k) buf = ?pre @ t ! unat (buf ! k) # drop (Suc k) buf"
    by (simp add: Let_def list_update_append nth_append)
  with len show ?case by (simp add: take_Suc_conv_app_nth)
qed

lemma upto_256:
  "[0..<256] = 0 # Suc 0 # [2..<256]"
  by (simp add: upt_rec)

lemma length_cp037 [simp]:
  "length ASCII_TO_EBCDIC_CP037 = 256" "length EBCDIC_TO_ASCII_CP037 = 256"
  by (simp_all add: ASCII_TO_EBCDIC_CP037_def EBCDIC_TO_ASCII_CP037_def)

lemmas ascii_to_ebcdic_entries =
  nth_entries [OF ASCII_TO_EBCDIC_CP037_def [symmetric] length_cp037(1), simplified upto_256, simplified]

lemmas ebcdic_to_ascii_entries =
  nth_entries [OF EBCDIC_TO_ASCII_CP037_def [symmetric] length_cp037(2), simplified upto_256, simplified]

lemma cp037_pointwise:
  "EBCDIC_TO_ASCII_CP037 ! unat (ASCII_TO_EBCDIC_CP037 ! unat b) = b \<longleftrightarrow> b \<notin> set cp037_lossy"
proof -
  have "list_all (\<lambda>k. (EBCDIC_TO_ASCII_CP037 ! unat (ASCII_TO_EBCDIC_CP037 ! k) = word_of_nat k)
      \<longleftrightarrow> (word_of_nat k :: u8) \<notin> set cp037_lossy) [0..<256]"
    by (simp add: upto_256 ascii_to_ebcdic_entries ebcdic_to_ascii_entries cp037_lossy_def)
  moreover have "unat b \<in> set [0..<256]" by simp
  ultimately have "(EBCDIC_TO_ASCII_CP037 ! unat (ASCII_TO_EBCDIC_CP037 ! unat b) = word_of_nat (unat b))
      \<longleftrightarrow> (word_of_nat (unat b) :: u8) \<notin> set cp037_lossy"
    by (simp only: list_all_iff)
  then show ?thesis by simp
qed

text \<open>
  a byte string survives the translation to EBCDIC and back exactly when it has none of
  the 3 bytes on which the two tables disagree; every printable ASCII character except the
  caret is safe.
\<close>

theorem ebcdic_roundtrip_iff:
  "ebcdic_to_ascii (ascii_to_ebcdic s) = s \<longleftrightarrow> list_all (\<lambda>b. b \<notin> set cp037_lossy) s"
  by (induction s)
    (auto simp: ascii_to_ebcdic_def ebcdic_to_ascii_def ascii_to_ebcdic_loop_map
      ebcdic_to_ascii_loop_map cp037_pointwise)

text \<open>The in-place translators compute what the copying ones return.\<close>

theorem ebcdic_in_place_agrees:
  "ascii_to_ebcdic_in_place buf = ascii_to_ebcdic buf \<and> ebcdic_to_ascii_in_place buf = ebcdic_to_ascii buf"
  by (simp add: ascii_to_ebcdic_in_place_def ebcdic_to_ascii_in_place_def ascii_to_ebcdic_def
      ebcdic_to_ascii_def ascii_to_ebcdic_loop_map ebcdic_to_ascii_loop_map translate_in_place_prefix)

end
