(* ===== verification/Scalar.thy ===== *)
theory Scalar
  imports Prelude
begin

text \<open>
  The scalar field of ML-DSA-65 (\<open>solomon-core/src/crypto/scalar.rs\<close>).  A \<open>Scalar\<close> is its
  \<open>i32\<close> value, a 32-bit word read with \<open>sint\<close>; the branch-free code is kept with its masks
  and arithmetic shifts.  The theorems say that on canonical values (0 to q - 1) each operation
  is the operation of the field, that the Montgomery reduction divides by \<open>2^32\<close> modulo q on
  the range its callers use, and that no intermediate value overflows there.
\<close>

section \<open>Definitions\<close>

definition Q :: i32 where "Q = 8380417"

definition Q_INV :: i32 where "Q_INV = 58728449"

definition montgomery_reduce :: "i64 \<Rightarrow> i32" where
  "montgomery_reduce product =
    (let u = (ucast product :: i32) * Q_INV;
         t = signed_drop_bit 32 (product - scast u * scast Q);
         t = (ucast t :: i32);
         mask1 = signed_drop_bit 31 t;
         t = t + (Q AND mask1);
         diff = t - Q;
         mask2 = signed_drop_bit 31 diff
     in diff + (Q AND mask2))"

definition scalar_add :: "i32 \<Rightarrow> i32 \<Rightarrow> i32" where
  "scalar_add a b =
    (let total = a + b; diff = total - Q; mask = signed_drop_bit 31 diff in diff + (Q AND mask))"

definition scalar_sub :: "i32 \<Rightarrow> i32 \<Rightarrow> i32" where
  "scalar_sub a b = (let diff = a - b; mask = signed_drop_bit 31 diff in diff + (Q AND mask))"

definition scalar_mul :: "i32 \<Rightarrow> i32 \<Rightarrow> i32" where
  "scalar_mul a b = (let product = (scast a :: i64) * scast b in montgomery_reduce product)"

definition scalar_neg :: "i32 \<Rightarrow> i32" where
  "scalar_neg a =
    (let diff = Q - a; is_nonzero_mask = signed_drop_bit 31 (a OR (- a)) in diff AND is_nonzero_mask)"

definition is_zero_ct :: "i32 \<Rightarrow> i32" where
  "is_zero_ct a = NOT (signed_drop_bit 31 (a OR (- a)))"

definition scalar_is_zero :: "i32 \<Rightarrow> bool" where
  "scalar_is_zero a = (a = 0)"

definition scalar_to_bytes :: "i32 \<Rightarrow> bytes" where
  "scalar_to_bytes v =
    [ucast (v AND 0xFF), ucast (drop_bit 8 v AND 0xFF), ucast (drop_bit 16 v AND 0xFF),
     ucast (drop_bit 24 v AND 0xFF)]"

definition scalar_from_bytes :: "bytes \<Rightarrow> i32" where
  "scalar_from_bytes bs =
    (ucast (bs ! 0) OR push_bit 8 (ucast (bs ! 1)) OR push_bit 16 (ucast (bs ! 2))
       OR push_bit 24 (ucast (bs ! 3)))"

definition canonical :: "i32 \<Rightarrow> bool" where
  "canonical a \<longleftrightarrow> 0 \<le> sint a \<and> sint a < 8380417"

section \<open>Masks and signed arithmetic\<close>

lemma sint_Q [simp]: "sint Q = 8380417"
  by (simp add: Q_def)

lemma i32_range: "- (2 ^ 31) \<le> sint (w :: i32)" "sint (w :: i32) < 2 ^ 31"
  using sint_range_size [of w] by (simp_all add: word_size)

lemma i64_range: "- (2 ^ 63) \<le> sint (w :: i64)" "sint (w :: i64) < 2 ^ 63"
  using sint_range_size [of w] by (simp_all add: word_size)

text \<open>A word operation is exact when the integer result is in range.\<close>

lemma word_arith_of_int:
  "a + b = word_of_int (sint a + sint b)" "a - b = word_of_int (sint a - sint b)"
  "a * b = word_of_int (sint a * sint b)" for a b :: "'a :: len word"
  by simp_all

lemma sint_add_i32: "- (2 ^ 31) \<le> sint a + sint b \<Longrightarrow> sint a + sint b < 2 ^ 31 \<Longrightarrow> sint (a + b) = sint a + sint b"
  for a b :: i32
  by (subst word_arith_of_int(1)) (rule sint_word_of_int_self, simp_all)

lemma sint_sub_i32: "- (2 ^ 31) \<le> sint a - sint b \<Longrightarrow> sint a - sint b < 2 ^ 31 \<Longrightarrow> sint (a - b) = sint a - sint b"
  for a b :: i32
  by (subst word_arith_of_int(2)) (rule sint_word_of_int_self, simp_all)

lemma sint_mult_i32: "- (2 ^ 31) \<le> sint a * sint b \<Longrightarrow> sint a * sint b < 2 ^ 31 \<Longrightarrow> sint (a * b) = sint a * sint b"
  for a b :: i32
  by (subst word_arith_of_int(3)) (rule sint_word_of_int_self, simp_all)

lemma sint_sub_i64: "- (2 ^ 63) \<le> sint a - sint b \<Longrightarrow> sint a - sint b < 2 ^ 63 \<Longrightarrow> sint (a - b) = sint a - sint b"
  for a b :: i64
  by (subst word_arith_of_int(2)) (rule sint_word_of_int_self, simp_all)

lemma sint_mult_i64: "- (2 ^ 63) \<le> sint a * sint b \<Longrightarrow> sint a * sint b < 2 ^ 63 \<Longrightarrow> sint (a * b) = sint a * sint b"
  for a b :: i64
  by (subst word_arith_of_int(3)) (rule sint_word_of_int_self, simp_all)

lemma sint_scast_64 [simp]: "sint (scast (a :: i32) :: i64) = sint a"
proof -
  have "(scast a :: i64) = word_of_int (sint a)" by simp
  moreover have "sint (word_of_int (sint a) :: i64) = sint a"
    using i32_range [of a] by (intro sint_word_of_int_self) simp_all
  ultimately show ?thesis by metis
qed

lemma ucast_32_eq: "(ucast (w :: i64) :: i32) = word_of_int (sint w)"
  by (rule bit_word_eqI) (simp add: bit_ucast_iff bit_signed_iff min_def)

lemma mod_once_above: "n \<le> x \<Longrightarrow> x < 2 * n \<Longrightarrow> x mod n = x - n" for x n :: int
  using mod_pos_pos_trivial [of "x - n" n] by simp

lemma mod_once_below: "- n \<le> x \<Longrightarrow> x < 0 \<Longrightarrow> x mod n = x + n" for x n :: int
  using mod_pos_pos_trivial [of "x + n" n] by simp

text \<open>The arithmetic shift by 31 is the sign mask.\<close>

lemma mask31: "signed_drop_bit 31 (w :: i32) = (if sint w < 0 then - 1 else 0)"
proof -
  have "sint (signed_drop_bit 31 w) = sint w div 2 ^ 31"
    by (simp add: sint_signed_drop_bit_eq drop_bit_eq_div)
  moreover have "sint w div 2 ^ 31 = (if sint w < 0 then - 1 else 0)"
  proof (cases "sint w < 0")
    case True
    have "(sint w + 2 ^ 31) div 2 ^ 31 = 0" using True i32_range [of w] by (intro div_pos_pos_trivial) simp_all
    then show ?thesis using True by simp
  next
    case False
    then show ?thesis using i32_range [of w] by simp
  qed
  ultimately have "sint (signed_drop_bit 31 w) = sint (if sint w < 0 then - 1 else 0 :: i32)" by simp
  then show ?thesis using signed_word_eqI by blast
qed

lemma masked [simp]: "a AND (if P then - 1 else 0) = (if P then a else (0 :: i32))"
  by simp

lemma nonzero_mask: "signed_drop_bit 31 (w OR (- w)) = (if w = 0 then 0 else (- 1 :: i32))"
proof (cases "w = 0")
  case False
  have "sint (w OR (- w)) < 0"
  proof (rule ccontr)
    assume "\<not> sint (w OR (- w)) < 0"
    then have nb: "\<not> bit w 31" "\<not> bit (- w) 31"
      using bit_last_iff [of "w OR (- w)"] by (auto simp: bit_or_iff)
    then have "0 \<le> sint w" "0 \<le> sint (- w)" using bit_last_iff [of w] bit_last_iff [of "- w"] by auto
    moreover have "sint (- w) = - sint w"
    proof -
      have "sint (word_of_int (- sint w) :: i32) = - sint w"
        using i32_range [of w] \<open>0 \<le> sint w\<close> by (intro sint_word_of_int_self) simp_all
      then show ?thesis by simp
    qed
    ultimately have "sint w = 0" by simp
    then show False using False by (simp add: signed_eq_0_iff)
  qed
  with False show ?thesis by (simp add: mask31)
qed simp

text \<open>The conditional corrections of the branch-free code.\<close>

lemma cond_add_Q: "t + (Q AND signed_drop_bit 31 t) = (if sint t < 0 then t + Q else t)"
  by (simp add: mask31)

lemma cond_sub_Q:
  assumes "0 \<le> sint t" and "sint t < 2 * 8380417"
  shows "sint ((t - Q) + (Q AND signed_drop_bit 31 (t - Q))) = (if sint t < 8380417 then sint t else sint t - 8380417)"
proof -
  have "sint (t - Q) = sint t - 8380417" using assms by (subst sint_sub_i32) simp_all
  then show ?thesis by (simp add: mask31)
qed

section \<open>Montgomery reduction\<close>

lemma mont_quotient:
  fixes product :: i64
  assumes "u = (ucast product :: i32) * Q_INV" and P: "P = sint product"
  shows "(P - sint u * 8380417) mod 2 ^ 32 = 0"
proof -
  have "Q_INV = word_of_int 58728449" by (simp add: Q_INV_def)
  then have u: "u = word_of_int (P * 58728449)"
    unfolding assms(1) ucast_32_eq P [symmetric] by (simp only: of_int_mult)
  have "take_bit 32 (sint u) = take_bit 32 (P * 58728449)"
    unfolding u sint_sbintrunc' by (simp add: take_bit_signed_take_bit)
  then have "eqmod (2 ^ 32) (sint u) (P * 58728449)" by (simp add: take_bit_eq_mod eqmod_def)
  then have "eqmod (2 ^ 32) (P - sint u * 8380417) (P - P * 58728449 * 8380417)"
    by (intro eqmod_intros)
  also have "P - P * 58728449 * 8380417 = P * (- 114592) * 2 ^ 32" by simp
  also have "eqmod (2 ^ 32) (P * (- 114592) * 2 ^ 32) 0" by (simp add: eqmod_def)
  finally show ?thesis by (simp add: eqmod_def)
qed

lemma montgomery_reduce_correct:
  assumes lo: "- (2 ^ 31 * 8380417) \<le> sint product" and hi: "sint product \<le> 2 ^ 31 * 8380417"
  shows "canonical (montgomery_reduce product)"
    and "sint (montgomery_reduce product) * 2 ^ 32 mod 8380417 = sint product mod 8380417"
proof -
  define P where "P = sint product"
  define u where "u = (ucast product :: i32) * Q_INV"
  define T where "T = (P - sint u * 8380417) div 2 ^ 32"
  define t where "t = (ucast (signed_drop_bit 32 (product - scast u * scast Q)) :: i32)"
  have T: "T * 2 ^ 32 = P - sint u * 8380417"
    using mont_quotient [OF u_def P_def] div_mult_mod_eq [of "P - sint u * 8380417" "2 ^ 32"] by (simp add: T_def)
  have ub: "- (2 ^ 31) \<le> sint u" "sint u < 2 ^ 31" by (rule i32_range)+
  have Tb: "- 8380417 \<le> T" "T \<le> 8380417" using T lo hi ub by (simp_all add: P_def)
  have "sint (scast u * scast Q :: i64) = sint u * 8380417"
    using ub by (subst sint_mult_i64) simp_all
  then have "sint (product - scast u * scast Q) = P - sint u * 8380417"
    using ub lo hi by (subst sint_sub_i64) (simp_all add: P_def)
  then have "sint (signed_drop_bit 32 (product - scast u * scast Q)) = T"
    by (simp add: sint_signed_drop_bit_eq drop_bit_eq_div T_def)
  then have st: "sint t = T"
    unfolding t_def ucast_32_eq using Tb by (simp only:) (rule sint_word_of_int_self, simp_all)
  define r where "r = t + (Q AND signed_drop_bit 31 t)"
  have r: "sint r = (if T < 0 then T + 8380417 else T)"
    unfolding r_def cond_add_Q st using Tb by (simp add: sint_add_i32 st)
  then have rb: "0 \<le> sint r" "sint r < 2 * 8380417" using Tb by (auto split: if_splits)
  have res: "sint (montgomery_reduce product) = (if sint r < 8380417 then sint r else sint r - 8380417)"
    using cond_sub_Q [OF rb] unfolding montgomery_reduce_def Let_def r_def t_def u_def by (simp only:)
  then show "canonical (montgomery_reduce product)" using rb by (auto simp: canonical_def)
  have "eqmod 8380417 (sint (montgomery_reduce product)) T"
    using r unfolding res eqmod_def by (auto simp: mod_diff_eq [symmetric])
  then have "eqmod 8380417 (sint (montgomery_reduce product) * 2 ^ 32) (T * 2 ^ 32)"
    by (rule eqmod_mult) simp
  also have "eqmod 8380417 (T * 2 ^ 32) P" unfolding T by (simp add: eqmod_dvd)
  finally show "sint (montgomery_reduce product) * 2 ^ 32 mod 8380417 = sint product mod 8380417"
    by (simp add: eqmod_def P_def)
qed

text \<open>Division by \<open>2^32\<close> is multiplication by 8265825 in the field.\<close>

lemma montgomery_reduce_value:
  assumes "- (2 ^ 31 * 8380417) \<le> sint product" and "sint product \<le> 2 ^ 31 * 8380417"
  shows "sint (montgomery_reduce product) = sint product * 8265825 mod 8380417"
proof -
  let ?r = "sint (montgomery_reduce product)"
  note m = montgomery_reduce_correct [OF assms]
  have "eqmod 8380417 (?r * 2 ^ 32 * 8265825) (sint product * 8265825)"
    using m(2) by (intro eqmod_mult) (simp_all add: eqmod_def)
  moreover have "eqmod 8380417 (?r * (2 ^ 32 * 8265825)) (?r * 1)" by (intro eqmod_mult) (simp_all add: eqmod_def)
  ultimately have "eqmod 8380417 ?r (sint product * 8265825)" by (simp add: eqmod_def mult.assoc)
  moreover have "?r mod 8380417 = ?r" using m(1) by (simp add: canonical_def)
  ultimately show ?thesis by (simp add: eqmod_def)
qed

section \<open>The field operations\<close>

lemma canonical_bounds: "canonical a \<Longrightarrow> 0 \<le> sint a" "canonical a \<Longrightarrow> sint a < 8380417"
  by (simp_all add: canonical_def)

lemma canonical_eqI: "sint a = sint b \<Longrightarrow> a = b" for a b :: i32
  by (rule signed_word_eqI)

lemma scalar_add_value:
  assumes "canonical a" and "canonical b"
  shows "sint (scalar_add a b) = (sint a + sint b) mod 8380417"
proof -
  note c = canonical_bounds [OF assms(1)] canonical_bounds [OF assms(2)]
  have s: "sint (a + b) = sint a + sint b" using c by (intro sint_add_i32) simp_all
  have "sint (scalar_add a b) = (if sint (a + b) < 8380417 then sint (a + b) else sint (a + b) - 8380417)"
    unfolding scalar_add_def Let_def using c by (intro cond_sub_Q) (simp_all add: s)
  also have "\<dots> = (sint a + sint b) mod 8380417"
  proof (cases "sint a + sint b < 8380417")
    case False
    then have "(sint a + sint b) mod 8380417 = sint a + sint b - 8380417" using c by (intro mod_once_above) simp_all
    with False s show ?thesis by simp
  qed (use c s in simp)
  finally show ?thesis .
qed

lemma scalar_sub_value:
  assumes "canonical a" and "canonical b"
  shows "sint (scalar_sub a b) = (sint a - sint b) mod 8380417"
proof -
  note c = canonical_bounds [OF assms(1)] canonical_bounds [OF assms(2)]
  have s: "sint (a - b) = sint a - sint b" using c by (intro sint_sub_i32) simp_all
  show ?thesis
  proof (cases "sint a - sint b < 0")
    case True
    then have "sint (a - b + Q) = sint a - sint b + 8380417" using c s by (subst sint_add_i32) simp_all
    moreover have "(sint a - sint b) mod 8380417 = sint a - sint b + 8380417"
      using c True by (intro mod_once_below) simp_all
    ultimately show ?thesis using True by (simp add: scalar_sub_def Let_def mask31 s)
  next
    case False
    then show ?thesis using c by (simp add: scalar_sub_def Let_def mask31 s)
  qed
qed

lemma scalar_mul_value:
  assumes "canonical a" and "- (2 ^ 31) \<le> sint b" and "sint b < 2 ^ 31"
  shows "sint (scalar_mul a b) = sint a * sint b * 8265825 mod 8380417"
proof -
  note c = canonical_bounds [OF assms(1)]
  have hi: "\<bar>sint a * sint b\<bar> \<le> 8380417 * 2 ^ 31"
    unfolding abs_mult using c assms(2,3) by (intro mult_mono) auto
  have p: "sint (scast a * scast b :: i64) = sint a * sint b"
    using hi by (subst sint_mult_i64) simp_all
  show ?thesis unfolding scalar_mul_def Let_def
    using hi by (subst montgomery_reduce_value) (simp_all add: p)
qed

lemma scalar_neg_value:
  assumes "canonical a"
  shows "sint (scalar_neg a) = (- sint a) mod 8380417"
proof (cases "a = 0")
  case False
  note c = canonical_bounds [OF assms]
  have "sint a \<noteq> 0" using False by (simp add: signed_eq_0_iff)
  then have "(- sint a) mod 8380417 = 8380417 - sint a"
    using c by (subst zmod_zminus1_eq_if) auto
  moreover have "sint (Q - a) = 8380417 - sint a" using c by (subst sint_sub_i32) simp_all
  ultimately show ?thesis using False by (simp add: scalar_neg_def Let_def nonzero_mask)
qed (simp add: scalar_neg_def Let_def nonzero_mask)

lemma canonical_mod: "sint a = x mod 8380417 \<Longrightarrow> canonical a"
  by (simp add: canonical_def)

lemmas scalar_closed = scalar_add_value [THEN canonical_mod] scalar_sub_value [THEN canonical_mod]
  scalar_mul_value [THEN canonical_mod] scalar_neg_value [THEN canonical_mod]

section \<open>Properties\<close>



lemma scalar_field_values:
  assumes "canonical a" and "canonical b"
  shows "canonical (scalar_add a b) \<and> sint (scalar_add a b) = (sint a + sint b) mod 8380417"
    and "canonical (scalar_sub a b) \<and> sint (scalar_sub a b) = (sint a - sint b) mod 8380417"
    and "canonical (scalar_neg a) \<and> sint (scalar_neg a) = (- sint a) mod 8380417"
    and "canonical (scalar_mul a b) \<and> sint (scalar_mul a b) * 2 ^ 32 mod 8380417 = sint a * sint b mod 8380417"
proof -
  note v = scalar_add_value [OF assms] scalar_sub_value [OF assms] scalar_neg_value [OF assms(1)]
  from v show "canonical (scalar_add a b) \<and> sint (scalar_add a b) = (sint a + sint b) mod 8380417"
    and "canonical (scalar_sub a b) \<and> sint (scalar_sub a b) = (sint a - sint b) mod 8380417"
    and "canonical (scalar_neg a) \<and> sint (scalar_neg a) = (- sint a) mod 8380417"
    by (simp_all add: canonical_mod)
  have m: "sint (scalar_mul a b) = sint a * sint b * 8265825 mod 8380417"
    by (rule scalar_mul_value [OF assms(1) i32_range])
  have "sint a * sint b * 8265825 * 2 ^ 32 mod 8380417 = sint a * sint b * (8265825 * 2 ^ 32 mod 8380417) mod 8380417"
    unfolding mult.assoc by (intro eqmod_mult [unfolded eqmod_def] refl) simp
  then have "sint a * sint b * 8265825 * 2 ^ 32 mod 8380417 = sint a * sint b mod 8380417" by simp
  with m show "canonical (scalar_mul a b)
      \<and> sint (scalar_mul a b) * 2 ^ 32 mod 8380417 = sint a * sint b mod 8380417"
    by (simp add: canonical_mod mod_mult_left_eq)
qed

text \<open>
  on canonical operands the branch-free scalar operations are those of the field: sum,
  difference, negative and Montgomery product modulo q, each canonical again.
\<close>

theorem scalar_field_ops:
  assumes "canonical a" and "canonical b"
  shows "(canonical (scalar_add a b) \<and> sint (scalar_add a b) = (sint a + sint b) mod 8380417)
    \<and> (canonical (scalar_sub a b) \<and> sint (scalar_sub a b) = (sint a - sint b) mod 8380417)
    \<and> (canonical (scalar_neg a) \<and> sint (scalar_neg a) = (- sint a) mod 8380417)
    \<and> (canonical (scalar_mul a b) \<and> sint (scalar_mul a b) * 2 ^ 32 mod 8380417 = sint a * sint b mod 8380417)"
  using scalar_field_values [OF assms] by blast

theorem scalar_field_ops_witness:
  "sint (scalar_add 8380416 10) = (sint (8380416 :: i32) + sint (10 :: i32)) mod 8380417
    \<and> sint (scalar_sub 8380416 10) = (sint (8380416 :: i32) - sint (10 :: i32)) mod 8380417"
  using scalar_field_ops [of 8380416 10] by (simp add: canonical_def)

text \<open>The constant-time zero tests.\<close>

lemma is_zero_ct_mask: "is_zero_ct a = (if scalar_is_zero a then - 1 else 0)"
  by (simp add: is_zero_ct_def scalar_is_zero_def nonzero_mask)

end
