(* ===== verification/Poly.thy ===== *)
theory Poly
  imports Scalar "HOL-Library.Multiset"
begin

text \<open>
  Polynomials of ML-DSA-65 (\<open>solomon-core/src/crypto/poly.rs\<close>): the twiddle table, the linear
  congruential generator and coefficient hash that seed the execution shuffle, the shuffled
  NTT and its inverse, pointwise and schoolbook products, serialization and the norms.
  A \<open>Polynomial\<close> is its array of 256 coefficients.

  The locale \<open>butterfly_kernel\<close> states what a butterfly does to one pair of coefficients; from it
  follows, once for both transforms, that a stage does not depend on the order in which its
  128 butterflies run, so the shuffle (a permutation, whatever the seed) cannot change a
  result.  The main theorem is that the inverse transform undoes the transform.
\<close>

section \<open>Definitions\<close>

type_synonym poly = "i32 list"

definition ZETAS :: "i32 list" where
  "ZETAS =
    [4193792, 25847, 5771523, 7861508, 237124, 7602457, 7504169, 466468, 1826347, 2353451, 8021166, 6288512,
     3119733, 5495562, 3111497, 2680103, 2725464, 1024112, 7300517, 3585928, 7830929, 7260833, 2619752, 6271868,
     6262231, 4520680, 6980856, 5102745, 1757237, 8360995, 4010497, 280005, 2706023, 95776, 3077325, 3530437,
     6718724, 4788269, 5842901, 3915439, 4519302, 5336701, 3574422, 5512770, 3539968, 8079950, 2348700, 7841118,
     6681150, 6736599, 3505694, 4558682, 3507263, 6239768, 6779997, 3699596, 811944, 531354, 954230, 3881043,
     3900724, 5823537, 2071892, 5582638, 4450022, 6851714, 4702672, 5339162, 6927966, 3475950, 2176455, 6795196,
     7122806, 1939314, 4296819, 7380215, 5190273, 5223087, 4747489, 126922, 3412210, 7396998, 2147896, 2715295,
     5412772, 4686924, 7969390, 5903370, 7709315, 7151892, 8357436, 7072248, 7998430, 1349076, 1852771, 6949987,
     5037034, 264944, 508951, 3097992, 44288, 7280319, 904516, 3958618, 4656075, 8371839, 1653064, 5130689,
     2389356, 8169440, 759969, 7063561, 189548, 4827145, 3159746, 6529015, 5971092, 8202977, 1315589, 1341330,
     1285669, 6795489, 7567685, 6940675, 5361315, 4499357, 4751448, 3839961, 2091667, 3407706, 2316500, 3817976,
     5037939, 2244091, 5933984, 4817955, 266997, 2434439, 7144689, 3513181, 4860065, 4621053, 7183191, 5187039,
     900702, 1859098, 909542, 819034, 495491, 6767243, 8337157, 7857917, 7725090, 5257975, 2031748, 3207046,
     4823422, 7855319, 7611795, 4784579, 342297, 286988, 5942594, 4108315, 3437287, 5038140, 1735879, 203044,
     2842341, 2691481, 5790267, 1265009, 4055324, 1247620, 2486353, 1595974, 4613401, 1250494, 2635921, 4832145,
     5386378, 1869119, 1903435, 7329447, 7047359, 1237275, 5062207, 6950192, 7929317, 1312455, 3306115, 6417775,
     7100756, 1917081, 5834105, 7005614, 1500165, 777191, 2235880, 3406031, 7838005, 5548557, 6709241, 6533464,
     5796124, 4656147, 594136, 4603424, 6366809, 2432395, 2454455, 8215696, 1957272, 3369112, 185531, 7173032,
     5196991, 162844, 1616392, 3014001, 810149, 1652634, 4686184, 6581310, 5341501, 3523897, 3866901, 269760,
     2213111, 7404533, 1717735, 472078, 7953734, 1723600, 6577327, 1910376, 6712985, 7276084, 8119771, 4546524,
     5441381, 6144432, 7959518, 6094090, 183443, 7403526, 1612842, 4834730, 7826001, 3919660, 8332111, 7018208,
     3937738, 1400424, 7534263, 1976782]"

subsection \<open>The shuffle\<close>

definition lcg_next_u32 :: "u64 \<Rightarrow> u32 \<times> u64" where
  "lcg_next_u32 state =
    (let state' = state * 6364136223846793005 + 1442695040888963407
     in (ucast (drop_bit 32 state'), state'))"

definition hash_coefficients :: "poly \<Rightarrow> u64" where
  "hash_coefficients coeffs =
    fold (\<lambda>c hash. (hash XOR scast c) * 0x100000001b3) coeffs 0xcbf29ce484222325"

definition swap_at :: "nat \<Rightarrow> nat \<Rightarrow> 'a list \<Rightarrow> 'a list" where
  "swap_at i j xs = xs[i := xs ! j, j := xs ! i]"

text \<open>The Fisher-Yates loop: \<open>i\<close> runs from 127 down to 1.\<close>

fun shuffle_loop :: "nat \<Rightarrow> nat list \<Rightarrow> u64 \<Rightarrow> nat list \<times> u64" where
  "shuffle_loop 0 order state = (order, state)"
| "shuffle_loop (Suc k) order state =
    (let i = Suc k;
         (r, state') = lcg_next_u32 state;
         j = unat (drop_bit 32 ((ucast r :: u64) * word_of_nat (i + 1)))
     in shuffle_loop k (swap_at i j order) state')"

definition shuffled_order :: "u64 \<Rightarrow> nat list \<times> u64" where
  "shuffled_order state = shuffle_loop 127 [0..<128] state"

fun trailing_zeros :: "nat \<Rightarrow> nat" where
  "trailing_zeros n = (if n = 0 then 64 else if odd n then 0 else Suc (trailing_zeros (n div 2)))"

declare trailing_zeros.simps [simp del]

subsection \<open>The transforms\<close>

definition ntt_step :: "nat \<Rightarrow> nat \<Rightarrow> poly \<Rightarrow> poly" where
  "ntt_step len idx coeffs =
    (let shift = trailing_zeros len;
         block_idx = drop_bit shift idx;
         offset = idx AND (len - 1);
         start = block_idx * len * 2;
         j = start + offset;
         k_val = drop_bit shift 128 + block_idx;
         zeta = ZETAS ! k_val;
         s_j = coeffs ! j;
         s_j_len = coeffs ! (j + len);
         t = scalar_mul s_j_len zeta
     in coeffs[j := scalar_add s_j t, j + len := scalar_sub s_j t])"

function ntt_loop :: "nat \<Rightarrow> u64 \<Rightarrow> poly \<Rightarrow> poly" where
  "ntt_loop len prng coeffs =
    (if len \<ge> 1 then
       (let (order, prng') = shuffled_order prng
        in ntt_loop (len div 2) prng' (fold (ntt_step len) order coeffs))
     else coeffs)"
  by pat_completeness auto
termination by (relation "measure (\<lambda>(len, prng, coeffs). len)") auto

declare ntt_loop.simps [simp del]

definition ntt :: "poly \<Rightarrow> poly" where
  "ntt coeffs = ntt_loop 128 (hash_coefficients coeffs) coeffs"

definition intt_step :: "nat \<Rightarrow> nat \<Rightarrow> poly \<Rightarrow> poly" where
  "intt_step len idx coeffs =
    (let shift = trailing_zeros len;
         block_idx = drop_bit shift idx;
         offset = idx AND (len - 1);
         start = block_idx * len * 2;
         j = start + offset;
         k_val = drop_bit shift 256 - 1 - block_idx;
         zeta = Q - ZETAS ! k_val;
         s_j = coeffs ! j;
         s_j_len = coeffs ! (j + len);
         total = scalar_add s_j s_j_len;
         diff = scalar_sub s_j s_j_len;
         product = scalar_mul diff zeta
     in coeffs[j := total, j + len := product])"

function intt_loop :: "nat \<Rightarrow> u64 \<Rightarrow> poly \<Rightarrow> poly" where
  "intt_loop len prng coeffs =
    (if 1 \<le> len \<and> len \<le> 128 then
       (let (order, prng') = shuffled_order prng
        in intt_loop (len * 2) prng' (fold (intt_step len) order coeffs))
     else coeffs)"
  by pat_completeness auto
termination by (relation "measure (\<lambda>(len, prng, coeffs). 256 - len)") auto

declare intt_loop.simps [simp del]

definition intt :: "poly \<Rightarrow> poly" where
  "intt coeffs =
    map (\<lambda>s. scalar_mul s 16382) (intt_loop 1 (hash_coefficients coeffs) coeffs)"

subsection \<open>The other operations\<close>

definition poly_new :: poly where
  "poly_new = replicate 256 0"

definition reduce_coeff :: "i32 \<Rightarrow> i32" where
  "reduce_coeff c = montgomery_reduce (scast c * 4193792)"

definition from_coeffs :: "poly \<Rightarrow> poly" where
  "from_coeffs coeffs = map reduce_coeff coeffs"

definition poly_set :: "i32 \<Rightarrow> poly" where
  "poly_set v = (let canonical_val = reduce_coeff v in replicate 256 canonical_val)"

definition poly_reduce :: "poly \<Rightarrow> poly" where
  "poly_reduce coeffs = map reduce_coeff coeffs"

definition poly_add :: "poly \<Rightarrow> poly \<Rightarrow> poly" where
  "poly_add a b = map2 scalar_add a b"

definition poly_sub :: "poly \<Rightarrow> poly \<Rightarrow> poly" where
  "poly_sub a b = map2 scalar_sub a b"

definition f_2_64 :: i32 where
  "f_2_64 = ucast (irem (4193792 * 4193792) (scast Q :: i64))"

definition mul_pointwise_ntt :: "poly \<Rightarrow> poly \<Rightarrow> poly" where
  "mul_pointwise_ntt a b = map2 (\<lambda>s_a s_b. scalar_mul (scalar_mul s_a s_b) f_2_64) a b"

definition mul_ntt :: "poly \<Rightarrow> poly \<Rightarrow> poly" where
  "mul_ntt a b = intt (mul_pointwise_ntt (ntt a) (ntt b))"

definition schoolbook_step :: "poly \<Rightarrow> poly \<Rightarrow> nat \<Rightarrow> nat \<Rightarrow> poly \<Rightarrow> poly" where
  "schoolbook_step a b i j result =
    (let k = i + j;
         product = (scast (a ! i) :: i64) * scast (b ! j)
     in if k < 256 then result[k := montgomery_reduce ((scast (result ! k) + product) * 4193792)]
        else result[k - 256 := montgomery_reduce ((scast (result ! (k - 256)) - product) * 4193792)])"

definition mul_schoolbook :: "poly \<Rightarrow> poly \<Rightarrow> poly" where
  "mul_schoolbook a b =
    fold (\<lambda>i. fold (\<lambda>j. schoolbook_step a b i j) [0..<256]) [0..<256] poly_new"

definition poly_neg :: "poly \<Rightarrow> poly" where
  "poly_neg a = map scalar_neg a"

definition canonicalize :: "poly \<Rightarrow> poly" where
  "canonicalize a = poly_reduce a"

definition rejection_sample :: poly where
  "rejection_sample = map (\<lambda>i. reduce_coeff (word_of_nat i * 31 + 17)) [0..<256]"

definition poly_is_zero :: "poly \<Rightarrow> bool" where
  "poly_is_zero a = (fold (\<lambda>s mask. mask OR s) a 0 = 0)"

definition poly_is_one :: "poly \<Rightarrow> bool" where
  "poly_is_one a = (fold (\<lambda>s mask. mask OR s) (tl a) (0 OR (a ! 0 - 1)) = 0)"

definition poly_norm :: "poly \<Rightarrow> i64" where
  "poly_norm a = fold (\<lambda>c sum. sum + scast c * scast c) a 0"

definition poly_to_bytes :: "poly \<Rightarrow> bytes" where
  "poly_to_bytes a = concat (map scalar_to_bytes a)"

definition poly_from_bytes :: "bytes \<Rightarrow> poly" where
  "poly_from_bytes bs = map (\<lambda>i. reduce_coeff (scalar_from_bytes
     [bs ! (i * 4), bs ! (i * 4 + 1), bs ! (i * 4 + 2), bs ! (i * 4 + 3)])) [0..<256]"

definition get_coeff :: "poly \<Rightarrow> nat \<Rightarrow> i32" where
  "get_coeff a index = (if index < 256 then a ! index else 0)"

definition set_coeff :: "poly \<Rightarrow> nat \<Rightarrow> i32 \<Rightarrow> poly" where
  "set_coeff a index v = (if index < 256 then a[index := reduce_coeff v] else a)"

text \<open>One step of the constant-time maximum of \<open>inf_norm\<close>.\<close>

definition inf_norm_step :: "i32 \<Rightarrow> i32 \<Rightarrow> i32" where
  "inf_norm_step c mx =
    (let limit = idiv (Q - 1) 2;
         diff = limit - c;
         mask = signed_drop_bit 31 diff;
         abs_val = (c AND NOT mask) OR ((Q - c) AND mask);
         diff_max = mx - abs_val;
         mask_max = signed_drop_bit 31 diff_max
     in (mx AND NOT mask_max) OR (abs_val AND mask_max))"

definition inf_norm :: "poly \<Rightarrow> i32" where
  "inf_norm a = fold inf_norm_step a 0"

definition canonical_poly :: "poly \<Rightarrow> bool" where
  "canonical_poly p \<longleftrightarrow> length p = 256 \<and> list_all canonical p"

section \<open>The shuffle is a permutation\<close>

lemma lcg_index_bound:
  assumes "n \<le> 2 ^ 32" and "0 < n"
  shows "unat (drop_bit 32 ((ucast (r :: u32) :: u64) * word_of_nat n)) < n"
proof -
  have r: "unat (ucast r :: u64) = unat r" "unat r < 2 ^ 32"
    using unsigned_less [of r, where ?'a = nat] by (simp_all add: unsigned_ucast_eq take_bit_nat_eq_self)
  have n: "unat (word_of_nat n :: u64) = n" using assms(1) by (simp add: unat_of_nat)
  have lt: "unat r * n < 2 ^ 32 * n" using r(2) assms(2) by simp
  also have "\<dots> \<le> 2 ^ 32 * 2 ^ 32" using assms(1) by simp
  finally have "unat ((ucast r :: u64) * word_of_nat n) = unat r * n"
    using unat_mult_lem [of "ucast r :: u64" "word_of_nat n"] by (simp add: r(1) n)
  then have "unat (drop_bit 32 ((ucast r :: u64) * word_of_nat n)) = unat r * n div 2 ^ 32"
    by (simp add: drop_bit_eq_div unat_div)
  also have "\<dots> < n" using lt by (simp add: less_mult_imp_div_less mult.commute)
  finally show ?thesis .
qed

lemma mset_swap_at: "i < length xs \<Longrightarrow> j < length xs \<Longrightarrow> mset (swap_at i j xs) = mset xs"
  unfolding swap_at_def by (rule mset_swap)

lemma mset_shuffle_loop:
  "k < length order \<Longrightarrow> length order \<le> 2 ^ 32 \<Longrightarrow> mset (fst (shuffle_loop k order state)) = mset order"
proof (induction k arbitrary: order state)
  case 0
  then show ?case by simp
next
  case (Suc k)
  obtain r state' where r: "lcg_next_u32 state = (r, state')" by fastforce
  let ?j = "unat (drop_bit 32 ((ucast r :: u64) * word_of_nat (Suc k + 1)))"
  have "?j < Suc k + 1" by (rule lcg_index_bound) (use Suc.prems in auto)
  then have j: "?j < length order" using Suc.prems(1) by simp
  have "mset (fst (shuffle_loop k (swap_at (Suc k) ?j order) state')) = mset (swap_at (Suc k) ?j order)"
    using Suc.prems by (intro Suc.IH) (simp_all add: swap_at_def)
  also have "\<dots> = mset order" using Suc.prems(1) j by (rule mset_swap_at)
  finally show ?case using r by (simp add: Let_def)
qed

lemma shuffled_order_permutation: "mset (fst (shuffled_order state)) = mset [0..<128]"
  unfolding shuffled_order_def by (rule mset_shuffle_loop) simp_all

lemma shuffled_order_set: "set (fst (shuffled_order state)) = {..<128}" "distinct (fst (shuffled_order state))"
proof -
  note m = shuffled_order_permutation [of state]
  show "set (fst (shuffled_order state)) = {..<128}" using mset_eq_setD [OF m] by (simp add: lessThan_atLeast0)
  show "distinct (fst (shuffled_order state))" using mset_eq_imp_distinct_iff [OF m] by (simp del: upt_rec_numeral)
qed

section \<open>The pairs of a stage\<close>

definition lo :: "nat \<Rightarrow> nat \<Rightarrow> nat" where
  "lo len idx = idx div len * len * 2 + idx mod len"

lemma lo_div_mod:
  assumes "0 < len"
  shows "lo len i div (2 * len) = i div len" "lo len i mod (2 * len) = i mod len"
    "(lo len i + len) div (2 * len) = i div len" "(lo len i + len) mod (2 * len) = i mod len + len"
proof -
  have m: "i mod len < len" using assms by simp
  have e: "lo len i = i mod len + i div len * (2 * len)" by (simp add: lo_def mult.commute)
  have e2: "lo len i + len = (i mod len + len) + i div len * (2 * len)" using e by simp
  show "lo len i div (2 * len) = i div len" "lo len i mod (2 * len) = i mod len"
    unfolding e using m by simp_all
  show "(lo len i + len) div (2 * len) = i div len" "(lo len i + len) mod (2 * len) = i mod len + len"
    unfolding e2 using m by simp_all
qed

lemma lo_inj: "0 < len \<Longrightarrow> lo len i = lo len j \<longleftrightarrow> i = j"
  by (metis lo_div_mod(1,2) div_mult_mod_eq)

lemma lo_hi_distinct: "0 < len \<Longrightarrow> lo len i \<noteq> lo len j + len"
proof
  assume len: "0 < len" and eq: "lo len i = lo len j + len"
  have "i mod len = j mod len + len" using lo_div_mod(2,4) [OF len] eq by metis
  moreover have "i mod len < len" using len by simp
  ultimately show False by simp
qed

lemma lo_bound:
  assumes "len dvd 128" and "0 < len" and "i < 128"
  shows "lo len i + len < 256"
proof -
  obtain c where c: "128 = len * c" using assms(1) by blast
  then have "i div len < c" using assms(2,3) by (simp add: less_mult_imp_div_less mult.commute)
  then have "Suc (i div len) * (len * 2) \<le> c * (len * 2)" by (intro mult_right_mono) simp_all
  moreover have "i mod len < len" using assms(2) by simp
  ultimately show ?thesis using c by (simp add: lo_def algebra_simps)
qed

text \<open>Every position is the lower or the upper member of a pair.\<close>

lemma pair_cases:
  assumes "len dvd 128" and "0 < len" and "p < 256"
  obtains i where "i < 128" "p = lo len i" | i where "i < 128" "p = lo len i + len"
proof -
  obtain c where c: "128 = len * c" using assms(1) by blast
  define i where "i = p div (2 * len) * len + p mod (2 * len) mod len"
  have m: "p mod (2 * len) mod len < len" using assms(2) by simp
  have "p div (2 * len) < c" using assms(2,3) c by (simp add: less_mult_imp_div_less algebra_simps)
  then have "Suc (p div (2 * len)) * len \<le> c * len" by (intro mult_right_mono) simp_all
  then have i: "i < 128" using m c by (simp add: i_def algebra_simps)
  have d: "i div len = p div (2 * len)" "i mod len = p mod (2 * len) mod len"
    using m by (simp_all add: i_def)
  have pe: "p div (2 * len) * len * 2 + p mod (2 * len) = p"
    using div_mult_mod_eq [of p "2 * len"] by (simp add: mult.assoc mult.commute)
  show thesis
  proof (cases "p mod (2 * len) < len")
    case True
    then have "p = lo len i" using pe by (simp add: lo_def d)
    with i that(1) show thesis by blast
  next
    case False
    have "p mod (2 * len) < 2 * len" using assms(2) by simp
    with False have "p mod (2 * len) mod len + len = p mod (2 * len)"
      by (simp add: mod_if [of "p mod (2 * len)" len] not_less)
    then have "p = lo len i + len" using pe by (simp add: lo_def d)
    with i that(2) show thesis by blast
  qed
qed

section \<open>Stages do not depend on the order\<close>

locale butterfly_kernel =
  fixes step :: "nat \<Rightarrow> nat \<Rightarrow> poly \<Rightarrow> poly"
    and top :: "nat \<Rightarrow> nat \<Rightarrow> i32 \<Rightarrow> i32 \<Rightarrow> i32" and bot :: "nat \<Rightarrow> nat \<Rightarrow> i32 \<Rightarrow> i32 \<Rightarrow> i32"
  assumes step_eq: "s \<le> 7 \<Longrightarrow> i < 128 \<Longrightarrow> step (2 ^ s) i p
      = p[lo (2 ^ s) i := top (2 ^ s) (i div 2 ^ s) (p ! lo (2 ^ s) i) (p ! (lo (2 ^ s) i + 2 ^ s)),
          lo (2 ^ s) i + 2 ^ s := bot (2 ^ s) (i div 2 ^ s) (p ! lo (2 ^ s) i) (p ! (lo (2 ^ s) i + 2 ^ s))]"
    and closed: "s \<le> 7 \<Longrightarrow> b < 2 ^ (7 - s) \<Longrightarrow> canonical x \<Longrightarrow> canonical y \<Longrightarrow>
      canonical (top (2 ^ s) b x y) \<and> canonical (bot (2 ^ s) b x y)"
begin

lemma dvd_128: "s \<le> 7 \<Longrightarrow> (2 :: nat) ^ s dvd 128"
  using le_imp_power_dvd [of s 7 "2 :: nat"] by simp

lemma fold_step:
  assumes s: "s \<le> 7" and len: "length p = 256"
  shows "distinct os \<Longrightarrow> set os \<subseteq> {..<128} \<Longrightarrow> i < 128 \<Longrightarrow> length p = 256 \<Longrightarrow>
    length (fold (step (2 ^ s)) os p) = 256
    \<and> fold (step (2 ^ s)) os p ! lo (2 ^ s) i
       = (if i \<in> set os then top (2 ^ s) (i div 2 ^ s) (p ! lo (2 ^ s) i) (p ! (lo (2 ^ s) i + 2 ^ s))
          else p ! lo (2 ^ s) i)
    \<and> fold (step (2 ^ s)) os p ! (lo (2 ^ s) i + 2 ^ s)
       = (if i \<in> set os then bot (2 ^ s) (i div 2 ^ s) (p ! lo (2 ^ s) i) (p ! (lo (2 ^ s) i + 2 ^ s))
          else p ! (lo (2 ^ s) i + 2 ^ s))"
proof (induction os arbitrary: p)
  case Nil
  then show ?case by simp
next
  case (Cons k os)
  let ?L = "2 ^ s :: nat"
  let ?q = "step ?L k p"
  have k: "k < 128" "k \<notin> set os" using Cons.prems by auto
  have b: "lo ?L k + ?L < 256" "lo ?L i + ?L < 256"
    using k(1) Cons.prems(3) s by (simp_all add: lo_bound dvd_128)
  note q = step_eq [OF s k(1), of p]
  have lq: "length ?q = 256" using Cons.prems(4) q by simp
  have same: "?q ! lo ?L i = p ! lo ?L i" "?q ! (lo ?L i + ?L) = p ! (lo ?L i + ?L)" if "i \<noteq> k"
    using that lo_inj [of ?L i k] lo_hi_distinct [of ?L i k] lo_hi_distinct [of ?L k i]
    unfolding q by simp_all
  have at: "?q ! lo ?L i = top ?L (i div ?L) (p ! lo ?L i) (p ! (lo ?L i + ?L))"
    "?q ! (lo ?L i + ?L) = bot ?L (i div ?L) (p ! lo ?L i) (p ! (lo ?L i + ?L))" if "i = k"
    using that b Cons.prems(4) lo_hi_distinct [of ?L k k] unfolding q by (simp_all add: nth_list_update)
  have IH: "length (fold (step ?L) os ?q) = 256
    \<and> fold (step ?L) os ?q ! lo ?L i
       = (if i \<in> set os then top ?L (i div ?L) (?q ! lo ?L i) (?q ! (lo ?L i + ?L)) else ?q ! lo ?L i)
    \<and> fold (step ?L) os ?q ! (lo ?L i + ?L)
       = (if i \<in> set os then bot ?L (i div ?L) (?q ! lo ?L i) (?q ! (lo ?L i + ?L)) else ?q ! (lo ?L i + ?L))"
    using Cons.prems lq by (intro Cons.IH) auto
  show ?case
  proof (cases "i = k")
    case True
    then show ?thesis using IH k(2) at by simp
  next
    case False
    then show ?thesis using IH same by simp
  qed
qed

text \<open>The stage run in a shuffled order, position by position.\<close>

lemma stage:
  fixes g :: u64
  assumes "s \<le> 7" and "canonical_poly p"
  defines "r \<equiv> fold (step (2 ^ s)) (fst (shuffled_order g)) p"
  shows "canonical_poly r"
    and "i < 128 \<Longrightarrow> r ! lo (2 ^ s) i = top (2 ^ s) (i div 2 ^ s) (p ! lo (2 ^ s) i) (p ! (lo (2 ^ s) i + 2 ^ s))"
    and "i < 128 \<Longrightarrow> r ! (lo (2 ^ s) i + 2 ^ s) = bot (2 ^ s) (i div 2 ^ s) (p ! lo (2 ^ s) i) (p ! (lo (2 ^ s) i + 2 ^ s))"
proof -
  let ?L = "2 ^ s :: nat"
  have len: "length p = 256" and can: "list_all canonical p" using assms(2) by (simp_all add: canonical_poly_def)
  have f: "length r = 256 \<and> r ! lo ?L i = top ?L (i div ?L) (p ! lo ?L i) (p ! (lo ?L i + ?L))
      \<and> r ! (lo ?L i + ?L) = bot ?L (i div ?L) (p ! lo ?L i) (p ! (lo ?L i + ?L))" if "i < 128" for i
    unfolding r_def using fold_step [OF assms(1) len shuffled_order_set(2) _ that len, of g] that
    by (simp add: shuffled_order_set(1))
  then show "i < 128 \<Longrightarrow> r ! lo ?L i = top ?L (i div ?L) (p ! lo ?L i) (p ! (lo ?L i + ?L))"
    and "i < 128 \<Longrightarrow> r ! (lo ?L i + ?L) = bot ?L (i div ?L) (p ! lo ?L i) (p ! (lo ?L i + ?L))" by blast+
  have "canonical (r ! n)" if n: "n < 256" for n
  proof -
    have c: "canonical (p ! lo ?L i)" "canonical (p ! (lo ?L i + ?L))" "i div ?L < 2 ^ (7 - s)" if "i < 128" for i
    proof -
      have "lo ?L i + ?L < 256" using that assms(1) by (intro lo_bound dvd_128) simp_all
      then show "canonical (p ! lo ?L i)" "canonical (p ! (lo ?L i + ?L))"
        using can len by (auto simp: list_all_length)
      have "(2 :: nat) ^ (7 - s) * 2 ^ s = 2 ^ 7" using assms(1) by (simp flip: power_add)
      then show "i div ?L < 2 ^ (7 - s)" using that by (intro less_mult_imp_div_less) simp
    qed
    have "2 ^ s dvd (128 :: nat)" "0 < (2 :: nat) ^ s" using assms(1) dvd_128 by simp_all
    then show ?thesis
    proof (rule pair_cases [OF _ _ n])
      fix i assume "i < 128" "n = lo ?L i"
      then show ?thesis using f [of i] closed [OF assms(1) c(3,1,2)] by simp
    next
      fix i assume "i < 128" "n = lo ?L i + ?L"
      then show ?thesis using f [of i] closed [OF assms(1) c(3,1,2)] by simp
    qed
  qed
  then show "canonical_poly r" using f [of 0] by (simp add: canonical_poly_def list_all_length)
qed

end

section \<open>The two kernels\<close>

lemma trailing_zeros_power: "trailing_zeros (2 ^ s) = s"
  by (induction s) (simp_all add: trailing_zeros.simps)

lemma and_pred_power: "i AND (2 ^ s - 1) = i mod 2 ^ s" for i :: nat
proof -
  have "i AND mask s = i mod 2 ^ s" by (simp only: take_bit_eq_mask [symmetric] take_bit_eq_mod)
  then show ?thesis by (simp only: mask_eq_exp_minus_1)
qed

definition ct_top :: "nat \<Rightarrow> nat \<Rightarrow> i32 \<Rightarrow> i32 \<Rightarrow> i32" where
  "ct_top len b x y = scalar_add x (scalar_mul y (ZETAS ! (128 div len + b)))"

definition ct_bot :: "nat \<Rightarrow> nat \<Rightarrow> i32 \<Rightarrow> i32 \<Rightarrow> i32" where
  "ct_bot len b x y = scalar_sub x (scalar_mul y (ZETAS ! (128 div len + b)))"

definition gs_bot :: "nat \<Rightarrow> nat \<Rightarrow> i32 \<Rightarrow> i32 \<Rightarrow> i32" where
  "gs_bot len b x y = scalar_mul (scalar_sub x y) (Q - ZETAS ! (256 div len - 1 - b))"

interpretation ct: butterfly_kernel ntt_step ct_top ct_bot
proof
  fix s i :: nat and p :: poly
  show "ntt_step (2 ^ s) i p
      = p[lo (2 ^ s) i := ct_top (2 ^ s) (i div 2 ^ s) (p ! lo (2 ^ s) i) (p ! (lo (2 ^ s) i + 2 ^ s)),
          lo (2 ^ s) i + 2 ^ s := ct_bot (2 ^ s) (i div 2 ^ s) (p ! lo (2 ^ s) i) (p ! (lo (2 ^ s) i + 2 ^ s))]"
    unfolding ntt_step_def Let_def trailing_zeros_power and_pred_power drop_bit_eq_div ct_top_def ct_bot_def lo_def
    by (rule refl)
next
  fix s b :: nat and x y :: i32
  assume "canonical x" "canonical y"
  then show "canonical (ct_top (2 ^ s) b x y) \<and> canonical (ct_bot (2 ^ s) b x y)"
    unfolding ct_top_def ct_bot_def by (intro conjI scalar_closed i32_range)
qed

interpretation gs: butterfly_kernel intt_step "\<lambda>len b. scalar_add" gs_bot
proof
  fix s i :: nat and p :: poly
  show "intt_step (2 ^ s) i p
      = p[lo (2 ^ s) i := scalar_add (p ! lo (2 ^ s) i) (p ! (lo (2 ^ s) i + 2 ^ s)),
          lo (2 ^ s) i + 2 ^ s := gs_bot (2 ^ s) (i div 2 ^ s) (p ! lo (2 ^ s) i) (p ! (lo (2 ^ s) i + 2 ^ s))]"
    unfolding intt_step_def Let_def trailing_zeros_power and_pred_power drop_bit_eq_div gs_bot_def lo_def
    by (rule refl)
next
  fix s b :: nat and x y :: i32
  assume "canonical x" "canonical y"
  then show "canonical (scalar_add x y) \<and> canonical (gs_bot (2 ^ s) b x y)"
    unfolding gs_bot_def by (intro conjI scalar_closed i32_range)
qed

section \<open>The twiddle factors\<close>

lemma length_ZETAS [simp]: "length ZETAS = 256"
  by (simp add: ZETAS_def)

text \<open>The same table as integers.\<close>

definition zeta_ints :: "int list" where
  "zeta_ints =
    [4193792, 25847, 5771523, 7861508, 237124, 7602457, 7504169, 466468, 1826347, 2353451, 8021166, 6288512,
     3119733, 5495562, 3111497, 2680103, 2725464, 1024112, 7300517, 3585928, 7830929, 7260833, 2619752, 6271868,
     6262231, 4520680, 6980856, 5102745, 1757237, 8360995, 4010497, 280005, 2706023, 95776, 3077325, 3530437,
     6718724, 4788269, 5842901, 3915439, 4519302, 5336701, 3574422, 5512770, 3539968, 8079950, 2348700, 7841118,
     6681150, 6736599, 3505694, 4558682, 3507263, 6239768, 6779997, 3699596, 811944, 531354, 954230, 3881043,
     3900724, 5823537, 2071892, 5582638, 4450022, 6851714, 4702672, 5339162, 6927966, 3475950, 2176455, 6795196,
     7122806, 1939314, 4296819, 7380215, 5190273, 5223087, 4747489, 126922, 3412210, 7396998, 2147896, 2715295,
     5412772, 4686924, 7969390, 5903370, 7709315, 7151892, 8357436, 7072248, 7998430, 1349076, 1852771, 6949987,
     5037034, 264944, 508951, 3097992, 44288, 7280319, 904516, 3958618, 4656075, 8371839, 1653064, 5130689,
     2389356, 8169440, 759969, 7063561, 189548, 4827145, 3159746, 6529015, 5971092, 8202977, 1315589, 1341330,
     1285669, 6795489, 7567685, 6940675, 5361315, 4499357, 4751448, 3839961, 2091667, 3407706, 2316500, 3817976,
     5037939, 2244091, 5933984, 4817955, 266997, 2434439, 7144689, 3513181, 4860065, 4621053, 7183191, 5187039,
     900702, 1859098, 909542, 819034, 495491, 6767243, 8337157, 7857917, 7725090, 5257975, 2031748, 3207046,
     4823422, 7855319, 7611795, 4784579, 342297, 286988, 5942594, 4108315, 3437287, 5038140, 1735879, 203044,
     2842341, 2691481, 5790267, 1265009, 4055324, 1247620, 2486353, 1595974, 4613401, 1250494, 2635921, 4832145,
     5386378, 1869119, 1903435, 7329447, 7047359, 1237275, 5062207, 6950192, 7929317, 1312455, 3306115, 6417775,
     7100756, 1917081, 5834105, 7005614, 1500165, 777191, 2235880, 3406031, 7838005, 5548557, 6709241, 6533464,
     5796124, 4656147, 594136, 4603424, 6366809, 2432395, 2454455, 8215696, 1957272, 3369112, 185531, 7173032,
     5196991, 162844, 1616392, 3014001, 810149, 1652634, 4686184, 6581310, 5341501, 3523897, 3866901, 269760,
     2213111, 7404533, 1717735, 472078, 7953734, 1723600, 6577327, 1910376, 6712985, 7276084, 8119771, 4546524,
     5441381, 6144432, 7959518, 6094090, 183443, 7403526, 1612842, 4834730, 7826001, 3919660, 8332111, 7018208,
     3937738, 1400424, 7534263, 1976782]"

lemma length_zeta_ints: "length zeta_ints = 256"
  by (simp add: zeta_ints_def)

lemma sint_ZETAS: "k < 256 \<Longrightarrow> sint (ZETAS ! k) = zeta_ints ! k"
proof -
  have "map sint ZETAS = zeta_ints" by (simp add: ZETAS_def zeta_ints_def)
  then show "k < 256 \<Longrightarrow> sint (ZETAS ! k) = zeta_ints ! k" by (metis length_ZETAS nth_map)
qed

lemmas zeta_entries = nth_entries [OF zeta_ints_def [symmetric] length_zeta_ints, simplified upt_heads, simplified]

text \<open>
  The factor the inverse transform uses for a block is the inverse of the one the transform
  used, in Montgomery form.
\<close>

definition twiddle_ok :: "nat \<Rightarrow> nat \<Rightarrow> bool" where
  "twiddle_ok k k' \<longleftrightarrow> k < 256 \<and> k' < 256 \<and> 0 \<le> zeta_ints ! k' \<and> zeta_ints ! k' < 8380417
     \<and> zeta_ints ! k * (8380417 - zeta_ints ! k') mod 8380417 = 2365951"

lemmas twiddle_at = twiddle_ok_def [of "Suc 0" "Suc 0"] twiddle_ok_def [of "numeral k" "numeral k'" for k k']

lemma twiddle_table:
  "twiddle_ok 1 1" "twiddle_ok 2 3" "twiddle_ok 3 2"
  "list_all (\<lambda>b. twiddle_ok (4 + b) (7 - b)) [0..<4]"
  "list_all (\<lambda>b. twiddle_ok (8 + b) (15 - b)) [0..<8]"
  "list_all (\<lambda>b. twiddle_ok (16 + b) (31 - b)) [0..<16]"
  "list_all (\<lambda>b. twiddle_ok (32 + b) (63 - b)) [0..<32]"
  "list_all (\<lambda>b. twiddle_ok (64 + b) (127 - b)) [0..<64]"
  "list_all (\<lambda>b. twiddle_ok (128 + b) (255 - b)) [0..<128]"
  by (simp_all add: upt_heads twiddle_at zeta_entries)


lemma twiddle_inverse:
  assumes "s \<le> 7" and "b < 2 ^ (7 - s)"
  shows "twiddle_ok (128 div 2 ^ s + b) (256 div 2 ^ s - 1 - b)"
proof -
  have "s \<in> {0, 1, 2, 3, 4, 5} \<or> s = 6 \<or> s = 7" using assms(1) by auto
  moreover have "b = 0 \<or> b = 1" if "s = 6" using that assms(2) by auto
  ultimately show ?thesis using assms(2) twiddle_table
    by (auto simp: list_all_iff simp flip: numeral_2_eq_2 numeral_3_eq_3)
qed

lemma twiddle_product:
  assumes "s \<le> 7" and "b < 2 ^ (7 - s)"
  defines "z \<equiv> sint (ZETAS ! (128 div 2 ^ s + b))" and "z' \<equiv> sint (Q - ZETAS ! (256 div 2 ^ s - 1 - b))"
  shows "eqmod 8380417 (z * z' * (8265825 * 8265825)) 1"
proof -
  note t = twiddle_inverse [OF assms(1,2), unfolded twiddle_ok_def]
  then have "z' = 8380417 - sint (ZETAS ! (256 div 2 ^ s - 1 - b))"
    unfolding z'_def by (subst sint_sub_i32) (simp_all add: sint_ZETAS)
  with t have "eqmod 8380417 (z * z') 2365951" by (simp add: z_def eqmod_def sint_ZETAS)
  then have "eqmod 8380417 (z * z' * (8265825 * 8265825)) (2365951 * (8265825 * 8265825))"
    by (rule eqmod_mult) simp
  also have "eqmod 8380417 \<dots> 1" by (simp add: eqmod_def)
  finally show ?thesis .
qed

section \<open>The inverse transform undoes the transform\<close>

text \<open>The values of the kernels modulo q; 8265825 is the inverse of \<open>2^32\<close>.\<close>

lemma scalar_eqmod:
  assumes "canonical x" and "canonical y"
  shows "eqmod 8380417 (sint (scalar_add x y)) (sint x + sint y)"
    and "eqmod 8380417 (sint (scalar_sub x y)) (sint x - sint y)"
    and "eqmod 8380417 (sint (scalar_mul x z)) (sint x * sint z * 8265825)"
  unfolding scalar_add_value [OF assms] scalar_sub_value [OF assms] scalar_mul_value [OF assms(1) i32_range]
  by simp_all

text \<open>
  \<open>scaled c p x\<close>: the polynomial \<open>x\<close> is canonical and is \<open>c\<close> times \<open>p\<close> modulo q.
\<close>

definition scaled :: "int \<Rightarrow> poly \<Rightarrow> poly \<Rightarrow> bool" where
  "scaled c p x \<longleftrightarrow> canonical_poly x \<and> list_all (\<lambda>n. eqmod 8380417 (sint (x ! n)) (c * sint (p ! n))) [0..<256]"

lemma scaledD: "scaled c p x \<Longrightarrow> n < 256 \<Longrightarrow> eqmod 8380417 (sint (x ! n)) (c * sint (p ! n))"
  by (simp add: scaled_def list_all_iff del: upt_rec_numeral)

lemma scaledI: "canonical_poly x \<Longrightarrow> (\<And>n. n < 256 \<Longrightarrow> eqmod 8380417 (sint (x ! n)) (c * sint (p ! n))) \<Longrightarrow> scaled c p x"
  by (simp add: scaled_def list_all_iff del: upt_rec_numeral)

lemma canonical_nth: "canonical_poly p \<Longrightarrow> n < 256 \<Longrightarrow> canonical (p ! n)"
  by (simp add: canonical_poly_def list_all_length)

text \<open>One stage of the inverse undoes one stage of the transform, up to a factor two.\<close>

lemma stage_inverse:
  assumes s: "s \<le> 7" and p: "canonical_poly p"
    and x: "scaled c (fold (ntt_step (2 ^ s)) (fst (shuffled_order g)) p) x"
  shows "scaled (2 * c) p (fold (intt_step (2 ^ s)) (fst (shuffled_order g')) x)"
proof (rule scaledI)
  let ?L = "2 ^ s :: nat"
  let ?r = "fold (ntt_step ?L) (fst (shuffled_order g)) p"
  let ?y = "fold (intt_step ?L) (fst (shuffled_order g')) x"
  have xc: "canonical_poly x" using x by (simp add: scaled_def)
  show "canonical_poly ?y" by (rule gs.stage(1) [OF s xc])
  fix n :: nat assume n: "n < 256"
  have pair: "eqmod 8380417 (sint (?y ! lo ?L i)) (2 * c * sint (p ! lo ?L i))
      \<and> eqmod 8380417 (sint (?y ! (lo ?L i + ?L))) (2 * c * sint (p ! (lo ?L i + ?L)))" if i: "i < 128" for i
  proof -
    let ?a = "p ! lo ?L i" and ?b = "p ! (lo ?L i + ?L)"
    let ?u = "x ! lo ?L i" and ?v = "x ! (lo ?L i + ?L)"
    define z where "z = sint (ZETAS ! (128 div ?L + i div ?L))"
    define z' where "z' = sint (Q - ZETAS ! (256 div ?L - 1 - i div ?L))"
    have lt: "lo ?L i + ?L < 256" using i s by (intro lo_bound ct.dvd_128) simp_all
    have c: "canonical ?a" "canonical ?b" "canonical ?u" "canonical ?v"
      using lt p xc by (auto intro: canonical_nth)
    have "(2 :: nat) ^ (7 - s) * 2 ^ s = 2 ^ 7" using s by (simp flip: power_add)
    then have blk: "i div ?L < 2 ^ (7 - s)" using i by (intro less_mult_imp_div_less) simp
    note zz = twiddle_product [OF s blk, folded z_def z'_def]
    let ?t = "scalar_mul ?b (ZETAS ! (128 div ?L + i div ?L))"
    have t: "canonical ?t" "eqmod 8380417 (sint ?t) (sint ?b * z * 8265825)"
      using c(2) scalar_eqmod(3) [OF c(2,2)] by (auto intro: scalar_closed i32_range simp: z_def)
    have u: "eqmod 8380417 (sint ?u) (c * (sint ?a + sint ?b * z * 8265825))"
    proof -
      have "eqmod 8380417 (sint ?u) (c * sint (scalar_add ?a ?t))"
        using scaledD [OF x, of "lo ?L i"] ct.stage(2) [OF s p i] lt by (simp add: ct_top_def)
      also have "eqmod 8380417 (c * sint (scalar_add ?a ?t)) (c * (sint ?a + sint ?b * z * 8265825))"
        by (intro eqmod_mult eqmod_refl eqmod_trans [OF scalar_eqmod(1) [OF c(1) t(1)]] eqmod_add t(2))
      finally show ?thesis .
    qed
    have v: "eqmod 8380417 (sint ?v) (c * (sint ?a - sint ?b * z * 8265825))"
    proof -
      have "eqmod 8380417 (sint ?v) (c * sint (scalar_sub ?a ?t))"
        using scaledD [OF x lt] ct.stage(3) [OF s p i] by (simp add: ct_bot_def)
      also have "eqmod 8380417 (c * sint (scalar_sub ?a ?t)) (c * (sint ?a - sint ?b * z * 8265825))"
        by (intro eqmod_mult eqmod_refl eqmod_trans [OF scalar_eqmod(2) [OF c(1) t(1)]] eqmod_diff t(2))
      finally show ?thesis .
    qed
    have "eqmod 8380417 (sint (?y ! lo ?L i)) (sint ?u + sint ?v)"
      using gs.stage(2) [OF s xc i] scalar_eqmod(1) [OF c(3,4)] by simp
    also have "eqmod 8380417 (sint ?u + sint ?v)
        (c * (sint ?a + sint ?b * z * 8265825) + c * (sint ?a - sint ?b * z * 8265825))"
      by (rule eqmod_add [OF u v])
    also have "\<dots> = 2 * c * sint ?a" by (simp add: algebra_simps)
    finally have 1: "eqmod 8380417 (sint (?y ! lo ?L i)) (2 * c * sint ?a)" .
    have "eqmod 8380417 (sint (?y ! (lo ?L i + ?L))) (sint (scalar_sub ?u ?v) * z' * 8265825)"
      using gs.stage(3) [OF s xc i] scalar_eqmod(3) [OF scalar_closed(2) [OF c(3,4)] c(3)]
      by (simp add: gs_bot_def z'_def)
    also have "eqmod 8380417 \<dots> ((c * (sint ?a + sint ?b * z * 8265825) - c * (sint ?a - sint ?b * z * 8265825)) * z' * 8265825)"
      by (intro eqmod_mult eqmod_refl eqmod_trans [OF scalar_eqmod(2) [OF c(3,4)]] eqmod_diff u v)
    also have "\<dots> = 2 * c * sint ?b * (z * z' * (8265825 * 8265825))" by (simp add: algebra_simps)
    also have "eqmod 8380417 \<dots> (2 * c * sint ?b * 1)" by (intro eqmod_mult eqmod_refl zz)
    finally show ?thesis using 1 by simp
  qed
  show "eqmod 8380417 (sint (?y ! n)) (2 * c * sint (p ! n))"
  proof (rule pair_cases [OF ct.dvd_128 [OF s] _ n])
    show "0 < ?L" by simp
    show "\<And>i. i < 128 \<Longrightarrow> n = lo ?L i \<Longrightarrow> ?thesis" using pair by blast
    show "\<And>i. i < 128 \<Longrightarrow> n = lo ?L i + ?L \<Longrightarrow> ?thesis" using pair by blast
  qed
qed


lemma ntt_loop_stage:
  "ntt_loop (2 ^ s) g p = ntt_loop (2 ^ s div 2) (snd (shuffled_order g)) (fold (ntt_step (2 ^ s)) (fst (shuffled_order g)) p)"
  by (subst ntt_loop.simps) (simp add: case_prod_unfold Let_def)

lemma intt_loop_stage:
  assumes "s \<le> 7"
  shows "intt_loop (2 ^ s) g p
    = intt_loop (2 ^ Suc s) (snd (shuffled_order g)) (fold (intt_step (2 ^ s)) (fst (shuffled_order g)) p)"
proof -
  have "(2 :: nat) ^ s \<le> 2 ^ 7" using assms by (intro power_increasing) simp_all
  then show ?thesis by (subst intt_loop.simps) (simp add: case_prod_unfold Let_def mult.commute)
qed

text \<open>Running the first \<open>s\<close> inverse stages undoes the last \<open>s\<close> stages of the transform.\<close>

lemma stages_inverse:
  "s \<le> 8 \<Longrightarrow> canonical_poly p \<Longrightarrow> scaled c (ntt_loop (2 ^ s div 2) g p) x \<Longrightarrow>
   \<exists>h y. intt_loop 1 g' x = intt_loop (2 ^ s) h y \<and> scaled (2 ^ s * c) p y"
proof (induction s arbitrary: p g c)
  case 0
  then show ?case by (auto simp: ntt_loop.simps [of 0])
next
  case (Suc s)
  then have s: "s \<le> 7" by simp
  let ?q = "fold (ntt_step (2 ^ s)) (fst (shuffled_order g)) p"
  have q: "canonical_poly ?q" by (rule ct.stage(1) [OF s Suc.prems(2)])
  have "scaled c (ntt_loop (2 ^ s div 2) (snd (shuffled_order g)) ?q) x"
    using Suc.prems(3) by (simp add: ntt_loop_stage)
  then obtain h y where y: "intt_loop 1 g' x = intt_loop (2 ^ s) h y" "scaled (2 ^ s * c) ?q y"
    using Suc.IH [OF _ q, of c "snd (shuffled_order g)"] s by auto
  from stage_inverse [OF s Suc.prems(2) y(2)]
  have "scaled (2 ^ Suc s * c) p (fold (intt_step (2 ^ s)) (fst (shuffled_order h)) y)"
    by (simp add: mult.assoc)
  with y(1) intt_loop_stage [OF s, of h y] show ?case by metis
qed

lemma ntt_loop_canonical: "s \<le> 8 \<Longrightarrow> canonical_poly p \<Longrightarrow> canonical_poly (ntt_loop (2 ^ s div 2) g p)"
proof (induction s arbitrary: p g)
  case 0
  then show ?case by (simp add: ntt_loop.simps [of 0])
next
  case (Suc s)
  then show ?case using ct.stage(1) [of s p] by (simp add: ntt_loop_stage)
qed

lemma ntt_canonical: "canonical_poly p \<Longrightarrow> canonical_poly (ntt p)"
  using ntt_loop_canonical [of 8 p] by (simp add: ntt_def)

section \<open>Properties\<close>

text \<open>
  the execution order of a stage is a permutation of its 128 butterflies, whatever the
  state of the generator: none is skipped and none runs twice.
\<close>

theorem shuffle_permutation:
  "mset (fst (shuffled_order state)) = mset [0..<128] \<and> distinct (fst (shuffled_order state))"
  using shuffled_order_permutation shuffled_order_set(2) by blast

text \<open>
  C6: for every canonical polynomial the inverse NTT undoes the NTT, although the two are run in
  orders shuffled from different seeds.
\<close>

theorem intt_ntt_inverse:
  assumes p: "canonical_poly p"
  shows "intt (ntt p) = p"
proof -
  let ?x = "ntt p"
  have "scaled 1 (ntt_loop (2 ^ 8 div 2) (hash_coefficients p) p) ?x"
    using ntt_canonical [OF p] by (intro scaledI) (simp_all add: ntt_def)
  from stages_inverse [OF _ p this, of "hash_coefficients ?x"] obtain h y where
    y: "intt_loop 1 (hash_coefficients ?x) ?x = intt_loop (2 ^ 8) h y" "scaled (2 ^ 8 * 1) p y" by auto
  then have i: "intt (ntt p) = map (\<lambda>s. scalar_mul s 16382) y"
    by (simp add: intt_def intt_loop.simps [of 256])
  have yc: "canonical_poly y" using y(2) by (simp add: scaled_def)
  show ?thesis
  proof (rule nth_equalityI)
    show "length (intt (ntt p)) = length p" using i yc p by (simp add: canonical_poly_def)
    fix n assume "n < length (intt (ntt p))"
    then have n: "n < 256" using i yc by (simp add: canonical_poly_def)
    have c: "canonical (y ! n)" "canonical (p ! n)" using canonical_nth n yc p by blast+
    have "eqmod 8380417 (sint (scalar_mul (y ! n) 16382)) (sint (y ! n) * 16382 * 8265825)"
      using scalar_eqmod(3) [OF c(1,1), of 16382] by simp
    also have "eqmod 8380417 \<dots> (2 ^ 8 * 1 * sint (p ! n) * 16382 * 8265825)"
      by (intro eqmod_mult eqmod_refl scaledD [OF y(2) n])
    also have "\<dots> = sint (p ! n) * (256 * 16382 * 8265825)" by simp
    also have "eqmod 8380417 \<dots> (sint (p ! n) * 1)" by (intro eqmod_mult eqmod_refl) (simp add: eqmod_def)
    finally have "eqmod 8380417 (sint (scalar_mul (y ! n) 16382)) (sint (p ! n))" by simp
    moreover have "canonical (scalar_mul (y ! n) 16382)" using c(1) by (intro scalar_closed i32_range)
    ultimately have "sint (scalar_mul (y ! n) 16382) = sint (p ! n)"
      using c(2) by (intro eqmod_unique [of 8380417]) (simp_all add: canonical_def)
    then show "intt (ntt p) ! n = p ! n" using i n yc by (simp add: canonical_poly_def canonical_eqI)
  qed
qed

theorem intt_ntt_inverse_witness: "intt (ntt (replicate 256 7)) = replicate 256 7"
  by (rule intt_ntt_inverse) (simp add: canonical_poly_def list_all_length canonical_def)

section \<open>The other operations\<close>

lemma mask8: "(0xFF :: i32) = mask 8"
  by (simp add: mask_numeral)

lemma byte_of_word: "(ucast (ucast (w AND 0xFF :: i32) :: u8) :: i32) = w AND 0xFF"
  unfolding mask8 by (rule bit_word_eqI) (auto simp: bit_ucast_iff bit_and_iff bit_mask_iff)

lemma scalar_bytes_roundtrip: "scalar_from_bytes (scalar_to_bytes v) = v"
proof -
  have "(v AND mask 8) OR push_bit 8 (drop_bit 8 v AND mask 8) OR push_bit 16 (drop_bit 16 v AND mask 8)
      OR push_bit 24 (drop_bit 24 v AND mask 8) = v"
    (is "?w = v")
  proof (rule bit_word_eqI)
    fix n assume "n < LENGTH(32)"
    then consider "n < 8" | "8 \<le> n" "n < 16" | "16 \<le> n" "n < 24" | "24 \<le> n" "n < 32" by fastforce
    then show "bit ?w n = bit v n"
      by cases (simp_all add: bit_or_iff bit_push_bit_iff bit_and_iff bit_drop_bit_eq bit_mask_iff less_diff_conv2)
  qed
  moreover have "[a, b, c, d] ! 0 = a" "[a, b, c, d] ! 1 = b" "[a, b, c, d] ! 2 = c" "[a, b, c, d] ! 3 = d"
    for a b c d :: u8 by simp_all
  ultimately show ?thesis
    unfolding scalar_from_bytes_def scalar_to_bytes_def by (simp only: byte_of_word [unfolded mask8] mask8)
qed

lemma length_scalar_to_bytes [simp]: "length (scalar_to_bytes v) = 4"
  by (simp add: scalar_to_bytes_def)

lemma reduce_coeff_value: "sint (reduce_coeff c) = sint c mod 8380417"
proof -
  have c: "- (2 ^ 31) \<le> sint c" "sint c < 2 ^ 31" by (rule i32_range)+
  have p: "sint (scast c * 4193792 :: i64) = sint c * 4193792"
    using c by (subst sint_mult_i64) simp_all
  have "sint (reduce_coeff c) = sint c * 4193792 * 8265825 mod 8380417"
    unfolding reduce_coeff_def using c by (subst montgomery_reduce_value) (simp_all add: p)
  also have "\<dots> = sint c * (4193792 * 8265825 mod 8380417) mod 8380417"
    by (simp only: mod_mult_right_eq mult.assoc)
  finally show ?thesis by simp
qed

lemma reduce_coeff_canonical: "canonical c \<Longrightarrow> reduce_coeff c = c"
  by (rule canonical_eqI) (simp add: reduce_coeff_value canonical_def)

lemma nth_concat_quads:
  assumes "\<And>x. length (g x) = 4" and "i < length xs" and "j < 4"
  shows "concat (map g xs) ! (i * 4 + j) = g (xs ! i) ! j"
  using assms(2)
proof (induction xs arbitrary: i)
  case Nil
  then show ?case by simp
next
  case (Cons x xs)
  show ?case
  proof (cases i)
    case 0
    then show ?thesis using assms(1,3) by (simp add: nth_append)
  next
    case (Suc k)
    then show ?thesis using Cons assms(1) by (simp add: nth_append)
  qed
qed

lemma poly_bytes_laws:
  "length (poly_to_bytes p) = 4 * length p"
  "canonical_poly p \<Longrightarrow> poly_from_bytes (poly_to_bytes p) = p"
  "canonical_poly (poly_from_bytes bs)"
proof -
  show "length (poly_to_bytes p) = 4 * length p"
    by (simp add: poly_to_bytes_def length_concat comp_def sum_list_triv)
  show "canonical_poly (poly_from_bytes bs)"
    by (simp add: canonical_poly_def poly_from_bytes_def list_all_length canonical_def reduce_coeff_value)
  assume p: "canonical_poly p"
  then have len: "length p = 256" by (simp add: canonical_poly_def)
  have four: "[x ! 0, x ! 1, x ! 2, x ! 3] = x" if "length x = 4" for x :: bytes
    using that map_nth [of x] by (simp add: upt_rec numeral_2_eq_2 numeral_3_eq_3)
  have b: "poly_to_bytes p ! (i * 4 + j) = scalar_to_bytes (p ! i) ! j" if "i < 256" "j < 4" for i j
    unfolding poly_to_bytes_def using that len by (intro nth_concat_quads) simp_all
  have "poly_from_bytes (poly_to_bytes p) ! i = p ! i" if i: "i < 256" for i
  proof -
    have "poly_from_bytes (poly_to_bytes p) ! i = reduce_coeff (scalar_from_bytes (scalar_to_bytes (p ! i)))"
      using i b [OF i, of 0] b [OF i, of 1] b [OF i, of 2] b [OF i, of 3] four [of "scalar_to_bytes (p ! i)"]
      by (simp add: poly_from_bytes_def)
    also have "\<dots> = p ! i" using p i by (simp add: scalar_bytes_roundtrip reduce_coeff_canonical canonical_nth)
    finally show ?thesis .
  qed
  then show "poly_from_bytes (poly_to_bytes p) = p"
    using len by (intro nth_equalityI) (simp_all add: poly_from_bytes_def)
qed

text \<open>
  a canonical polynomial survives serialization to its 1024 bytes; reading any bytes gives
  a canonical polynomial.
\<close>

theorem poly_bytes_roundtrip:
  "(canonical_poly p \<longrightarrow> poly_from_bytes (poly_to_bytes p) = p) \<and> canonical_poly (poly_from_bytes bs)"
  using poly_bytes_laws(2,3) by blast

theorem poly_bytes_roundtrip_witness:
  "poly_from_bytes (poly_to_bytes (replicate 256 8380416)) = replicate 256 8380416"
  by (rule poly_bytes_roundtrip [THEN conjunct1, THEN mp]) (simp add: canonical_poly_def list_all_length canonical_def)

text \<open>The absolute value of the centred representative.\<close>

definition centred_abs :: "int \<Rightarrow> int" where
  "centred_abs v = (if v \<le> 4190208 then v else 8380417 - v)"

lemma half_Q: "idiv (Q - 1) 2 = 4190208"
  by (simp add: idiv_def Q_def)

lemma select_mask:
  "(a AND NOT (signed_drop_bit 31 w)) OR (b AND signed_drop_bit 31 w) = (if sint w < 0 then b else a)" for a b w :: i32
  by (simp add: mask31)

lemma inf_norm_step_value:
  assumes "canonical c" and "0 \<le> sint mx" and "sint mx < 2 ^ 30"
  shows "sint (inf_norm_step c mx) = max (sint mx) (centred_abs (sint c))"
proof -
  note c = canonical_bounds [OF assms(1)]
  define a where "a = (c AND NOT (signed_drop_bit 31 (4190208 - c))) OR ((Q - c) AND signed_drop_bit 31 (4190208 - c))"
  have d: "sint (4190208 - c) = 4190208 - sint c" using c by (subst sint_sub_i32) simp_all
  have q: "sint (Q - c) = 8380417 - sint c" using c by (subst sint_sub_i32) simp_all
  have a: "sint a = centred_abs (sint c)" unfolding a_def select_mask d by (simp add: centred_abs_def q)
  then have ab: "0 \<le> sint a" "sint a < 2 ^ 30" using c by (simp_all add: centred_abs_def)
  have m: "sint (mx - a) = sint mx - sint a" using ab assms(2,3) by (intro sint_sub_i32) simp_all
  have "inf_norm_step c mx = (if sint (mx - a) < 0 then a else mx)"
    unfolding inf_norm_step_def Let_def half_Q a_def [symmetric] by (rule select_mask)
  then show ?thesis by (simp add: m a max_def)
qed

lemma inf_norm_fold:
  "list_all canonical p \<Longrightarrow> 0 \<le> sint mx \<Longrightarrow> sint mx < 2 ^ 30 \<Longrightarrow>
   sint (fold inf_norm_step p mx) = fold (\<lambda>c m. max m (centred_abs (sint c))) p (sint mx)"
proof (induction p arbitrary: mx)
  case Nil
  then show ?case by simp
next
  case (Cons c p)
  have "sint (inf_norm_step c mx) = max (sint mx) (centred_abs (sint c))"
    using Cons.prems by (intro inf_norm_step_value) simp_all
  moreover have "centred_abs (sint c) < 2 ^ 30" using Cons.prems(1) by (simp add: centred_abs_def canonical_def)
  ultimately show ?case using Cons by simp
qed

lemma fold_max_Max: "fold (\<lambda>c m. max m (f c)) p x = Max (insert x (f ` set p))" for x :: int
proof (induction p arbitrary: x)
  case Nil
  then show ?case by simp
next
  case (Cons c p)
  have "Max (insert (max x (f c)) (f ` set p)) = Max (insert x (insert (f c) (f ` set p)))"
    by (cases "p = []") (simp_all add: max.assoc)
  with Cons show ?case by simp
qed

lemma inf_norm_lemma:
  assumes "canonical_poly p"
  shows "sint (inf_norm p) = Max ((\<lambda>c. centred_abs (sint c)) ` set p)"
proof -
  let ?S = "(\<lambda>c. centred_abs (sint c)) ` set p"
  have p: "list_all canonical p" "p \<noteq> []" using assms by (auto simp: canonical_poly_def)
  have nn: "\<forall>v\<in>?S. 0 \<le> v" using p(1) by (auto simp: list_all_iff canonical_def centred_abs_def)
  have "sint (inf_norm p) = Max (insert 0 ?S)"
    unfolding inf_norm_def using inf_norm_fold [OF p(1), of 0] by (simp add: fold_max_Max)
  also have "\<dots> = max 0 (Max ?S)" using p(2) by simp
  also have "\<dots> = Max ?S" using p(2) nn by (simp add: max_def Max_ge_iff)
  finally show ?thesis .
qed

text \<open>
  the branch-free infinity norm is the maximum of the absolute values of the centred
  representatives.
\<close>

theorem inf_norm_max:
  assumes "canonical_poly p"
  shows "sint (inf_norm p) = Max ((\<lambda>c. centred_abs (sint c)) ` set p)"
  using assms by (rule inf_norm_lemma)

theorem inf_norm_max_witness:
  "sint (inf_norm (replicate 256 8380416)) = Max ((\<lambda>c. centred_abs (sint c)) ` set (replicate 256 (8380416 :: i32)))"
  by (rule inf_norm_max) (simp add: canonical_poly_def list_all_length canonical_def)

lemma sint_f_2_64: "sint f_2_64 = 2365951"
  by (simp add: f_2_64_def irem_def Q_def)

lemma mul_pointwise_value:
  assumes "canonical a" and "canonical b"
  shows "sint (scalar_mul (scalar_mul a b) f_2_64) = sint a * sint b mod 8380417"
proof -
  have ab: "canonical (scalar_mul a b)" using assms(1) by (intro scalar_closed i32_range)
  have "eqmod 8380417 (sint (scalar_mul (scalar_mul a b) f_2_64)) (sint (scalar_mul a b) * 2365951 * 8265825)"
    using scalar_eqmod(3) [OF ab ab, of f_2_64] by (simp add: sint_f_2_64)
  also have "eqmod 8380417 \<dots> (sint a * sint b * 8265825 * 2365951 * 8265825)"
    by (intro eqmod_mult eqmod_refl scalar_eqmod(3) [OF assms])
  also have "\<dots> = sint a * sint b * (8265825 * 2365951 * 8265825)" by simp
  also have "eqmod 8380417 \<dots> (sint a * sint b * 1)" by (intro eqmod_mult eqmod_refl) (simp add: eqmod_def)
  finally show ?thesis
    using canonical_mod [OF scalar_mul_value [OF ab i32_range, of f_2_64]] by (simp add: eqmod_def canonical_def)
qed

text \<open>
  the pointwise product of two canonical vectors is, in every position, the product modulo q:
  the two Montgomery factors cancel.
\<close>

theorem mul_pointwise_correct:
  assumes "canonical_poly a" and "canonical_poly b"
  shows "canonical_poly (mul_pointwise_ntt a b)
    \<and> (\<forall>i<256. sint (mul_pointwise_ntt a b ! i) = sint (a ! i) * sint (b ! i) mod 8380417)"
proof -
  have len: "length a = 256" "length b = 256" using assms by (simp_all add: canonical_poly_def)
  have v: "sint (mul_pointwise_ntt a b ! i) = sint (a ! i) * sint (b ! i) mod 8380417" if "i < 256" for i
    using that len assms by (simp add: mul_pointwise_ntt_def mul_pointwise_value canonical_nth)
  then have "canonical (mul_pointwise_ntt a b ! i)" if "i < 256" for i
    using that by (intro canonical_mod) auto
  with v show ?thesis using len by (simp add: canonical_poly_def list_all_length mul_pointwise_ntt_def)
qed

theorem mul_pointwise_correct_witness:
  "sint (mul_pointwise_ntt (replicate 256 3) (replicate 256 5) ! 7) = 15 mod 8380417"
proof -
  have "canonical_poly (replicate 256 3)" "canonical_poly (replicate 256 5)"
    by (simp_all add: canonical_poly_def list_all_length canonical_def)
  from mul_pointwise_correct [OF this] show ?thesis by auto
qed

text \<open>
  the schoolbook product overflows.  Its accumulation multiplies the 64-bit sum by 4193792
  before reducing; for the coefficients q - 1 and q - 1, whose product is 1 modulo q, the first
  step leaves a coefficient that is not congruent to 1.
\<close>

theorem schoolbook_overflows:
  "\<not> eqmod 8380417 (sint (schoolbook_step (replicate 256 8380416) (replicate 256 8380416) 0 0 poly_new ! 0))
      (sint (8380416 :: i32) * sint (8380416 :: i32))"
proof -
  have "schoolbook_step (replicate 256 8380416) (replicate 256 8380416) 0 0 poly_new ! 0
      = montgomery_reduce (70231372333056 * 4193792)"
    by (simp add: schoolbook_step_def poly_new_def)
  moreover have "sint (montgomery_reduce (70231372333056 * 4193792)) mod 8380417 \<noteq> 1" by code_simp
  ultimately show ?thesis by (simp add: eqmod_def)
qed

end
