(* ===== verification/Rounding.thy ===== *)
theory Rounding
  imports Poly
begin

text \<open>
  The rounding functions of ML-DSA-65 on polynomials and on vectors of polynomials
  (\<open>poly.rs\<close>, lines 676 to 848, and \<open>matrix.rs\<close>, lines 13 to 134): \<open>power2round\<close>,
  \<open>decompose\<close>, \<open>high_bits\<close>, \<open>low_bits\<close>, \<open>make_hint\<close> and \<open>use_hint\<close>, with their
  branch-free masks.  The theorems are the decomposition identities and ranges of FIPS 204 and
  the hint lemma: a hint lets the verifier recover the high bits.
\<close>

section \<open>Definitions\<close>

definition power2round_coeff :: "i32 \<Rightarrow> i32 \<times> i32" where
  "power2round_coeff r_raw =
    (let r = (if r_raw <s 0 then (let rem = irem r_raw Q in if rem \<noteq> 0 then rem + Q else 0)
              else if Q \<le>s r_raw then irem r_raw Q
              else r_raw);
         r0_val = r AND 8191;
         diff = 4096 - r0_val;
         mask = signed_drop_bit 31 diff;
         r0_signed = r0_val - (8192 AND mask);
         r1_val = signed_drop_bit 13 (r - r0_signed);
         mask_neg = signed_drop_bit 31 r0_signed;
         r0_canonical = r0_signed + (Q AND mask_neg)
     in (r1_val, r0_canonical))"

definition power2round :: "poly \<Rightarrow> poly \<times> poly" where
  "power2round p = (map (fst \<circ> power2round_coeff) p, map (snd \<circ> power2round_coeff) p)"

text \<open>
  The part \<open>decompose\<close>, \<open>high_bits_coeff\<close> and \<open>use_hint\<close> have in common: the
  high part and the signed low part of a coefficient.
\<close>

definition split_coeff :: "i32 \<Rightarrow> i32 \<Rightarrow> i32 \<times> i32" where
  "split_coeff alpha r =
    (let limit = idiv alpha 2;
         r0_val = irem r alpha;
         diff_limit = limit - r0_val;
         mask1 = signed_drop_bit 31 diff_limit;
         r0_val = r0_val - (alpha AND mask1);
         diff_q = (r - r0_val) - (Q - 1);
         is_eq_mask = signed_drop_bit 31 (diff_q OR (- diff_q));
         mask2 = NOT is_eq_mask;
         r1_val = idiv (r - r0_val) alpha;
         r1_val = r1_val AND NOT mask2
     in (r1_val, r0_val + mask2))"

definition decompose_coeff :: "i32 \<Rightarrow> i32 \<Rightarrow> i32 \<times> i32" where
  "decompose_coeff alpha r =
    (let (r1_val, r0_val) = split_coeff alpha r;
         mask_neg = signed_drop_bit 31 r0_val;
         r0_canonical = r0_val + (Q AND mask_neg)
     in (r1_val, r0_canonical))"

definition decompose :: "i32 \<Rightarrow> poly \<Rightarrow> poly \<times> poly" where
  "decompose alpha p = (map (fst \<circ> decompose_coeff alpha) p, map (snd \<circ> decompose_coeff alpha) p)"

definition high_bits :: "i32 \<Rightarrow> poly \<Rightarrow> poly" where
  "high_bits alpha p = fst (decompose alpha p)"

definition low_bits :: "i32 \<Rightarrow> poly \<Rightarrow> poly" where
  "low_bits alpha p = snd (decompose alpha p)"

definition high_bits_coeff :: "i32 \<Rightarrow> i32 \<Rightarrow> i32" where
  "high_bits_coeff alpha r = fst (split_coeff alpha r)"

definition make_hint_coeff :: "i32 \<Rightarrow> i32 \<Rightarrow> i32 \<Rightarrow> i32" where
  "make_hint_coeff alpha r z_val =
    (let r_plus_z = scalar_add r z_val;
         v1 = high_bits_coeff alpha r;
         v2 = high_bits_coeff alpha r_plus_z;
         diff = v1 - v2;
         mask_nonzero = signed_drop_bit 31 (diff OR (- diff))
     in mask_nonzero AND 1)"

definition make_hint :: "i32 \<Rightarrow> poly \<Rightarrow> poly \<Rightarrow> poly" where
  "make_hint alpha p z = map2 (make_hint_coeff alpha) p z"

definition use_hint_coeff :: "i32 \<Rightarrow> i32 \<Rightarrow> i32 \<Rightarrow> i32" where
  "use_hint_coeff alpha r h_val =
    (let m = idiv (Q - 1) alpha;
         (r1_val, r0_val) = split_coeff alpha r;
         is_neg_mask = signed_drop_bit 31 r0_val;
         is_zero_mask = NOT (signed_drop_bit 31 (r0_val OR (- r0_val)));
         is_pos_mask = NOT (is_neg_mask OR is_zero_mask);
         step = (1 AND is_pos_mask) OR ((m - 1) AND NOT is_pos_mask);
         r1_adjusted = irem (r1_val + step) m;
         h_mask = signed_drop_bit 31 (h_val OR (- h_val))
     in (r1_val AND NOT h_mask) OR (r1_adjusted AND h_mask))"

definition use_hint :: "i32 \<Rightarrow> poly \<Rightarrow> poly \<Rightarrow> poly" where
  "use_hint alpha p h = map2 (use_hint_coeff alpha) p h"

subsection \<open>Vectors\<close>

type_synonym polyvec = "poly list"

definition vec_new :: "nat \<Rightarrow> polyvec" where
  "vec_new n = replicate n poly_new"

definition vec_add :: "polyvec \<Rightarrow> polyvec \<Rightarrow> polyvec" where
  "vec_add a b = map2 poly_add a b"

definition vec_sub :: "polyvec \<Rightarrow> polyvec \<Rightarrow> polyvec" where
  "vec_sub a b = map2 poly_sub a b"

definition vec_ntt :: "polyvec \<Rightarrow> polyvec" where
  "vec_ntt v = map ntt v"

definition vec_intt :: "polyvec \<Rightarrow> polyvec" where
  "vec_intt v = map intt v"

definition vec_inf_norm_step :: "poly \<Rightarrow> i32 \<Rightarrow> i32" where
  "vec_inf_norm_step p mx =
    (let poly_max = inf_norm p;
         diff = mx - poly_max;
         mask = signed_drop_bit 31 diff
     in (mx AND NOT mask) OR (poly_max AND mask))"

definition vec_inf_norm :: "polyvec \<Rightarrow> i32" where
  "vec_inf_norm v = fold vec_inf_norm_step v 0"

definition vec_power2round :: "polyvec \<Rightarrow> polyvec \<times> polyvec" where
  "vec_power2round v = (map (fst \<circ> power2round) v, map (snd \<circ> power2round) v)"

definition vec_decompose :: "i32 \<Rightarrow> polyvec \<Rightarrow> polyvec \<times> polyvec" where
  "vec_decompose alpha v = (map (fst \<circ> decompose alpha) v, map (snd \<circ> decompose alpha) v)"

definition vec_high_bits :: "i32 \<Rightarrow> polyvec \<Rightarrow> polyvec" where
  "vec_high_bits alpha v = map (high_bits alpha) v"

definition vec_low_bits :: "i32 \<Rightarrow> polyvec \<Rightarrow> polyvec" where
  "vec_low_bits alpha v = map (low_bits alpha) v"

definition vec_make_hint :: "i32 \<Rightarrow> polyvec \<Rightarrow> polyvec \<Rightarrow> polyvec" where
  "vec_make_hint alpha v z = map2 (make_hint alpha) v z"

definition vec_use_hint :: "i32 \<Rightarrow> polyvec \<Rightarrow> polyvec \<Rightarrow> polyvec" where
  "vec_use_hint alpha v h = map2 (use_hint alpha) v h"

text \<open>The centred representative of a canonical value.\<close>

definition centred :: "int \<Rightarrow> int" where
  "centred v = (if v \<le> 4190208 then v else v - 8380417)"

section \<open>The power-of-two split\<close>

lemma uint_nonneg: "0 \<le> sint w \<Longrightarrow> uint w = sint w" for w :: i32
  using i32_range [of w] by (simp add: uint_sint take_bit_int_eq_self)

lemma sint_small: "uint w < 2 ^ 31 \<Longrightarrow> sint w = uint w" for w :: i32
  by (simp add: sint_uint signed_take_bit_int_eq_self order_trans [OF _ uint_ge_0])

lemma low_13: "0 \<le> sint r \<Longrightarrow> sint (r AND 8191) = sint r mod 8192" for r :: i32
proof -
  assume r: "0 \<le> sint r"
  have "r AND 8191 = take_bit 13 r" by (simp add: take_bit_eq_mask mask_numeral)
  then have u: "uint (r AND 8191) = sint r mod 8192"
    using uint_nonneg [OF r] by (simp only: unsigned_take_bit_eq) (simp add: take_bit_eq_mod)
  have "sint r mod 8192 < 8192" by simp
  then show ?thesis using u by (subst sint_small) simp_all
qed

lemma sint_shift: "sint (signed_drop_bit n w) = sint w div 2 ^ n" for w :: i32
  by (simp add: sint_signed_drop_bit_eq drop_bit_eq_div)

lemma cond_add_Q_value:
  assumes "- 8380417 \<le> sint t" and "sint t < 8380417"
  shows "sint (t + (Q AND signed_drop_bit 31 t)) = sint t mod 8380417"
proof (cases "sint t < 0")
  case True
  have "sint (t + Q) = sint t + 8380417" using assms True by (subst sint_add_i32) simp_all
  moreover have "sint t mod 8380417 = sint t + 8380417" using assms True by (intro mod_once_below) simp_all
  ultimately show ?thesis using True by (simp add: cond_add_Q)
next
  case False
  then show ?thesis using assms by (simp add: cond_add_Q)
qed

lemma power2round_value:
  assumes "canonical r" and "power2round_coeff r = (r1, r0)"
  shows "sint r1 = (sint r + 4095) div 8192" and "sint r0 = (sint r - sint r1 * 8192) mod 8380417"
    and "- 4096 < sint r - sint r1 * 8192" and "sint r - sint r1 * 8192 \<le> 4096"
proof -
  note c = canonical_bounds [OF assms(1)]
  define v where "v = sint r mod 8192"
  have v: "0 \<le> v" "v < 8192" by (simp_all add: v_def)
  define w where "w = (r AND 8191) - (8192 AND signed_drop_bit 31 (4096 - (r AND 8191)))"
  have d: "sint (4096 - (r AND 8191)) = 4096 - v" using v c by (subst sint_sub_i32) (simp_all add: low_13 v_def)
  have w: "sint w = (if 4096 < v then v - 8192 else v)"
    unfolding w_def mask31 d using v c by (auto simp: sint_sub_i32 low_13 v_def)
  have e: "sint r = sint r div 8192 * 8192 + v" by (simp add: v_def)
  have sub: "sint (r - w) = sint r - sint w" using v c w by (subst sint_sub_i32) auto
  have r1: "sint (signed_drop_bit 13 (r - w)) = (sint r - sint w) div 8192" by (simp add: sint_shift sub)
  define u where "u = (if 4096 < v then sint r div 8192 + 1 else sint r div 8192)"
  have k: "(sint r - sint w) div 8192 = u"
    by (rule int_div_pos_eq [where r = 0]) (use e w in \<open>auto simp: u_def\<close>)
  have k2: "(sint r + 4095) div 8192 = u"
    by (rule int_div_pos_eq [where r = "if 4096 < v then v - 4097 else v + 4095"])
      (use e v in \<open>auto simp: u_def\<close>)
  have nr: "\<not> r <s 0" "\<not> Q \<le>s r" using c by (simp_all add: word_sless_alt word_sle_eq)
  have p: "power2round_coeff r = (signed_drop_bit 13 (r - w), w + (Q AND signed_drop_bit 31 w))"
    unfolding power2round_coeff_def Let_def w_def using nr by simp
  then have eqs: "r1 = signed_drop_bit 13 (r - w)" "r0 = w + (Q AND signed_drop_bit 31 w)" using assms(2) by simp_all
  show s1: "sint r1 = (sint r + 4095) div 8192" unfolding eqs r1 k k2 ..
  have wv: "sint w = sint r - sint r1 * 8192" unfolding s1 k2 using e w by (auto simp: u_def)
  show "sint r0 = (sint r - sint r1 * 8192) mod 8380417"
    unfolding eqs(2) wv [symmetric] using w v by (intro cond_add_Q_value) auto
  show "- 4096 < sint r - sint r1 * 8192" "sint r - sint r1 * 8192 \<le> 4096" using w v unfolding wv [symmetric] by auto
qed

section \<open>The split at \<open>2 \<gamma>\<^sub>2\<close>\<close>

text \<open>
  ML-DSA-65 uses \<open>alpha = 523776\<close>, so that \<open>q - 1 = 16 alpha\<close>.  The high part of \<open>r\<close> before
  the wrap is \<open>hb r\<close>, between 0 and 16.
\<close>

definition hb :: "int \<Rightarrow> int" where
  "hb r = (r + 261887) div 523776"

lemma hb_bounds:
  assumes "0 \<le> r" and "r < 8380417"
  shows "0 \<le> hb r" "hb r \<le> 16" "- 261888 < r - hb r * 523776" "r - hb r * 523776 \<le> 261888"
proof -
  have "r + 261887 = hb r * 523776 + (r + 261887) mod 523776" by (simp add: hb_def)
  moreover have "0 \<le> (r + 261887) mod 523776" "(r + 261887) mod 523776 < 523776" by simp_all
  ultimately show "0 \<le> hb r" "hb r \<le> 16" "- 261888 < r - hb r * 523776" "r - hb r * 523776 \<le> 261888"
    using assms by linarith+
qed

lemma hb_unique: "- 261888 < r - k * 523776 \<Longrightarrow> r - k * 523776 \<le> 261888 \<Longrightarrow> hb r = k"
  unfolding hb_def by (rule int_div_pos_eq [where r = "r - k * 523776 + 261887"]) auto

lemma split_low:
  assumes "canonical r"
  defines "w \<equiv> irem r 523776 - (523776 AND signed_drop_bit 31 (idiv 523776 2 - irem r 523776))"
  shows "sint w = sint r - hb (sint r) * 523776"
proof -
  note c = canonical_bounds [OF assms(1)]
  define v where "v = sint r mod 523776"
  have v: "0 \<le> v" "v < 523776" by (simp_all add: v_def)
  have "sint r smod 523776 = v" using c by (simp add: signed_modulo_int_def sgn_if v_def)
  then have vr: "sint (irem r 523776) = v" using v by (simp add: irem_def sint_word_of_int_self)
  have l: "idiv 523776 2 = (261888 :: i32)" by (simp add: idiv_def)
  have d: "sint (261888 - irem r 523776) = 261888 - v" using v by (subst sint_sub_i32) (simp_all add: vr)
  have w: "sint w = (if 261888 < v then v - 523776 else v)"
    unfolding w_def l mask31 d using v by (auto simp: sint_sub_i32 vr)
  have e: "sint r = sint r div 523776 * 523776 + v" by (simp add: v_def)
  have "hb (sint r) = (if 261888 < v then sint r div 523776 + 1 else sint r div 523776)"
    by (rule hb_unique) (use e v in auto)
  with e w show ?thesis by auto
qed

lemma split_coeff_value:
  assumes "canonical r" and "split_coeff 523776 r = (r1, r0)"
  shows "sint r1 = hb (sint r) mod 16"
    and "sint r0 = sint r - hb (sint r) * 523776 - (if hb (sint r) = 16 then 1 else 0)"
proof -
  note c = canonical_bounds [OF assms(1)]
  note h = hb_bounds [OF c]
  define w where "w = irem r 523776 - (523776 AND signed_drop_bit 31 (idiv 523776 2 - irem r 523776))"
  have w: "sint w = sint r - hb (sint r) * 523776" unfolding w_def by (rule split_low [OF assms(1)])
  have rw: "sint (r - w) = hb (sint r) * 523776" using h c w by (subst sint_sub_i32) simp_all
  define d where "d = (r - w) - (Q - 1)"
  have q1: "sint (Q - 1) = 8380416" by (simp add: Q_def)
  have d: "sint d = hb (sint r) * 523776 - 8380416"
    unfolding d_def using h by (subst sint_sub_i32) (simp_all add: rw q1)
  have d0: "d = 0 \<longleftrightarrow> hb (sint r) = 16"
  proof -
    have "d = 0 \<longleftrightarrow> sint d = 0" by (simp add: signed_eq_0_iff)
    then show ?thesis using d by auto
  qed
  have kd: "hb (sint r) * 523776 sdiv 523776 = hb (sint r)" using h by (simp add: signed_divide_int_def sgn_if abs_mult)
  have r1: "sint (idiv (r - w) 523776) = hb (sint r)"
    using h by (simp add: idiv_def rw kd sint_word_of_int_self)
  have sp: "split_coeff 523776 r
      = (idiv (r - w) 523776 AND NOT (NOT (signed_drop_bit 31 (d OR (- d)))), w + NOT (signed_drop_bit 31 (d OR (- d))))"
    unfolding split_coeff_def Let_def d_def w_def by simp
  show "sint r1 = hb (sint r) mod 16"
    using assms(2) r1 h unfolding sp nonzero_mask d0 by auto
  have "sint (w - 1) = sint w - 1" using h w by (subst sint_sub_i32) auto
  then show "sint r0 = sint r - hb (sint r) * 523776 - (if hb (sint r) = 16 then 1 else 0)"
    using assms(2) w unfolding sp nonzero_mask d0 by (auto split: if_splits)
qed

lemma high_bits_coeff_value: "canonical r \<Longrightarrow> sint (high_bits_coeff 523776 r) = hb (sint r) mod 16"
  using split_coeff_value(1) [of r] unfolding high_bits_coeff_def by (metis prod.collapse)

section \<open>Hints\<close>

text \<open>The high bits of \<open>r + z\<close> differ from those of \<open>r\<close> by at most one step, on the side of the low part.\<close>

lemma hb_shift:
  assumes r: "0 \<le> r" "r < 8380417" and z: "- 261888 \<le> z" "z \<le> 261888"
    and diff: "hb ((r + z) mod 8380417) mod 16 \<noteq> hb r mod 16"
  shows "hb ((r + z) mod 8380417) mod 16
    = (if hb r < 16 \<and> 0 < r - hb r * 523776 then (hb r mod 16 + 1) mod 16 else (hb r mod 16 + 15) mod 16)"
proof -
  define k where "k = hb r"
  note h = hb_bounds [OF r, folded k_def]
  consider "r + z < 0" | "8380417 \<le> r + z" | "0 \<le> r + z" "r + z < 8380417" by linarith
  then show ?thesis
  proof cases
    case 1
    then have m: "(r + z) mod 8380417 = r + z + 8380417" using z r by (intro mod_once_below) simp_all
    have "hb (r + z + 8380417) = 16" by (rule hb_unique) (use 1 z r in auto)
    moreover have "hb r = 0" by (rule hb_unique) (use 1 z r in auto)
    ultimately show ?thesis using diff m by simp
  next
    case 2
    then have m: "(r + z) mod 8380417 = r + z - 8380417" using z r by (intro mod_once_above) simp_all
    have "hb (r + z - 8380417) = 0" by (rule hb_unique) (use 2 z r in auto)
    moreover have "hb r = 16" by (rule hb_unique) (use 2 z r in auto)
    ultimately show ?thesis using diff m by simp
  next
    case 3
    then have m: "(r + z) mod 8380417 = r + z" by simp
    define l where "l = hb (r + z)"
    note g = hb_bounds [OF 3, folded l_def]
    show ?thesis
    proof (cases "0 < r - k * 523776")
      case True
      then have "k \<le> l" "l \<le> k + 1" using h g z by linarith+
      moreover have "l \<noteq> k" using diff m by (auto simp: l_def k_def)
      ultimately have "l = k + 1" by linarith
      moreover from this have "k < 16" using g by simp
      ultimately show ?thesis using True m h by (simp add: l_def k_def)
    next
      case False
      then have "k - 1 \<le> l" "l \<le> k" using h g z by linarith+
      moreover have "l \<noteq> k" using diff m by (auto simp: l_def k_def)
      ultimately have l: "l = k - 1" by linarith
      then have "1 \<le> k" using g by simp
      have "(k mod 16 + 15) mod 16 = (k + 15) mod 16" by (rule mod_add_left_eq)
      also have "k + 15 = k - 1 + 16" by simp
      also have "(k - 1 + 16) mod 16 = (k - 1) mod 16" by (rule mod_add_self2)
      finally have "(k mod 16 + 15) mod 16 = (k - 1) mod 16" .
      with l False m show ?thesis by (simp add: l_def k_def)
    qed
  qed
qed

lemma use_hint_coeff_value:
  assumes "canonical r" and "h \<in> {0, 1}"
  shows "sint (use_hint_coeff 523776 r h)
    = (if h = 0 then hb (sint r) mod 16
       else if hb (sint r) < 16 \<and> 0 < sint r - hb (sint r) * 523776 then (hb (sint r) mod 16 + 1) mod 16
       else (hb (sint r) mod 16 + 15) mod 16)"
proof -
  note hbs = hb_bounds [OF canonical_bounds [OF assms(1)]]
  obtain r1 r0 where sp: "split_coeff 523776 r = (r1, r0)" by fastforce
  note v = split_coeff_value [OF assms(1) sp]
  define k where "k = hb (sint r) mod 16"
  have kb: "0 \<le> k" "k < 16" by (simp_all add: k_def)
  have m: "idiv (Q - 1) 523776 = (16 :: i32)" by (simp add: idiv_def Q_def)
  define P where "P \<longleftrightarrow> hb (sint r) < 16 \<and> 0 < sint r - hb (sint r) * 523776"
  have pos: "NOT (signed_drop_bit 31 r0 OR NOT (signed_drop_bit 31 (r0 OR (- r0)))) = (if 0 < sint r0 then - 1 else 0)"
  proof -
    have "sint r0 = 0 \<longleftrightarrow> r0 = 0" by (rule signed_eq_0_iff)
    then show ?thesis unfolding mask31 [of r0] nonzero_mask by auto
  qed
  have P: "0 < sint r0 \<longleftrightarrow> P" using v(2) hbs canonical_bounds [OF assms(1)] by (auto simp: P_def)
  define st where "st = (if P then 1 else 15 :: i32)"
  have rem: "sint (irem (r1 + st) 16) = (if P then (k + 1) mod 16 else (k + 15) mod 16)"
  proof -
    have "sint (r1 + st) = k + sint st" using v(1) kb by (subst sint_add_i32) (auto simp: st_def k_def)
    moreover have "sint (word_of_int (x mod 16) :: i32) = x mod 16" for x :: int
      by (rule sint_word_of_int_self) (simp_all add: order_less_trans [OF pos_mod_bound] order_trans [OF _ pos_mod_sign])
    ultimately show ?thesis using kb by (auto simp: irem_def st_def signed_modulo_int_def sgn_if)
  qed
  have "use_hint_coeff 523776 r h = (if h = 0 then r1 else irem (r1 + st) 16)"
    unfolding use_hint_coeff_def m sp Let_def prod.case
    unfolding pos P nonzero_mask [of h] st_def by simp
  then show ?thesis using rem v(1) by (simp add: P_def k_def)
qed


lemma hint_coeff_recovers:
  assumes "canonical r" and "canonical z" and "centred_abs (sint z) \<le> 261888"
  shows "use_hint_coeff 523776 r (make_hint_coeff 523776 r z) = high_bits_coeff 523776 (scalar_add r z)"
    and "make_hint_coeff 523776 r z \<in> {0, 1}"
proof -
  let ?h = "make_hint_coeff 523776 r z" and ?s = "scalar_add r z"
  have sc: "canonical ?s" by (rule scalar_closed(1) [OF assms(1,2)])
  note c = canonical_bounds [OF assms(1)]
  define u where "u = centred (sint z)"
  have u: "- 261888 \<le> u" "u \<le> 261888"
    using assms(3) canonical_bounds [OF assms(2)] by (auto simp: u_def centred_def centred_abs_def split: if_splits)
  have sv: "sint ?s = (sint r + u) mod 8380417"
  proof -
    have "eqmod 8380417 (sint r + sint z) (sint r + u)"
      by (rule eqmod_add) (auto simp: u_def centred_def eqmod_def)
    then show ?thesis by (simp add: scalar_add_value [OF assms(1,2)] eqmod_def)
  qed
  define v1 where "v1 = high_bits_coeff 523776 r"
  define v2 where "v2 = high_bits_coeff 523776 ?s"
  have v: "sint v1 = hb (sint r) mod 16" "sint v2 = hb ((sint r + u) mod 8380417) mod 16"
    using high_bits_coeff_value [OF assms(1)] high_bits_coeff_value [OF sc] by (simp_all add: v1_def v2_def sv)
  have h: "?h = (if v1 = v2 then 0 else 1)"
    unfolding make_hint_coeff_def Let_def v1_def [symmetric] v2_def [symmetric] nonzero_mask by simp
  then show "?h \<in> {0, 1}" by simp
  have eq: "v1 = v2 \<longleftrightarrow> sint v1 = sint v2" using signed_word_eqI by blast
  have "sint (use_hint_coeff 523776 r ?h) = sint v2"
  proof (cases "v1 = v2")
    case True
    then show ?thesis using h v use_hint_coeff_value [OF assms(1), of ?h] by simp
  next
    case False
    then have "hb ((sint r + u) mod 8380417) mod 16 \<noteq> hb (sint r) mod 16" using eq v by simp
    from hb_shift [OF c u this] show ?thesis
      using False h v use_hint_coeff_value [OF assms(1), of ?h] by simp
  qed
  then show "use_hint_coeff 523776 r ?h = high_bits_coeff 523776 ?s"
    unfolding v2_def by (rule signed_word_eqI)
qed

lemma decompose_high: "fst (decompose_coeff alpha r) = high_bits_coeff alpha r"
  by (simp add: decompose_coeff_def high_bits_coeff_def split: prod.split)

section \<open>Properties\<close>

text \<open>
  \<open>power2round\<close> splits every canonical coefficient as \<open>r = r1 2^13 + r0\<close> modulo q with the low part
  in \<open>(-2^12, 2^12]\<close> and the high part of at most ten bits.
\<close>

theorem power2round_correct:
  assumes "canonical r" and "power2round_coeff r = (r1, r0)"
  shows "eqmod 8380417 (sint r1 * 8192 + sint r0) (sint r) \<and> - 4096 < centred (sint r0)
    \<and> centred (sint r0) \<le> 4096 \<and> 0 \<le> sint r1 \<and> sint r1 < 1024 \<and> canonical r0"
proof -
  note v = power2round_value [OF assms]
  note c = canonical_bounds [OF assms(1)]
  define d where "d = sint r - sint r1 * 8192"
  have d: "sint r0 = d mod 8380417" "- 4096 < d" "d \<le> 4096" using v by (simp_all add: d_def)
  have "eqmod 8380417 (sint r1 * 8192 + sint r0) (sint r1 * 8192 + d)"
    by (intro eqmod_add) (simp_all add: d(1))
  then have "eqmod 8380417 (sint r1 * 8192 + sint r0) (sint r)" by (simp add: d_def)
  moreover have "centred (sint r0) = d"
  proof (cases "d < 0")
    case True
    then have "d mod 8380417 = d + 8380417" using d by (intro mod_once_below) simp_all
    then show ?thesis using True d by (simp add: centred_def)
  qed (use d in \<open>simp add: centred_def\<close>)
  moreover have "0 \<le> sint r1" "sint r1 < 1024" using c d unfolding d_def by linarith+
  ultimately show ?thesis using d canonical_mod [OF d(1)] by simp
qed

theorem power2round_correct_witness:
  "case power2round_coeff 8380416 of (r1, r0) \<Rightarrow> eqmod 8380417 (sint r1 * 8192 + sint r0) (sint (8380416 :: i32))"
  using power2round_correct [of 8380416] by (auto simp: canonical_def split: prod.split)

text \<open>
  \<open>decompose\<close> with \<open>alpha = 2 gamma2\<close> splits every canonical coefficient as
  \<open>r = r1 alpha + r0\<close> modulo q, the high part in 0..15 and the low part of magnitude at most gamma2.
\<close>

theorem decompose_correct:
  assumes "canonical r" and "decompose_coeff 523776 r = (r1, r0)"
  shows "eqmod 8380417 (sint r1 * 523776 + sint r0) (sint r) \<and> 0 \<le> sint r1 \<and> sint r1 < 16
    \<and> centred_abs (sint r0) \<le> 261888 \<and> canonical r0"
proof -
  obtain s1 s0 where sp: "split_coeff 523776 r = (s1, s0)" by fastforce
  note v = split_coeff_value [OF assms(1) sp]
  note h = hb_bounds [OF canonical_bounds [OF assms(1)]]
  have e: "r1 = s1" "r0 = s0 + (Q AND signed_drop_bit 31 s0)"
    using assms(2) by (simp_all add: decompose_coeff_def sp)
  define k where "k = hb (sint r)"
  define d where "d = sint r - k * 523776 - (if k = 16 then 1 else 0)"
  have db: "- 261888 \<le> d" "d \<le> 261888" using h by (auto simp: d_def k_def)
  have r0: "sint r0 = d mod 8380417"
    unfolding e using v(2) db by (subst cond_add_Q_value) (simp_all add: d_def k_def)
  have "eqmod 8380417 (sint r1 * 523776 + sint r0) (sint r1 * 523776 + d)" by (intro eqmod_add) (simp_all add: r0)
  also have "eqmod 8380417 (sint r1 * 523776 + d) (sint r)"
    using h v(1) by (cases "k = 16") (simp_all add: e d_def k_def eqmod_def)
  finally have "eqmod 8380417 (sint r1 * 523776 + sint r0) (sint r)" .
  moreover have "centred_abs (sint r0) \<le> 261888"
  proof (cases "d < 0")
    case True
    then have "d mod 8380417 = d + 8380417" using db by (intro mod_once_below) simp_all
    then show ?thesis using True db r0 by (simp add: centred_abs_def)
  qed (use db r0 in \<open>simp add: centred_abs_def\<close>)
  ultimately show ?thesis using v(1) canonical_mod [OF r0] by (simp add: e)
qed

theorem decompose_correct_witness:
  "case decompose_coeff 523776 8380416 of (r1, r0) \<Rightarrow>
     eqmod 8380417 (sint r1 * 523776 + sint r0) (sint (8380416 :: i32)) \<and> sint r1 < 16"
  using decompose_correct [of 8380416] by (auto simp: canonical_def split: prod.split)

text \<open>
  C34: the hint lemma.  When the correction \<open>z\<close> has magnitude at most gamma2, the verifier that holds \<open>r\<close>
  and the hint \<open>make_hint r z\<close> recovers the high bits of \<open>r + z\<close>, coefficient by coefficient.
\<close>

theorem use_hint_recovers:
  assumes "canonical_poly r" and "canonical_poly z" and "sint (inf_norm z) \<le> 261888"
  shows "use_hint 523776 r (make_hint 523776 r z) = high_bits 523776 (poly_add r z)"
proof -
  have len: "length r = 256" "length z = 256" using assms by (simp_all add: canonical_poly_def)
  have "centred_abs (sint (z ! i)) \<le> 261888" if "i < 256" for i
  proof -
    have "centred_abs (sint (z ! i)) \<le> sint (inf_norm z)"
      using inf_norm_lemma [OF assms(2)] that len by simp
    then show ?thesis using assms(3) by linarith
  qed
  then have "use_hint_coeff 523776 (r ! i) (make_hint_coeff 523776 (r ! i) (z ! i))
      = high_bits_coeff 523776 (scalar_add (r ! i) (z ! i))" if "i < 256" for i
    using that assms by (intro hint_coeff_recovers canonical_nth) simp_all
  then show ?thesis
    using len by (intro nth_equalityI)
      (simp_all add: use_hint_def make_hint_def high_bits_def decompose_def poly_add_def decompose_high)
qed

theorem use_hint_recovers_witness:
  "use_hint 523776 (replicate 256 261888) (make_hint 523776 (replicate 256 261888) (replicate 256 5))
    = high_bits 523776 (poly_add (replicate 256 261888) (replicate 256 5))"
proof (rule use_hint_recovers)
  show "sint (inf_norm (replicate 256 5)) \<le> 261888"
    by (subst inf_norm_lemma) (simp_all add: canonical_poly_def list_all_length canonical_def centred_abs_def)
qed (simp_all add: canonical_poly_def list_all_length canonical_def)

end
