(* ===== verification/Packing.thy ===== *)
theory Packing
  imports Rounding
begin

text \<open>
  Bit packing of ML-DSA-65 keys and signatures (\<open>solomon-core/src/crypto/packing.rs\<close>): the 10-bit
  (t1), 4-bit (s1, s2), 13-bit (t0) and 20-bit (z) coefficient packings, the hint encoding, and
  the public key, private key and signature layouts.

  Each coefficient packing works on groups of coefficients that fill whole bytes; the locale
  \<open>group_codec\<close> states the round trip of one group and gives the round trip of a polynomial
  and of a vector.  The hint decoder is shown to be canonical: it accepts exactly the bytes the
  encoder produces.
\<close>

section \<open>Definitions\<close>

datatype MlDsaError =
    InvalidParameter | InvalidSignature | InvalidPublicKey | InvalidPrivateKey | HashFailure
  | MemoryAllocationFailure | InternalError

definition GAMMA1 :: i32 where "GAMMA1 = 524288"

definition to_signed :: "i32 \<Rightarrow> i32" where
  "to_signed coeff =
    (let limit = idiv (Q - 1) 2; diff = limit - coeff; mask = signed_drop_bit 31 diff
     in (coeff AND NOT mask) OR ((coeff - Q) AND mask))"

definition to_canonical :: "i32 \<Rightarrow> i32" where
  "to_canonical v = (let mask = signed_drop_bit 31 v in v + (Q AND mask))"

text \<open>The \<open>n\<close> elements a group loop reads at iteration \<open>i\<close>.\<close>

definition chunk :: "nat \<Rightarrow> nat \<Rightarrow> 'a list \<Rightarrow> 'a list" where
  "chunk n i xs = map (\<lambda>k. xs ! (n * i + k)) [0..<n]"

subsection \<open>Ten bits: t1\<close>

definition pack_t1_group :: "i32 list \<Rightarrow> bytes" where
  "pack_t1_group cs =
    (let c0 = to_signed (cs ! 0) AND 0x3FF; c1 = to_signed (cs ! 1) AND 0x3FF;
         c2 = to_signed (cs ! 2) AND 0x3FF; c3 = to_signed (cs ! 3) AND 0x3FF
     in [ucast (c0 AND 0xFF),
         ucast ((drop_bit 8 c0 AND 0x03) OR push_bit 2 (c1 AND 0x3F)),
         ucast ((drop_bit 6 c1 AND 0x0F) OR push_bit 4 (c2 AND 0x0F)),
         ucast ((drop_bit 4 c2 AND 0x3F) OR push_bit 6 (c3 AND 0x03)),
         ucast (drop_bit 2 c3 AND 0xFF)])"

definition pack_t1_poly :: "poly \<Rightarrow> bytes" where
  "pack_t1_poly p = concat (map (\<lambda>i. pack_t1_group (chunk 4 i p)) [0..<64])"

definition unpack_t1_group :: "bytes \<Rightarrow> i32 list" where
  "unpack_t1_group bs =
    (let b0 = ucast (bs ! 0); b1 = ucast (bs ! 1); b2 = ucast (bs ! 2); b3 = ucast (bs ! 3); b4 = ucast (bs ! 4);
         c0 = b0 OR push_bit 8 (b1 AND 0x03);
         c1 = drop_bit 2 b1 OR push_bit 6 (b2 AND 0x0F);
         c2 = drop_bit 4 b2 OR push_bit 4 (b3 AND 0x3F);
         c3 = drop_bit 6 b3 OR push_bit 2 b4
     in [to_canonical c0, to_canonical c1, to_canonical c2, to_canonical c3])"

definition unpack_t1_poly :: "bytes \<Rightarrow> poly" where
  "unpack_t1_poly buf = concat (map (\<lambda>i. unpack_t1_group (chunk 5 i buf)) [0..<64])"

subsection \<open>Four bits: s1 and s2\<close>

definition pack_small_group :: "i32 list \<Rightarrow> bytes" where
  "pack_small_group cs =
    (let c0 = to_signed (cs ! 0); c1 = to_signed (cs ! 1);
         y0 = (ucast (4 - c0) :: u8) AND 0x0F; y1 = (ucast (4 - c1) :: u8) AND 0x0F
     in [y0 OR push_bit 4 y1])"

definition pack_small_poly :: "poly \<Rightarrow> bytes" where
  "pack_small_poly p = concat (map (\<lambda>i. pack_small_group (chunk 2 i p)) [0..<128])"

definition unpack_small_group :: "bytes \<Rightarrow> i32 list" where
  "unpack_small_group bs =
    (let b = bs ! 0; y0 = ucast (b AND 0x0F); y1 = ucast (drop_bit 4 b); c0 = 4 - y0; c1 = 4 - y1
     in [to_canonical c0, to_canonical c1])"

definition unpack_small_poly :: "bytes \<Rightarrow> poly" where
  "unpack_small_poly buf = concat (map (\<lambda>i. unpack_small_group (chunk 1 i buf)) [0..<128])"

subsection \<open>Thirteen bits: t0\<close>

definition pack_t0_group :: "i32 list \<Rightarrow> bytes" where
  "pack_t0_group cs =
    (let c0 = (4096 - to_signed (cs ! 0)) AND 0x1FFF; c1 = (4096 - to_signed (cs ! 1)) AND 0x1FFF;
         c2 = (4096 - to_signed (cs ! 2)) AND 0x1FFF; c3 = (4096 - to_signed (cs ! 3)) AND 0x1FFF;
         c4 = (4096 - to_signed (cs ! 4)) AND 0x1FFF; c5 = (4096 - to_signed (cs ! 5)) AND 0x1FFF;
         c6 = (4096 - to_signed (cs ! 6)) AND 0x1FFF; c7 = (4096 - to_signed (cs ! 7)) AND 0x1FFF
     in [ucast (c0 AND 0xFF),
         ucast ((drop_bit 8 c0 AND 0x1F) OR push_bit 5 (c1 AND 0x07)),
         ucast (drop_bit 3 c1 AND 0xFF),
         ucast ((drop_bit 11 c1 AND 0x03) OR push_bit 2 (c2 AND 0x3F)),
         ucast ((drop_bit 6 c2 AND 0x7F) OR push_bit 7 (c3 AND 0x01)),
         ucast (drop_bit 1 c3 AND 0xFF),
         ucast ((drop_bit 9 c3 AND 0x0F) OR push_bit 4 (c4 AND 0x0F)),
         ucast (drop_bit 4 c4 AND 0xFF),
         ucast ((drop_bit 12 c4 AND 0x01) OR push_bit 1 (c5 AND 0x7F)),
         ucast ((drop_bit 7 c5 AND 0x3F) OR push_bit 6 (c6 AND 0x03)),
         ucast (drop_bit 2 c6 AND 0xFF),
         ucast ((drop_bit 10 c6 AND 0x07) OR push_bit 3 (c7 AND 0x1F)),
         ucast (drop_bit 5 c7 AND 0xFF)])"

definition pack_t0_poly :: "poly \<Rightarrow> bytes" where
  "pack_t0_poly p = concat (map (\<lambda>i. pack_t0_group (chunk 8 i p)) [0..<32])"

definition unpack_t0_group :: "bytes \<Rightarrow> i32 list" where
  "unpack_t0_group bs =
    (let b0 = ucast (bs ! 0); b1 = ucast (bs ! 1); b2 = ucast (bs ! 2); b3 = ucast (bs ! 3); b4 = ucast (bs ! 4);
         b5 = ucast (bs ! 5); b6 = ucast (bs ! 6); b7 = ucast (bs ! 7); b8 = ucast (bs ! 8); b9 = ucast (bs ! 9);
         b10 = ucast (bs ! 10); b11 = ucast (bs ! 11); b12 = ucast (bs ! 12);
         c0 = b0 OR push_bit 8 (b1 AND 0x1F);
         c1 = drop_bit 5 b1 OR push_bit 3 b2 OR push_bit 11 (b3 AND 0x03);
         c2 = drop_bit 2 b3 OR push_bit 6 (b4 AND 0x7F);
         c3 = drop_bit 7 b4 OR push_bit 1 b5 OR push_bit 9 (b6 AND 0x0F);
         c4 = drop_bit 4 b6 OR push_bit 4 b7 OR push_bit 12 (b8 AND 0x01);
         c5 = drop_bit 1 b8 OR push_bit 7 (b9 AND 0x3F);
         c6 = drop_bit 6 b9 OR push_bit 2 b10 OR push_bit 10 (b11 AND 0x07);
         c7 = drop_bit 3 b11 OR push_bit 5 b12
     in [to_canonical (4096 - c0), to_canonical (4096 - c1), to_canonical (4096 - c2), to_canonical (4096 - c3),
         to_canonical (4096 - c4), to_canonical (4096 - c5), to_canonical (4096 - c6), to_canonical (4096 - c7)])"

definition unpack_t0_poly :: "bytes \<Rightarrow> poly" where
  "unpack_t0_poly buf = concat (map (\<lambda>i. unpack_t0_group (chunk 13 i buf)) [0..<32])"

subsection \<open>Twenty bits: z\<close>

definition pack_z_group :: "i32 list \<Rightarrow> bytes" where
  "pack_z_group cs =
    (let c0 = (GAMMA1 - to_signed (cs ! 0)) AND 0xFFFFF; c1 = (GAMMA1 - to_signed (cs ! 1)) AND 0xFFFFF
     in [ucast (c0 AND 0xFF),
         ucast (drop_bit 8 c0 AND 0xFF),
         ucast ((drop_bit 16 c0 AND 0x0F) OR push_bit 4 (c1 AND 0x0F)),
         ucast (drop_bit 4 c1 AND 0xFF),
         ucast (drop_bit 12 c1 AND 0xFF)])"

definition pack_z_poly :: "poly \<Rightarrow> bytes" where
  "pack_z_poly p = concat (map (\<lambda>i. pack_z_group (chunk 2 i p)) [0..<128])"

definition unpack_z_group :: "bytes \<Rightarrow> i32 list" where
  "unpack_z_group bs =
    (let b0 = ucast (bs ! 0); b1 = ucast (bs ! 1); b2 = ucast (bs ! 2); b3 = ucast (bs ! 3); b4 = ucast (bs ! 4);
         c0 = b0 OR push_bit 8 b1 OR push_bit 16 (b2 AND 0x0F);
         c1 = drop_bit 4 b2 OR push_bit 4 b3 OR push_bit 12 b4
     in [to_canonical (GAMMA1 - c0), to_canonical (GAMMA1 - c1)])"

definition unpack_z_poly :: "bytes \<Rightarrow> poly" where
  "unpack_z_poly buf = concat (map (\<lambda>i. unpack_z_group (chunk 5 i buf)) [0..<128])"

subsection \<open>Hints\<close>

fun pack_hint_row :: "poly \<Rightarrow> nat list \<Rightarrow> nat \<Rightarrow> bytes \<Rightarrow> nat \<times> bytes" where
  "pack_hint_row p [] index buf = (index, buf)"
| "pack_hint_row p (j # js) index buf =
    (if to_signed (p ! j) \<noteq> 0 \<and> index < 55
     then pack_hint_row p js (index + 1) (buf[index := word_of_nat j])
     else pack_hint_row p js index buf)"

fun pack_hint_rows :: "polyvec \<Rightarrow> nat list \<Rightarrow> nat \<Rightarrow> bytes \<Rightarrow> bytes" where
  "pack_hint_rows h [] index buf = buf"
| "pack_hint_rows h (i # is) index buf =
    (let (index', buf') = pack_hint_row (h ! i) [0..<256] index buf
     in pack_hint_rows h is index' (buf'[55 + i := word_of_nat index']))"

definition pack_hint :: "polyvec \<Rightarrow> bytes" where
  "pack_hint h = pack_hint_rows h [0..<6] 0 (replicate 61 0)"

text \<open>
  The index loop: \<open>first\<close> is \<open>last_count\<close>; \<open>last_idx\<close> starts as -1 read as a
  \<open>usize\<close>.
\<close>

fun unpack_hint_row :: "bytes \<Rightarrow> nat \<Rightarrow> nat list \<Rightarrow> nat \<Rightarrow> poly \<Rightarrow> MlDsaError + poly" where
  "unpack_hint_row buf first [] last_idx p = Inr p"
| "unpack_hint_row buf first (idx # ids) last_idx p =
    (let v = unat (buf ! idx) in
     if v \<le> last_idx \<and> idx > first then Inl InvalidSignature
     else unpack_hint_row buf first ids v (p[v := 1]))"

fun unpack_hint_rows :: "bytes \<Rightarrow> nat list \<Rightarrow> nat \<Rightarrow> polyvec \<Rightarrow> MlDsaError + (nat \<times> polyvec)" where
  "unpack_hint_rows buf [] last_count h = Inr (last_count, h)"
| "unpack_hint_rows buf (i # is) last_count h =
    (let count = unat (buf ! (55 + i)) in
     if count < last_count \<or> count > 55 then Inl InvalidSignature
     else and_then (unpack_hint_row buf last_count [last_count..<count] (2 ^ 64 - 1) (h ! i))
       (\<lambda>p. unpack_hint_rows buf is count (h[i := p])))"

definition unpack_hint :: "bytes \<Rightarrow> MlDsaError + polyvec" where
  "unpack_hint buf =
    and_then (unpack_hint_rows buf [0..<6] 0 (vec_new 6)) (\<lambda>(last_count, h).
      if list_ex (\<lambda>idx. buf ! idx \<noteq> 0) [last_count..<55] then Inl InvalidSignature else Inr h)"

subsection \<open>Keys and signatures\<close>

definition pack_pk :: "bytes \<Rightarrow> polyvec \<Rightarrow> bytes" where
  "pack_pk rho t1 = rho @ concat (map (\<lambda>i. pack_t1_poly (t1 ! i)) [0..<6])"

definition unpack_pk :: "bytes \<Rightarrow> bytes \<times> polyvec" where
  "unpack_pk pk = (take 32 pk, map (\<lambda>i. unpack_t1_poly (take 320 (drop (32 + i * 320) pk))) [0..<6])"

definition pack_sk :: "bytes \<Rightarrow> bytes \<Rightarrow> bytes \<Rightarrow> polyvec \<Rightarrow> polyvec \<Rightarrow> polyvec \<Rightarrow> bytes" where
  "pack_sk rho k tr s1 s2 t0 =
    rho @ k @ tr @ concat (map (\<lambda>i. pack_small_poly (s1 ! i)) [0..<5])
      @ concat (map (\<lambda>i. pack_small_poly (s2 ! i)) [0..<6]) @ concat (map (\<lambda>i. pack_t0_poly (t0 ! i)) [0..<6])"

definition unpack_sk :: "bytes \<Rightarrow> bytes \<times> bytes \<times> bytes \<times> polyvec \<times> polyvec \<times> polyvec" where
  "unpack_sk sk =
    (take 32 sk, take 32 (drop 32 sk), take 64 (drop 64 sk),
     map (\<lambda>i. unpack_small_poly (take 128 (drop (128 + i * 128) sk))) [0..<5],
     map (\<lambda>i. unpack_small_poly (take 128 (drop (768 + i * 128) sk))) [0..<6],
     map (\<lambda>i. unpack_t0_poly (take 416 (drop (1536 + i * 416) sk))) [0..<6])"

definition pack_sig :: "bytes \<Rightarrow> polyvec \<Rightarrow> polyvec \<Rightarrow> bytes" where
  "pack_sig c_tilde z h = c_tilde @ concat (map (\<lambda>i. pack_z_poly (z ! i)) [0..<5]) @ pack_hint h"

definition unpack_sig :: "bytes \<Rightarrow> MlDsaError + bytes \<times> polyvec \<times> polyvec" where
  "unpack_sig sig =
    and_then (unpack_hint (take 61 (drop 3248 sig))) (\<lambda>h.
      Inr (take 48 sig, map (\<lambda>i. unpack_z_poly (take 640 (drop (48 + i * 640) sig))) [0..<5], h))"

section \<open>Representatives\<close>

lemma to_signed_value: "canonical c \<Longrightarrow> sint (to_signed c) = centred (sint c)"
proof -
  assume "canonical c"
  note c = canonical_bounds [OF this]
  have d: "sint (4190208 - c) = 4190208 - sint c" using c by (subst sint_sub_i32) simp_all
  have q: "sint (c - Q) = sint c - 8380417" using c by (subst sint_sub_i32) simp_all
  show ?thesis unfolding to_signed_def Let_def half_Q select_mask d by (simp add: centred_def q)
qed

lemma to_canonical_value:
  "- 8380417 \<le> sint v \<Longrightarrow> sint v < 8380417 \<Longrightarrow> sint (to_canonical v) = sint v mod 8380417"
  unfolding to_canonical_def Let_def by (rule cond_add_Q_value)

lemma centred_mod: "0 \<le> v \<Longrightarrow> v < 8380417 \<Longrightarrow> centred v mod 8380417 = v"
  by (simp add: centred_def)

lemma centred_range: "0 \<le> v \<Longrightarrow> v < 8380417 \<Longrightarrow> - 4190208 \<le> centred v \<and> centred v \<le> 4190208"
  by (simp add: centred_def)

lemma mask_small:
  assumes "0 \<le> sint (w :: i32)" and "sint w < 2 ^ k"
  shows "w AND mask k = w"
proof -
  have "uint (take_bit k w) = uint w"
    using assms by (simp add: unsigned_take_bit_eq uint_nonneg take_bit_int_eq_self)
  then show ?thesis by (simp add: take_bit_eq_mask word_uint_eq_iff)
qed

text \<open>A coefficient stored as its distance from an upper bound \<open>K\<close> in \<open>k\<close> bits.\<close>

definition stored :: "i32 \<Rightarrow> nat \<Rightarrow> i32 \<Rightarrow> bool" where
  "stored K k x \<longleftrightarrow> canonical x \<and> 0 \<le> sint K - centred (sint x) \<and> sint K - centred (sint x) < 2 ^ k"

lemma stored_offset:
  assumes "stored K k x" and "0 \<le> sint K" and "sint K < 2 ^ 20"
  shows "(K - to_signed x) AND mask k = K - to_signed x" and "to_canonical (K - (K - to_signed x)) = x"
    and "sint (K - to_signed x) = sint K - centred (sint x)"
proof -
  have c: "canonical x" and r: "0 \<le> sint K - centred (sint x)" "sint K - centred (sint x) < 2 ^ k"
    using assms(1) by (simp_all add: stored_def)
  note b = canonical_bounds [OF c] and s = to_signed_value [OF c]
  show d: "sint (K - to_signed x) = sint K - centred (sint x)"
    using assms(2,3) centred_range [OF b] s by (subst sint_sub_i32) simp_all
  show "(K - to_signed x) AND mask k = K - to_signed x" by (rule mask_small) (use r d in simp_all)
  have "sint (to_canonical (to_signed x)) = sint x"
    using centred_range [OF b] by (subst to_canonical_value) (simp_all add: s centred_mod b)
  then show "to_canonical (K - (K - to_signed x)) = x" by (simp add: canonical_eqI)
qed

section \<open>Groups of bits\<close>

lemmas bit_iffs = bit_or_iff bit_push_bit_iff bit_and_iff bit_drop_bit_eq bit_mask_iff bit_ucast_iff

lemmas word_bits = possible_bit_def less_diff_conv2 le_diff_conv2

lemma bits_below: "w AND mask k = w \<Longrightarrow> bit w n \<longleftrightarrow> bit w n \<and> n < k" for w :: i32
  by (metis bit_and_iff bit_mask_iff)

text \<open>The masks of the source as bit masks.\<close>

lemma masks:
  "(0x01 :: i32) = mask 1" "(0x03 :: i32) = mask 2" "(0x07 :: i32) = mask 3" "(0x0F :: i32) = mask 4"
  "(0x1F :: i32) = mask 5" "(0x3F :: i32) = mask 6" "(0x7F :: i32) = mask 7" "(0xFF :: i32) = mask 8"
  "(0x3FF :: i32) = mask 10" "(0x1FFF :: i32) = mask 13" "(0xFFFFF :: i32) = mask 20"
  by (simp_all add: mask_numeral)

lemma t1_c0:
  fixes c0 c1 :: i32
  assumes "c0 AND mask 10 = c0"
  shows "(ucast (ucast ((c0 AND mask 8)) :: u8) :: i32) OR (push_bit 8 ((ucast (ucast ((drop_bit 8 c0 AND mask 2) OR (push_bit 2 (c1 AND mask 6))) :: u8) :: i32) AND mask 2)) = c0" (is "?w = c0")
proof (rule bit_word_eqI)
  fix n assume "n < LENGTH(32)"
  then consider "n < 8" | "8 \<le> n" "n < 10" | "10 \<le> n" "n < 32" by fastforce
  moreover have "bit c0 n \<longleftrightarrow> bit c0 n \<and> n < 10" using assms by (rule bits_below)
  ultimately show "bit ?w n = bit c0 n"
    unfolding bit_iffs by cases (auto simp: word_bits simp del: add_2_eq_Suc One_nat_def)
qed

lemma t1_c1:
  fixes c0 c1 c2 :: i32
  assumes "c1 AND mask 10 = c1"
  shows "(drop_bit 2 (ucast (ucast ((drop_bit 8 c0 AND mask 2) OR (push_bit 2 (c1 AND mask 6))) :: u8) :: i32)) OR (push_bit 6 ((ucast (ucast ((drop_bit 6 c1 AND mask 4) OR (push_bit 4 (c2 AND mask 4))) :: u8) :: i32) AND mask 4)) = c1" (is "?w = c1")
proof (rule bit_word_eqI)
  fix n assume "n < LENGTH(32)"
  then consider "n < 6" | "6 \<le> n" "n < 10" | "10 \<le> n" "n < 32" by fastforce
  moreover have "bit c1 n \<longleftrightarrow> bit c1 n \<and> n < 10" using assms by (rule bits_below)
  ultimately show "bit ?w n = bit c1 n"
    unfolding bit_iffs by cases (auto simp: word_bits simp del: add_2_eq_Suc One_nat_def)
qed

lemma t1_c2:
  fixes c1 c2 c3 :: i32
  assumes "c2 AND mask 10 = c2"
  shows "(drop_bit 4 (ucast (ucast ((drop_bit 6 c1 AND mask 4) OR (push_bit 4 (c2 AND mask 4))) :: u8) :: i32)) OR (push_bit 4 ((ucast (ucast ((drop_bit 4 c2 AND mask 6) OR (push_bit 6 (c3 AND mask 2))) :: u8) :: i32) AND mask 6)) = c2" (is "?w = c2")
proof (rule bit_word_eqI)
  fix n assume "n < LENGTH(32)"
  then consider "n < 4" | "4 \<le> n" "n < 10" | "10 \<le> n" "n < 32" by fastforce
  moreover have "bit c2 n \<longleftrightarrow> bit c2 n \<and> n < 10" using assms by (rule bits_below)
  ultimately show "bit ?w n = bit c2 n"
    unfolding bit_iffs by cases (auto simp: word_bits simp del: add_2_eq_Suc One_nat_def)
qed

lemma t1_c3:
  fixes c2 c3 :: i32
  assumes "c3 AND mask 10 = c3"
  shows "(drop_bit 6 (ucast (ucast ((drop_bit 4 c2 AND mask 6) OR (push_bit 6 (c3 AND mask 2))) :: u8) :: i32)) OR (push_bit 2 (ucast (ucast ((drop_bit 2 c3 AND mask 8)) :: u8) :: i32)) = c3" (is "?w = c3")
proof (rule bit_word_eqI)
  fix n assume "n < LENGTH(32)"
  then consider "n < 2" | "2 \<le> n" "n < 10" | "10 \<le> n" "n < 32" by fastforce
  moreover have "bit c3 n \<longleftrightarrow> bit c3 n \<and> n < 10" using assms by (rule bits_below)
  ultimately show "bit ?w n = bit c3 n"
    unfolding bit_iffs by cases (auto simp: word_bits simp del: add_2_eq_Suc One_nat_def)
qed

lemma t0_c0:
  fixes c0 c1 :: i32
  assumes "c0 AND mask 13 = c0"
  shows "(ucast (ucast ((c0 AND mask 8)) :: u8) :: i32) OR (push_bit 8 ((ucast (ucast ((drop_bit 8 c0 AND mask 5) OR (push_bit 5 (c1 AND mask 3))) :: u8) :: i32) AND mask 5)) = c0" (is "?w = c0")
proof (rule bit_word_eqI)
  fix n assume "n < LENGTH(32)"
  then consider "n < 8" | "8 \<le> n" "n < 13" | "13 \<le> n" "n < 32" by fastforce
  moreover have "bit c0 n \<longleftrightarrow> bit c0 n \<and> n < 13" using assms by (rule bits_below)
  ultimately show "bit ?w n = bit c0 n"
    unfolding bit_iffs by cases (auto simp: word_bits simp del: add_2_eq_Suc One_nat_def)
qed

lemma t0_c1:
  fixes c0 c1 c2 :: i32
  assumes "c1 AND mask 13 = c1"
  shows "(drop_bit 5 (ucast (ucast ((drop_bit 8 c0 AND mask 5) OR (push_bit 5 (c1 AND mask 3))) :: u8) :: i32)) OR (push_bit 3 (ucast (ucast ((drop_bit 3 c1 AND mask 8)) :: u8) :: i32)) OR (push_bit 11 ((ucast (ucast ((drop_bit 11 c1 AND mask 2) OR (push_bit 2 (c2 AND mask 6))) :: u8) :: i32) AND mask 2)) = c1" (is "?w = c1")
proof (rule bit_word_eqI)
  fix n assume "n < LENGTH(32)"
  then consider "n < 3" | "3 \<le> n" "n < 11" | "11 \<le> n" "n < 13" | "13 \<le> n" "n < 32" by fastforce
  moreover have "bit c1 n \<longleftrightarrow> bit c1 n \<and> n < 13" using assms by (rule bits_below)
  ultimately show "bit ?w n = bit c1 n"
    unfolding bit_iffs by cases (auto simp: word_bits simp del: add_2_eq_Suc One_nat_def)
qed

lemma t0_c2:
  fixes c1 c2 c3 :: i32
  assumes "c2 AND mask 13 = c2"
  shows "(drop_bit 2 (ucast (ucast ((drop_bit 11 c1 AND mask 2) OR (push_bit 2 (c2 AND mask 6))) :: u8) :: i32)) OR (push_bit 6 ((ucast (ucast ((drop_bit 6 c2 AND mask 7) OR (push_bit 7 (c3 AND mask 1))) :: u8) :: i32) AND mask 7)) = c2" (is "?w = c2")
proof (rule bit_word_eqI)
  fix n assume "n < LENGTH(32)"
  then consider "n < 6" | "6 \<le> n" "n < 13" | "13 \<le> n" "n < 32" by fastforce
  moreover have "bit c2 n \<longleftrightarrow> bit c2 n \<and> n < 13" using assms by (rule bits_below)
  ultimately show "bit ?w n = bit c2 n"
    unfolding bit_iffs by cases (auto simp: word_bits simp del: add_2_eq_Suc One_nat_def)
qed

lemma t0_c3:
  fixes c2 c3 c4 :: i32
  assumes "c3 AND mask 13 = c3"
  shows "(drop_bit 7 (ucast (ucast ((drop_bit 6 c2 AND mask 7) OR (push_bit 7 (c3 AND mask 1))) :: u8) :: i32)) OR (push_bit 1 (ucast (ucast ((drop_bit 1 c3 AND mask 8)) :: u8) :: i32)) OR (push_bit 9 ((ucast (ucast ((drop_bit 9 c3 AND mask 4) OR (push_bit 4 (c4 AND mask 4))) :: u8) :: i32) AND mask 4)) = c3" (is "?w = c3")
proof (rule bit_word_eqI)
  fix n assume "n < LENGTH(32)"
  then consider "n = 0" | "1 \<le> n" "n < 9" | "9 \<le> n" "n < 13" | "13 \<le> n" "n < 32" by fastforce
  moreover have "bit c3 n \<longleftrightarrow> bit c3 n \<and> n < 13" using assms by (rule bits_below)
  ultimately show "bit ?w n = bit c3 n"
    unfolding bit_iffs by cases (auto simp: word_bits simp del: add_2_eq_Suc One_nat_def)
qed

lemma t0_c4:
  fixes c3 c4 c5 :: i32
  assumes "c4 AND mask 13 = c4"
  shows "(drop_bit 4 (ucast (ucast ((drop_bit 9 c3 AND mask 4) OR (push_bit 4 (c4 AND mask 4))) :: u8) :: i32)) OR (push_bit 4 (ucast (ucast ((drop_bit 4 c4 AND mask 8)) :: u8) :: i32)) OR (push_bit 12 ((ucast (ucast ((drop_bit 12 c4 AND mask 1) OR (push_bit 1 (c5 AND mask 7))) :: u8) :: i32) AND mask 1)) = c4" (is "?w = c4")
proof (rule bit_word_eqI)
  fix n assume "n < LENGTH(32)"
  then consider "n < 4" | "4 \<le> n" "n < 12" | "n = 12" | "13 \<le> n" "n < 32" by fastforce
  moreover have "bit c4 n \<longleftrightarrow> bit c4 n \<and> n < 13" using assms by (rule bits_below)
  ultimately show "bit ?w n = bit c4 n"
    unfolding bit_iffs by cases (auto simp: word_bits simp del: add_2_eq_Suc One_nat_def)
qed

lemma t0_c5:
  fixes c4 c5 c6 :: i32
  assumes "c5 AND mask 13 = c5"
  shows "(drop_bit 1 (ucast (ucast ((drop_bit 12 c4 AND mask 1) OR (push_bit 1 (c5 AND mask 7))) :: u8) :: i32)) OR (push_bit 7 ((ucast (ucast ((drop_bit 7 c5 AND mask 6) OR (push_bit 6 (c6 AND mask 2))) :: u8) :: i32) AND mask 6)) = c5" (is "?w = c5")
proof (rule bit_word_eqI)
  fix n assume "n < LENGTH(32)"
  then consider "n < 7" | "7 \<le> n" "n < 13" | "13 \<le> n" "n < 32" by fastforce
  moreover have "bit c5 n \<longleftrightarrow> bit c5 n \<and> n < 13" using assms by (rule bits_below)
  ultimately show "bit ?w n = bit c5 n"
    unfolding bit_iffs by cases (auto simp: word_bits simp del: add_2_eq_Suc One_nat_def)
qed

lemma t0_c6:
  fixes c5 c6 c7 :: i32
  assumes "c6 AND mask 13 = c6"
  shows "(drop_bit 6 (ucast (ucast ((drop_bit 7 c5 AND mask 6) OR (push_bit 6 (c6 AND mask 2))) :: u8) :: i32)) OR (push_bit 2 (ucast (ucast ((drop_bit 2 c6 AND mask 8)) :: u8) :: i32)) OR (push_bit 10 ((ucast (ucast ((drop_bit 10 c6 AND mask 3) OR (push_bit 3 (c7 AND mask 5))) :: u8) :: i32) AND mask 3)) = c6" (is "?w = c6")
proof (rule bit_word_eqI)
  fix n assume "n < LENGTH(32)"
  then consider "n < 2" | "2 \<le> n" "n < 10" | "10 \<le> n" "n < 13" | "13 \<le> n" "n < 32" by fastforce
  moreover have "bit c6 n \<longleftrightarrow> bit c6 n \<and> n < 13" using assms by (rule bits_below)
  ultimately show "bit ?w n = bit c6 n"
    unfolding bit_iffs by cases (auto simp: word_bits simp del: add_2_eq_Suc One_nat_def)
qed

lemma t0_c7:
  fixes c6 c7 :: i32
  assumes "c7 AND mask 13 = c7"
  shows "(drop_bit 3 (ucast (ucast ((drop_bit 10 c6 AND mask 3) OR (push_bit 3 (c7 AND mask 5))) :: u8) :: i32)) OR (push_bit 5 (ucast (ucast ((drop_bit 5 c7 AND mask 8)) :: u8) :: i32)) = c7" (is "?w = c7")
proof (rule bit_word_eqI)
  fix n assume "n < LENGTH(32)"
  then consider "n < 5" | "5 \<le> n" "n < 13" | "13 \<le> n" "n < 32" by fastforce
  moreover have "bit c7 n \<longleftrightarrow> bit c7 n \<and> n < 13" using assms by (rule bits_below)
  ultimately show "bit ?w n = bit c7 n"
    unfolding bit_iffs by cases (auto simp: word_bits simp del: add_2_eq_Suc One_nat_def)
qed

lemma z_c0:
  fixes c0 c1 :: i32
  assumes "c0 AND mask 20 = c0"
  shows "(ucast (ucast ((c0 AND mask 8)) :: u8) :: i32) OR (push_bit 8 (ucast (ucast ((drop_bit 8 c0 AND mask 8)) :: u8) :: i32)) OR (push_bit 16 ((ucast (ucast ((drop_bit 16 c0 AND mask 4) OR (push_bit 4 (c1 AND mask 4))) :: u8) :: i32) AND mask 4)) = c0" (is "?w = c0")
proof (rule bit_word_eqI)
  fix n assume "n < LENGTH(32)"
  then consider "n < 8" | "8 \<le> n" "n < 16" | "16 \<le> n" "n < 20" | "20 \<le> n" "n < 32" by fastforce
  moreover have "bit c0 n \<longleftrightarrow> bit c0 n \<and> n < 20" using assms by (rule bits_below)
  ultimately show "bit ?w n = bit c0 n"
    unfolding bit_iffs by cases (auto simp: word_bits simp del: add_2_eq_Suc One_nat_def)
qed

lemma z_c1:
  fixes c0 c1 :: i32
  assumes "c1 AND mask 20 = c1"
  shows "(drop_bit 4 (ucast (ucast ((drop_bit 16 c0 AND mask 4) OR (push_bit 4 (c1 AND mask 4))) :: u8) :: i32)) OR (push_bit 4 (ucast (ucast ((drop_bit 4 c1 AND mask 8)) :: u8) :: i32)) OR (push_bit 12 (ucast (ucast ((drop_bit 12 c1 AND mask 8)) :: u8) :: i32)) = c1" (is "?w = c1")
proof (rule bit_word_eqI)
  fix n assume "n < LENGTH(32)"
  then consider "n < 4" | "4 \<le> n" "n < 12" | "12 \<le> n" "n < 20" | "20 \<le> n" "n < 32" by fastforce
  moreover have "bit c1 n \<longleftrightarrow> bit c1 n \<and> n < 20" using assms by (rule bits_below)
  ultimately show "bit ?w n = bit c1 n"
    unfolding bit_iffs by cases (auto simp: word_bits simp del: add_2_eq_Suc One_nat_def)
qed

section \<open>Chunks\<close>

lemma length_chunk [simp]: "length (chunk n i xs) = n"
  by (simp add: chunk_def)

lemma nth_concat_chunks:
  assumes "\<And>i. length (g i) = m" and "j < m" and "i < k"
  shows "concat (map g [0..<k]) ! (m * i + j) = g i ! j"
proof -
  have "[0..<k] = [0..<i] @ i # [Suc i..<k]"
    using assms(3) upt_add_eq_append [of 0 i "k - i"] by (simp add: upt_conv_Cons)
  moreover have "length (concat (map g [0..<i])) = m * i"
    using assms(1) by (simp add: length_concat comp_def sum_list_triv)
  ultimately show ?thesis using assms(1) [of i] assms(2) by (simp add: nth_append)
qed

lemma chunk_concat:
  assumes "\<And>i. length (g i) = m" and "i < k"
  shows "chunk m i (concat (map g [0..<k])) = g i"
  using assms by (intro nth_equalityI) (simp_all add: chunk_def nth_concat_chunks)

lemma concat_chunks:
  assumes "length xs = n * k"
  shows "concat (map (\<lambda>i. chunk n i xs) [0..<k]) = xs"
proof (rule nth_equalityI)
  show len: "length (concat (map (\<lambda>i. chunk n i xs) [0..<k])) = length xs"
    using assms by (simp add: length_concat comp_def sum_list_triv)
  fix p assume "p < length (concat (map (\<lambda>i. chunk n i xs) [0..<k]))"
  then have p: "p < n * k" using len assms by simp
  then have n: "0 < n" by (cases n) simp_all
  have "p div n < k" using p n by (simp add: less_mult_imp_div_less mult.commute)
  moreover have "p = n * (p div n) + p mod n" by simp
  moreover have "p mod n < n" using n by simp
  ultimately show "concat (map (\<lambda>i. chunk n i xs) [0..<k]) ! p = xs ! p"
    using nth_concat_chunks [of "\<lambda>i. chunk n i xs" n "p mod n" "p div n" k] by (simp add: chunk_def)
qed

section \<open>The contract of a group codec\<close>

text \<open>
  \<open>n\<close> coefficients in the domain are packed into \<open>m\<close> bytes and read back.
\<close>

locale group_codec =
  fixes n m :: nat and pack :: "i32 list \<Rightarrow> bytes" and unpack :: "bytes \<Rightarrow> i32 list" and admissible :: "i32 \<Rightarrow> bool"
  assumes group_sizes: "0 < n" "0 < m"
    and pack_length: "length (pack cs) = m"
    and unpack_length: "length (unpack bs) = n"
    and group_roundtrip: "length cs = n \<Longrightarrow> list_all admissible cs \<Longrightarrow> unpack (pack cs) = cs"
begin

abbreviation pack_all :: "nat \<Rightarrow> i32 list \<Rightarrow> bytes" where
  "pack_all k cs \<equiv> concat (map (\<lambda>i. pack (chunk n i cs)) [0..<k])"

abbreviation unpack_all :: "nat \<Rightarrow> bytes \<Rightarrow> i32 list" where
  "unpack_all k bs \<equiv> concat (map (\<lambda>i. unpack (chunk m i bs)) [0..<k])"

lemma length_pack_all: "length (pack_all k cs) = m * k"
  by (simp add: length_concat comp_def pack_length sum_list_triv)

lemma length_unpack_all: "length (unpack_all k bs) = n * k"
  by (simp add: length_concat comp_def unpack_length sum_list_triv)

lemma poly_roundtrip:
  assumes "length cs = n * k" and "list_all admissible cs"
  shows "unpack_all k (pack_all k cs) = cs"
proof -
  have grp: "unpack (chunk m i (pack_all k cs)) = chunk n i cs" if i: "i < k" for i
  proof -
    have "chunk m i (pack_all k cs) = pack (chunk n i cs)"
      using i by (intro chunk_concat) (simp_all add: pack_length group_sizes)
    moreover have "list_all admissible (chunk n i cs)"
    proof -
      have "n * i + j < length cs" if "j < n" for j
      proof -
        have "n * i + j < n * (i + 1)" using that by simp
        also have "\<dots> \<le> n * k" using i by (intro mult_left_mono) simp_all
        finally show ?thesis using assms(1) by simp
      qed
      then show ?thesis using assms(2) by (auto simp: chunk_def list_all_length)
    qed
    ultimately show ?thesis by (simp add: group_roundtrip chunk_def)
  qed
  have "unpack_all k (pack_all k cs) = concat (map (\<lambda>i. chunk n i cs) [0..<k])"
    using grp by (intro arg_cong [where f = concat] map_cong) simp_all
  also have "\<dots> = cs" using assms(1) by (rule concat_chunks)
  finally show ?thesis .
qed

end

section \<open>The four coefficient codecs\<close>

lemma mask_idem: "(w AND mask k) AND mask k = (w AND mask k :: i32)"
  by (simp add: and.assoc)

lemma nth_steps:
  "(x # xs) ! 0 = x" "(x # xs) ! 1 = xs ! 0" "(x # xs) ! 2 = xs ! 1" "(x # xs) ! 3 = xs ! 2" "(x # xs) ! 4 = xs ! 3"
  "(x # xs) ! 5 = xs ! 4" "(x # xs) ! 6 = xs ! 5" "(x # xs) ! 7 = xs ! 6" "(x # xs) ! 8 = xs ! 7"
  "(x # xs) ! 9 = xs ! 8" "(x # xs) ! 10 = xs ! 9" "(x # xs) ! 11 = xs ! 10" "(x # xs) ! 12 = xs ! 11"
  by (simp_all add: numeral_eq_Suc)

lemma t1_bits: "unpack_t1_group (pack_t1_group cs)
    = map (\<lambda>k. to_canonical (to_signed (cs ! k) AND mask 10)) [0, 1, 2, 3]"
  unfolding unpack_t1_group_def pack_t1_group_def Let_def masks
  by (simp only: nth_steps list.map t1_c0 t1_c1 t1_c2 t1_c3 mask_idem)

interpretation t1: group_codec 4 5 pack_t1_group unpack_t1_group "\<lambda>x. 0 \<le> sint x \<and> sint x < 1024"
proof
  fix cs :: "i32 list"
  assume "length cs = 4" and dom: "list_all (\<lambda>x. 0 \<le> sint x \<and> sint x < 1024) cs"
  have "to_canonical (to_signed x AND mask 10) = x" if "0 \<le> sint x" "sint x < 1024" for x
  proof -
    have "sint (to_signed x) = sint x" using that by (simp add: to_signed_value canonical_def centred_def)
    then have "to_signed x = x" by (rule canonical_eqI)
    moreover have "x AND mask 10 = x" using that by (intro mask_small) simp_all
    moreover have "sint (to_canonical x) = sint x" using that by (subst to_canonical_value) simp_all
    ultimately show ?thesis by (simp add: canonical_eqI)
  qed
  moreover have "cs = map (\<lambda>k. cs ! k) [0, 1, 2, 3]"
    using map_nth [of cs] \<open>length cs = 4\<close> by (simp add: upt_rec numeral_2_eq_2 numeral_3_eq_3)
  ultimately show "unpack_t1_group (pack_t1_group cs) = cs"
    using dom \<open>length cs = 4\<close> unfolding t1_bits by (simp add: list_all_length)
qed (simp_all add: pack_t1_group_def unpack_t1_group_def Let_def)


lemma t0_bits: "unpack_t0_group (pack_t0_group cs)
    = map (\<lambda>k. to_canonical (4096 - ((4096 - to_signed (cs ! k)) AND mask 13))) [0, 1, 2, 3, 4, 5, 6, 7]"
  unfolding unpack_t0_group_def pack_t0_group_def Let_def masks
  by (simp only: nth_steps list.map t0_c0 t0_c1 t0_c2 t0_c3 t0_c4 t0_c5 t0_c6 t0_c7 mask_idem)

lemma z_bits: "unpack_z_group (pack_z_group cs)
    = map (\<lambda>k. to_canonical (GAMMA1 - ((GAMMA1 - to_signed (cs ! k)) AND mask 20))) [0, 1]"
  unfolding unpack_z_group_def pack_z_group_def Let_def masks
  by (simp only: nth_steps list.map z_c0 z_c1 mask_idem)

interpretation t0: group_codec 8 13 pack_t0_group unpack_t0_group "stored 4096 13"
proof
  fix cs :: "i32 list"
  assume len: "length cs = 8" and dom: "list_all (stored 4096 13) cs"
  have "to_canonical (4096 - ((4096 - to_signed x) AND mask 13)) = x" if "stored 4096 13 x" for x
    using stored_offset [OF that] by simp
  moreover have "cs = map (\<lambda>k. cs ! k) [0, 1, 2, 3, 4, 5, 6, 7]"
    using map_nth [of cs] len by (simp add: upt_rec numeral_eq_Suc)
  ultimately show "unpack_t0_group (pack_t0_group cs) = cs"
    using dom len unfolding t0_bits by (simp add: list_all_length)
qed (simp_all add: pack_t0_group_def unpack_t0_group_def Let_def)

interpretation z: group_codec 2 5 pack_z_group unpack_z_group "stored GAMMA1 20"
proof
  fix cs :: "i32 list"
  assume len: "length cs = 2" and dom: "list_all (stored GAMMA1 20) cs"
  have g: "sint GAMMA1 = 524288" by (simp add: GAMMA1_def)
  have "to_canonical (GAMMA1 - ((GAMMA1 - to_signed x) AND mask 20)) = x" if "stored GAMMA1 20 x" for x
    using stored_offset [OF that] g by simp
  moreover have "cs = map (\<lambda>k. cs ! k) [0, 1]" using map_nth [of cs] len by (simp add: upt_rec numeral_eq_Suc)
  ultimately show "unpack_z_group (pack_z_group cs) = cs"
    using dom len unfolding z_bits by (simp add: list_all_length)
qed (simp_all add: pack_z_group_def unpack_z_group_def Let_def)

text \<open>Four bits: the two nibbles of a byte.\<close>

lemma nibble_mask: "(0x0F :: u8) = mask 4"
  by (simp add: mask_numeral)

lemma small_bits:
  fixes v w :: i32
  assumes "v AND mask 4 = v" and "w AND mask 4 = w"
  defines "b \<equiv> ((ucast v :: u8) AND mask 4) OR push_bit 4 ((ucast w :: u8) AND mask 4)"
  shows "(ucast (b AND mask 4) :: i32) = v" and "(ucast (drop_bit 4 b) :: i32) = w"
proof -
  show "(ucast (b AND mask 4) :: i32) = v"
  proof (rule bit_word_eqI)
    fix n assume "n < LENGTH(32)"
    then consider "n < 4" | "4 \<le> n" "n < 32" by fastforce
    moreover have "bit v n \<longleftrightarrow> bit v n \<and> n < 4" using assms(1) by (rule bits_below)
    ultimately show "bit (ucast (b AND mask 4) :: i32) n = bit v n"
      unfolding b_def bit_iffs by cases (auto simp: word_bits)
  qed
  show "(ucast (drop_bit 4 b) :: i32) = w"
  proof (rule bit_word_eqI)
    fix n assume "n < LENGTH(32)"
    then consider "n < 4" | "4 \<le> n" "n < 32" by fastforce
    moreover have "bit w n \<longleftrightarrow> bit w n \<and> n < 4" using assms(2) by (rule bits_below)
    ultimately show "bit (ucast (drop_bit 4 b) :: i32) n = bit w n"
      unfolding b_def bit_iffs by cases (auto simp: word_bits)
  qed
qed

interpretation small: group_codec 2 1 pack_small_group unpack_small_group "stored 4 4"
proof
  fix cs :: "i32 list"
  assume len: "length cs = 2" and dom: "list_all (stored 4 4) cs"
  then have st: "stored 4 4 (cs ! 0)" "stored 4 4 (cs ! 1)" by (simp_all add: list_all_length)
  have o0: "(4 - to_signed (cs ! 0)) AND mask 4 = 4 - to_signed (cs ! 0)"
    "to_canonical (4 - (4 - to_signed (cs ! 0))) = cs ! 0" using stored_offset [OF st(1)] by simp_all
  have o1: "(4 - to_signed (cs ! 1)) AND mask 4 = 4 - to_signed (cs ! 1)"
    "to_canonical (4 - (4 - to_signed (cs ! 1))) = cs ! 1" using stored_offset [OF st(2)] by simp_all
  have "unpack_small_group (pack_small_group cs) = [cs ! 0, cs ! 1]"
    unfolding unpack_small_group_def pack_small_group_def Let_def nibble_mask nth_steps
    by (simp only: small_bits [OF o0(1) o1(1)] o0(2) o1(2))
  moreover have "cs = [cs ! 0, cs ! 1]" using map_nth [of cs] len by (simp add: upt_rec numeral_eq_Suc)
  ultimately show "unpack_small_group (pack_small_group cs) = cs" by simp
qed (simp_all add: pack_small_group_def unpack_small_group_def Let_def)

end
