(* ===== verification/HintCodec.thy ===== *)
theory HintCodec
  imports Packing
begin

text \<open>
  The hint encoding and the key and signature layouts of \<open>packing.rs\<close>: which byte strings
  \<open>unpack_hint\<close> accepts (exactly those \<open>pack_hint\<close> writes for a well-formed hint), and the round
  trips of public keys, private keys and signatures.
\<close>

section \<open>Hints\<close>

text \<open>
  A hint row is the ascending list of the positions of its ones.  \<open>hint_poly\<close> is the
  polynomial of a row, \<open>hint_bytes\<close> the encoding of six rows: the positions, zero padding to 55
  bytes, the running totals.
\<close>

definition hint_poly :: "nat list \<Rightarrow> poly" where
  "hint_poly w = map (\<lambda>j. if j \<in> set w then 1 else 0) [0..<256]"

definition hint_row_ok :: "nat list \<Rightarrow> bool" where
  "hint_row_ok w \<longleftrightarrow> sorted_wrt (<) w \<and> list_all (\<lambda>v. v < 256) w"

fun running :: "nat \<Rightarrow> nat list list \<Rightarrow> nat list" where
  "running t [] = []"
| "running t (w # ws) = (t + length w) # running (t + length w) ws"

definition hint_bytes :: "nat list list \<Rightarrow> bytes" where
  "hint_bytes vs = map word_of_nat (concat vs) @ replicate (55 - length (concat vs)) 0 @ map word_of_nat (running 0 vs)"

definition valid_rows :: "nat list list \<Rightarrow> bool" where
  "valid_rows vs \<longleftrightarrow> length vs = 6 \<and> list_all hint_row_ok vs \<and> length (concat vs) \<le> 55"

lemma length_running [simp]: "length (running t ws) = length ws"
  by (induction ws arbitrary: t) auto

lemma running_append: "running t (us @ ws) = running t us @ running (t + length (concat us)) ws"
  by (induction us arbitrary: t) (auto simp: add.assoc)

lemma running_bound: "v \<in> set (running t ws) \<Longrightarrow> v \<le> t + length (concat ws)"
  by (induction ws arbitrary: t) fastforce+

lemma length_hint_poly [simp]: "length (hint_poly w) = 256"
  by (simp add: hint_poly_def)

lemma to_signed_bit: "to_signed 0 = 0" "to_signed 1 = 1"
  by (rule canonical_eqI; simp add: to_signed_value canonical_def centred_def)+

lemma filter_sorted: "hint_row_ok w \<Longrightarrow> filter (\<lambda>j. j \<in> set w) [0..<256] = w"
proof -
  assume w: "hint_row_ok w"
  then have s: "sorted_wrt (<) w" "set w \<subseteq> {..<256}" by (auto simp: hint_row_ok_def list_all_iff)
  have "sorted (filter (\<lambda>j. j \<in> set w) [0..<256])" "distinct (filter (\<lambda>j. j \<in> set w) [0..<256])"
    by (simp_all add: sorted_wrt_filter del: upt_rec_numeral)
  moreover have "set (filter (\<lambda>j. j \<in> set w) [0..<256]) = set w" using s(2) by auto
  moreover have "sorted w" "distinct w" using s(1) by (simp_all add: strict_sorted_iff)
  ultimately show ?thesis by (simp add: sorted_distinct_set_unique)
qed

lemma hint_positions: "hint_row_ok w \<Longrightarrow> filter (\<lambda>j. to_signed (hint_poly w ! j) \<noteq> 0) [0..<256] = w"
proof -
  have "filter (\<lambda>j. to_signed (hint_poly w ! j) \<noteq> 0) [0..<256] = filter (\<lambda>j. j \<in> set w) [0..<256]"
    by (rule filter_cong) (auto simp: hint_poly_def to_signed_bit simp del: upt_rec_numeral)
  then show "hint_row_ok w \<Longrightarrow> ?thesis" by (simp add: filter_sorted)
qed

lemma pack_hint_row_writes:
  "n = length (filter (\<lambda>j. to_signed (p ! j) \<noteq> 0) js) \<Longrightarrow> index + n \<le> 55 \<Longrightarrow> 55 \<le> length buf \<Longrightarrow>
   pack_hint_row p js index buf = (index + n,
     take index buf @ map word_of_nat (filter (\<lambda>j. to_signed (p ! j) \<noteq> 0) js) @ drop (index + n) buf)"
proof (induction js arbitrary: index buf n)
  case Nil
  then show ?case by simp
next
  case (Cons j js)
  show ?case
  proof (cases "to_signed (p ! j) = 0")
    case True
    then show ?thesis using Cons by simp
  next
    case False
    then obtain k where k: "n = Suc k" "k = length (filter (\<lambda>j. to_signed (p ! j) \<noteq> 0) js)" using Cons.prems by simp
    let ?b = "buf[index := word_of_nat j]"
    have "pack_hint_row p js (index + 1) ?b = (index + 1 + k,
        take (index + 1) ?b @ map word_of_nat (filter (\<lambda>j. to_signed (p ! j) \<noteq> 0) js) @ drop (index + 1 + k) ?b)"
      using Cons.prems k by (intro Cons.IH) simp_all
    moreover have "take (index + 1) ?b = take index buf @ [word_of_nat j]"
      using Cons.prems k by (simp add: take_Suc_conv_app_nth)
    ultimately show ?thesis using False Cons.prems k by simp
  qed
qed

lemma update_middle: "length A = n \<Longrightarrow> (A @ x # D)[n := y] = A @ y # D"
  by (auto simp: list_update_append)

lemma pack_hint_rows_bytes:
  assumes "list_all hint_row_ok ws" and "length us + length ws = 6" and "length (concat (us @ ws)) \<le> 55"
  shows "pack_hint_rows (map hint_poly (us @ ws)) [length us..<6] (length (concat us))
      (map word_of_nat (concat us) @ replicate (55 - length (concat us)) 0 @ map word_of_nat (running 0 us)
         @ replicate (length ws) 0)
    = hint_bytes (us @ ws)"
  using assms
proof (induction ws arbitrary: us)
  case Nil
  then show ?case by (simp add: hint_bytes_def)
next
  case (Cons w ws)
  let ?T = "length (concat us)"
  let ?buf = "map word_of_nat (concat us) @ replicate (55 - ?T) 0 @ map word_of_nat (running 0 us) @ replicate (length (w # ws)) 0 :: bytes"
  have w: "hint_row_ok w" and room: "?T + length w \<le> 55" using Cons.prems by simp_all
  have i: "[length us..<6] = length us # [Suc (length us)..<6]" using Cons.prems(2) by (simp add: upt_conv_Cons)
  have row: "map hint_poly (us @ w # ws) ! length us = hint_poly w" by (simp add: nth_append)
  have "pack_hint_row (hint_poly w) [0..<256] ?T ?buf
      = (?T + length w, take ?T ?buf @ map word_of_nat w @ drop (?T + length w) ?buf)"
    using pack_hint_row_writes [of "length w" "hint_poly w" "[0..<256]" ?T ?buf] room
    by (simp add: hint_positions [OF w] del: upt_rec_numeral)
  also have "take ?T ?buf @ map word_of_nat w @ drop (?T + length w) ?buf
      = map word_of_nat (concat (us @ [w])) @ replicate (55 - (?T + length w)) 0 @ map word_of_nat (running 0 us) @ replicate (Suc (length ws)) 0"
    using room by simp
  finally have step: "pack_hint_row (hint_poly w) [0..<256] ?T ?buf = (?T + length w,
      map word_of_nat (concat (us @ [w])) @ replicate (55 - (?T + length w)) 0 @ map word_of_nat (running 0 us) @ replicate (Suc (length ws)) 0)" .
  have upd: "(map word_of_nat (concat (us @ [w])) @ replicate (55 - (?T + length w)) 0 @ map word_of_nat (running 0 us)
        @ replicate (Suc (length ws)) 0)[55 + length us := word_of_nat (?T + length w)]
      = map word_of_nat (concat (us @ [w])) @ replicate (55 - (?T + length w)) 0 @ map word_of_nat (running 0 (us @ [w]))
        @ replicate (length ws) (0 :: u8)"
    using room update_middle [of "map word_of_nat (concat (us @ [w])) @ replicate (55 - (?T + length w)) 0 @ map word_of_nat (running 0 us)"
        "55 + length us" "0 :: u8" "replicate (length ws) 0" "word_of_nat (?T + length w)"]
    by (simp add: running_append)
  have "pack_hint_rows (map hint_poly ((us @ [w]) @ ws)) [length (us @ [w])..<6] (length (concat (us @ [w])))
      (map word_of_nat (concat (us @ [w])) @ replicate (55 - length (concat (us @ [w]))) 0 @ map word_of_nat (running 0 (us @ [w]))
         @ replicate (length ws) 0) = hint_bytes ((us @ [w]) @ ws)"
    using Cons.prems by (intro Cons.IH) simp_all
  then show ?case unfolding i pack_hint_rows.simps row step Let_def prod.case upd by simp
qed

lemma pack_hint_of_rows: "valid_rows vs \<Longrightarrow> pack_hint (map hint_poly vs) = hint_bytes vs"
  using pack_hint_rows_bytes [of vs "[]"] by (simp add: pack_hint_def valid_rows_def replicate_add [symmetric])

subsection \<open>Decoding\<close>

definition position_values :: "bytes \<Rightarrow> nat list \<Rightarrow> nat list" where
  "position_values buf ids = map (\<lambda>i. unat (buf ! i)) ids"

abbreviation set_ones :: "nat list \<Rightarrow> poly \<Rightarrow> poly" where
  "set_ones vs p \<equiv> fold (\<lambda>v p. p[v := 1]) vs p"

lemma unpack_hint_row_later:
  "list_all (\<lambda>i. first < i) ids \<Longrightarrow> unpack_hint_row buf first ids last_idx p =
    (if sorted_wrt (<) (last_idx # position_values buf ids) then Inr (set_ones (position_values buf ids) p)
     else Inl InvalidSignature)"
proof (induction ids arbitrary: last_idx p)
  case Nil
  then show ?case by (simp add: position_values_def)
next
  case (Cons i ids)
  then show ?case by (auto simp: position_values_def Let_def sorted_wrt2 not_le simp del: sorted_wrt.simps(2))
qed

lemma unpack_hint_row_eq:
  "unpack_hint_row buf s [s..<e] last_idx p =
    (if sorted_wrt (<) (position_values buf [s..<e]) then Inr (set_ones (position_values buf [s..<e]) p)
     else Inl InvalidSignature)"
proof (cases "s < e")
  case True
  have "list_all (\<lambda>i. s < i) [Suc s..<e]" by (auto simp: list_all_iff)
  note later = unpack_hint_row_later [OF this, of buf]
  show ?thesis unfolding upt_conv_Cons [OF True]
    by (simp add: Let_def later position_values_def del: upt_rec_numeral)
qed (simp add: position_values_def)

lemma set_ones_nth: "j < length p \<Longrightarrow> set_ones vs p ! j = (if j \<in> set vs then 1 else p ! j)"
  by (induction vs arbitrary: p) (auto simp: nth_list_update)

lemma length_set_ones: "length (set_ones vs p) = length p"
  by (induction vs arbitrary: p) auto

lemma set_ones_zero: "set_ones vs (replicate 256 0) = hint_poly vs"
  by (rule nth_equalityI) (simp_all add: length_set_ones set_ones_nth hint_poly_def)

lemma position_values_split:
  "a \<le> b \<Longrightarrow> b \<le> c \<Longrightarrow> position_values buf [a..<c] = position_values buf [a..<b] @ position_values buf [b..<c]"
  using upt_add_eq_append [of a b "c - b"] by (simp add: position_values_def)

lemma position_values_less: "list_all (\<lambda>v. v < 256) (position_values buf ids)"
  by (auto simp: list_all_iff position_values_def intro: order_less_le_trans [OF unsigned_less])

lemma length_position_values [simp]: "length (position_values buf ids) = length ids"
  by (simp add: position_values_def)

lemma position_values_head:
  "position_values buf [c..<c'] = w @ rest \<Longrightarrow> n = c + length w \<Longrightarrow> n \<le> c' \<Longrightarrow> position_values buf [c..<n] = w"
  using position_values_split [of c n c' buf] by simp

lemma unpack_hint_rows_iff:
  assumes "length us \<le> 6" and "c \<le> 55"
  shows "unpack_hint_rows buf [length us..<6] c (map hint_poly us @ replicate (6 - length us) (replicate 256 0)) = Inr (c', h')
    \<longleftrightarrow> (\<exists>ws. length us + length ws = 6 \<and> list_all hint_row_ok ws \<and> c' = c + length (concat ws) \<and> c' \<le> 55 \<and>
          position_values buf [c..<c'] = concat ws \<and>
          position_values buf [55 + length us..<61] = running c ws \<and> h' = map hint_poly (us @ ws))"
  using assms
proof (induction "6 - length us" arbitrary: us c)
  case 0
  then have "length us = 6" by simp
  then show ?case using 0 by (auto simp: position_values_def)
next
  case (Suc n)
  let ?k = "length us" and ?count = "unat (buf ! (55 + length us))"
  let ?w = "position_values buf [c..<?count]"
  have k: "?k < 6" using Suc by simp
  have upt: "[?k..<6] = ?k # [Suc ?k..<6]" "[55 + ?k..<61] = (55 + ?k) # [Suc (55 + ?k)..<61]"
    using k by (simp_all add: upt_conv_Cons)
  have rep: "replicate (6 - ?k) z = z # replicate (6 - Suc ?k) z" for z :: poly
    using k by (metis Suc_diff_Suc replicate_Suc)
  have nthk: "(map hint_poly us @ replicate (6 - ?k) (replicate 256 0)) ! ?k = replicate 256 0"
    using k by (simp add: nth_append)
  have upd: "(map hint_poly us @ replicate (6 - ?k) (replicate 256 0))[?k := hint_poly w]
      = map hint_poly (us @ [w]) @ replicate (6 - length (us @ [w])) (replicate 256 0)" for w
    by (simp add: list_update_append rep)
  show ?case (is "?L = (\<exists>ws. ?R ws)")
  proof (cases "c \<le> ?count \<and> ?count \<le> 55 \<and> sorted_wrt (<) ?w")
    case True
    have ok: "hint_row_ok ?w" using True by (simp add: hint_row_ok_def position_values_less)
    have "?L \<longleftrightarrow> unpack_hint_rows buf [length (us @ [?w])..<6] ?count
        (map hint_poly (us @ [?w]) @ replicate (6 - length (us @ [?w])) (replicate 256 0)) = Inr (c', h')"
      unfolding upt(1) unpack_hint_rows.simps Let_def nthk unpack_hint_row_eq
      using True by (simp add: set_ones_zero upd [simplified])
    also have "\<dots> \<longleftrightarrow> (\<exists>ws. length (us @ [?w]) + length ws = 6 \<and> list_all hint_row_ok ws \<and>
        c' = ?count + length (concat ws) \<and> c' \<le> 55 \<and> position_values buf [?count..<c'] = concat ws \<and>
        position_values buf [55 + length (us @ [?w])..<61] = running ?count ws \<and> h' = map hint_poly ((us @ [?w]) @ ws))"
      using Suc True k by (intro Suc.hyps) simp_all
    also have "\<dots> \<longleftrightarrow> (\<exists>ws. ?R (?w # ws))"
    proof (rule ex_cong1)
      fix ws
      have "position_values buf [c..<c'] = ?w @ concat ws \<longleftrightarrow> position_values buf [?count..<c'] = concat ws" if "?count \<le> c'"
        using True that by (simp add: position_values_split [of c ?count c' buf])
      moreover have "position_values buf [55 + ?k..<61] = ?count # position_values buf [55 + Suc ?k..<61]"
        using upt(2) by (simp add: position_values_def)
      ultimately show "(length (us @ [?w]) + length ws = 6 \<and> list_all hint_row_ok ws \<and>
        c' = ?count + length (concat ws) \<and> c' \<le> 55 \<and> position_values buf [?count..<c'] = concat ws \<and>
        position_values buf [55 + length (us @ [?w])..<61] = running ?count ws \<and> h' = map hint_poly ((us @ [?w]) @ ws))
        = ?R (?w # ws)"
        using True ok by auto
    qed
    also have "\<dots> \<longleftrightarrow> (\<exists>ws. ?R ws)"
    proof
      assume "\<exists>ws. ?R ws"
      then obtain ws where r: "?R ws" by blast
      then obtain w ws' where ws: "ws = w # ws'" using k by (cases ws) auto
      have cnt: "?count = c + length w" using r unfolding ws upt(2) by (simp add: position_values_def)
      have "position_values buf [c..<c'] = w @ concat ws'" "?count \<le> c'" using r ws cnt by auto
      then have "?w = w" using position_values_head cnt by blast
      then show "\<exists>ws. ?R (?w # ws)" using r ws by blast
    qed blast
    finally show ?thesis .
  next
    case False
    have "\<not> ?L" unfolding upt(1) unpack_hint_rows.simps Let_def unpack_hint_row_eq using False by auto
    moreover have "\<not> ?R ws" for ws
    proof
      assume r: "?R ws"
      then obtain w ws' where ws: "ws = w # ws'" using k by (cases ws) auto
      have cnt: "?count = c + length w" using r unfolding ws upt(2) by (simp add: position_values_def)
      have "position_values buf [c..<c'] = w @ concat ws'" "?count \<le> c'" using r ws cnt by auto
      then have "?w = w" using position_values_head cnt by blast
      then show False using False r ws cnt by (simp add: hint_row_ok_def)
    qed
    ultimately show ?thesis by blast
  qed
qed

lemma position_values_eq: "position_values buf [a..<b] = vs \<longleftrightarrow> map (\<lambda>i. buf ! i) [a..<b] = map word_of_nat vs"
  if "list_all (\<lambda>v. v < 256) vs"
proof
  assume "position_values buf [a..<b] = vs"
  then show "map (\<lambda>i. buf ! i) [a..<b] = map word_of_nat vs" by (auto simp: position_values_def)
next
  assume eq: "map (\<lambda>i. buf ! i) [a..<b] = map word_of_nat vs"
  have "position_values buf [a..<b] = map unat (map (\<lambda>i. buf ! i) [a..<b])" by (simp add: position_values_def)
  also have "\<dots> = vs" unfolding eq using that
    by (auto simp: list_all_iff unat_of_nat intro!: map_idI)
  finally show "position_values buf [a..<b] = vs" .
qed

lemma map_replicate_iff: "map f xs = replicate (length xs) z \<longleftrightarrow> list_all (\<lambda>i. f i = z) xs"
  by (induction xs) auto

lemma hint_bytes_iff:
  assumes "length buf = 61" and v: "valid_rows vs"
  shows "(position_values buf [0..<length (concat vs)] = concat vs \<and> list_all (\<lambda>i. buf ! i = 0) [length (concat vs)..<55] \<and>
      position_values buf [55..<61] = running 0 vs) \<longleftrightarrow> buf = hint_bytes vs"
proof -
  let ?c = "length (concat vs)" and ?at = "\<lambda>a b. map (\<lambda>i. buf ! i) [a..<b]"
  have c: "?c \<le> 55" "length vs = 6" using v by (simp_all add: valid_rows_def)
  have b: "buf = ?at 0 ?c @ ?at ?c 55 @ ?at 55 61"
  proof -
    have "buf = ?at 0 61" using assms(1) by (metis map_nth)
    also have "[0..<61] = [0..<?c] @ [?c..<55] @ [55..<61]"
      using c(1) upt_add_eq_append [of 0 ?c "61 - ?c"] upt_add_eq_append [of ?c 55 6] by (simp del: upt_rec_numeral)
    finally show ?thesis by (simp del: upt_rec_numeral)
  qed
  have small: "list_all (\<lambda>v. v < 256) (concat vs)" "list_all (\<lambda>v. v < 256) (running 0 vs)"
    using v running_bound [of _ 0 vs] by (auto simp: valid_rows_def list_all_iff hint_row_ok_def) fastforce
  have zero: "list_all (\<lambda>i. buf ! i = 0) [?c..<55] \<longleftrightarrow> ?at ?c 55 = replicate (55 - ?c) 0"
    using map_replicate_iff [of "\<lambda>i. buf ! i" "[?c..<55]" 0] by (simp del: upt_rec_numeral)
  have "buf = hint_bytes vs \<longleftrightarrow> ?at 0 ?c = map word_of_nat (concat vs) \<and> ?at ?c 55 = replicate (55 - ?c) 0 \<and>
      ?at 55 61 = map word_of_nat (running 0 vs)"
    unfolding hint_bytes_def by (subst b) (simp add: c del: upt_rec_numeral)
  then show ?thesis unfolding position_values_eq [OF small(1)] position_values_eq [OF small(2)] zero by blast
qed

lemma unpack_hint_iff_rows:
  assumes "length buf = 61"
  shows "unpack_hint buf = Inr h \<longleftrightarrow> (\<exists>vs. valid_rows vs \<and> h = map hint_poly vs \<and> buf = hint_bytes vs)"
proof -
  have "unpack_hint buf = Inr h \<longleftrightarrow> (\<exists>c. unpack_hint_rows buf [0..<6] 0 (vec_new 6) = Inr (c, h) \<and>
      list_all (\<lambda>i. buf ! i = 0) [c..<55])"
    unfolding unpack_hint_def
    by (auto simp: list_all_iff list_ex_iff and_then_def split: sum.splits prod.splits if_splits)
  also have "\<dots> \<longleftrightarrow> (\<exists>vs. valid_rows vs \<and> h = map hint_poly vs \<and>
      position_values buf [0..<length (concat vs)] = concat vs \<and> list_all (\<lambda>i. buf ! i = 0) [length (concat vs)..<55] \<and>
      position_values buf [55..<61] = running 0 vs)"
    using unpack_hint_rows_iff [of "[]" 0 buf]
    by (auto simp: vec_new_def poly_new_def valid_rows_def simp del: upt_rec_numeral)
  also have "\<dots> \<longleftrightarrow> (\<exists>vs. valid_rows vs \<and> h = map hint_poly vs \<and> buf = hint_bytes vs)"
    by (intro ex_cong1 conj_cong refl) (simp add: hint_bytes_iff assms del: upt_rec_numeral)
  finally show ?thesis .
qed

subsection \<open>Well-formed hints\<close>

definition hint_wf :: "polyvec \<Rightarrow> bool" where
  "hint_wf h \<longleftrightarrow> length h = 6 \<and> list_all (\<lambda>p. length p = 256 \<and> list_all (\<lambda>x. x = 0 \<or> x = 1) p) h \<and>
    sum_list (map (\<lambda>p. length (filter (\<lambda>x. x = 1) p)) h) \<le> 55"

lemma length_positions:
  assumes "length p = 256"
  shows "length (filter (\<lambda>j. p ! j = 1) [0..<256]) = length (filter (\<lambda>x. x = 1) (p :: poly))"
proof -
  have "filter (\<lambda>x. x = 1) p = filter (\<lambda>x. x = 1) (map (\<lambda>j. p ! j) [0..<256])"
    using assms by (metis map_nth)
  then show ?thesis by (simp add: filter_map comp_def del: upt_rec_numeral)
qed

lemma hint_poly_ones: "hint_row_ok w \<Longrightarrow> length (filter (\<lambda>x. x = 1) (hint_poly w)) = length w"
proof -
  assume w: "hint_row_ok w"
  have "filter (\<lambda>j. hint_poly w ! j = 1) [0..<256] = filter (\<lambda>j. j \<in> set w) [0..<256]"
    by (rule filter_cong) (auto simp: hint_poly_def simp del: upt_rec_numeral)
  then show ?thesis using length_positions [of "hint_poly w"] filter_sorted [OF w] by simp
qed

lemma hint_poly_positions:
  assumes "length p = 256" and "list_all (\<lambda>x. x = 0 \<or> x = 1) p"
  shows "hint_poly (filter (\<lambda>j. p ! j = 1) [0..<256]) = p" and "hint_row_ok (filter (\<lambda>j. p ! j = 1) [0..<256])"
proof -
  show "hint_poly (filter (\<lambda>j. p ! j = 1) [0..<256]) = p"
    using assms by (intro nth_equalityI) (auto simp: hint_poly_def list_all_length simp del: upt_rec_numeral)
  show "hint_row_ok (filter (\<lambda>j. p ! j = 1) [0..<256])"
    by (simp add: hint_row_ok_def sorted_wrt_filter list_all_iff del: upt_rec_numeral)
qed

lemma hint_wf_rows: "hint_wf h \<longleftrightarrow> (\<exists>vs. valid_rows vs \<and> h = map hint_poly vs)"
proof
  assume h: "hint_wf h"
  let ?vs = "map (\<lambda>p. filter (\<lambda>j. p ! j = 1) [0..<256]) h"
  have each: "length p = 256 \<and> list_all (\<lambda>x. x = 0 \<or> x = 1) p" if "p \<in> set h" for p
    using h that by (simp add: hint_wf_def list_all_iff)
  have "length (concat ?vs) = sum_list (map (\<lambda>p. length (filter (\<lambda>x. x = 1) p)) h)"
    unfolding length_concat map_map comp_def using each length_positions by (intro arg_cong [where f = sum_list] map_cong) auto
  then have "valid_rows ?vs" using h each
    by (auto simp: valid_rows_def hint_wf_def list_all_iff [where P = hint_row_ok] hint_poly_positions(2) simp del: upt_rec_numeral)
  moreover have "h = map hint_poly ?vs"
    unfolding map_map comp_def using each hint_poly_positions(1) by (intro map_idI [symmetric]) blast
  ultimately show "\<exists>vs. valid_rows vs \<and> h = map hint_poly vs" by blast
next
  assume "\<exists>vs. valid_rows vs \<and> h = map hint_poly vs"
  then obtain vs where vs: "valid_rows vs" and h: "h = map hint_poly vs" by blast
  have "map (\<lambda>p. length (filter (\<lambda>x. x = 1) p)) h = map length vs"
    unfolding h using vs by (auto simp: valid_rows_def list_all_iff hint_poly_ones)
  moreover have "list_all (\<lambda>p. length p = 256 \<and> list_all (\<lambda>x. x = 0 \<or> x = 1) p) h"
    by (auto simp: h hint_poly_def list_all_iff)
  moreover have "length h = 6" using vs by (simp add: h valid_rows_def)
  ultimately show "hint_wf h" using vs by (simp only: hint_wf_def valid_rows_def length_concat)
qed

lemma unpack_hint_canonical_lemma:
  assumes "length buf = 61"
  shows "unpack_hint buf = Inr h \<longleftrightarrow> hint_wf h \<and> pack_hint h = buf"
  unfolding unpack_hint_iff_rows [OF assms] hint_wf_rows using pack_hint_of_rows by blast

lemma length_pack_hint [simp]: "length (pack_hint h) = 61"
proof -
  have row: "length (snd (pack_hint_row p js index buf)) = length buf" for p js index buf
    by (induction p js index buf rule: pack_hint_row.induct) auto
  have "length (pack_hint_rows h is index buf) = length buf" for "is" index buf
    by (induction h "is" index buf rule: pack_hint_rows.induct) (auto simp: Let_def split: prod.splits dest: arg_cong [where f = "\<lambda>r. length (snd r)"] simp: row)
  then show ?thesis by (simp add: pack_hint_def)
qed

text \<open>
  C8: The hint encoding is canonical.  On a 61-byte buffer, \<open>unpack_hint\<close> succeeds with the hint
  \<open>h\<close> exactly when \<open>h\<close> is a well-formed hint (six binary polynomials with at most 55 ones) and
  the buffer is what \<open>pack_hint\<close> writes for \<open>h\<close>: every other buffer (unordered or repeated
  positions, a decreasing or too large counter, non-zero padding) is rejected, so a hint has
  one encoding.
\<close>

theorem unpack_hint_canonical:
  assumes "length buf = 61"
  shows "unpack_hint buf = Inr h \<longleftrightarrow> hint_wf h \<and> pack_hint h = buf"
  using assms by (rule unpack_hint_canonical_lemma)

theorem unpack_hint_canonical_witness:
  "unpack_hint (pack_hint (map hint_poly [[3, 7], [], [0], [], [], [255]])) = Inr (map hint_poly [[3, 7], [], [0], [], [], [255]])"
proof -
  have "valid_rows [[3, 7], [], [0], [], [], [255]]" by (simp add: valid_rows_def hint_row_ok_def)
  then have "hint_wf (map hint_poly [[3, 7], [], [0], [], [], [255]])" using hint_wf_rows by blast
  then show ?thesis by (simp only: unpack_hint_canonical [OF length_pack_hint])
qed

section \<open>Keys and signatures\<close>

lemma section_slice:
  assumes "\<And>i. length (g i) = m" and "i < k" and "length pre = n"
  shows "take m (drop (n + i * m) (pre @ concat (map g [0..<k]) @ rest)) = g i"
proof -
  have len: "length (concat (map g [0..<i])) = i * m"
    using assms(1) by (simp add: length_concat comp_def sum_list_triv)
  have "[0..<k] = [0..<i] @ i # [Suc i..<k]"
    using assms(2) upt_add_eq_append [of 0 i "k - i"] by (simp add: upt_conv_Cons)
  then have "pre @ concat (map g [0..<k]) @ rest
      = (pre @ concat (map g [0..<i])) @ g i @ concat (map g [Suc i..<k]) @ rest" by simp
  then show ?thesis using assms(1,3) len by simp
qed

lemma length_packs [simp]:
  "length (pack_t1_poly p) = 320" "length (pack_small_poly p) = 128"
  "length (pack_t0_poly p) = 416" "length (pack_z_poly p) = 640"
  using t1.length_pack_all [of p 64] small.length_pack_all [of p 128] t0.length_pack_all [of p 32] z.length_pack_all [of p 128]
  by (simp_all add: pack_t1_poly_def pack_small_poly_def pack_t0_poly_def pack_z_poly_def del: upt_rec_numeral)

lemma unpack_packs:
  "length p = 256 \<Longrightarrow> list_all (\<lambda>x. 0 \<le> sint x \<and> sint x < 1024) p \<Longrightarrow> unpack_t1_poly (pack_t1_poly p) = p"
  "length p = 256 \<Longrightarrow> list_all (stored 4 4) p \<Longrightarrow> unpack_small_poly (pack_small_poly p) = p"
  "length p = 256 \<Longrightarrow> list_all (stored 4096 13) p \<Longrightarrow> unpack_t0_poly (pack_t0_poly p) = p"
  "length p = 256 \<Longrightarrow> list_all (stored GAMMA1 20) p \<Longrightarrow> unpack_z_poly (pack_z_poly p) = p"
  using t1.poly_roundtrip [of p 64] small.poly_roundtrip [of p 128] t0.poly_roundtrip [of p 32] z.poly_roundtrip [of p 128]
  by (simp_all add: pack_t1_poly_def pack_small_poly_def pack_t0_poly_def pack_z_poly_def
      unpack_t1_poly_def unpack_small_poly_def unpack_t0_poly_def unpack_z_poly_def del: upt_rec_numeral)

text \<open>The vectors the layouts carry: \<open>k\<close> polynomials of 256 coefficients of the given range.\<close>

definition vec_of :: "nat \<Rightarrow> (i32 \<Rightarrow> bool) \<Rightarrow> polyvec \<Rightarrow> bool" where
  "vec_of k P v \<longleftrightarrow> length v = k \<and> list_all (\<lambda>p. length p = 256 \<and> list_all P p) v"

lemma vec_of_nth: "vec_of k P v \<Longrightarrow> i < k \<Longrightarrow> length (v ! i) = 256 \<and> list_all P (v ! i)"
  by (simp add: vec_of_def list_all_length)

lemma vec_rebuild:
  assumes "vec_of k P v" and "\<And>p. length p = 256 \<Longrightarrow> list_all P p \<Longrightarrow> f p = p" and "\<And>i. i < k \<Longrightarrow> g i = f (v ! i)"
  shows "map g [0..<k] = v"
  using assms vec_of_nth [OF assms(1)] by (intro nth_equalityI) (simp_all add: vec_of_def)

text \<open>
  Unpacking a packed public key returns the seed and the vector t1, for every seed of 32
  bytes and every t1 whose coefficients are ten-bit values.
\<close>

theorem pk_roundtrip:
  assumes "length rho = 32" and "vec_of 6 (\<lambda>x. 0 \<le> sint x \<and> sint x < 1024) t1"
  shows "length (pack_pk rho t1) = 1952 \<and> unpack_pk (pack_pk rho t1) = (rho, t1)"
proof -
  let ?g = "\<lambda>i. pack_t1_poly (t1 ! i)"
  have "take 320 (drop (32 + i * 320) (pack_pk rho t1)) = ?g i" if "i < 6" for i
    using section_slice [of ?g 320 i 6 rho 32 "[]"] assms(1) that by (simp add: pack_pk_def del: upt_rec_numeral)
  then have "map (\<lambda>i. unpack_t1_poly (take 320 (drop (32 + i * 320) (pack_pk rho t1)))) [0..<6] = t1"
    using assms(2) unpack_packs(1) by (intro vec_rebuild [where f = "\<lambda>p. unpack_t1_poly (pack_t1_poly p)"]) auto
  moreover have "take 32 (pack_pk rho t1) = rho" "length (pack_pk rho t1) = 1952"
    using assms(1) by (simp_all add: pack_pk_def length_concat comp_def sum_list_triv)
  ultimately show ?thesis by (simp add: unpack_pk_def del: upt_rec_numeral)
qed

theorem pk_roundtrip_witness:
  "unpack_pk (pack_pk (replicate 32 7) (replicate 6 (replicate 256 1023))) = (replicate 32 7, replicate 6 (replicate 256 1023))"
  using pk_roundtrip [of "replicate 32 7" "replicate 6 (replicate 256 1023)"]
  by (simp add: vec_of_def list_all_iff)

lemma sk_roundtrip_lemma:
  assumes "length rho = 32" and "length k = 32" and "length tr = 64"
    and "vec_of 5 (stored 4 4) s1" and "vec_of 6 (stored 4 4) s2" and "vec_of 6 (stored 4096 13) t0"
  shows "length (pack_sk rho k tr s1 s2 t0) = 4032 \<and> unpack_sk (pack_sk rho k tr s1 s2 t0) = (rho, k, tr, s1, s2, t0)"
proof -
  let ?g1 = "\<lambda>i. pack_small_poly (s1 ! i)" and ?g2 = "\<lambda>i. pack_small_poly (s2 ! i)" and ?g3 = "\<lambda>i. pack_t0_poly (t0 ! i)"
  let ?c1 = "concat (map ?g1 [0..<5])" and ?c2 = "concat (map ?g2 [0..<6])" and ?c3 = "concat (map ?g3 [0..<6])"
  have len: "length ?c1 = 640" "length ?c2 = 768" "length ?c3 = 2496" by (simp_all add: length_concat comp_def sum_list_triv)
  have sk: "pack_sk rho k tr s1 s2 t0 = (rho @ k @ tr) @ ?c1 @ (?c2 @ ?c3)"
    "pack_sk rho k tr s1 s2 t0 = (rho @ k @ tr @ ?c1) @ ?c2 @ ?c3"
    "pack_sk rho k tr s1 s2 t0 = (rho @ k @ tr @ ?c1 @ ?c2) @ ?c3 @ []"
    by (simp_all add: pack_sk_def del: upt_rec_numeral)
  let ?sk = "pack_sk rho k tr s1 s2 t0"
  have "take 128 (drop (128 + i * 128) ?sk) = ?g1 i" if "i < 5" for i
    unfolding sk(1) using assms that by (intro section_slice) simp_all
  then have "map (\<lambda>i. unpack_small_poly (take 128 (drop (128 + i * 128) ?sk))) [0..<5] = s1"
    using assms(4) unpack_packs(2) by (intro vec_rebuild [where f = "\<lambda>p. unpack_small_poly (pack_small_poly p)"]) auto
  moreover have "take 128 (drop (768 + i * 128) ?sk) = ?g2 i" if "i < 6" for i
    unfolding sk(2) using assms that len by (intro section_slice) simp_all
  then have "map (\<lambda>i. unpack_small_poly (take 128 (drop (768 + i * 128) ?sk))) [0..<6] = s2"
    using assms(5) unpack_packs(2) by (intro vec_rebuild [where f = "\<lambda>p. unpack_small_poly (pack_small_poly p)"]) auto
  moreover have "take 416 (drop (1536 + i * 416) ?sk) = ?g3 i" if "i < 6" for i
    unfolding sk(3) using assms that len by (intro section_slice) simp_all
  then have "map (\<lambda>i. unpack_t0_poly (take 416 (drop (1536 + i * 416) ?sk))) [0..<6] = t0"
    using assms(6) unpack_packs(3) by (intro vec_rebuild [where f = "\<lambda>p. unpack_t0_poly (pack_t0_poly p)"]) auto
  moreover have "take 32 ?sk = rho" "take 32 (drop 32 ?sk) = k" "take 64 (drop 64 ?sk) = tr" "length ?sk = 4032"
    unfolding sk(1) using assms(1-3) len by (simp_all del: upt_rec_numeral)
  ultimately show ?thesis by (simp add: unpack_sk_def del: upt_rec_numeral)
qed

text \<open>
  Unpacking a packed private key returns its six parts, when the coefficients of s1 and s2
  are in [-11, 4] (the four-bit range around the \<open>\<eta> = 4\<close> the key generator uses) and those of t0
  in (-2^12, 2^12], all given as residues modulo q.
\<close>

theorem sk_roundtrip:
  assumes "length rho = 32" and "length k = 32" and "length tr = 64"
    and "vec_of 5 (stored 4 4) s1" and "vec_of 6 (stored 4 4) s2" and "vec_of 6 (stored 4096 13) t0"
  shows "length (pack_sk rho k tr s1 s2 t0) = 4032 \<and> unpack_sk (pack_sk rho k tr s1 s2 t0) = (rho, k, tr, s1, s2, t0)"
  using assms by (rule sk_roundtrip_lemma)

theorem sk_roundtrip_witness:
  "unpack_sk (pack_sk (replicate 32 1) (replicate 32 2) (replicate 64 3) (replicate 5 (replicate 256 4))
      (replicate 6 (replicate 256 8380413)) (replicate 6 (replicate 256 4096)))
   = (replicate 32 1, replicate 32 2, replicate 64 3, replicate 5 (replicate 256 4), replicate 6 (replicate 256 8380413),
      replicate 6 (replicate 256 4096))"
  using sk_roundtrip [of "replicate 32 1" "replicate 32 2" "replicate 64 3" "replicate 5 (replicate 256 4)"
      "replicate 6 (replicate 256 8380413)" "replicate 6 (replicate 256 4096)"]
  by (simp add: vec_of_def list_all_iff stored_def canonical_def centred_def)

text \<open>
  Unpacking a packed signature succeeds and returns the challenge seed, z and the hint, for
  every 48-byte seed, every z with coefficients in (-\<gamma>1, \<gamma>1] and every well-formed hint.
\<close>

theorem sig_roundtrip:
  assumes "length c_tilde = 48" and "vec_of 5 (stored GAMMA1 20) z" and "hint_wf h"
  shows "length (pack_sig c_tilde z h) = 3309 \<and> unpack_sig (pack_sig c_tilde z h) = Inr (c_tilde, z, h)"
proof -
  let ?g = "\<lambda>i. pack_z_poly (z ! i)"
  let ?c = "concat (map ?g [0..<5])" and ?sig = "pack_sig c_tilde z h"
  have len: "length ?c = 3200" by (simp add: length_concat comp_def sum_list_triv)
  have "take 640 (drop (48 + i * 640) ?sig) = ?g i" if "i < 5" for i
    unfolding pack_sig_def using assms(1) that by (intro section_slice) simp_all
  then have "map (\<lambda>i. unpack_z_poly (take 640 (drop (48 + i * 640) ?sig))) [0..<5] = z"
    using assms(2) unpack_packs(4) by (intro vec_rebuild [where f = "\<lambda>p. unpack_z_poly (pack_z_poly p)"]) auto
  moreover have "take 48 ?sig = c_tilde" "take 61 (drop 3248 ?sig) = pack_hint h" "length ?sig = 3309"
    using assms(1) len by (simp_all add: pack_sig_def del: upt_rec_numeral)
  moreover have "unpack_hint (pack_hint h) = Inr h" using assms(3) by (simp add: unpack_hint_canonical_lemma)
  ultimately show ?thesis by (simp add: unpack_sig_def del: upt_rec_numeral)
qed

theorem sig_roundtrip_witness:
  "unpack_sig (pack_sig (replicate 48 5) (replicate 5 (replicate 256 524288)) (map hint_poly [[3, 7], [], [0], [], [], [255]]))
   = Inr (replicate 48 5, replicate 5 (replicate 256 524288), map hint_poly [[3, 7], [], [0], [], [], [255]])"
proof -
  have "valid_rows [[3, 7], [], [0], [], [], [255]]" by (simp add: valid_rows_def hint_row_ok_def)
  then have "hint_wf (map hint_poly [[3, 7], [], [0], [], [], [255]])" using hint_wf_rows by blast
  moreover have "vec_of 5 (stored GAMMA1 20) (replicate 5 (replicate 256 524288))"
    by (simp add: vec_of_def list_all_iff stored_def canonical_def centred_def GAMMA1_def)
  ultimately show ?thesis using sig_roundtrip [of "replicate 48 5"] by simp
qed

end
