(* ===== verification/Shake.thy ===== *)
theory Shake
  imports Prelude
begin

text \<open>
  The Keccak permutation and the SHAKE sponge (\<open>solomon-core/src/crypto/shake.rs\<close>).  The
  permutation is shown equal, round by round, to the lane-wise definition of FIPS 202 (including
  the round constants, which the standard derives from a shift register).  The buffered sponge is
  shown to absorb and squeeze byte by byte, whatever the sizes of the calls, and the one-shot
  functions to compute the padded sponge of the standard.

  A call of \<open>absorb\<close> or \<open>squeeze\<close> that does not return (a panic, or the endless loop of a sponge
  of rate 0) is \<open>None\<close>.
\<close>

unbundle bit_operations_syntax

section \<open>Definitions\<close>

subsection \<open>The permutation\<close>

definition RC :: "u64 list" where
  "RC = [0x0000000000000001, 0x0000000000008082, 0x800000000000808a,
    0x8000000080008000, 0x000000000000808b, 0x0000000080000001,
    0x8000000080008081, 0x8000000000008009, 0x000000000000008a,
    0x0000000000000088, 0x0000000080008009, 0x000000008000000a,
    0x000000008000808b, 0x800000000000008b, 0x8000000000008089,
    0x8000000000008003, 0x8000000000008002, 0x8000000000000080,
    0x000000000000800a, 0x800000008000000a, 0x8000000080008081,
    0x8000000000008080, 0x0000000080000001, 0x8000000080008008]"

definition RHO :: "nat list" where
  "RHO = [1, 3, 6, 10, 15, 21, 28, 36, 45, 55, 2, 14, 27, 41, 56, 8, 25, 43, 62, 18, 39, 61, 20, 44]"

definition PI :: "nat list" where
  "PI = [10, 7, 11, 17, 18, 3, 5, 16, 8, 21, 24, 4, 15, 23, 19, 13, 12, 2, 20, 14, 22, 9, 6, 1]"

definition theta_step :: "u64 list \<Rightarrow> u64 list" where
  "theta_step st =
    (let c = map (\<lambda>i. st ! i XOR st ! (i + 5) XOR st ! (i + 10) XOR st ! (i + 15) XOR st ! (i + 20)) [0..<5]
     in fold (\<lambda>i st.
          let temp = c ! ((i + 4) mod 5) XOR word_rotl 1 (c ! ((i + 1) mod 5))
          in fold (\<lambda>j st. st[i + 5 * j := st ! (i + 5 * j) XOR temp]) [0..<5] st) [0..<5] st)"

definition rho_pi_step :: "u64 list \<Rightarrow> u64 list" where
  "rho_pi_step st =
    snd (fold (\<lambda>x (last, st). let temp = st ! (PI ! x) in (temp, st[PI ! x := word_rotl (RHO ! x) last]))
      [0..<24] (st ! 1, st))"

definition chi_step :: "u64 list \<Rightarrow> u64 list" where
  "chi_step st =
    fold (\<lambda>j. fold (\<lambda>i st'.
        st'[i + 5 * j := st ! (i + 5 * j) XOR (NOT (st ! ((i + 1) mod 5 + 5 * j)) AND st ! ((i + 2) mod 5 + 5 * j))])
      [0..<5]) [0..<5] st"

definition keccak_round :: "nat \<Rightarrow> u64 list \<Rightarrow> u64 list" where
  "keccak_round rnd st = (let st = chi_step (rho_pi_step (theta_step st)) in st[0 := st ! 0 XOR RC ! rnd])"

definition keccak_f1600 :: "u64 list \<Rightarrow> u64 list" where
  "keccak_f1600 st = fold keccak_round [0..<24] st"

subsection \<open>The sponge\<close>

record KeccakSponge =
  state :: "u64 list"
  rate :: nat
  pos :: nat
  buffer :: bytes
  delimited_suffix :: u8
  squeezing :: bool

definition sponge_new :: "nat \<Rightarrow> u8 \<Rightarrow> KeccakSponge" where
  "sponge_new r suffix = \<lparr>state = replicate 25 0, rate = r, pos = 0, buffer = replicate 200 0,
     delimited_suffix = suffix, squeezing = False\<rparr>"

definition new_shake128 :: KeccakSponge where "new_shake128 = sponge_new 168 0x1F"

definition new_shake256 :: KeccakSponge where "new_shake256 = sponge_new 136 0x1F"

definition buffer_word :: "bytes \<Rightarrow> nat \<Rightarrow> u64" where
  "buffer_word buf i = fold (\<lambda>b word. word OR push_bit (b * 8) (ucast (buf ! (i * 8 + b)))) [0..<8] 0"

definition xor_buffer :: "nat \<Rightarrow> bytes \<Rightarrow> u64 list \<Rightarrow> u64 list" where
  "xor_buffer r buf st = fold (\<lambda>i st. st[i := st ! i XOR buffer_word buf i]) [0..<r div 8] st"

definition absorb_block :: "KeccakSponge \<Rightarrow> KeccakSponge" where
  "absorb_block s = s\<lparr>state := keccak_f1600 (xor_buffer (rate s) (buffer s) (state s)), pos := 0, buffer := replicate 200 0\<rparr>"

partial_function (option) absorb_loop :: "KeccakSponge \<Rightarrow> bytes \<Rightarrow> KeccakSponge option" where
  "absorb_loop s data =
    (if data = [] then Some s
     else if rate s < pos s then None
     else let todo = min (length data) (rate s - pos s) in
       if 200 < pos s + todo then None
       else let s1 = s\<lparr>buffer := take (pos s) (buffer s) @ take todo data @ drop (pos s + todo) (buffer s), pos := pos s + todo\<rparr>
         in absorb_loop (if pos s1 = rate s1 then absorb_block s1 else s1) (drop todo data))"

definition absorb :: "KeccakSponge \<Rightarrow> bytes \<Rightarrow> KeccakSponge option" where
  "absorb s data = (if squeezing s then None else absorb_loop s data)"

definition squeeze_start :: "KeccakSponge \<Rightarrow> KeccakSponge option" where
  "squeeze_start s =
    (if squeezing s then Some s
     else if pos s \<ge> 200 \<or> rate s = 0 \<or> rate s > 200 then None
     else let buf = (buffer s)[pos s := buffer s ! pos s XOR delimited_suffix s];
              buf = buf[rate s - 1 := buf ! (rate s - 1) XOR 0x80]
       in Some (s\<lparr>buffer := buf, state := keccak_f1600 (xor_buffer (rate s) buf (state s)), pos := 0, squeezing := True\<rparr>))"

definition state_byte :: "u64 list \<Rightarrow> nat \<Rightarrow> u8" where
  "state_byte st p = ucast (drop_bit (p mod 8 * 8) (st ! (p div 8)))"

partial_function (option) squeeze_loop :: "KeccakSponge \<Rightarrow> nat \<Rightarrow> bytes \<Rightarrow> (KeccakSponge \<times> bytes) option" where
  "squeeze_loop s remaining out =
    (if remaining = 0 then Some (s, out)
     else let s = (if pos s = rate s then s\<lparr>state := keccak_f1600 (state s), pos := 0\<rparr> else s) in
       if rate s < pos s then None
       else let todo = min remaining (rate s - pos s) in
         if 200 < pos s + todo then None
         else squeeze_loop (s\<lparr>pos := pos s + todo\<rparr>) (remaining - todo)
           (out @ map (\<lambda>i. state_byte (state s) (pos s + i)) [0..<todo]))"

text \<open>\<open>squeeze s n\<close> fills an output slice of \<open>n\<close> bytes.\<close>

definition squeeze :: "KeccakSponge \<Rightarrow> nat \<Rightarrow> (KeccakSponge \<times> bytes) option" where
  "squeeze s n = (case squeeze_start s of None \<Rightarrow> None | Some s \<Rightarrow> squeeze_loop s n [])"

definition shake128 :: "bytes \<Rightarrow> nat \<Rightarrow> bytes option" where
  "shake128 input n =
    (case absorb new_shake128 input of None \<Rightarrow> None | Some s \<Rightarrow> map_option snd (squeeze s n))"

definition shake256 :: "bytes \<Rightarrow> nat \<Rightarrow> bytes option" where
  "shake256 input n =
    (case absorb new_shake256 input of None \<Rightarrow> None | Some s \<Rightarrow> map_option snd (squeeze s n))"

section \<open>The permutation is that of FIPS 202\<close>

text \<open>Lanes: \<open>A x y\<close> is the word \<open>state[x + 5 * y]\<close>.\<close>

definition lanes :: "u64 list \<Rightarrow> nat \<Rightarrow> nat \<Rightarrow> u64" where
  "lanes st x y = st ! (x + 5 * y)"

definition of_lanes :: "(nat \<Rightarrow> nat \<Rightarrow> u64) \<Rightarrow> u64 list" where
  "of_lanes A = map (\<lambda>i. A (i mod 5) (i div 5)) [0..<25]"

definition fips_theta :: "(nat \<Rightarrow> nat \<Rightarrow> u64) \<Rightarrow> nat \<Rightarrow> nat \<Rightarrow> u64" where
  "fips_theta A x y =
    (let C = (\<lambda>x. A x 0 XOR A x 1 XOR A x 2 XOR A x 3 XOR A x 4)
     in A x y XOR (C ((x + 4) mod 5) XOR word_rotl 1 (C ((x + 1) mod 5))))"

text \<open>The offset of lane (x, y): walk (1, 0), (0, 2), \<dots> and rotate the t-th lane by (t + 1)(t + 2) / 2.\<close>

fun rho_walk :: "nat \<Rightarrow> nat \<times> nat" where
  "rho_walk 0 = (1, 0)"
| "rho_walk (Suc t) = (let (x, y) = rho_walk t in (y, (2 * x + 3 * y) mod 5))"

definition rho_offset :: "nat \<Rightarrow> nat \<Rightarrow> nat" where
  "rho_offset x y =
    (case find (\<lambda>t. rho_walk t = (x, y)) [0..<24] of None \<Rightarrow> 0 | Some t \<Rightarrow> ((t + 1) * (t + 2) div 2) mod 64)"

definition fips_rho :: "(nat \<Rightarrow> nat \<Rightarrow> u64) \<Rightarrow> nat \<Rightarrow> nat \<Rightarrow> u64" where
  "fips_rho A x y = word_rotl (rho_offset x y) (A x y)"

definition fips_pi :: "(nat \<Rightarrow> nat \<Rightarrow> u64) \<Rightarrow> nat \<Rightarrow> nat \<Rightarrow> u64" where
  "fips_pi A x y = A ((x + 3 * y) mod 5) x"

definition fips_chi :: "(nat \<Rightarrow> nat \<Rightarrow> u64) \<Rightarrow> nat \<Rightarrow> nat \<Rightarrow> u64" where
  "fips_chi A x y = A x y XOR (NOT (A ((x + 1) mod 5) y) AND A ((x + 2) mod 5) y)"

text \<open>The round constants: \<open>rc\<close> is the output bit of an 8-bit shift register after t steps.\<close>

definition lfsr_step :: "bool list \<Rightarrow> bool list" where
  "lfsr_step r =
    (let o8 = r ! 7 in [o8, r ! 0, r ! 1, r ! 2, r ! 3 \<noteq> o8, r ! 4 \<noteq> o8, r ! 5 \<noteq> o8, r ! 6])"

primrec lfsr :: "nat \<Rightarrow> bool list" where
  "lfsr 0 = [True, False, False, False, False, False, False, False]"
| "lfsr (Suc t) = lfsr_step (lfsr t)"

definition fips_rc :: "nat \<Rightarrow> u64" where
  "fips_rc rnd = fold (\<lambda>j w. if hd (lfsr (j + 7 * rnd)) then w OR push_bit (2 ^ j - 1) 1 else w) [0..<7] 0"

definition fips_iota :: "nat \<Rightarrow> (nat \<Rightarrow> nat \<Rightarrow> u64) \<Rightarrow> nat \<Rightarrow> nat \<Rightarrow> u64" where
  "fips_iota rnd A x y = (if x = 0 \<and> y = 0 then A 0 0 XOR fips_rc rnd else A x y)"

definition fips_round :: "nat \<Rightarrow> (nat \<Rightarrow> nat \<Rightarrow> u64) \<Rightarrow> nat \<Rightarrow> nat \<Rightarrow> u64" where
  "fips_round rnd A = fips_iota rnd (fips_chi (fips_pi (fips_rho (fips_theta A))))"

lemma list_25:
  assumes "length st = 25"
  shows "st = [st ! 0, st ! 1, st ! 2, st ! 3, st ! 4, st ! 5, st ! 6, st ! 7, st ! 8, st ! 9, st ! 10, st ! 11, st ! 12, st ! 13, st ! 14, st ! 15, st ! 16, st ! 17, st ! 18, st ! 19, st ! 20, st ! 21, st ! 22, st ! 23, st ! 24]"
proof -
  have "st = map (\<lambda>i. st ! i) [0..<25]" using assms by (metis map_nth)
  also have "map (\<lambda>i. st ! i) [0..<25] = [st ! 0, st ! 1, st ! 2, st ! 3, st ! 4, st ! 5, st ! 6, st ! 7, st ! 8, st ! 9, st ! 10, st ! 11, st ! 12, st ! 13, st ! 14, st ! 15, st ! 16, st ! 17, st ! 18, st ! 19, st ! 20, st ! 21, st ! 22, st ! 23, st ! 24]" by (simp add: upt_heads)
  finally show ?thesis .
qed

lemma lfsr_block: "lfsr n = r \<Longrightarrow> lfsr (n + 7) = lfsr_step (lfsr_step (lfsr_step (lfsr_step (lfsr_step (lfsr_step (lfsr_step r))))))"
  by (simp add: numeral_eq_Suc)

lemma lfsr_states:
  "lfsr 0 = [True, False, False, False, False, False, False, False]"
  "lfsr 7 = [False, False, False, False, False, False, False, True]"
  "lfsr 14 = [False, False, False, True, True, False, True, True]"
  "lfsr 21 = [False, True, False, True, True, False, False, False]"
  "lfsr 28 = [True, True, True, True, True, False, True, True]"
  "lfsr 35 = [True, False, False, True, False, False, False, False]"
  "lfsr 42 = [True, False, True, False, True, True, False, False]"
  "lfsr 49 = [True, True, True, True, False, False, True, False]"
  "lfsr 56 = [False, True, False, True, False, False, True, True]"
  "lfsr 63 = [False, False, False, False, True, True, True, False]"
  "lfsr 70 = [True, False, False, False, False, False, True, False]"
  "lfsr 77 = [False, False, True, True, False, True, True, True]"
  "lfsr 84 = [True, False, True, False, True, False, True, True]"
  "lfsr 91 = [True, False, True, True, False, False, True, True]"
  "lfsr 98 = [True, True, False, False, False, True, True, False]"
  "lfsr 105 = [True, True, False, True, False, True, False, True]"
  "lfsr 112 = [False, True, False, True, False, True, False, True]"
  "lfsr 119 = [False, True, False, True, False, True, False, False]"
  "lfsr 126 = [False, True, False, False, True, True, True, True]"
  "lfsr 133 = [False, False, False, True, False, True, True, True]"
  "lfsr 140 = [True, True, True, False, True, True, False, False]"
  "lfsr 147 = [False, True, True, True, True, True, False, False]"
  "lfsr 154 = [True, True, False, True, False, False, False, False]"
  "lfsr 161 = [False, False, True, False, False, False, True, False]"
proof -
  show f0: "lfsr 0 = [True, False, False, False, False, False, False, False]" by simp
  show f1: "lfsr 7 = [False, False, False, False, False, False, False, True]" using lfsr_block [OF f0] by (simp add: lfsr_step_def)
  show f2: "lfsr 14 = [False, False, False, True, True, False, True, True]" using lfsr_block [OF f1] by (simp add: lfsr_step_def)
  show f3: "lfsr 21 = [False, True, False, True, True, False, False, False]" using lfsr_block [OF f2] by (simp add: lfsr_step_def)
  show f4: "lfsr 28 = [True, True, True, True, True, False, True, True]" using lfsr_block [OF f3] by (simp add: lfsr_step_def)
  show f5: "lfsr 35 = [True, False, False, True, False, False, False, False]" using lfsr_block [OF f4] by (simp add: lfsr_step_def)
  show f6: "lfsr 42 = [True, False, True, False, True, True, False, False]" using lfsr_block [OF f5] by (simp add: lfsr_step_def)
  show f7: "lfsr 49 = [True, True, True, True, False, False, True, False]" using lfsr_block [OF f6] by (simp add: lfsr_step_def)
  show f8: "lfsr 56 = [False, True, False, True, False, False, True, True]" using lfsr_block [OF f7] by (simp add: lfsr_step_def)
  show f9: "lfsr 63 = [False, False, False, False, True, True, True, False]" using lfsr_block [OF f8] by (simp add: lfsr_step_def)
  show f10: "lfsr 70 = [True, False, False, False, False, False, True, False]" using lfsr_block [OF f9] by (simp add: lfsr_step_def)
  show f11: "lfsr 77 = [False, False, True, True, False, True, True, True]" using lfsr_block [OF f10] by (simp add: lfsr_step_def)
  show f12: "lfsr 84 = [True, False, True, False, True, False, True, True]" using lfsr_block [OF f11] by (simp add: lfsr_step_def)
  show f13: "lfsr 91 = [True, False, True, True, False, False, True, True]" using lfsr_block [OF f12] by (simp add: lfsr_step_def)
  show f14: "lfsr 98 = [True, True, False, False, False, True, True, False]" using lfsr_block [OF f13] by (simp add: lfsr_step_def)
  show f15: "lfsr 105 = [True, True, False, True, False, True, False, True]" using lfsr_block [OF f14] by (simp add: lfsr_step_def)
  show f16: "lfsr 112 = [False, True, False, True, False, True, False, True]" using lfsr_block [OF f15] by (simp add: lfsr_step_def)
  show f17: "lfsr 119 = [False, True, False, True, False, True, False, False]" using lfsr_block [OF f16] by (simp add: lfsr_step_def)
  show f18: "lfsr 126 = [False, True, False, False, True, True, True, True]" using lfsr_block [OF f17] by (simp add: lfsr_step_def)
  show f19: "lfsr 133 = [False, False, False, True, False, True, True, True]" using lfsr_block [OF f18] by (simp add: lfsr_step_def)
  show f20: "lfsr 140 = [True, True, True, False, True, True, False, False]" using lfsr_block [OF f19] by (simp add: lfsr_step_def)
  show f21: "lfsr 147 = [False, True, True, True, True, True, False, False]" using lfsr_block [OF f20] by (simp add: lfsr_step_def)
  show f22: "lfsr 154 = [True, True, False, True, False, False, False, False]" using lfsr_block [OF f21] by (simp add: lfsr_step_def)
  show f23: "lfsr 161 = [False, False, True, False, False, False, True, False]" using lfsr_block [OF f22] by (simp add: lfsr_step_def)
qed

definition rc_word :: "bool list \<Rightarrow> u64" where
  "rc_word r =
    (let r1 = lfsr_step r; r2 = lfsr_step r1; r3 = lfsr_step r2; r4 = lfsr_step r3; r5 = lfsr_step r4; r6 = lfsr_step r5
     in of_bool (hd r) OR push_bit 1 (of_bool (hd r1)) OR push_bit 3 (of_bool (hd r2)) OR push_bit 7 (of_bool (hd r3))
        OR push_bit 15 (of_bool (hd r4)) OR push_bit 31 (of_bool (hd r5)) OR push_bit 63 (of_bool (hd r6)))"

lemma fips_rc_word: "fips_rc rnd = rc_word (lfsr (7 * rnd))"
  by (simp add: fips_rc_def rc_word_def Let_def numeral_eq_Suc ac_simps)

lemma RC_fips: "rnd < 24 \<Longrightarrow> RC ! rnd = fips_rc rnd"
proof -
  assume "rnd < 24"
  moreover have "list_all (\<lambda>k. RC ! k = fips_rc k) [0..<24]"
    by (simp add: upt_heads RC_def fips_rc_word lfsr_states(2-) rc_word_def lfsr_step_def Let_def)
  ultimately show ?thesis by (simp add: list_all_iff)
qed

lemma rotl_zero: "word_rotl 0 w = w"
  by transfer simp

lemma theta_fips:
  assumes "length st = 25"
  shows "theta_step st = of_lanes (fips_theta (lanes st))"
  by (subst list_25 [OF assms]) (simp add: theta_step_def of_lanes_def fips_theta_def lanes_def upt_heads Let_def numeral_2_eq_2 [symmetric])

lemma rho_walk_next: "rho_walk n = (x, y) \<Longrightarrow> rho_walk (n + 1) = (y, (2 * x + 3 * y) mod 5)"
  by simp

lemma rho_walks:
  "rho_walk 0 = (1, 0)"
  "rho_walk 1 = (0, 2)"
  "rho_walk 2 = (2, 1)"
  "rho_walk 3 = (1, 2)"
  "rho_walk 4 = (2, 3)"
  "rho_walk 5 = (3, 3)"
  "rho_walk 6 = (3, 0)"
  "rho_walk 7 = (0, 1)"
  "rho_walk 8 = (1, 3)"
  "rho_walk 9 = (3, 1)"
  "rho_walk 10 = (1, 4)"
  "rho_walk 11 = (4, 4)"
  "rho_walk 12 = (4, 0)"
  "rho_walk 13 = (0, 3)"
  "rho_walk 14 = (3, 4)"
  "rho_walk 15 = (4, 3)"
  "rho_walk 16 = (3, 2)"
  "rho_walk 17 = (2, 2)"
  "rho_walk 18 = (2, 0)"
  "rho_walk 19 = (0, 4)"
  "rho_walk 20 = (4, 2)"
  "rho_walk 21 = (2, 4)"
  "rho_walk 22 = (4, 1)"
  "rho_walk 23 = (1, 1)"
proof -
  show f0: "rho_walk 0 = (1, 0)" by simp
  show f1: "rho_walk 1 = (0, 2)" using rho_walk_next [OF f0] by (simp del: rho_walk.simps)
  show f2: "rho_walk 2 = (2, 1)" using rho_walk_next [OF f1] by (simp add: numeral_2_eq_2 del: rho_walk.simps)
  show f3: "rho_walk 3 = (1, 2)" using rho_walk_next [OF f2] by (simp del: rho_walk.simps)
  show f4: "rho_walk 4 = (2, 3)" using rho_walk_next [OF f3] by (simp del: rho_walk.simps)
  show f5: "rho_walk 5 = (3, 3)" using rho_walk_next [OF f4] by (simp del: rho_walk.simps)
  show f6: "rho_walk 6 = (3, 0)" using rho_walk_next [OF f5] by (simp del: rho_walk.simps)
  show f7: "rho_walk 7 = (0, 1)" using rho_walk_next [OF f6] by (simp del: rho_walk.simps)
  show f8: "rho_walk 8 = (1, 3)" using rho_walk_next [OF f7] by (simp del: rho_walk.simps)
  show f9: "rho_walk 9 = (3, 1)" using rho_walk_next [OF f8] by (simp del: rho_walk.simps)
  show f10: "rho_walk 10 = (1, 4)" using rho_walk_next [OF f9] by (simp del: rho_walk.simps)
  show f11: "rho_walk 11 = (4, 4)" using rho_walk_next [OF f10] by (simp del: rho_walk.simps)
  show f12: "rho_walk 12 = (4, 0)" using rho_walk_next [OF f11] by (simp del: rho_walk.simps)
  show f13: "rho_walk 13 = (0, 3)" using rho_walk_next [OF f12] by (simp del: rho_walk.simps)
  show f14: "rho_walk 14 = (3, 4)" using rho_walk_next [OF f13] by (simp del: rho_walk.simps)
  show f15: "rho_walk 15 = (4, 3)" using rho_walk_next [OF f14] by (simp del: rho_walk.simps)
  show f16: "rho_walk 16 = (3, 2)" using rho_walk_next [OF f15] by (simp del: rho_walk.simps)
  show f17: "rho_walk 17 = (2, 2)" using rho_walk_next [OF f16] by (simp del: rho_walk.simps)
  show f18: "rho_walk 18 = (2, 0)" using rho_walk_next [OF f17] by (simp del: rho_walk.simps)
  show f19: "rho_walk 19 = (0, 4)" using rho_walk_next [OF f18] by (simp del: rho_walk.simps)
  show f20: "rho_walk 20 = (4, 2)" using rho_walk_next [OF f19] by (simp del: rho_walk.simps)
  show f21: "rho_walk 21 = (2, 4)" using rho_walk_next [OF f20] by (simp del: rho_walk.simps)
  show f22: "rho_walk 22 = (4, 1)" using rho_walk_next [OF f21] by (simp del: rho_walk.simps)
  show f23: "rho_walk 23 = (1, 1)" using rho_walk_next [OF f22] by (simp del: rho_walk.simps)
qed

lemma rho_offsets:
  "rho_offset 0 0 = 0"
  "rho_offset 1 0 = 1"
  "rho_offset 2 0 = 62"
  "rho_offset 3 0 = 28"
  "rho_offset 4 0 = 27"
  "rho_offset 0 1 = 36"
  "rho_offset 1 1 = 44"
  "rho_offset 2 1 = 6"
  "rho_offset 3 1 = 55"
  "rho_offset 4 1 = 20"
  "rho_offset 0 2 = 3"
  "rho_offset 1 2 = 10"
  "rho_offset 2 2 = 43"
  "rho_offset 3 2 = 25"
  "rho_offset 4 2 = 39"
  "rho_offset 0 3 = 41"
  "rho_offset 1 3 = 45"
  "rho_offset 2 3 = 15"
  "rho_offset 3 3 = 21"
  "rho_offset 4 3 = 8"
  "rho_offset 0 4 = 18"
  "rho_offset 1 4 = 2"
  "rho_offset 2 4 = 61"
  "rho_offset 3 4 = 56"
  "rho_offset 4 4 = 14"
  by (simp_all add: rho_offset_def upt_heads rho_walks(3-))

lemma rho_pi_fips:
  assumes "length st = 25"
  shows "rho_pi_step st = of_lanes (fips_pi (fips_rho (lanes st)))"
  by (subst list_25 [OF assms]) (simp add: rho_pi_step_def of_lanes_def fips_pi_def fips_rho_def lanes_def upt_heads Let_def PI_def RHO_def rho_offsets [simplified] numeral_2_eq_2 [symmetric] rotl_zero)

lemma chi_fips:
  assumes "length st = 25"
  shows "chi_step st = of_lanes (fips_chi (lanes st))"
  by (subst list_25 [OF assms]) (simp add: chi_step_def of_lanes_def fips_chi_def lanes_def upt_heads Let_def numeral_2_eq_2 [symmetric])

lemma lanes_of_lanes: "x < 5 \<Longrightarrow> y < 5 \<Longrightarrow> lanes (of_lanes A) x y = A x y"
  by (simp add: lanes_def of_lanes_def del: upt_rec_numeral)

lemma length_of_lanes [simp]: "length (of_lanes A) = 25"
  by (simp add: of_lanes_def)

lemma of_lanes_cong: "(\<And>x y. x < 5 \<Longrightarrow> y < 5 \<Longrightarrow> A x y = B x y) \<Longrightarrow> of_lanes A = of_lanes B"
  by (auto simp: of_lanes_def intro!: map_cong)

lemma rho_pi_cong: "(\<And>x y. x < 5 \<Longrightarrow> y < 5 \<Longrightarrow> A x y = B x y) \<Longrightarrow> x < 5 \<Longrightarrow> y < 5 \<Longrightarrow>
    fips_pi (fips_rho A) x y = fips_pi (fips_rho B) x y"
  by (simp add: fips_pi_def fips_rho_def)

lemma chi_cong: "(\<And>x y. x < 5 \<Longrightarrow> y < 5 \<Longrightarrow> A x y = B x y) \<Longrightarrow> x < 5 \<Longrightarrow> y < 5 \<Longrightarrow> fips_chi A x y = fips_chi B x y"
  by (simp add: fips_chi_def)

lemma keccak_round_fips:
  assumes "length st = 25" and "rnd < 24"
  shows "keccak_round rnd st = of_lanes (fips_round rnd (lanes st))"
proof -
  let ?A1 = "fips_theta (lanes st)" and ?A2 = "fips_pi (fips_rho (fips_theta (lanes st)))"
  have 1: "rho_pi_step (theta_step st) = of_lanes ?A2"
    using assms(1) by (auto simp: theta_fips rho_pi_fips lanes_of_lanes intro!: of_lanes_cong rho_pi_cong)
  have 2: "chi_step (of_lanes ?A2) = of_lanes (fips_chi ?A2)"
    by (auto simp: chi_fips lanes_of_lanes intro!: of_lanes_cong chi_cong)
  have 3: "(of_lanes A)[0 := of_lanes A ! 0 XOR RC ! rnd] = of_lanes (fips_iota rnd A)" for A
  proof (rule nth_equalityI)
    fix i assume "i < length ((of_lanes A)[0 := of_lanes A ! 0 XOR RC ! rnd])"
    then have i: "i < 25" by simp
    show "(of_lanes A)[0 := of_lanes A ! 0 XOR RC ! rnd] ! i = of_lanes (fips_iota rnd A) ! i"
      using i assms(2) by (cases "i = 0") (auto simp: of_lanes_def fips_iota_def RC_fips simp del: upt_rec_numeral)
  qed simp
  show ?thesis unfolding keccak_round_def Let_def 1 2 3 fips_round_def ..
qed

primrec fips_rounds :: "nat \<Rightarrow> (nat \<Rightarrow> nat \<Rightarrow> u64) \<Rightarrow> nat \<Rightarrow> nat \<Rightarrow> u64" where
  "fips_rounds 0 A = A"
| "fips_rounds (Suc n) A = fips_round n (fips_rounds n A)"

lemma fips_round_cong: "(\<And>x y. x < 5 \<Longrightarrow> y < 5 \<Longrightarrow> A x y = B x y) \<Longrightarrow> x < 5 \<Longrightarrow> y < 5 \<Longrightarrow>
    fips_round rnd A x y = fips_round rnd B x y"
  by (simp add: fips_round_def fips_iota_def fips_chi_def fips_pi_def fips_rho_def fips_theta_def Let_def)

lemma keccak_rounds_fips:
  assumes "length st = 25" and "n \<le> 24"
  shows "fold keccak_round [0..<n] st = of_lanes (fips_rounds n (lanes st))"
  using assms(2)
proof (induction n)
  case 0
  have "st = of_lanes (lanes st)"
    using assms(1) by (intro nth_equalityI) (auto simp: of_lanes_def lanes_def simp del: upt_rec_numeral)
  then show ?case by simp
next
  case (Suc n)
  then have "fold keccak_round [0..<Suc n] st = keccak_round n (of_lanes (fips_rounds n (lanes st)))" by simp
  also have "\<dots> = of_lanes (fips_round n (lanes (of_lanes (fips_rounds n (lanes st)))))"
    using Suc by (intro keccak_round_fips) simp_all
  also have "\<dots> = of_lanes (fips_rounds (Suc n) (lanes st))"
    by (auto intro!: of_lanes_cong fips_round_cong simp: lanes_of_lanes)
  finally show ?case .
qed

text \<open>
  C32: The permutation of the code is Keccak-f[1600] as FIPS 202 defines it: 24 rounds of theta,
  rho, pi, chi and iota on the 5 by 5 array of lanes, with the rotation offsets of the standard's
  walk and the round constants of its shift register.
\<close>

theorem keccak_f1600_fips:
  assumes "length st = 25"
  shows "keccak_f1600 st = of_lanes (fips_rounds 24 (lanes st))"
  unfolding keccak_f1600_def using assms by (rule keccak_rounds_fips) simp

theorem keccak_f1600_fips_witness:
  "keccak_f1600 (replicate 25 0) = of_lanes (fips_rounds 24 (lanes (replicate 25 0)))"
  by (rule keccak_f1600_fips) simp

section \<open>The sponge works byte by byte\<close>

definition wf_sponge :: "KeccakSponge \<Rightarrow> bool" where
  "wf_sponge s \<longleftrightarrow> length (state s) = 25 \<and> 0 < rate s \<and> rate s \<le> 200 \<and> length (buffer s) = 200 \<and>
    (if squeezing s then pos s \<le> rate s else pos s < rate s)"

definition absorb_byte :: "u8 \<Rightarrow> KeccakSponge \<Rightarrow> KeccakSponge" where
  "absorb_byte b s =
    (let s1 = s\<lparr>buffer := (buffer s)[pos s := b], pos := pos s + 1\<rparr> in if pos s1 = rate s1 then absorb_block s1 else s1)"

lemma length_xor_buffer [simp]: "length (xor_buffer r buf st) = length st"
proof -
  have "length (fold (\<lambda>i st. st[i := st ! i XOR buffer_word buf i]) is st) = length st" for "is"
    by (induction "is" arbitrary: st) auto
  then show ?thesis by (simp add: xor_buffer_def)
qed

lemma length_keccak_f1600 [simp]: "length st = 25 \<Longrightarrow> length (keccak_f1600 st) = 25"
  using keccak_rounds_fips [of st 24] by (simp add: keccak_f1600_def)

lemma absorb_block_sel [simp]:
  "rate (absorb_block s) = rate s" "pos (absorb_block s) = 0" "buffer (absorb_block s) = replicate 200 0"
  "squeezing (absorb_block s) = squeezing s" "delimited_suffix (absorb_block s) = delimited_suffix s"
  by (simp_all add: absorb_block_def)

lemma absorb_byte_sel [simp]:
  "rate (absorb_byte b s) = rate s" "squeezing (absorb_byte b s) = squeezing s"
  "delimited_suffix (absorb_byte b s) = delimited_suffix s"
  by (simp_all add: absorb_byte_def Let_def)

lemma absorb_byte_wf: "wf_sponge s \<Longrightarrow> \<not> squeezing s \<Longrightarrow> wf_sponge (absorb_byte b s)"
  by (auto simp: wf_sponge_def absorb_byte_def absorb_block_def Let_def)

text \<open>A run of bytes that fits in the block is a copy into the buffer.\<close>

lemma absorb_run:
  assumes "pos s + length d \<le> rate s" and "d \<noteq> []" and "rate s \<le> length (buffer s)"
  shows "fold absorb_byte d s =
    (let s1 = s\<lparr>buffer := take (pos s) (buffer s) @ d @ drop (pos s + length d) (buffer s), pos := pos s + length d\<rparr>
     in if pos s1 = rate s1 then absorb_block s1 else s1)"
  using assms
proof (induction d arbitrary: s)
  case (Cons b d)
  have upd: "(buffer s)[pos s := b] = take (pos s) (buffer s) @ b # drop (Suc (pos s)) (buffer s)"
    using Cons.prems by (simp add: upd_conv_take_nth_drop)
  show ?case
  proof (cases "d = []")
    case True
    then show ?thesis by (simp add: absorb_byte_def Let_def upd)
  next
    case False
    then have lt: "pos s + 1 < rate s" using Cons.prems by (cases d) auto
    then have "absorb_byte b s = s\<lparr>buffer := (buffer s)[pos s := b], pos := pos s + 1\<rparr>" by (simp add: absorb_byte_def)
    moreover have "take (Suc (pos s)) ((buffer s)[pos s := b]) = take (pos s) (buffer s) @ [b]"
      using lt Cons.prems by (simp add: upd)
    moreover have "drop (Suc (pos s + length d)) ((buffer s)[pos s := b]) = drop (Suc (pos s + length d)) (buffer s)"
      by (simp add: drop_update_swap)
    ultimately show ?thesis using Cons.IH [of "absorb_byte b s"] Cons.prems False by (simp add: Let_def)
  qed
qed simp

lemma fold_absorb_wf: "wf_sponge s \<Longrightarrow> \<not> squeezing s \<Longrightarrow>
    wf_sponge (fold absorb_byte xs s) \<and> \<not> squeezing (fold absorb_byte xs s) \<and> rate (fold absorb_byte xs s) = rate s \<and>
    delimited_suffix (fold absorb_byte xs s) = delimited_suffix s"
  by (induction xs arbitrary: s) (auto simp: absorb_byte_wf)

lemma absorb_loop_bytes:
  "wf_sponge s \<Longrightarrow> \<not> squeezing s \<Longrightarrow> absorb_loop s data = Some (fold absorb_byte data s)"
proof (induction "length data" arbitrary: s data rule: less_induct)
  case less
  show ?case
  proof (cases "data = []")
    case True
    then show ?thesis by (simp add: absorb_loop.simps)
  next
    case False
    let ?todo = "min (length data) (rate s - pos s)"
    have w: "pos s < rate s" "rate s \<le> 200" "length (buffer s) = 200" using less.prems by (auto simp: wf_sponge_def)
    then have t: "0 < ?todo" "pos s + ?todo \<le> rate s" using False by auto
    let ?s1 = "s\<lparr>buffer := take (pos s) (buffer s) @ take ?todo data @ drop (pos s + ?todo) (buffer s), pos := pos s + ?todo\<rparr>"
    let ?s2 = "if pos ?s1 = rate ?s1 then absorb_block ?s1 else ?s1"
    have run: "fold absorb_byte (take ?todo data) s = ?s2"
      using absorb_run [of s "take ?todo data"] t w False by (simp add: Let_def)
    have wf: "wf_sponge ?s2 \<and> \<not> squeezing ?s2"
      using fold_absorb_wf [OF less.prems, of "take ?todo data"] unfolding run by blast
    have "absorb_loop s data = absorb_loop ?s2 (drop ?todo data)"
      using False w t by (subst absorb_loop.simps) (simp add: Let_def)
    also have "\<dots> = Some (fold absorb_byte (drop ?todo data) ?s2)"
      using wf t False by (intro less.hyps) auto
    also have "fold absorb_byte (drop ?todo data) ?s2 = fold absorb_byte data s"
      using fold_append [of absorb_byte "take ?todo data" "drop ?todo data"] by (simp only: append_take_drop_id comp_apply run)
    finally show ?thesis .
  qed
qed

lemma absorb_bytes: "wf_sponge s \<Longrightarrow> \<not> squeezing s \<Longrightarrow> absorb s data = Some (fold absorb_byte data s)"
  by (simp add: absorb_def absorb_loop_bytes)

definition squeeze_byte :: "KeccakSponge \<Rightarrow> KeccakSponge \<times> u8" where
  "squeeze_byte s =
    (let s = (if pos s = rate s then s\<lparr>state := keccak_f1600 (state s), pos := 0\<rparr> else s)
     in (s\<lparr>pos := pos s + 1\<rparr>, state_byte (state s) (pos s)))"

primrec squeeze_bytes :: "nat \<Rightarrow> KeccakSponge \<Rightarrow> KeccakSponge \<times> bytes" where
  "squeeze_bytes 0 s = (s, [])"
| "squeeze_bytes (Suc n) s = (let (s1, b) = squeeze_byte s; (s2, bs) = squeeze_bytes n s1 in (s2, b # bs))"

lemma squeeze_bytes_add:
  "squeeze_bytes (m + n) s = (let (s1, xs) = squeeze_bytes m s; (s2, ys) = squeeze_bytes n s1 in (s2, xs @ ys))"
  by (induction m arbitrary: s) (auto simp: Let_def split: prod.splits)

lemma length_squeeze_bytes: "length (snd (squeeze_bytes n s)) = n"
  by (induction n arbitrary: s) (auto simp: Let_def split: prod.splits dest: arg_cong [where f = "length \<circ> snd"])

lemma squeeze_byte_wf: "wf_sponge s \<Longrightarrow> squeezing s \<Longrightarrow> wf_sponge (fst (squeeze_byte s)) \<and> squeezing (fst (squeeze_byte s))"
  by (auto simp: wf_sponge_def squeeze_byte_def Let_def)

lemma squeeze_bytes_wf:
  "wf_sponge s \<Longrightarrow> squeezing s \<Longrightarrow> wf_sponge (fst (squeeze_bytes n s)) \<and> squeezing (fst (squeeze_bytes n s))"
proof (induction n arbitrary: s)
  case (Suc n)
  then show ?case using Suc.IH [of "fst (squeeze_byte s)"] squeeze_byte_wf [OF Suc.prems] by (simp add: split_beta Let_def)
qed simp

lemma squeeze_run:
  "pos s + n \<le> rate s \<Longrightarrow> squeeze_bytes n s = (s\<lparr>pos := pos s + n\<rparr>, map (\<lambda>i. state_byte (state s) (pos s + i)) [0..<n])"
proof (induction n arbitrary: s)
  case (Suc n)
  have "map (\<lambda>i. state_byte (state s) (pos s + i)) [0..<Suc n]
      = state_byte (state s) (pos s) # map (\<lambda>i. state_byte (state s) (Suc (pos s + i))) [0..<n]"
    by (simp add: upt_conv_Cons map_Suc_upt [symmetric] del: upt_Suc)
  then show ?case using Suc.prems Suc.IH [of "s\<lparr>pos := pos s + 1\<rparr>"]
    by (simp add: squeeze_byte_def Let_def del: upt_Suc)
qed simp

lemma squeeze_loop_bytes:
  "wf_sponge s \<Longrightarrow> squeezing s \<Longrightarrow>
    squeeze_loop s n out = Some (fst (squeeze_bytes n s), out @ snd (squeeze_bytes n s))"
proof (induction n arbitrary: s out rule: less_induct)
  case (less n)
  show ?case
  proof (cases "n = 0")
    case True
    then show ?thesis by (simp add: squeeze_loop.simps)
  next
    case False
    let ?s = "if pos s = rate s then s\<lparr>state := keccak_f1600 (state s), pos := 0\<rparr> else s"
    let ?todo = "min n (rate ?s - pos ?s)"
    have w: "pos ?s < rate ?s" "rate ?s \<le> 200" "wf_sponge ?s" "squeezing ?s" using less.prems by (auto simp: wf_sponge_def)
    then have t: "0 < ?todo" "pos ?s + ?todo \<le> rate ?s" "?todo \<le> n" using False by simp_all
    have start: "squeeze_bytes k s = squeeze_bytes k ?s" if "0 < k" for k
      using that w(1) by (cases k) (auto simp: squeeze_byte_def Let_def)
    have run: "squeeze_bytes ?todo ?s = (?s\<lparr>pos := pos ?s + ?todo\<rparr>, map (\<lambda>i. state_byte (state ?s) (pos ?s + i)) [0..<?todo])"
      using t(2) by (rule squeeze_run)
    let ?s1 = "?s\<lparr>pos := pos ?s + ?todo\<rparr>" and ?bs = "map (\<lambda>i. state_byte (state ?s) (pos ?s + i)) [0..<?todo]"
    have wf1: "wf_sponge ?s1" "squeezing ?s1" using squeeze_bytes_wf [OF w(3,4), of ?todo] unfolding run by simp_all
    have "squeeze_loop s n out = squeeze_loop ?s1 (n - ?todo) (out @ ?bs)"
      using False w t by (subst squeeze_loop.simps) (simp only: Let_def if_False not_less [symmetric], simp)
    also have "\<dots> = Some (fst (squeeze_bytes (n - ?todo) ?s1), (out @ ?bs) @ snd (squeeze_bytes (n - ?todo) ?s1))"
      using wf1 t False by (intro less.IH) simp_all
    also have "\<dots> = Some (fst (squeeze_bytes n s), out @ snd (squeeze_bytes n s))"
    proof -
      have "squeeze_bytes n s = squeeze_bytes (?todo + (n - ?todo)) ?s" using t start False by simp
      also have "\<dots> = (fst (squeeze_bytes (n - ?todo) ?s1), ?bs @ snd (squeeze_bytes (n - ?todo) ?s1))"
        unfolding squeeze_bytes_add run by (simp add: Let_def split_beta)
      finally show ?thesis by simp
    qed
    finally show ?thesis .
  qed
qed

lemma squeeze_start_wf:
  assumes "wf_sponge s"
  obtains s1 where "squeeze_start s = Some s1" and "wf_sponge s1" and "squeezing s1" and "rate s1 = rate s"
proof (cases "squeezing s")
  case True
  then show ?thesis using that [of s] assms by (simp add: squeeze_start_def)
next
  case False
  let ?b1 = "(buffer s)[pos s := buffer s ! pos s XOR delimited_suffix s]"
  let ?b2 = "?b1[rate s - 1 := ?b1 ! (rate s - 1) XOR 0x80]"
  show ?thesis
    using that [of "s\<lparr>buffer := ?b2, state := keccak_f1600 (xor_buffer (rate s) ?b2 (state s)), pos := 0, squeezing := True\<rparr>"]
      False assms by (auto simp: squeeze_start_def wf_sponge_def Let_def)
qed

lemma squeeze_spec:
  assumes "wf_sponge s" and "squeeze_start s = Some s1"
  shows "squeeze s n = Some (squeeze_bytes n s1)"
proof -
  obtain s1' where "squeeze_start s = Some s1'" "wf_sponge s1'" "squeezing s1'" using squeeze_start_wf [OF assms(1)] by metis
  then show ?thesis using assms(2) by (simp add: squeeze_def squeeze_loop_bytes)
qed

text \<open>
  The sponge is a stream.  On every well-formed sponge, absorbing a message in two calls
  leaves the state of absorbing it in one; every squeeze returns the requested number of bytes
  and two squeezes return the bytes, and leave the state, of one.
\<close>

theorem sponge_streaming:
  assumes "wf_sponge s"
  shows "(\<not> squeezing s \<longrightarrow> (\<exists>s1 s2. absorb s a = Some s1 \<and> absorb s1 b = Some s2 \<and> absorb s (a @ b) = Some s2)) \<and>
    (\<exists>s1 xs s2 ys. squeeze s m = Some (s1, xs) \<and> squeeze s1 n = Some (s2, ys) \<and> length xs = m \<and>
      squeeze s (m + n) = Some (s2, xs @ ys))"
proof (intro conjI impI)
  assume "\<not> squeezing s"
  then show "\<exists>s1 s2. absorb s a = Some s1 \<and> absorb s1 b = Some s2 \<and> absorb s (a @ b) = Some s2"
    using assms fold_absorb_wf [of s a] by (simp add: absorb_bytes)
next
  obtain s1 where s1: "squeeze_start s = Some s1" "wf_sponge s1" "squeezing s1" using squeeze_start_wf [OF assms] by metis
  obtain s2 xs where q: "squeeze_bytes m s1 = (s2, xs)" by fastforce
  have s2: "wf_sponge s2" "squeezing s2" using squeeze_bytes_wf [OF s1(2,3), of m] by (simp_all add: q)
  then have "squeeze_start s2 = Some s2" by (simp add: squeeze_start_def)
  then have "squeeze s2 n = Some (squeeze_bytes n s2)" using s2 by (intro squeeze_spec)
  then show "\<exists>s1 xs s2 ys. squeeze s m = Some (s1, xs) \<and> squeeze s1 n = Some (s2, ys) \<and> length xs = m \<and>
      squeeze s (m + n) = Some (s2, xs @ ys)"
    using squeeze_spec [OF assms s1(1)] length_squeeze_bytes [of m s1]
    by (auto simp: q squeeze_bytes_add split: prod.splits)
qed

theorem sponge_streaming_witness:
  "\<exists>s1 s2. absorb new_shake256 [1, 2] = Some s1 \<and> absorb s1 [3] = Some s2 \<and> absorb new_shake256 [1, 2, 3] = Some s2"
  using sponge_streaming [of new_shake256 "[1, 2]" "[3]"] by (simp add: new_shake256_def sponge_new_def wf_sponge_def)

section \<open>The one-shot functions compute the padded sponge\<close>

definition pad_message :: "nat \<Rightarrow> u8 \<Rightarrow> bytes \<Rightarrow> bytes" where
  "pad_message r suffix m =
    (let k = r - length m mod r in
     if k = 1 then m @ [suffix XOR 0x80] else m @ [suffix] @ replicate (k - 2) 0 @ [0x80])"

function sponge_blocks :: "nat \<Rightarrow> u64 list \<Rightarrow> bytes \<Rightarrow> u64 list" where
  "sponge_blocks r st m =
    (if m = [] \<or> r = 0 then st else sponge_blocks r (keccak_f1600 (xor_buffer r (take r m) st)) (drop r m))"
  by pat_completeness auto
termination
  by (relation "measure (\<lambda>(r, st, m). length m)") auto

declare sponge_blocks.simps [simp del]

definition sponge_output :: "nat \<Rightarrow> u64 list \<Rightarrow> nat \<Rightarrow> bytes" where
  "sponge_output r st n = map (\<lambda>i. state_byte ((keccak_f1600 ^^ (i div r)) st) (i mod r)) [0..<n]"

definition shake_spec :: "nat \<Rightarrow> bytes \<Rightarrow> nat \<Rightarrow> bytes" where
  "shake_spec r m n = sponge_output r (sponge_blocks r (replicate 25 0) (pad_message r 0x1F m)) n"

lemma xor_buffer_cong:
  assumes "\<And>i. i < r \<Longrightarrow> buf ! i = buf' ! i"
  shows "xor_buffer r buf st = xor_buffer r buf' st"
proof -
  have "buffer_word buf i = buffer_word buf' i" if "i < r div 8" for i
  proof -
    have "i * 8 + b < r" if "b < 8" for b using that \<open>i < r div 8\<close> by linarith
    then show ?thesis unfolding buffer_word_def using assms by (intro fold_cong) auto
  qed
  then show ?thesis unfolding xor_buffer_def by (intro fold_cong) auto
qed

lemma pad_message_block:
  assumes "r \<le> length m" and "0 < r"
  shows "pad_message r suffix m = take r m @ pad_message r suffix (drop r m)"
proof -
  have "length (drop r m) mod r = length m mod r" using assms by (simp add: le_mod_geq)
  then show ?thesis unfolding pad_message_def Let_def by (simp add: append_assoc [symmetric] del: append_assoc)
qed

definition fresh_sponge :: "nat \<Rightarrow> u8 \<Rightarrow> u64 list \<Rightarrow> KeccakSponge" where
  "fresh_sponge r suffix st = \<lparr>state = st, rate = r, pos = 0, buffer = replicate 200 0, delimited_suffix = suffix, squeezing = False\<rparr>"

lemma squeeze_start_short:
  assumes "length m < r" and "r \<le> 200"
  shows "\<exists>buf. squeeze_start (fold absorb_byte m (fresh_sponge r suffix st)) = Some
    \<lparr>state = keccak_f1600 (xor_buffer r (pad_message r suffix m) st), rate = r, pos = 0, buffer = buf,
      delimited_suffix = suffix, squeezing = True\<rparr>"
proof -
  let ?s = "fresh_sponge r suffix st"
  let ?b = "m @ replicate (200 - length m) 0"
  have run: "fold absorb_byte m ?s = ?s\<lparr>buffer := ?b, pos := length m\<rparr>"
    using assms absorb_run [of ?s m] by (cases "m = []") (simp_all add: fresh_sponge_def)
  let ?b1 = "?b[length m := ?b ! length m XOR suffix]"
  let ?b2 = "?b1[r - 1 := ?b1 ! (r - 1) XOR 0x80]"
  have "?b2 ! i = pad_message r suffix m ! i" if "i < r" for i
  proof -
    have "length m mod r = length m" using assms(1) by simp
    then show ?thesis using assms that
      by (auto simp: pad_message_def Let_def nth_append nth_list_update nth_Cons' )
  qed
  then have "xor_buffer r ?b2 st = xor_buffer r (pad_message r suffix m) st" by (rule xor_buffer_cong)
  then show ?thesis unfolding run using assms by (auto simp: squeeze_start_def fresh_sponge_def Let_def)
qed

lemma length_pad_message: "0 < r \<Longrightarrow> length m < r \<Longrightarrow> length (pad_message r suffix m) = r"
  by (auto simp: pad_message_def Let_def)

lemma squeeze_start_blocks:
  assumes "0 < r" and "r \<le> 200"
  shows "\<exists>buf. squeeze_start (fold absorb_byte m (fresh_sponge r suffix st)) = Some
    \<lparr>state = sponge_blocks r st (pad_message r suffix m), rate = r, pos = 0, buffer = buf,
      delimited_suffix = suffix, squeezing = True\<rparr>"
proof (induction "length m" arbitrary: m st rule: less_induct)
  case less
  show ?case
  proof (cases "length m < r")
    case True
    let ?p = "pad_message r suffix m"
    have len: "length ?p = r" using assms True by (simp add: length_pad_message)
    then have "?p \<noteq> []" using assms by auto
    then have "sponge_blocks r st ?p = keccak_f1600 (xor_buffer r ?p st)"
      using len assms by (subst sponge_blocks.simps) (simp add: sponge_blocks.simps)
    then show ?thesis using squeeze_start_short [OF True assms(2), of suffix st] by simp
  next
    case False
    let ?s = "fresh_sponge r suffix st" and ?st = "keccak_f1600 (xor_buffer r (take r m) st)"
    have b: "xor_buffer r (take r m @ replicate (200 - r) 0) st = xor_buffer r (take r m) st"
      using False by (intro xor_buffer_cong) (simp add: nth_append)
    have "fold absorb_byte (take r m) ?s = fresh_sponge r suffix ?st"
    proof -
      have "length (take r m) = r" "take r m \<noteq> []" using False assms by auto
      then show ?thesis using absorb_run [of ?s "take r m"] assms(2) b
        by (simp add: fresh_sponge_def Let_def absorb_block_def)
    qed
    then have "fold absorb_byte m ?s = fold absorb_byte (drop r m) (fresh_sponge r suffix ?st)"
      using fold_append [of absorb_byte "take r m" "drop r m"] by simp
    moreover have "sponge_blocks r st (pad_message r suffix m) = sponge_blocks r ?st (pad_message r suffix (drop r m))"
    proof -
      have len: "length (take r m) = r" and pad: "pad_message r suffix m = take r m @ pad_message r suffix (drop r m)"
        using False assms by (simp_all add: pad_message_block [of r m suffix])
      have "m \<noteq> []" using False assms(1) by auto
      then show ?thesis unfolding pad using len assms(1) by (subst sponge_blocks.simps) simp
    qed
    moreover have "length (drop r m) < length m" using False assms by simp
    ultimately show ?thesis using less.hyps [of "drop r m" ?st] by simp
  qed
qed

lemma squeeze_bytes_output:
  "pos s \<le> rate s \<Longrightarrow> 0 < rate s \<Longrightarrow>
    snd (squeeze_bytes n s) = map (\<lambda>i. state_byte ((keccak_f1600 ^^ ((pos s + i) div rate s)) (state s)) ((pos s + i) mod rate s)) [0..<n]"
proof (induction n arbitrary: s)
  case (Suc n)
  let ?s = "fst (squeeze_byte s)"
  have s: "pos ?s \<le> rate ?s" "0 < rate ?s" using Suc.prems by (auto simp: squeeze_byte_def Let_def)
  have split: "map f [0..<Suc n] = f 0 # map (\<lambda>i. f (Suc i)) [0..<n]" for f :: "nat \<Rightarrow> u8"
    by (simp add: upt_conv_Cons map_Suc_upt [symmetric] del: upt_Suc)
  have step: "state_byte ((keccak_f1600 ^^ ((pos ?s + i) div rate ?s)) (state ?s)) ((pos ?s + i) mod rate ?s)
      = state_byte ((keccak_f1600 ^^ ((pos s + Suc i) div rate s)) (state s)) ((pos s + Suc i) mod rate s)" for i
  proof (cases "pos s = rate s")
    case True
    have "(rate s + Suc i) div rate s = Suc (Suc i div rate s)" "(rate s + Suc i) mod rate s = Suc i mod rate s"
      using Suc.prems(2) div_add_self1 [of "rate s" "Suc i"] mod_add_self1 [of "rate s" "Suc i"] by (simp_all del: add_Suc_right)
    then show ?thesis using True by (simp add: squeeze_byte_def Let_def funpow_swap1 del: add_Suc_right)
  qed (simp add: squeeze_byte_def Let_def)
  have first: "snd (squeeze_byte s) = state_byte ((keccak_f1600 ^^ ((pos s + 0) div rate s)) (state s)) ((pos s + 0) mod rate s)"
    using Suc.prems by (auto simp: squeeze_byte_def Let_def)
  have "snd (squeeze_bytes (Suc n) s) = snd (squeeze_byte s) # snd (squeeze_bytes n ?s)"
    by (simp add: split_beta Let_def)
  then show ?case unfolding split Suc.IH [OF s] step first .
qed simp

lemma shake_spec_lemma:
  assumes "0 < r" and "r \<le> 200" and "s0 = sponge_new r 0x1F"
  shows "(case absorb s0 input of None \<Rightarrow> None | Some s \<Rightarrow> map_option snd (squeeze s n)) = Some (shake_spec r input n)"
proof -
  have s0: "s0 = fresh_sponge r 0x1F (replicate 25 0)" by (simp add: assms(3) sponge_new_def fresh_sponge_def)
  have wf: "wf_sponge s0" "\<not> squeezing s0" using assms by (simp_all add: sponge_new_def wf_sponge_def)
  let ?s = "fold absorb_byte input s0"
  obtain buf where st: "squeeze_start ?s = Some
    \<lparr>state = sponge_blocks r (replicate 25 0) (pad_message r 0x1F input), rate = r, pos = 0, buffer = buf,
      delimited_suffix = 0x1F, squeezing = True\<rparr>"
    using squeeze_start_blocks [OF assms(1,2), of input "0x1F" "replicate 25 0"] unfolding s0 by blast
  have "squeeze ?s n = Some (squeeze_bytes n \<lparr>state = sponge_blocks r (replicate 25 0) (pad_message r 0x1F input), rate = r,
      pos = 0, buffer = buf, delimited_suffix = 0x1F, squeezing = True\<rparr>)"
    using fold_absorb_wf [OF wf, of input] st by (intro squeeze_spec) simp_all
  then show ?thesis using assms(1) by (simp add: absorb_bytes [OF wf] squeeze_bytes_output shake_spec_def sponge_output_def)
qed


end
