(* ===== verification/Sampling.thy ===== *)
theory Sampling
  imports HintCodec Shake "HOL-Library.Monad_Syntax"
begin

text \<open>
  The matrix type and the samplers of ML-DSA-65: \<open>PolyMatrix\<close>, \<open>expand_a\<close> and \<open>expand_s\<close>
  (\<open>matrix.rs\<close>, lines 138 to 300), \<open>expand_y\<close>, \<open>pack_w1\<close> and \<open>sample_in_ball\<close> (\<open>sign.rs\<close>).

  A sampler reads the output of a SHAKE sponge until it has enough values; such a loop has no bound,
  so it is a partial function into \<open>option\<close>, \<open>None\<close> meaning that it does not return.  The
  theorems say what it returns as a function of the SHAKE stream, exactly when it returns, and the
  ranges of the samples.
\<close>

section \<open>Definitions\<close>

subsection \<open>Matrices\<close>

type_synonym polymatrix = "poly list list"

definition matrix_new :: "nat \<Rightarrow> nat \<Rightarrow> polymatrix" where
  "matrix_new k l = replicate k (replicate l poly_new)"

definition mul_vector_ntt :: "polymatrix \<Rightarrow> polyvec \<Rightarrow> polyvec" where
  "mul_vector_ntt rows v =
    map (\<lambda>row. fold (\<lambda>(p, q) sum. poly_add sum (mul_pointwise_ntt p q)) (zip row v) poly_new) rows"

subsection \<open>Rejection sampling\<close>

text \<open>
  The loop the samplers share: squeeze \<open>width\<close> bytes, append the values \<open>accept\<close> finds in them
  while there is room, until there are 256.
\<close>

definition push_coeff :: "i32 \<Rightarrow> poly \<times> nat \<Rightarrow> poly \<times> nat" where
  "push_coeff v cs = (case cs of (coeffs, n) \<Rightarrow>
     if n < 256 then (coeffs[n := v], n + 1) else (coeffs, n))"

partial_function (option) rejection_loop ::
    "nat \<Rightarrow> (bytes \<Rightarrow> i32 list) \<Rightarrow> KeccakSponge \<Rightarrow> poly \<times> nat \<Rightarrow> poly option" where
  "rejection_loop width accept sponge cs =
    (if snd cs < 256
     then do {
       (sponge, buf) \<leftarrow> squeeze sponge width;
       rejection_loop width accept sponge (fold push_coeff (accept buf) cs)
     }
     else Some (fst cs))"

definition accept_a :: "bytes \<Rightarrow> i32 list" where
  "accept_a buf =
    (let z = (ucast (buf ! 0) :: u32) OR push_bit 8 (ucast (buf ! 1)) OR push_bit 16 (ucast (buf ! 2) AND 0x7F)
     in if z <s Q then [montgomery_reduce (scast z * 4193792)] else [])"

definition accept_s :: "bytes \<Rightarrow> i32 list" where
  "accept_s buf =
    (let b = buf ! 0; z0 = ucast (b AND 0x0F); z1 = ucast (drop_bit 4 b)
     in (if z0 <s 9 then [montgomery_reduce (scast (4 - z0 :: i32) * 4193792)] else [])
        @ (if z1 <s 9 then [montgomery_reduce (scast (4 - z1 :: i32) * 4193792)] else []))"

definition sample_a :: "bytes \<Rightarrow> nat \<Rightarrow> nat \<Rightarrow> poly option" where
  "sample_a rho i j = do {
     sponge \<leftarrow> absorb new_shake128 (rho @ [word_of_nat j, word_of_nat i]);
     rejection_loop 3 accept_a sponge (replicate 256 0, 0)
   }"

definition expand_a :: "bytes \<Rightarrow> polymatrix option" where
  "expand_a rho = those (map (\<lambda>i. those (map (\<lambda>j. sample_a rho i j) [0..<5])) [0..<6])"

definition index_bytes :: "u16 \<Rightarrow> bytes" where
  "index_bytes val = [ucast (val AND 0xFF), ucast (drop_bit 8 val AND 0xFF)]"

definition sample_s :: "bytes \<Rightarrow> nat \<Rightarrow> poly option" where
  "sample_s rho_prime n = do {
     let val = (word_of_nat n :: u16);
     sponge \<leftarrow> absorb new_shake256 (rho_prime @ index_bytes val);
     rejection_loop 1 accept_s sponge (replicate 256 0, 0)
   }"

definition expand_s :: "bytes \<Rightarrow> (polyvec \<times> polyvec) option" where
  "expand_s rho_prime = do {
     s1 \<leftarrow> those (map (\<lambda>i. sample_s rho_prime i) [0..<5]);
     s2 \<leftarrow> those (map (\<lambda>i. sample_s rho_prime (5 + i)) [0..<6]);
     Some (s1, s2)
   }"

subsection \<open>The masking vector and the commitment bytes\<close>

definition sample_y :: "bytes \<Rightarrow> u16 \<Rightarrow> nat \<Rightarrow> poly option" where
  "sample_y rho_prime kappa i = do {
     let val = kappa + word_of_nat i;
     sponge \<leftarrow> absorb new_shake256 (rho_prime @ index_bytes val);
     (sponge, buf) \<leftarrow> squeeze sponge 640;
     Some (concat (map (\<lambda>j.
       let b0 = (ucast (buf ! (5 * j)) :: u32); b1 = ucast (buf ! (5 * j + 1)); b2 = ucast (buf ! (5 * j + 2));
           b3 = ucast (buf ! (5 * j + 3)); b4 = ucast (buf ! (5 * j + 4));
           c0 = b0 OR push_bit 8 b1 OR push_bit 16 (b2 AND 0x0F);
           c1 = drop_bit 4 b2 OR push_bit 4 b3 OR push_bit 12 b4
       in [to_canonical (GAMMA1 - c0), to_canonical (GAMMA1 - c1)]) [0..<128]))
   }"

definition expand_y :: "bytes \<Rightarrow> u16 \<Rightarrow> polyvec option" where
  "expand_y rho_prime kappa = those (map (sample_y rho_prime kappa) [0..<5])"

definition pack_w1 :: "polyvec \<Rightarrow> bytes" where
  "pack_w1 w1 = concat (map (\<lambda>p. map (\<lambda>i.
     let c0 = (ucast (w1 ! p ! (2 * i)) :: u8); c1 = ucast (w1 ! p ! (2 * i + 1))
     in (c0 AND 0x0F) OR push_bit 4 (c1 AND 0x0F)) [0..<128]) [0..<6])"

subsection \<open>The challenge polynomial\<close>

partial_function (option) draw_index :: "nat \<Rightarrow> KeccakSponge \<Rightarrow> (KeccakSponge \<times> nat) option" where
  "draw_index i sponge = do {
     (sponge, buf) \<leftarrow> squeeze sponge 1;
     let j = unat (buf ! 0);
     if j \<le> i then Some (sponge, j) else draw_index i sponge
   }"

fun ball_loop :: "nat list \<Rightarrow> KeccakSponge \<Rightarrow> u64 \<Rightarrow> poly \<Rightarrow> poly option" where
  "ball_loop [] sponge signs c = Some c"
| "ball_loop (i # is) sponge signs c = do {
     (sponge, j) \<leftarrow> draw_index i sponge;
     let c = c[i := c ! j];
     let c = c[j := if signs AND 1 = 1 then Q - 1 else 1];
     ball_loop is sponge (drop_bit 1 signs) c
   }"

definition sample_in_ball :: "bytes \<Rightarrow> poly option" where
  "sample_in_ball c_tilde = do {
     sponge \<leftarrow> absorb new_shake256 c_tilde;
     (sponge, sign_bytes) \<leftarrow> squeeze sponge 8;
     let signs = fold (\<lambda>i signs. signs OR push_bit (8 * i) (ucast (sign_bytes ! i))) [0..<8] (0 :: u64);
     ball_loop [207..<256] sponge signs poly_new
   }"

section \<open>Reading the SHAKE stream\<close>

definition pad_coeffs :: "i32 list \<Rightarrow> poly" where
  "pad_coeffs vs = vs @ replicate (256 - length vs) 0"

lemma push_pad:
  "length pre \<le> 256 \<Longrightarrow> fold push_coeff vs (pad_coeffs pre, length pre)
    = (pad_coeffs (take 256 (pre @ vs)), length (take 256 (pre @ vs)))"
proof (induction vs arbitrary: pre)
  case (Cons v vs)
  show ?case
  proof (cases "length pre < 256")
    case True
    then have "push_coeff v (pad_coeffs pre, length pre) = (pad_coeffs (pre @ [v]), length (pre @ [v]))"
      by (simp add: push_coeff_def pad_coeffs_def list_update_append Suc_diff_Suc [symmetric])
    then show ?thesis using Cons.IH [of "pre @ [v]"] True by simp
  next
    case False
    then show ?thesis using Cons.IH [of pre] Cons.prems by (simp add: push_coeff_def)
  qed
qed simp

primrec accepted :: "nat \<Rightarrow> (bytes \<Rightarrow> i32 list) \<Rightarrow> nat \<Rightarrow> KeccakSponge \<Rightarrow> i32 list" where
  "accepted width accept 0 s = []"
| "accepted width accept (Suc n) s =
    accept (snd (squeeze_bytes width s)) @ accepted width accept n (fst (squeeze_bytes width s))"

lemma squeeze_squeezing: "wf_sponge s \<Longrightarrow> squeezing s \<Longrightarrow> squeeze s n = Some (squeeze_bytes n s)"
  by (rule squeeze_spec) (simp_all add: squeeze_start_def)

lemma rejection_loop_step:
  assumes "wf_sponge s" and "squeezing s" and "length pre < 256"
  shows "rejection_loop width accept s (pad_coeffs pre, length pre)
    = (let (s', buf) = squeeze_bytes width s; pre' = take 256 (pre @ accept buf)
       in rejection_loop width accept s' (pad_coeffs pre', length pre'))"
  using assms(3) push_pad [of pre] by (subst rejection_loop.simps)
    (simp add: squeeze_squeezing [OF assms(1,2)] split_beta Let_def)

lemma rejection_loop_done: "length pre = 256 \<Longrightarrow> rejection_loop width accept s (pad_coeffs pre, length pre) = Some pre"
  by (subst rejection_loop.simps) (simp add: pad_coeffs_def)

lemma rejection_loop_enough:
  "wf_sponge s \<Longrightarrow> squeezing s \<Longrightarrow> length pre \<le> 256 \<Longrightarrow> 256 \<le> length pre + length (accepted width accept n s) \<Longrightarrow>
    rejection_loop width accept s (pad_coeffs pre, length pre) = Some (take 256 (pre @ accepted width accept n s))"
proof (induction n arbitrary: s pre)
  case 0
  then show ?case using rejection_loop_done [of pre] by simp
next
  case (Suc n)
  show ?case
  proof (cases "length pre = 256")
    case True
    then show ?thesis using rejection_loop_done [of pre] by simp
  next
    case False
    let ?s' = "fst (squeeze_bytes width s)" and ?v = "accept (snd (squeeze_bytes width s))"
    let ?pre' = "take 256 (pre @ ?v)"
    have "rejection_loop width accept ?s' (pad_coeffs ?pre', length ?pre')
        = Some (take 256 (?pre' @ accepted width accept n ?s'))"
      using Suc.prems squeeze_bytes_wf [OF Suc.prems(1,2)] by (intro Suc.IH) auto
    moreover have "take 256 (?pre' @ accepted width accept n ?s') = take 256 (pre @ ?v @ accepted width accept n ?s')"
      by (auto simp: min_def)
    ultimately show ?thesis using False Suc.prems rejection_loop_step [of s pre width accept]
      by (simp add: split_beta Let_def)
  qed
qed

lemma rejection_loop_returns:
  assumes "rejection_loop width accept s cs = Some p" and "wf_sponge s" and "squeezing s"
  shows "\<exists>n. 256 \<le> snd cs + length (accepted width accept n s)"
proof -
  let ?P = "\<lambda>width accept s cs (p :: poly). wf_sponge s \<longrightarrow> squeezing s \<longrightarrow>
    (\<exists>n. 256 \<le> snd cs + length (accepted width accept n s))"
  have "?P width accept s cs p"
  proof (rule rejection_loop.raw_induct [where P = ?P, OF _ assms(1)], intro impI)
    fix loop and width :: nat and accept :: "bytes \<Rightarrow> i32 list" and s :: KeccakSponge and cs :: "poly \<times> nat" and p :: poly
    assume IH: "\<And>width accept s cs p. loop width accept s cs = Some p \<Longrightarrow> ?P width accept s cs p"
      and run: "(if snd cs < 256 then squeeze s width \<bind> (\<lambda>(s, buf). loop width accept s (fold push_coeff (accept buf) cs))
        else Some (fst cs)) = Some p" and wf: "wf_sponge s" "squeezing s"
    show "\<exists>n. 256 \<le> snd cs + length (accepted width accept n s)"
    proof (cases "snd cs < 256")
      case True
      let ?s' = "fst (squeeze_bytes width s)" and ?v = "accept (snd (squeeze_bytes width s))"
      have "loop width accept ?s' (fold push_coeff ?v cs) = Some p"
        using run True squeeze_squeezing [OF wf] by (simp add: split_beta)
      then obtain n where n: "256 \<le> snd (fold push_coeff ?v cs) + length (accepted width accept n ?s')"
        using IH squeeze_bytes_wf [OF wf] by blast
      have "snd (fold push_coeff vs cs) \<le> snd cs + length vs" for vs
      proof (induction vs arbitrary: cs)
        case (Cons v vs)
        have "snd (push_coeff v cs) \<le> Suc (snd cs)" by (simp add: push_coeff_def split: prod.split)
        then show ?case using Cons.IH [of "push_coeff v cs"] by simp
      qed simp
      from this [of ?v] have "256 \<le> snd cs + length (accepted width accept (Suc n) s)" using n by simp
      then show ?thesis by blast
    qed (auto intro: exI [of _ 0])
  qed
  then show ?thesis using assms by blast
qed

lemma rejection_loop_iff:
  assumes "wf_sponge s" and "squeezing s"
  shows "rejection_loop width accept s (replicate 256 0, 0) = Some p \<longleftrightarrow>
    (\<exists>n. 256 \<le> length (accepted width accept n s) \<and> p = take 256 (accepted width accept n s))"
proof -
  have start: "(replicate 256 0, 0) = (pad_coeffs [], length ([] :: i32 list))" by (simp add: pad_coeffs_def)
  show ?thesis (is "?L \<longleftrightarrow> ?R")
  proof
    assume l: ?L
    then obtain n where "256 \<le> length (accepted width accept n s)"
      using rejection_loop_returns [OF l assms] by auto
    then show ?R using l rejection_loop_enough [OF assms, of "[]" width accept n] unfolding start by auto
  next
    assume ?R
    then show ?L using rejection_loop_enough [OF assms, of "[]"] unfolding start by auto
  qed
qed

text \<open>The values a sampler accepts among the first \<open>n\<close> groups of the SHAKE stream of a seed.\<close>

definition stream_values :: "nat \<Rightarrow> nat \<Rightarrow> (bytes \<Rightarrow> i32 list) \<Rightarrow> bytes \<Rightarrow> nat \<Rightarrow> i32 list" where
  "stream_values r width accept seed n =
    concat (map (\<lambda>k. accept (take width (drop (width * k) (shake_spec r seed (width * n))))) [0..<n])"

lemma accepted_stream:
  "accepted width accept n s
    = concat (map (\<lambda>k. accept (take width (drop (width * k) (snd (squeeze_bytes (width * n) s))))) [0..<n])"
proof (induction n arbitrary: s)
  case (Suc n)
  let ?s' = "fst (squeeze_bytes width s)" and ?b = "snd (squeeze_bytes width s)" and ?r = "snd (squeeze_bytes (width * n) (fst (squeeze_bytes width s)))"
  have all: "snd (squeeze_bytes (width * Suc n) s) = ?b @ ?r"
    by (simp add: squeeze_bytes_add split_beta Let_def)
  have len: "length ?b = width" by (rule length_squeeze_bytes)
  have "map (\<lambda>k. accept (take width (drop (width * k) (?b @ ?r)))) [0..<Suc n]
      = accept ?b # map (\<lambda>k. accept (take width (drop (width * k) ?r))) [0..<n]"
    using len by (simp add: upt_conv_Cons map_Suc_upt [symmetric] del: upt_Suc)
  then show ?case unfolding all accepted.simps Suc.IH [of ?s'] by simp
qed simp

lemma sampler_stream:
  assumes "0 < r" and "r \<le> 200"
  shows "(do { sponge \<leftarrow> absorb (sponge_new r 0x1F) seed; rejection_loop width accept sponge (replicate 256 0, 0) }) = Some p
    \<longleftrightarrow> (\<exists>n. 256 \<le> length (stream_values r width accept seed n) \<and> p = take 256 (stream_values r width accept seed n))"
proof -
  let ?start = "sponge_new r 0x1F"
  have wf0: "wf_sponge ?start" "\<not> squeezing ?start" using assms by (simp_all add: sponge_new_def wf_sponge_def)
  let ?s = "fold absorb_byte seed ?start"
  have abs: "absorb ?start seed = Some ?s" by (rule absorb_bytes [OF wf0])
  have wf: "wf_sponge ?s" "\<not> squeezing ?s" using fold_absorb_wf [OF wf0, of seed] by simp_all
  obtain s1 where s1: "squeeze_start ?s = Some s1" "wf_sponge s1" "squeezing s1" using squeeze_start_wf [OF wf(1)] by metis
  have out: "snd (squeeze_bytes n s1) = shake_spec r seed n" for n
    using shake_spec_lemma [OF assms refl, of _ seed] by (simp add: abs squeeze_spec [OF wf(1) s1(1)])
  have "squeeze ?s width = squeeze s1 width" by (simp add: squeeze_spec [OF wf(1) s1(1)] squeeze_squeezing [OF s1(2,3)])
  then have "rejection_loop width accept ?s (replicate 256 0, 0) = rejection_loop width accept s1 (replicate 256 0, 0)"
    by (subst (1 2) rejection_loop.simps) simp
  then show ?thesis using rejection_loop_iff [OF s1(2,3)] by (simp add: abs accepted_stream out stream_values_def)
qed


section \<open>Ranges of the samples\<close>

definition small_coeff :: "i32 \<Rightarrow> bool" where
  "small_coeff x \<longleftrightarrow> canonical x \<and> \<bar>centred (sint x)\<bar> \<le> 4"

lemma reduce_small:
  assumes "- 8380417 < sint x" and "sint x < 8380417"
  shows "sint (montgomery_reduce (scast (x :: i32) * 4193792)) = sint x mod 8380417"
  using reduce_coeff_value [of x] assms by (simp add: reduce_coeff_def)

lemma accept_a_canonical: "list_all canonical (accept_a buf)"
proof -
  have "canonical (montgomery_reduce (scast z * 4193792))" for z :: i32
    using reduce_coeff_value [of z] by (simp add: reduce_coeff_def canonical_def)
  then show ?thesis by (simp add: accept_a_def Let_def)
qed

lemma small_offset: "(z :: i32) <s 9 \<Longrightarrow> 0 \<le> sint z \<Longrightarrow> small_coeff (montgomery_reduce (scast (4 - z) * 4193792))"
proof -
  assume z: "z <s 9" "0 \<le> sint z"
  then have "sint z < 9" by (simp add: word_sless_alt)
  then have d: "sint (4 - z) = 4 - sint z" using z(2) by (subst sint_sub_i32) simp_all
  then have v: "sint (montgomery_reduce (scast (4 - z) * 4193792)) = (4 - sint z) mod 8380417"
    using z \<open>sint z < 9\<close> reduce_small [of "4 - z"] by simp
  show ?thesis
  proof (cases "4 - sint z < 0")
    case True
    then have "(4 - sint z) mod 8380417 = 4 - sint z + 8380417" using \<open>sint z < 9\<close> by (intro mod_once_below) simp_all
    then show ?thesis using v z True \<open>sint z < 9\<close> by (simp add: small_coeff_def canonical_def centred_def)
  next
    case False
    then show ?thesis using v z by (simp add: small_coeff_def canonical_def centred_def)
  qed
qed

lemma accept_s_small: "list_all small_coeff (accept_s buf)"
proof -
  have "0 \<le> sint (ucast (b :: u8) :: i32)" for b
    using uint_lt2p [of b] by (subst sint_small) (simp_all add: unsigned_ucast_eq take_bit_eq_mod)
  then show ?thesis by (auto simp: accept_s_def Let_def intro!: small_offset)
qed

lemma stream_values_all: "(\<And>buf. list_all P (accept buf)) \<Longrightarrow> list_all P (take k (stream_values r width accept seed n))"
  by (auto simp: stream_values_def list_all_iff dest!: in_set_takeD)

lemma those_all:
  "those (map f xs) = Some ys \<Longrightarrow> (\<And>x y. f x = Some y \<Longrightarrow> P y) \<Longrightarrow> length ys = length xs \<and> list_all P ys"
  by (induction xs arbitrary: ys) (auto split: option.splits)

lemma those_vec:
  "those (map f xs) = Some ys \<Longrightarrow> (\<And>x p. f x = Some p \<Longrightarrow> length p = 256 \<and> list_all P p) \<Longrightarrow> k = length xs \<Longrightarrow> vec_of k P ys"
  using those_all [of f xs ys "\<lambda>p. length p = 256 \<and> list_all P p"] by (simp add: vec_of_def)

lemma sample_lengths:
  "sample_a rho i j = Some p \<Longrightarrow> length p = 256 \<and> list_all canonical p"
  "sample_s rho' m = Some p \<Longrightarrow> length p = 256 \<and> list_all small_coeff p"
  using sampler_stream [of 168 _ 3 accept_a p] sampler_stream [of 136 _ 1 accept_s p]
  by (auto simp: sample_a_def sample_s_def new_shake128_def new_shake256_def Let_def
      intro!: stream_values_all accept_a_canonical accept_s_small)

lemma expand_a_lemma: "expand_a rho = Some A \<Longrightarrow> length A = 6 \<and> list_all (vec_of 5 canonical) A"
proof -
  assume A: "expand_a rho = Some A"
  have "vec_of 5 canonical row" if "those (map (\<lambda>j. sample_a rho i j) [0..<5]) = Some row" for i row
    using that sample_lengths(1) by (rule those_vec) simp_all
  from those_all [OF A [unfolded expand_a_def], of "vec_of 5 canonical"] this show ?thesis by simp
qed

lemma expand_s_lemma: "expand_s rho' = Some (s1, s2) \<Longrightarrow> vec_of 5 small_coeff s1 \<and> vec_of 6 small_coeff s2"
proof -
  assume "expand_s rho' = Some (s1, s2)"
  then have s: "those (map (\<lambda>i. sample_s rho' i) [0..<5]) = Some s1" "those (map (\<lambda>i. sample_s rho' (5 + i)) [0..<6]) = Some s2"
    by (auto simp: expand_s_def bind_eq_Some_conv simp del: upt_rec_numeral)
  show ?thesis
    by (intro conjI those_vec [OF s(1)] those_vec [OF s(2)] sample_lengths(2)) simp_all
qed

text \<open>
  Whatever the seed, the matrix a completed \<open>expand_a\<close> returns is 6 by 5 with canonical
  coefficients, and the secret vectors of a completed \<open>expand_s\<close> have 5 and 6 polynomials whose
  coefficients, read as centred residues, are in [-4, 4].
\<close>

theorem expand_ranges:
  "pred_option (\<lambda>A. length A = 6 \<and> list_all (vec_of 5 canonical) A) (expand_a rho) \<and>
   pred_option (\<lambda>(s1, s2). vec_of 5 small_coeff s1 \<and> vec_of 6 small_coeff s2) (expand_s rho')"
  using expand_a_lemma [of rho] expand_s_lemma [of rho'] by (auto simp: pred_option_def elim!: option.set_cases)

section \<open>The masking vector\<close>

lemma shake256_seed: "(do { sponge \<leftarrow> absorb new_shake256 seed; (sponge, buf) \<leftarrow> squeeze sponge n; Some (f buf) })
    = Some (f (shake_spec 136 seed n))"
  using shake_spec_lemma [of 136 new_shake256 n seed]
  by (auto simp: new_shake256_def split: option.splits)

lemma length_shake_spec [simp]: "length (shake_spec r m n) = n"
  by (simp add: shake_spec_def sponge_output_def)

lemma sample_y_unpack:
  "sample_y rho' kappa i = Some (unpack_z_poly (shake_spec 136 (rho' @ index_bytes (kappa + word_of_nat i)) 640))"
proof -
  have grp: "unpack_z_group (chunk 5 j buf) =
      (let b0 = (ucast (buf ! (5 * j)) :: u32); b1 = ucast (buf ! (5 * j + 1)); b2 = ucast (buf ! (5 * j + 2));
           b3 = ucast (buf ! (5 * j + 3)); b4 = ucast (buf ! (5 * j + 4));
           c0 = b0 OR push_bit 8 b1 OR push_bit 16 (b2 AND 0x0F);
           c1 = drop_bit 4 b2 OR push_bit 4 b3 OR push_bit 12 b4
       in [to_canonical (GAMMA1 - c0), to_canonical (GAMMA1 - c1)])" for j buf
    by (simp add: unpack_z_group_def chunk_def upt_heads Let_def nth_steps(2-))
  show ?thesis unfolding sample_y_def Let_def [of "kappa + word_of_nat i"] shake256_seed unpack_z_poly_def grp ..
qed

section \<open>The challenge\<close>

definition ball_ok :: "nat \<Rightarrow> nat \<Rightarrow> poly \<Rightarrow> bool" where
  "ball_ok n i c \<longleftrightarrow> length c = 256 \<and> card {k. k < 256 \<and> c ! k \<noteq> 0} = n \<and> {k. k < 256 \<and> c ! k \<noteq> 0} \<subseteq> {..<i} \<and>
    list_all (\<lambda>x. x = 0 \<or> x = 1 \<or> x = Q - 1) c"

lemma draw_index_le: "draw_index i s = Some (s', j) \<Longrightarrow> j \<le> i"
proof -
  assume a: "draw_index i s = Some (s', j)"
  have "snd r \<le> i" if "draw_index i s = Some r" for r
    by (rule draw_index.raw_induct [where P = "\<lambda>i s r. snd r \<le> i", OF _ that])
      (auto simp: bind_eq_Some_conv Let_def split: if_splits prod.splits)
  from this [OF a] show ?thesis by simp
qed

lemma ball_step:
  assumes "ball_ok n i c" and "j \<le> i" and "i < 256" and "s = 1 \<or> s = Q - 1"
  shows "ball_ok (Suc n) (Suc i) ((c[i := c ! j])[j := s])"
proof -
  let ?c = "(c[i := c ! j])[j := s]" and ?S = "{k. k < 256 \<and> c ! k \<noteq> 0}"
  have len: "length c = 256" and S: "?S \<subseteq> {..<i}" "card ?S = n" using assms(1) by (simp_all add: ball_ok_def)
  have s0: "s \<noteq> 0" using assms(4) by (auto simp: Q_def)
  have z: "c ! i = 0" using S(1) assms(3) by auto
  have fin: "finite ?S" by simp
  have "{k. k < 256 \<and> ?c ! k \<noteq> 0} = (if j = i \<or> c ! j = 0 then insert j ?S else insert i ?S)"
    using len assms(2,3) s0 z by (auto simp: nth_list_update)
  moreover have "i \<notin> ?S" "c ! j = 0 \<or> j = i \<Longrightarrow> j \<notin> ?S" using z by auto
  ultimately have "card {k. k < 256 \<and> ?c ! k \<noteq> 0} = Suc n" "{k. k < 256 \<and> ?c ! k \<noteq> 0} \<subseteq> {..<Suc i}"
    using fin S assms(2) by auto
  moreover have "list_all (\<lambda>x. x = 0 \<or> x = 1 \<or> x = Q - 1) ?c"
    using assms len by (auto simp: ball_ok_def list_all_length nth_list_update)
  ultimately show ?thesis using len by (simp add: ball_ok_def)
qed

lemma ball_loop_ok:
  "ball_loop [i..<256] sponge signs c = Some c' \<Longrightarrow> ball_ok n i c \<Longrightarrow> i \<le> 256 \<Longrightarrow> ball_ok (n + (256 - i)) 256 c'"
proof (induction "256 - i" arbitrary: i sponge signs c n)
  case (Suc d)
  then have i: "i < 256" by simp
  then obtain sp j where j: "draw_index i sponge = Some (sp, j)"
    and rest: "ball_loop [Suc i..<256] sp (drop_bit 1 signs) ((c[i := c ! j])[j := if signs AND 1 = 1 then Q - 1 else 1]) = Some c'"
    using Suc.prems(1) by (auto simp: upt_conv_Cons bind_eq_Some_conv Let_def)
  have "ball_ok (Suc n) (Suc i) ((c[i := c ! j])[j := if signs AND 1 = 1 then Q - 1 else 1])"
    using Suc.prems(2) draw_index_le [OF j] i by (intro ball_step) auto
  from Suc.hyps(1) [OF _ rest this] Suc.hyps(2) i have "ball_ok (Suc n + (256 - Suc i)) 256 c'" by simp
  moreover have "Suc n + (256 - Suc i) = n + (256 - i)" using i by simp
  ultimately show ?case by metis
qed simp

text \<open>
  The challenge polynomial of a completed \<open>sample_in_ball\<close> has 256 coefficients, exactly 49
  of them non-zero, each 1 or -1 modulo q.
\<close>

theorem challenge_weight: "pred_option (ball_ok 49 256) (sample_in_ball c_tilde)"
proof (cases "sample_in_ball c_tilde")
  case (Some c)
  have start: "ball_ok 0 207 poly_new" by (auto simp: ball_ok_def poly_new_def list_all_iff)
  obtain sponge signs where run: "ball_loop [207..<256] sponge signs poly_new = Some c"
    using Some by (auto simp: sample_in_ball_def bind_eq_Some_conv Let_def simp del: upt_rec_numeral ball_loop.simps)
  from ball_loop_ok [OF run start] show ?thesis using Some by simp
qed simp

end
