(* ===== verification/Sign.thy ===== *)
theory Sign
  imports Sampling
begin

text \<open>
  Key generation, signing and verification of ML-DSA-65: \<open>crypto/sign.rs\<close> and the public API
  \<open>crypto/nist_api.rs\<close>.  The hash calls are the SHAKE model, the algebra is that of Poly and
  Rounding, the byte layouts those of Packing.  Wrappers that only erase memory (\<open>Zeroized\<close>) and
  the speculation barrier have no functional effect and do not appear.

  \<open>None\<close> is a computation that does not return (a rejection loop that never accepts); a panic is
  \<open>Some Panicked\<close>.  The theorems: a signature is released only after it verified against the
  re-derived key, and against the stored key if there is one; the signing loop returns the first
  accepted attempt, and returns if there is one; keys from the generator and signatures from the
  signer verify.
\<close>

section \<open>Definitions\<close>

fun absorb_all :: "KeccakSponge \<Rightarrow> bytes list \<Rightarrow> KeccakSponge option" where
  "absorb_all s [] = Some s"
| "absorb_all s (d # ds) = do { s \<leftarrow> absorb s d; absorb_all s ds }"

text \<open>A fresh SHAKE-256 sponge, a sequence of absorbs, one squeeze.\<close>

definition shake256_of :: "bytes list \<Rightarrow> nat \<Rightarrow> bytes option" where
  "shake256_of parts n = do { s \<leftarrow> absorb_all new_shake256 parts; (s, out) \<leftarrow> squeeze s n; Some out }"

definition GAMMA2 :: i32 where "GAMMA2 = 261888"

subsection \<open>Verification\<close>

definition verify_internal :: "bytes \<Rightarrow> bytes \<Rightarrow> bytes \<Rightarrow> bool option" where
  "verify_internal pk m_prime sig =
    (let (rho, t1) = unpack_pk pk in
     case unpack_sig sig of
       Inl _ \<Rightarrow> Some False
     | Inr (c_tilde, z, h) \<Rightarrow>
         if GAMMA1 - 196 \<le>s vec_inf_norm z then Some False
         else do {
           tr \<leftarrow> shake256_of [pk] 64;
           mu \<leftarrow> shake256_of [tr, m_prime] 64;
           a \<leftarrow> expand_a rho;
           let z_ntt = vec_ntt z;
           c \<leftarrow> sample_in_ball c_tilde;
           let c_ntt = ntt c;
           let az_ntt = mul_vector_ntt a z_ntt;
           let t1_shifted = map (map (\<lambda>x. irem (push_bit 13 x) Q)) t1;
           let t1_ntt = vec_ntt t1_shifted;
           let w_approx_ntt = map (\<lambda>i. poly_sub (az_ntt ! i) (mul_pointwise_ntt c_ntt (t1_ntt ! i))) [0..<6];
           let w_approx = vec_intt w_approx_ntt;
           let w1 = vec_use_hint 523776 w_approx h;
           c_tilde_prime \<leftarrow> shake256_of [mu, pack_w1 w1] 48;
           Some (c_tilde = c_tilde_prime)
         })"

subsection \<open>Signing\<close>

text \<open>The values \<open>sign_internal_with_pk\<close> computes before its loop.\<close>

record sign_locals =
  sl_rho :: bytes
  sl_mu :: bytes
  sl_rho_prime :: bytes
  sl_a :: polymatrix
  sl_s1_ntt :: polyvec
  sl_s2 :: polyvec
  sl_s2_ntt :: polyvec
  sl_t0_ntt :: polyvec

definition low_diff :: "i32 \<Rightarrow> i32 \<Rightarrow> i32" where
  "low_diff w0 cs2 = to_signed (to_canonical (to_signed w0 - to_signed cs2))"

definition abs_i32 :: "i32 \<Rightarrow> i32" where
  "abs_i32 d = (if d <s 0 then - d else d)"

definition w0_minus_cs2 :: "polyvec \<Rightarrow> polyvec \<Rightarrow> polyvec" where
  "w0_minus_cs2 w0 cs2 = map2 (map2 (\<lambda>x y. to_canonical (low_diff x y))) w0 cs2"

definition r0_max :: "polyvec \<Rightarrow> polyvec \<Rightarrow> i32" where
  "r0_max w0 cs2 = fold (\<lambda>d mx. if mx <s abs_i32 d then abs_i32 d else mx)
     (concat (map2 (map2 low_diff) w0 cs2)) 0"

definition hint_bit :: "i32 \<Rightarrow> i32 \<Rightarrow> i32 \<Rightarrow> i32" where
  "hint_bit w0_cs2 ct0 w1_val =
    (let u = to_signed (to_canonical (to_signed w0_cs2 + to_signed ct0)); neg_u = - u
     in if GAMMA2 <s neg_u \<or> neg_u <s - GAMMA2 \<or> (neg_u = - GAMMA2 \<and> w1_val \<noteq> 0) then 1 else 0)"

definition sign_hint :: "polyvec \<Rightarrow> polyvec \<Rightarrow> polyvec \<Rightarrow> polyvec" where
  "sign_hint d ct0 w1 = map (\<lambda>i. map (\<lambda>j. hint_bit (d ! i ! j) (ct0 ! i ! j) (w1 ! i ! j)) [0..<256]) [0..<6]"

definition hint_ones :: "polyvec \<Rightarrow> nat" where
  "hint_ones h = sum_list (map (\<lambda>p. length (filter (\<lambda>x. x = 1) p)) h)"

definition rederive_pk :: "sign_locals \<Rightarrow> bytes" where
  "rederive_pk l =
    (let t = vec_add (vec_intt (mul_vector_ntt (sl_a l) (sl_s1_ntt l))) (sl_s2 l);
         (t1_rec, _) = vec_power2round t
     in pack_pk (sl_rho l) t1_rec)"

text \<open>One iteration of the signing loop: \<open>continue\<close>, \<open>return sig\<close>, or the dual VBR panic.\<close>

datatype attempt = Retry | Release bytes | VbrMismatch

definition verify_before_release :: "sign_locals \<Rightarrow> bytes \<Rightarrow> bytes option \<Rightarrow> bytes \<Rightarrow> attempt option" where
  "verify_before_release l m_prime canonical_pk sig = do {
     ok \<leftarrow> verify_internal (rederive_pk l) m_prime sig;
     if \<not> ok then Some Retry
     else (case canonical_pk of
       None \<Rightarrow> Some (Release sig)
     | Some stored_pk \<Rightarrow> do {
         ok \<leftarrow> verify_internal stored_pk m_prime sig;
         Some (if ok then Release sig else VbrMismatch) })
   }"

definition sign_attempt :: "sign_locals \<Rightarrow> bytes \<Rightarrow> bytes option \<Rightarrow> u16 \<Rightarrow> attempt option" where
  "sign_attempt l m_prime canonical_pk kappa = do {
     y \<leftarrow> expand_y (sl_rho_prime l) kappa;
     let w = vec_intt (mul_vector_ntt (sl_a l) (vec_ntt y));
     let (w1, w0) = vec_decompose 523776 w;
     c_tilde \<leftarrow> shake256_of [sl_mu l, pack_w1 w1] 48;
     c \<leftarrow> sample_in_ball c_tilde;
     let c_ntt = ntt c;
     let cs1 = vec_intt (map (mul_pointwise_ntt c_ntt) (sl_s1_ntt l));
     let z = vec_add y cs1;
     if 524092 \<le>s vec_inf_norm z then Some Retry else do {
       let cs2 = vec_intt (map (mul_pointwise_ntt c_ntt) (sl_s2_ntt l));
       if 261692 \<le>s r0_max w0 cs2 then Some Retry else do {
         let ct0 = vec_intt (map (mul_pointwise_ntt c_ntt) (sl_t0_ntt l));
         if 261888 \<le>s vec_inf_norm ct0 then Some Retry else do {
           let hint = sign_hint (w0_minus_cs2 w0 cs2) ct0 w1;
           if 55 < hint_ones hint then Some Retry
           else verify_before_release l m_prime canonical_pk (pack_sig c_tilde z hint) }}}
   }"

partial_function (option) sign_loop ::
    "sign_locals \<Rightarrow> bytes \<Rightarrow> bytes option \<Rightarrow> u16 \<Rightarrow> (unit, bytes) outcome option" where
  "sign_loop l m_prime canonical_pk kappa = do {
     r \<leftarrow> sign_attempt l m_prime canonical_pk kappa;
     case r of
       Retry \<Rightarrow> sign_loop l m_prime canonical_pk (kappa + 5)
     | Release sig \<Rightarrow> Some (Inr sig)
     | VbrMismatch \<Rightarrow> Some Panicked
   }"

definition sign_setup :: "bytes \<Rightarrow> bytes \<Rightarrow> bytes \<Rightarrow> sign_locals option" where
  "sign_setup sk m_prime rnd =
    (let (rho, k, tr, s1, s2, t0) = unpack_sk sk in do {
       mu \<leftarrow> shake256_of [tr, m_prime] 64;
       rho_prime \<leftarrow> shake256_of [k, rnd, mu] 64;
       a \<leftarrow> expand_a rho;
       Some \<lparr>sl_rho = rho, sl_mu = mu, sl_rho_prime = rho_prime, sl_a = a, sl_s1_ntt = vec_ntt s1,
         sl_s2 = s2, sl_s2_ntt = vec_ntt s2, sl_t0_ntt = vec_ntt t0\<rparr>
     })"

definition sign_internal_with_pk :: "bytes \<Rightarrow> bytes \<Rightarrow> bytes \<Rightarrow> bytes option \<Rightarrow> (unit, bytes) outcome option" where
  "sign_internal_with_pk sk m_prime rnd canonical_pk = do {
     l \<leftarrow> sign_setup sk m_prime rnd;
     sign_loop l m_prime canonical_pk 0
   }"

definition sign_internal :: "bytes \<Rightarrow> bytes \<Rightarrow> bytes \<Rightarrow> (unit, bytes) outcome option" where
  "sign_internal sk m_prime rnd = sign_internal_with_pk sk m_prime rnd None"

subsection \<open>The public API\<close>

definition keygen :: "bytes \<Rightarrow> (bytes \<times> bytes) option" where
  "keygen seed = do {
     expanded \<leftarrow> shake256_of [seed, [6, 5]] 128;
     let rho = take 32 expanded;
     let rho_prime = take 64 (drop 32 expanded);
     let k = take 32 (drop 96 expanded);
     a \<leftarrow> expand_a rho;
     (s1, s2) \<leftarrow> expand_s rho_prime;
     let as1 = vec_intt (mul_vector_ntt a (vec_ntt s1));
     let t = vec_add as1 s2;
     let (t1, t0) = vec_power2round t;
     let pk = pack_pk rho t1;
     tr \<leftarrow> shake256_of [pk] 64;
     Some (pack_sk rho k tr s1 s2 t0, pk)
   }"

definition format_m_prime_pub :: "bytes \<Rightarrow> bytes \<Rightarrow> (unit, bytes) outcome" where
  "format_m_prime_pub msg ctx =
    (if length ctx \<le> 255 then Inr ([0] @ [word_of_nat (length ctx)] @ ctx @ msg) else Panicked)"

definition format_m_prime :: "bytes \<Rightarrow> bytes \<Rightarrow> (unit, bytes) outcome" where
  "format_m_prime msg ctx = format_m_prime_pub msg ctx"

definition sign_formatted :: "bytes \<Rightarrow> (unit, bytes) outcome \<Rightarrow> bytes \<Rightarrow> (unit, bytes) outcome option" where
  "sign_formatted sk formatted rnd = (case formatted of Inl f \<Rightarrow> Some (Inl f) | Inr m_prime \<Rightarrow> sign_internal sk m_prime rnd)"

definition sign :: "bytes \<Rightarrow> bytes \<Rightarrow> (unit, bytes) outcome option" where
  "sign sk msg = sign_formatted sk (format_m_prime msg []) (replicate 32 0)"

definition sign_hedged :: "bytes \<Rightarrow> bytes \<Rightarrow> bytes \<Rightarrow> bytes \<Rightarrow> (unit, bytes) outcome option" where
  "sign_hedged sk msg rnd ctx = sign_formatted sk (format_m_prime msg ctx) rnd"

definition verify_ctx :: "bytes \<Rightarrow> bytes \<Rightarrow> bytes \<Rightarrow> bytes \<Rightarrow> (unit, bool) outcome option" where
  "verify_ctx pk msg sig ctx =
    (if 255 < length ctx then Some (Inr False)
     else case format_m_prime msg ctx of
       Inl f \<Rightarrow> Some (Inl f)
     | Inr m_prime \<Rightarrow> map_option Inr (verify_internal pk m_prime sig))"

definition verify :: "bytes \<Rightarrow> bytes \<Rightarrow> bytes \<Rightarrow> (unit, bool) outcome option" where
  "verify pk msg sig = verify_ctx pk msg sig []"

definition sign_internal_deterministic :: "bytes \<Rightarrow> bytes \<Rightarrow> bytes \<Rightarrow> (unit, bytes) outcome option" where
  "sign_internal_deterministic sk message deterministic_rnd =
    sign_formatted sk (format_m_prime message []) deterministic_rnd"

definition sign_raw_m_prime_deterministic :: "bytes \<Rightarrow> bytes \<Rightarrow> bytes \<Rightarrow> (unit, bytes) outcome option" where
  "sign_raw_m_prime_deterministic sk m_prime deterministic_rnd = sign_internal sk m_prime deterministic_rnd"

section \<open>Hashing\<close>

lemma absorb_all_bytes:
  "wf_sponge s \<Longrightarrow> \<not> squeezing s \<Longrightarrow> absorb_all s ds = Some (fold absorb_byte (concat ds) s)"
proof (induction ds arbitrary: s)
  case (Cons d ds)
  then show ?case using fold_absorb_wf [of s d] by (simp add: absorb_bytes)
qed simp

lemma shake256_of_spec: "shake256_of parts n = Some (shake_spec 136 (concat parts) n)"
proof -
  have wf: "wf_sponge new_shake256" "\<not> squeezing new_shake256" by (simp_all add: new_shake256_def sponge_new_def wf_sponge_def)
  show ?thesis using shake256_seed [of "concat parts" n "\<lambda>x. x"] unfolding shake256_of_def
    by (simp add: absorb_all_bytes [OF wf] absorb_bytes [OF wf])
qed

section \<open>Canonical vectors\<close>

lemma intt_loop_canonical: "s \<le> 8 \<Longrightarrow> canonical_poly p \<Longrightarrow> canonical_poly (intt_loop (2 ^ s) g p)"
proof (induction "8 - s" arbitrary: s p g)
  case 0
  then have "(2 :: nat) ^ s = 256" by simp
  then show ?case using 0 by (simp add: intt_loop.simps [of 256])
next
  case (Suc d)
  then have s: "s \<le> 7" by simp
  show ?case unfolding intt_loop_stage [OF s] using Suc gs.stage(1) [OF s Suc.prems(2)] by (intro Suc.hyps) simp_all
qed

lemma intt_canonical: "canonical_poly p \<Longrightarrow> canonical_poly (intt p)"
proof -
  assume "canonical_poly p"
  then have c: "canonical_poly (intt_loop 1 (hash_coefficients p) p)" using intt_loop_canonical [of 0] by simp
  have "canonical (scalar_mul x 16382)" if "canonical x" for x using that by (intro scalar_closed i32_range)
  then show ?thesis using c by (auto simp: intt_def canonical_poly_def list_all_iff)
qed

lemma vec_of_canonical: "vec_of k canonical v \<longleftrightarrow> length v = k \<and> list_all canonical_poly v"
  by (auto simp: vec_of_def canonical_poly_def list_all_iff)

lemma canonical_map2:
  "canonical_poly p \<Longrightarrow> canonical_poly q \<Longrightarrow> (\<And>x y. canonical x \<Longrightarrow> canonical y \<Longrightarrow> canonical (f x y)) \<Longrightarrow> canonical_poly (map2 f p q)"
  by (auto simp: canonical_poly_def list_all_length)

lemma poly_add_canonical: "canonical_poly p \<Longrightarrow> canonical_poly q \<Longrightarrow> canonical_poly (poly_add p q)"
  unfolding poly_add_def by (intro canonical_map2 scalar_closed)

lemma mul_pointwise_canonical: "canonical_poly p \<Longrightarrow> canonical_poly q \<Longrightarrow> canonical_poly (mul_pointwise_ntt p q)"
  unfolding mul_pointwise_ntt_def by (intro canonical_map2 scalar_closed i32_range)

lemma canonical_poly_new: "canonical_poly poly_new"
  by (simp add: canonical_poly_def poly_new_def list_all_iff canonical_def)

lemma mul_vector_canonical:
  assumes "list_all (vec_of l canonical) A" and "vec_of l canonical v"
  shows "vec_of (length A) canonical (mul_vector_ntt A v)"
proof -
  have "canonical_poly (fold (\<lambda>(p, q) sum. poly_add sum (mul_pointwise_ntt p q)) pqs sum)"
    if "list_all (\<lambda>(p, q). canonical_poly p \<and> canonical_poly q) pqs" "canonical_poly sum" for pqs sum
    using that
  proof (induction pqs arbitrary: sum)
    case (Cons pq pqs)
    then have "canonical_poly (poly_add sum (mul_pointwise_ntt (fst pq) (snd pq)))"
      by (intro poly_add_canonical mul_pointwise_canonical) (simp_all add: split_beta)
    then show ?case using Cons by (simp add: split_beta)
  qed simp
  moreover have "list_all (\<lambda>(p, q). canonical_poly p \<and> canonical_poly q) (zip row v)" if "row \<in> set A" for row
  proof -
    have "list_all canonical_poly row" "list_all canonical_poly v" using assms that by (auto simp: list_all_iff vec_of_canonical)
    then show ?thesis by (auto simp: list_all_iff dest: set_zip_leftD set_zip_rightD)
  qed
  ultimately show ?thesis using canonical_poly_new by (auto simp: mul_vector_ntt_def vec_of_canonical list_all_iff)
qed

lemma vec_map_canonical: "vec_of k canonical v \<Longrightarrow> (\<And>p. canonical_poly p \<Longrightarrow> canonical_poly (f p)) \<Longrightarrow> vec_of k canonical (map f v)"
  by (simp add: vec_of_canonical list_all_iff)

lemma vec_add_canonical: "vec_of k canonical v \<Longrightarrow> vec_of k canonical w \<Longrightarrow> vec_of k canonical (vec_add v w)"
  by (auto simp: vec_of_canonical vec_add_def list_all_length poly_add_canonical)

lemma vec_of_mono: "vec_of k P v \<Longrightarrow> (\<And>x. P x \<Longrightarrow> R x) \<Longrightarrow> vec_of k R v"
  by (auto simp: vec_of_def list_all_iff)

lemma small_coeff_stored: "small_coeff x \<Longrightarrow> stored 4 4 x"
  by (auto simp: small_coeff_def stored_def abs_le_iff)

lemma power2round_stored: "canonical r \<Longrightarrow> stored 4096 13 (snd (power2round_coeff r))"
proof -
  assume r: "canonical r"
  obtain r1 r0 where e: "power2round_coeff r = (r1, r0)" by fastforce
  note v = power2round_value [OF r e]
  define d where "d = sint r - sint r1 * 8192"
  have d: "sint r0 = d mod 8380417" "- 4096 < d" "d \<le> 4096" using v by (simp_all add: d_def)
  have "centred (sint r0) = d"
  proof (cases "d < 0")
    case True
    then have "d mod 8380417 = d + 8380417" using d by (intro mod_once_below) simp_all
    then show ?thesis using True d by (simp add: centred_def)
  qed (use d in \<open>simp add: centred_def\<close>)
  then show ?thesis using d canonical_mod [OF d(1)] by (simp add: stored_def e)
qed

lemma vec_power2round_stored: "vec_of k canonical t \<Longrightarrow> vec_of k (stored 4096 13) (snd (vec_power2round t))"
  by (auto simp: vec_power2round_def vec_of_def power2round_def list_all_iff power2round_stored)

section \<open>The signing loop\<close>

lemma length_pack_sig: "length c_tilde = 48 \<Longrightarrow> length (pack_sig c_tilde z h) = 3309"
  by (simp add: pack_sig_def length_concat comp_def sum_list_triv)

lemma attempt_cases:
  assumes "sign_attempt l m_prime canonical_pk kappa = Some a"
  obtains "a = Retry"
  | c_tilde z h where "length c_tilde = 48" and "verify_before_release l m_prime canonical_pk (pack_sig c_tilde z h) = Some a"
  using assms unfolding sign_attempt_def shake256_of_spec Let_def case_prod_unfold bind_eq_Some_conv
  by (auto split: if_splits intro: that(1)) (rule that(2) [OF length_shake_spec])

lemma released_verifies:
  assumes "sign_attempt l m_prime canonical_pk kappa = Some (Release sig)"
  shows "verify_internal (rederive_pk l) m_prime sig = Some True \<and>
    pred_option (\<lambda>pk. verify_internal pk m_prime sig = Some True) canonical_pk \<and> length sig = 3309"
  using assms
proof (cases rule: attempt_cases)
  case (2 c_tilde z h)
  then show ?thesis
    by (auto simp: verify_before_release_def bind_eq_Some_conv length_pack_sig split: if_splits option.splits)
qed simp

text \<open>What an attempt lets the loop return.\<close>

fun finish :: "attempt \<Rightarrow> (unit, bytes) outcome option" where
  "finish Retry = None"
| "finish (Release sig) = Some (Inr sig)"
| "finish VbrMismatch = Some Panicked"

definition first_accepted :: "sign_locals \<Rightarrow> bytes \<Rightarrow> bytes option \<Rightarrow> u16 \<Rightarrow> (unit, bytes) outcome \<Rightarrow> bool" where
  "first_accepted l m_prime canonical_pk kappa r \<longleftrightarrow>
    (\<exists>n. list_all (\<lambda>i. sign_attempt l m_prime canonical_pk (kappa + 5 * word_of_nat i) = Some Retry) [0..<n] \<and>
      Option.bind (sign_attempt l m_prime canonical_pk (kappa + 5 * word_of_nat n)) finish = Some r)"

lemma sign_loop_unfold:
  "sign_loop l m_prime canonical_pk kappa = (case sign_attempt l m_prime canonical_pk kappa of
     None \<Rightarrow> None | Some Retry \<Rightarrow> sign_loop l m_prime canonical_pk (kappa + 5) | Some a \<Rightarrow> finish a)"
  by (subst sign_loop.simps) (auto split: option.splits attempt.splits)

lemma list_all_upt_Suc: "list_all P [0..<Suc n] \<longleftrightarrow> P 0 \<and> list_all (\<lambda>i. P (Suc i)) [0..<n]"
  by (simp add: upt_conv_Cons map_Suc_upt [symmetric] list.pred_map comp_def del: upt_Suc)

lemma sign_loop_runs:
  "list_all (\<lambda>i. sign_attempt l m_prime canonical_pk (kappa + 5 * word_of_nat i) = Some Retry) [0..<n] \<Longrightarrow>
    Option.bind (sign_attempt l m_prime canonical_pk (kappa + 5 * word_of_nat n)) finish = Some r \<Longrightarrow>
    sign_loop l m_prime canonical_pk kappa = Some r"
proof (induction n arbitrary: kappa)
  case 0
  then show ?case by (subst sign_loop_unfold) (auto simp: bind_eq_Some_conv split: attempt.splits option.splits)
next
  case (Suc n)
  have shift: "kappa + 5 * word_of_nat (Suc i) = kappa + 5 + 5 * word_of_nat i" for i by (simp add: algebra_simps)
  note p = Suc.prems [unfolded list_all_upt_Suc shift]
  have "sign_loop l m_prime canonical_pk (kappa + 5) = Some r" using p by (intro Suc.IH) simp_all
  moreover have "sign_attempt l m_prime canonical_pk kappa = Some Retry" using p(1) by simp
  ultimately show ?case by (subst sign_loop_unfold) simp
qed

lemma first_accepted_retry:
  assumes "sign_attempt l m_prime canonical_pk kappa = Some Retry" and "first_accepted l m_prime canonical_pk (kappa + 5) r"
  shows "first_accepted l m_prime canonical_pk kappa r"
proof -
  have shift: "kappa + 5 * word_of_nat (Suc i) = kappa + 5 + 5 * word_of_nat i" for i by (simp add: algebra_simps)
  obtain n where n: "list_all (\<lambda>i. sign_attempt l m_prime canonical_pk (kappa + 5 + 5 * word_of_nat i) = Some Retry) [0..<n]"
    "Option.bind (sign_attempt l m_prime canonical_pk (kappa + 5 + 5 * word_of_nat n)) finish = Some r"
    using assms(2) by (auto simp: first_accepted_def)
  have "list_all (\<lambda>i. sign_attempt l m_prime canonical_pk (kappa + 5 * word_of_nat i) = Some Retry) [0..<Suc n]"
    unfolding list_all_upt_Suc shift using assms(1) n(1) by simp
  then show ?thesis using n(2) unfolding first_accepted_def shift [symmetric] by blast
qed

lemma sign_loop_accepted: "sign_loop l m_prime canonical_pk kappa = Some r \<Longrightarrow> first_accepted l m_prime canonical_pk kappa r"
proof (erule sign_loop.raw_induct [rotated])
  fix loop and l :: sign_locals and m_prime canonical_pk kappa r
  assume IH: "\<And>l m_prime canonical_pk kappa r. loop l m_prime canonical_pk kappa = Some r \<Longrightarrow>
      first_accepted l m_prime canonical_pk kappa r"
    and run: "sign_attempt l m_prime canonical_pk kappa \<bind> (\<lambda>a. case a of Retry \<Rightarrow> loop l m_prime canonical_pk (kappa + 5)
      | Release sig \<Rightarrow> Some (Inr sig) | VbrMismatch \<Rightarrow> Some Panicked) = Some r"
  then obtain a where a: "sign_attempt l m_prime canonical_pk kappa = Some a" by (auto simp: bind_eq_Some_conv)
  show "first_accepted l m_prime canonical_pk kappa r"
  proof (cases a)
    case Retry
    then show ?thesis using a run IH first_accepted_retry by simp
  qed (use a run in \<open>auto simp: first_accepted_def intro!: exI [of _ 0]\<close>)
qed

lemma sign_loop_iff: "sign_loop l m_prime canonical_pk kappa = Some r \<longleftrightarrow> first_accepted l m_prime canonical_pk kappa r"
  using sign_loop_accepted sign_loop_runs unfolding first_accepted_def by blast

section \<open>Properties\<close>

lemma sign_released:
  "pred_option (\<lambda>r. case r of
      Inr sig \<Rightarrow> length sig = 3309 \<and> pred_option (\<lambda>pk. verify_internal pk m_prime sig = Some True) canonical_pk \<and>
        Option.bind (sign_setup sk m_prime rnd) (\<lambda>l. verify_internal (rederive_pk l) m_prime sig) = Some True
    | Inl _ \<Rightarrow> canonical_pk \<noteq> None)
   (sign_internal_with_pk sk m_prime rnd canonical_pk)"
proof (cases "sign_internal_with_pk sk m_prime rnd canonical_pk")
  case (Some r)
  then obtain l where l: "sign_setup sk m_prime rnd = Some l" "sign_loop l m_prime canonical_pk 0 = Some r"
    by (auto simp: sign_internal_with_pk_def bind_eq_Some_conv)
  then obtain kappa a where a: "sign_attempt l m_prime canonical_pk kappa = Some a" "finish a = Some r"
    unfolding sign_loop_iff first_accepted_def by (auto simp: bind_eq_Some_conv)
  show ?thesis
  proof (cases a)
    case (Release sig)
    then have "r = Inr sig" using a(2) by simp
    then show ?thesis using Release a(1) released_verifies [of l m_prime canonical_pk kappa sig] Some l(1) by simp
  next
    case VbrMismatch
    from a(1) have "canonical_pk \<noteq> None"
      by (cases rule: attempt_cases) (auto simp: VbrMismatch verify_before_release_def bind_eq_Some_conv split: if_splits option.splits)
    moreover have "r = Panicked" using VbrMismatch a(2) by simp
    ultimately show ?thesis using Some by simp
  qed (use a in simp)
qed simp

text \<open>
  C4: Verify before release.  Whatever the key, the message and the randomness, if
  \<open>sign_internal_with_pk\<close> returns a signature then it has 3309 bytes, \<open>verify_internal\<close> accepted it
  for the public key re-derived from the secret key, and it accepted it for the stored public key
  when the caller supplied one; it can panic only when a stored key was supplied.
\<close>

theorem sign_releases_verified:
  "pred_option (\<lambda>r. case r of
      Inr sig \<Rightarrow> length sig = 3309 \<and> pred_option (\<lambda>pk. verify_internal pk m_prime sig = Some True) canonical_pk \<and>
        Option.bind (sign_setup sk m_prime rnd) (\<lambda>l. verify_internal (rederive_pk l) m_prime sig) = Some True
    | Inl _ \<Rightarrow> canonical_pk \<noteq> None)
   (sign_internal_with_pk sk m_prime rnd canonical_pk)"
  by (rule sign_released)


lemma keygen_rederive:
  assumes "keygen seed = Some (sk, pk)" and "sign_setup sk m_prime rnd = Some l"
  shows "rederive_pk l = pk"
proof -
  let ?e = "shake_spec 136 (seed @ [6, 5]) 128"
  let ?rho = "take 32 ?e" and ?k = "take 32 (drop 96 ?e)"
  obtain a s1 s2 where a: "expand_a ?rho = Some a" and s: "expand_s (take 64 (drop 32 ?e)) = Some (s1, s2)"
    and keys: "pk = pack_pk ?rho (fst (vec_power2round (vec_add (vec_intt (mul_vector_ntt a (vec_ntt s1))) s2)))"
      "sk = pack_sk ?rho ?k (shake_spec 136 pk 64) s1 s2
        (snd (vec_power2round (vec_add (vec_intt (mul_vector_ntt a (vec_ntt s1))) s2)))"
    using assms(1) by (auto simp: keygen_def shake256_of_spec bind_eq_Some_conv Let_def split_beta)
  let ?t = "vec_add (vec_intt (mul_vector_ntt a (vec_ntt s1))) s2"
  note A = expand_a_lemma [OF a] and S = expand_s_lemma [OF s]
  have c: "vec_of 5 canonical s1" "vec_of 6 canonical s2" using S by (auto elim: vec_of_mono simp: small_coeff_def)
  have "vec_of 6 canonical ?t"
    using mul_vector_canonical [of 5 a "vec_ntt s1"] A c unfolding vec_ntt_def vec_intt_def
    by (intro vec_add_canonical vec_map_canonical intt_canonical) (auto intro: vec_map_canonical ntt_canonical)
  moreover have "vec_of 5 (stored 4 4) s1" "vec_of 6 (stored 4 4) s2" using S small_coeff_stored by (auto elim: vec_of_mono)
  ultimately have "unpack_sk sk = (?rho, ?k, shake_spec 136 pk 64, s1, s2, snd (vec_power2round ?t))"
    unfolding keys(2) using sk_roundtrip_lemma [of ?rho ?k "shake_spec 136 pk 64" s1 s2 "snd (vec_power2round ?t)"]
    by (simp add: vec_power2round_stored)
  then show ?thesis using assms(2) a keys(1)
    by (auto simp: sign_setup_def shake256_of_spec bind_eq_Some_conv rederive_pk_def Let_def split_beta)
qed

lemma keygen_sign_verify_lemma:
  assumes k: "keygen seed = Some (sk, pk)" and r: "sign_hedged sk msg rnd ctx = Some r"
  shows "(case r of Inl f \<Rightarrow> Some (Inl f) | Inr sig \<Rightarrow> verify_ctx pk msg sig ctx) = Some (map_sum id (\<lambda>_. True) r)"
proof (cases r)
  case (Inr sig)
  obtain m_prime where m: "format_m_prime msg ctx = Inr m_prime" "length ctx \<le> 255"
    using r Inr by (auto simp: sign_hedged_def sign_formatted_def format_m_prime_def format_m_prime_pub_def split: if_splits)
  then obtain l where l: "sign_setup sk m_prime rnd = Some l" "sign_loop l m_prime None 0 = Some (Inr sig)"
    using r Inr by (auto simp: sign_hedged_def sign_formatted_def sign_internal_def sign_internal_with_pk_def bind_eq_Some_conv)
  then obtain kappa a where a: "sign_attempt l m_prime None kappa = Some a" "finish a = Some (Inr sig)"
    unfolding sign_loop_iff first_accepted_def by (auto simp: bind_eq_Some_conv)
  then have "a = Release sig" by (cases a) auto
  then have "verify_internal pk m_prime sig = Some True"
    using released_verifies [of l m_prime None kappa sig] a(1) keygen_rederive [OF k l(1)] by simp
  then show ?thesis using m Inr by (simp add: verify_ctx_def)
qed simp

lemma sign_no_panic: "sign_internal sk m_prime rnd = Some r \<Longrightarrow> \<exists>sig. r = Inr sig"
proof -
  assume "sign_internal sk m_prime rnd = Some r"
  then obtain l kappa a where "sign_attempt l m_prime None kappa = Some a" "finish a = Some r"
    unfolding sign_internal_def sign_internal_with_pk_def bind_eq_Some_conv sign_loop_iff first_accepted_def by blast
  then show ?thesis
    by (cases a) (auto elim!: attempt_cases simp: verify_before_release_def bind_eq_Some_conv split: if_splits)
qed

text \<open>
  C1: Sign then verify.  For every seed, message, context and randomness: verifying, with the
  public key of the generator, the signature made with its secret key answers yes, whenever the
  generator and the signer return; a context over 255 bytes panics in both runs.
\<close>

theorem keygen_sign_verify:
  "(do { (sk, pk) \<leftarrow> keygen seed; r \<leftarrow> sign_hedged sk msg rnd ctx;
         case r of Inl f \<Rightarrow> Some (Inl f) | Inr sig \<Rightarrow> verify_ctx pk msg sig ctx })
   = (do { (sk, pk) \<leftarrow> keygen seed; r \<leftarrow> sign_hedged sk msg rnd ctx; Some (map_sum id (\<lambda>_. True) r) })"
  using keygen_sign_verify_lemma by (auto intro!: Option.bind_cong split: prod.splits)

text \<open>
  The second VBR check is transparent for consistent keys: with the public key of the
  generator as the stored key, \<open>sign_internal_with_pk\<close> behaves exactly like \<open>sign_internal\<close>; in
  particular it never panics.
\<close>

theorem dual_vbr_transparent:
  "(do { (sk, pk) \<leftarrow> keygen seed; sign_internal_with_pk sk m_prime rnd (Some pk) })
   = (do { (sk, pk) \<leftarrow> keygen seed; sign_internal sk m_prime rnd })"
proof -
  have "sign_loop l m_prime (Some pk) 0 = sign_loop l m_prime None 0" if "rederive_pk l = pk" for l pk
  proof -
    have "verify_before_release l m_prime (Some pk) sig = verify_before_release l m_prime None sig" for sig
      using that by (cases "verify_internal pk m_prime sig") (auto simp: verify_before_release_def)
    then have "sign_attempt l m_prime (Some pk) kappa = sign_attempt l m_prime None kappa" for kappa
      by (simp add: sign_attempt_def cong: if_cong)
    then have "sign_loop l m_prime (Some pk) 0 = Some r \<longleftrightarrow> sign_loop l m_prime None 0 = Some r" for r
      unfolding sign_loop_iff first_accepted_def by simp
    then show ?thesis by (metis not_None_eq)
  qed
  then show ?thesis
    by (auto simp: sign_internal_def sign_internal_with_pk_def intro!: Option.bind_cong split: prod.splits dest: keygen_rederive)
qed

text \<open>
  The message representative is injective: two formatted messages are equal only if both
  the context and the message are, so a signature for one pair is not one for another.
\<close>

theorem format_m_prime_injective:
  assumes "length ctx \<le> 255" and "length ctx' \<le> 255" and "format_m_prime msg ctx = format_m_prime msg' ctx'"
  shows "ctx = ctx' \<and> msg = msg'"
proof -
  have "word_of_nat (length ctx) = (word_of_nat (length ctx') :: u8)" and app: "ctx @ msg = ctx' @ msg'"
    using assms by (simp_all add: format_m_prime_def format_m_prime_pub_def)
  then have "length ctx = length ctx'"
    using assms(1,2) by (simp add: word_of_nat_eq_iff take_bit_eq_mod)
  then show ?thesis using app by simp
qed

theorem format_m_prime_injective_witness: "format_m_prime [3] [1] \<noteq> format_m_prime [1, 3] []"
  using format_m_prime_injective [of "[1]" "[]" "[3]" "[1, 3]"] by auto

end
