(* ===== verification/Hybrid.thy ===== *)
theory Hybrid
  imports Sign
begin

text \<open>
  The hybrid Ed25519 + ML-DSA-65 engine (\<open>crypto/hybrid.rs\<close>): composite keys and signatures, their
  byte layouts, the composite message both algorithms sign, key generation, signing and dual
  verification.  Ed25519 is a third-party crate: its operations are the fields of the parameter
  \<open>ed25519\<close>, and what the round trip relies on is the hypothesis \<open>ed25519_correct\<close>, the documented
  behaviour of that crate.
\<close>

section \<open>Definitions\<close>

text \<open>
  The operations of \<open>ed25519_dalek\<close> the code calls, on keys and signatures as bytes:
  \<open>verifying_key().to_bytes()\<close> of a seed, \<open>sign\<close>, whether \<open>VerifyingKey::from_bytes\<close> succeeds, \<open>verify\<close>.
\<close>

record ed25519 =
  ed_public :: "bytes \<Rightarrow> bytes"
  ed_sign :: "bytes \<Rightarrow> bytes \<Rightarrow> bytes"
  ed_key_ok :: "bytes \<Rightarrow> bool"
  ed_verify :: "bytes \<Rightarrow> bytes \<Rightarrow> bytes \<Rightarrow> bool"

definition DOMAIN_PREFIX :: bytes where
  "DOMAIN_PREFIX = map (\<lambda>c. word_of_nat (of_char c)) ''SOLOMON-COMPOSITE-V1''"

definition HYBRID_PUBLIC_KEY_SIZE :: nat where "HYBRID_PUBLIC_KEY_SIZE = 32 + 1952"

definition HYBRID_SIGNATURE_SIZE :: nat where "HYBRID_SIGNATURE_SIZE = 64 + 3309"

record HybridSecretKey =
  ed25519_sk :: bytes
  pq_sk :: bytes

record HybridPublicKey =
  ed25519_pk :: bytes
  pq_pk :: bytes

record HybridSignature =
  ed25519_sig :: bytes
  pq_sig :: bytes

definition public_to_bytes :: "HybridPublicKey \<Rightarrow> bytes" where
  "public_to_bytes pk = ed25519_pk pk @ pq_pk pk"

definition public_from_bytes :: "bytes \<Rightarrow> HybridPublicKey" where
  "public_from_bytes bs = \<lparr>ed25519_pk = take 32 bs, pq_pk = take 1952 (drop 32 bs)\<rparr>"

definition public_from_slice :: "bytes \<Rightarrow> string + HybridPublicKey" where
  "public_from_slice bs =
    (if length bs \<noteq> HYBRID_PUBLIC_KEY_SIZE then Inl ''Invalid hybrid public key byte length''
     else Inr \<lparr>ed25519_pk = take 32 bs, pq_pk = take 1952 (drop 32 bs)\<rparr>)"

definition signature_to_bytes :: "HybridSignature \<Rightarrow> bytes" where
  "signature_to_bytes s = ed25519_sig s @ pq_sig s"

definition signature_from_bytes :: "bytes \<Rightarrow> HybridSignature" where
  "signature_from_bytes bs = \<lparr>ed25519_sig = take 64 bs, pq_sig = take 3309 (drop 64 bs)\<rparr>"

definition signature_from_slice :: "bytes \<Rightarrow> string + HybridSignature" where
  "signature_from_slice bs =
    (if length bs \<noteq> HYBRID_SIGNATURE_SIZE then Inl ''Invalid hybrid signature byte length''
     else Inr \<lparr>ed25519_sig = take 64 bs, pq_sig = take 3309 (drop 64 bs)\<rparr>)"

definition construct_composite_message_with_ctx :: "bytes \<Rightarrow> bytes \<Rightarrow> bytes \<Rightarrow> bytes \<Rightarrow> string + bytes" where
  "construct_composite_message_with_ctx ed_pk pq message ctx =
    (if 65535 < length ctx then Inl ''Context length exceeds maximum 16-bit prefix''
     else Inr (DOMAIN_PREFIX @ be_bytes 2 (length ctx) @ ctx @ ed_pk @ pq @ message))"

definition construct_composite_message :: "bytes \<Rightarrow> bytes \<Rightarrow> bytes \<Rightarrow> bytes" where
  "construct_composite_message ed_pk pq message =
    (case construct_composite_message_with_ctx ed_pk pq message [] of Inl _ \<Rightarrow> [] | Inr m \<Rightarrow> m)"

definition hybrid_keygen :: "ed25519 \<Rightarrow> bytes \<Rightarrow> (HybridSecretKey \<times> HybridPublicKey) option" where
  "hybrid_keygen ed seed = do {
     (sk, pk) \<leftarrow> keygen seed;
     Some (\<lparr>ed25519_sk = seed, pq_sk = sk\<rparr>, \<lparr>ed25519_pk = ed_public ed seed, pq_pk = pk\<rparr>)
   }"

definition hybrid_sign :: "ed25519 \<Rightarrow> HybridSecretKey \<Rightarrow> HybridPublicKey \<Rightarrow> bytes \<Rightarrow> (unit, HybridSignature) outcome option" where
  "hybrid_sign ed sk pk message =
    (let m_composite = construct_composite_message (ed25519_pk pk) (pq_pk pk) message;
         ed_sig = ed_sign ed (ed25519_sk sk) m_composite
     in map_option (map_sum id (\<lambda>sig. \<lparr>ed25519_sig = ed_sig, pq_sig = sig\<rparr>)) (sign (pq_sk sk) m_composite))"

definition hybrid_verify :: "ed25519 \<Rightarrow> HybridPublicKey \<Rightarrow> bytes \<Rightarrow> HybridSignature \<Rightarrow> (unit, bool) outcome option" where
  "hybrid_verify ed pk message signature =
    (let m_composite = construct_composite_message (ed25519_pk pk) (pq_pk pk) message
     in if \<not> ed_key_ok ed (ed25519_pk pk) then Some (Inr False)
        else if \<not> ed_verify ed (ed25519_pk pk) m_composite (ed25519_sig signature) then Some (Inr False)
        else verify (pq_pk pk) m_composite (pq_sig signature))"

section \<open>Properties\<close>

lemma public_from_slice_iff:
  "public_from_slice bs = Inr pk \<longleftrightarrow> length (ed25519_pk pk) = 32 \<and> length (pq_pk pk) = 1952 \<and> public_to_bytes pk = bs"
  by (cases pk) (auto simp: public_from_slice_def public_to_bytes_def HYBRID_PUBLIC_KEY_SIZE_def)

lemma signature_from_slice_iff:
  "signature_from_slice bs = Inr s \<longleftrightarrow> length (ed25519_sig s) = 64 \<and> length (pq_sig s) = 3309 \<and> signature_to_bytes s = bs"
  by (cases s) (auto simp: signature_from_slice_def signature_to_bytes_def HYBRID_SIGNATURE_SIZE_def)

text \<open>
  The composite message binds both keys, the context and the message: two composites built
  from keys of the right size and contexts of at most 65535 bytes are equal only if all four
  parts are.
\<close>

theorem composite_binding:
  assumes "length ed = 32" and "length ed' = 32" and "length pq = 1952" and "length pq' = 1952"
    and "length ctx \<le> 65535" and "length ctx' \<le> 65535"
    and eq: "construct_composite_message_with_ctx ed pq msg ctx = construct_composite_message_with_ctx ed' pq' msg' ctx'"
  shows "ed = ed' \<and> pq = pq' \<and> ctx = ctx' \<and> msg = msg'"
proof -
  have "be_bytes 2 (length ctx) @ ctx @ ed @ pq @ msg = be_bytes 2 (length ctx') @ ctx' @ ed' @ pq' @ msg'"
    using assms by (simp add: construct_composite_message_with_ctx_def)
  then have "be_bytes 2 (length ctx) = be_bytes 2 (length ctx')" and rest: "ctx @ ed @ pq @ msg = ctx' @ ed' @ pq' @ msg'"
    by (simp_all del: be_bytes.simps)
  then have "length ctx mod 256 ^ 2 = length ctx' mod 256 ^ 2" using from_be_be_bytes by metis
  then have "length ctx = length ctx'" using assms(5,6) by simp
  then show ?thesis using rest assms(1-4) by simp
qed

theorem composite_binding_witness:
  "construct_composite_message_with_ctx (replicate 32 1) (replicate 1952 2) [3] []
   \<noteq> construct_composite_message_with_ctx (replicate 32 1) (replicate 1952 2) [] [3]"
  using composite_binding [of "replicate 32 1" "replicate 32 1" "replicate 1952 2" "replicate 1952 2" "[]" "[3]" "[3]" "[]"]
  by fastforce

text \<open>The documented behaviour of Ed25519 the round trip relies on.\<close>

definition ed25519_correct :: "ed25519 \<Rightarrow> bool" where
  "ed25519_correct ed \<longleftrightarrow> (\<forall>seed m. ed_key_ok ed (ed_public ed seed) \<and> ed_verify ed (ed_public ed seed) m (ed_sign ed seed m))"

text \<open>
  C33: Hybrid sign then verify.  If Ed25519 verifies what it signs, the hybrid signature made with
  a generated key pair verifies under it, for every seed and message, whenever the generator
  and the signer return; neither panics.
\<close>

theorem hybrid_roundtrip:
  assumes "ed25519_correct ed"
  shows "(do { (sk, pk) \<leftarrow> hybrid_keygen ed seed; r \<leftarrow> hybrid_sign ed sk pk msg;
           case r of Inl f \<Rightarrow> Some (Inl f) | Inr s \<Rightarrow> hybrid_verify ed pk msg s })
     = (do { (sk, pk) \<leftarrow> hybrid_keygen ed seed; r \<leftarrow> hybrid_sign ed sk pk msg; Some (Inr True) })"
proof (cases "keygen seed")
  case (Some keys)
  obtain sk pk where k: "keygen seed = Some (sk, pk)" using Some by (cases keys) simp
  let ?m = "construct_composite_message (ed_public ed seed) pk msg"
  show ?thesis
  proof (cases "sign sk ?m")
    case (Some r)
    have "sign_hedged sk ?m (replicate 32 0) [] = Some r" using Some by (simp add: sign_def sign_hedged_def)
    then have "(case r of Inl f \<Rightarrow> Some (Inl f) | Inr sig \<Rightarrow> verify_ctx pk ?m sig []) = Some (map_sum id (\<lambda>_. True) r)"
      using keygen_sign_verify_lemma [OF k] by blast
    moreover have "\<exists>sig. r = Inr sig"
      using Some sign_no_panic [of sk "[0] @ [0] @ [] @ ?m" "replicate 32 0"]
      by (cases r) (auto simp: sign_def sign_formatted_def format_m_prime_def format_m_prime_pub_def)
    ultimately show ?thesis using assms k Some
      by (auto simp: hybrid_keygen_def hybrid_sign_def hybrid_verify_def verify_def ed25519_correct_def Let_def)
  qed (simp add: k hybrid_keygen_def hybrid_sign_def Let_def)
qed (simp add: hybrid_keygen_def)

text \<open>A scheme that satisfies the hypothesis.\<close>

definition sample_ed25519 :: ed25519 where
  "sample_ed25519 = \<lparr>ed_public = id, ed_sign = (@), ed_key_ok = \<lambda>_. True, ed_verify = \<lambda>pk m s. s = pk @ m\<rparr>"

theorem hybrid_roundtrip_witness:
  "(do { (sk, pk) \<leftarrow> hybrid_keygen sample_ed25519 [];
         r \<leftarrow> hybrid_sign sample_ed25519 sk pk [1];
         case r of Inl f \<Rightarrow> Some (Inl f)
         | Inr s \<Rightarrow> hybrid_verify sample_ed25519 pk [1] s })
   = (do { (sk, pk) \<leftarrow> hybrid_keygen sample_ed25519 [];
         r \<leftarrow> hybrid_sign sample_ed25519 sk pk [1];
         Some (Inr True) })"
  by (rule hybrid_roundtrip) (simp add: ed25519_correct_def sample_ed25519_def)

end
