(* ===== verification/AuditChain.thy ===== *)
theory AuditChain
  imports Sign
begin

text \<open>
  The audit hash chain (\<open>audit/record.rs\<close>, \<open>audit/chain.rs\<close>, \<open>audit/crypto_traits.rs\<close>): the records
  and the segment seal, the hash of a record, the verification of a chain, and the SHAKE-256
  implementation of the pluggable hasher.

  A hasher is any function that digests the concatenation of its inputs: the locale
  \<open>audit_hasher\<close> states this contract, and the security statement (two accepted chains with the
  same last hash carry the same bytes, or exhibit a collision) is proved in it once.  The contract
  is discharged for the SHAKE-256 hasher of the sources.  The JSON rendering of a profile and of an
  action is that of the third-party crate \<open>serde_json\<close>, the parameter \<open>audit_json\<close>; a floating-point
  number is its 64-bit pattern.
\<close>

section \<open>Definitions\<close>

record CryptoAuditMeta =
  algorithm_suite :: rstr
  hybrid_verified :: bool
  starks_proven :: bool
  proof_latency_ms :: u64

datatype SystemAction = SuccessForwarded | FailClosedBypassed | CircuitBreakerTripped | ValidationErrorRejected

record AuditRecord =
  timestamp_utc :: u64
  event_id :: rstr
  route_target :: rstr
  crypto_profile :: CryptoAuditMeta
  localization_region :: rstr
  system_action :: SystemAction
  previous_hash :: rstr
  current_hash :: rstr

record AuditSegmentSeal =
  record_type :: rstr
  segment_date :: rstr
  last_record_hash :: rstr
  sealed_at_utc_us :: u64
  node_identity :: rstr
  seal_signature :: rstr

record AuditHasher =
  algorithm_id :: rstr
  hex_digest :: "bytes list \<Rightarrow> rstr"

record audit_json =
  crypto_json :: "CryptoAuditMeta \<Rightarrow> rstr"
  action_json :: "SystemAction \<Rightarrow> rstr"

definition hex_encode :: "bytes \<Rightarrow> rstr" where
  "hex_encode bs = concat (map (fmt_hex2 97) bs)"

text \<open>The SHA-256 hasher, the one the proxy installs; \<open>sha256\<close> belongs to the package \<open>sha2\<close>.\<close>

definition Sha256AuditHasher :: "(bytes \<Rightarrow> bytes) \<Rightarrow> AuditHasher" where
  "Sha256AuditHasher sha256 = \<lparr>algorithm_id = rlit ''SHA-256'', hex_digest = \<lambda>inputs. hex_encode (sha256 (concat inputs))\<rparr>"

definition shake256_hex_digest :: "bytes list \<Rightarrow> rstr" where
  "shake256_hex_digest inputs = (case shake256_of inputs 32 of Some out \<Rightarrow> hex_encode out | None \<Rightarrow> [])"

definition Shake256AuditHasher :: AuditHasher where
  "Shake256AuditHasher = \<lparr>algorithm_id = rlit ''SHAKE-256'', hex_digest = shake256_hex_digest\<rparr>"

definition signable_payload :: "AuditHasher \<Rightarrow> rstr \<Rightarrow> rstr \<Rightarrow> u64 \<Rightarrow> rstr \<Rightarrow> bytes" where
  "signable_payload hasher date last_hash sealed_at node =
    as_bytes (hex_digest hasher [as_bytes (rlit ''SEGMENT_SEAL''), as_bytes date, as_bytes last_hash,
      be_bytes 8 (unat sealed_at), as_bytes node])"

definition hash_inputs :: "audit_json \<Rightarrow> u64 \<Rightarrow> rstr \<Rightarrow> rstr \<Rightarrow> CryptoAuditMeta \<Rightarrow> rstr \<Rightarrow> SystemAction \<Rightarrow> rstr \<Rightarrow> bytes list" where
  "hash_inputs json ts event route profile region action previous =
    [as_bytes previous, le_bytes 8 (unat ts), as_bytes event, as_bytes route,
     as_bytes (crypto_json json profile), as_bytes region, as_bytes (action_json json action)]"

definition compute_hash :: "AuditHasher \<Rightarrow> audit_json \<Rightarrow> u64 \<Rightarrow> rstr \<Rightarrow> rstr \<Rightarrow> CryptoAuditMeta \<Rightarrow> rstr \<Rightarrow> SystemAction \<Rightarrow> rstr \<Rightarrow> rstr" where
  "compute_hash hasher json ts event route profile region action previous =
    hex_digest hasher (hash_inputs json ts event route profile region action previous)"

definition record_inputs :: "audit_json \<Rightarrow> AuditRecord \<Rightarrow> bytes list" where
  "record_inputs json r = hash_inputs json (timestamp_utc r) (event_id r) (route_target r) (crypto_profile r)
     (localization_region r) (system_action r) (previous_hash r)"

definition record_hash :: "AuditHasher \<Rightarrow> audit_json \<Rightarrow> AuditRecord \<Rightarrow> rstr" where
  "record_hash hasher json r = compute_hash hasher json (timestamp_utc r) (event_id r) (route_target r) (crypto_profile r)
     (localization_region r) (system_action r) (previous_hash r)"

datatype AuditChainError =
    InvalidGenesisPrevious nat
  | BrokenPreviousHash nat rstr rstr
  | RecordHashMismatch nat rstr rstr

definition GENESIS_HASH :: rstr where
  "GENESIS_HASH = replicate 64 48"

text \<open>The loop over the records after the first; \<open>prev\<close> is \<open>records[i - 1]\<close>.\<close>

fun verify_links :: "AuditHasher \<Rightarrow> audit_json \<Rightarrow> nat \<Rightarrow> AuditRecord \<Rightarrow> AuditRecord list \<Rightarrow> AuditChainError + unit" where
  "verify_links hasher json i prev [] = Inr ()"
| "verify_links hasher json i prev (cur # rest) =
    (if previous_hash cur \<noteq> current_hash prev
     then Inl (BrokenPreviousHash i (current_hash prev) (previous_hash cur))
     else let expected = record_hash hasher json cur in
       if current_hash cur \<noteq> expected then Inl (RecordHashMismatch i expected (current_hash cur))
       else verify_links hasher json (i + 1) cur rest)"

definition verify_chain_with_initial_hash :: "AuditHasher \<Rightarrow> audit_json \<Rightarrow> AuditRecord list \<Rightarrow> rstr \<Rightarrow> AuditChainError + unit" where
  "verify_chain_with_initial_hash hasher json records expected_initial_hash =
    (case records of
       [] \<Rightarrow> Inr ()
     | r # rest \<Rightarrow>
         if previous_hash r \<noteq> expected_initial_hash then Inl (InvalidGenesisPrevious 0)
         else let expected_genesis_hash = record_hash hasher json r in
           if current_hash r \<noteq> expected_genesis_hash
           then Inl (RecordHashMismatch 0 expected_genesis_hash (current_hash r))
           else verify_links hasher json 1 r rest)"

definition verify_chain :: "AuditHasher \<Rightarrow> audit_json \<Rightarrow> AuditRecord list \<Rightarrow> AuditChainError + unit" where
  "verify_chain hasher json records = verify_chain_with_initial_hash hasher json records GENESIS_HASH"

section \<open>What the verification accepts\<close>

text \<open>Each record points to its predecessor and carries its own hash.\<close>

fun linked :: "AuditHasher \<Rightarrow> audit_json \<Rightarrow> rstr \<Rightarrow> AuditRecord list \<Rightarrow> bool" where
  "linked hasher json h [] = True"
| "linked hasher json h (r # rs) \<longleftrightarrow>
    previous_hash r = h \<and> current_hash r = record_hash hasher json r \<and> linked hasher json (current_hash r) rs"

lemma verify_links_iff: "verify_links hasher json i prev rs = Inr () \<longleftrightarrow> linked hasher json (current_hash prev) rs"
  by (induction rs arbitrary: i prev) (auto simp: Let_def)

lemma verify_chain_iff: "verify_chain_with_initial_hash hasher json rs h = Inr () \<longleftrightarrow> linked hasher json h rs"
  by (cases rs) (auto simp: verify_chain_with_initial_hash_def Let_def verify_links_iff)

lemma linked_append:
  "linked hasher json h (rs @ qs) \<longleftrightarrow>
    linked hasher json h rs \<and> linked hasher json (if rs = [] then h else current_hash (last rs)) qs"
  by (induction rs arbitrary: h) auto

fun error_index :: "AuditChainError \<Rightarrow> nat" where
  "error_index (InvalidGenesisPrevious i) = i"
| "error_index (BrokenPreviousHash i _ _) = i"
| "error_index (RecordHashMismatch i _ _) = i"

lemma verify_links_error:
  "verify_links hasher json i prev rs = Inl e \<Longrightarrow>
    \<exists>k < length rs. error_index e = i + k \<and> linked hasher json (current_hash prev) (take k rs) \<and>
      \<not> linked hasher json (current_hash prev) (take (Suc k) rs)"
proof (induction rs arbitrary: i prev)
  case (Cons r rs)
  show ?case
  proof (cases "previous_hash r = current_hash prev \<and> current_hash r = record_hash hasher json r")
    case True
    then have "verify_links hasher json (i + 1) r rs = Inl e" using Cons.prems by (simp add: Let_def)
    from Cons.IH [OF this] obtain k where "k < length rs" "error_index e = i + 1 + k"
      "linked hasher json (current_hash r) (take k rs)" "\<not> linked hasher json (current_hash r) (take (Suc k) rs)" by blast
    then show ?thesis using True by (intro exI [of _ "Suc k"]) simp
  next
    case False
    then show ?thesis using Cons.prems by (intro exI [of _ 0]) (auto simp: Let_def split: if_splits)
  qed
qed simp

text \<open>
  C31: The chain verifier accepts exactly the linked chains: it returns \<open>Ok\<close> iff every record
  carries the hash of its own content and the hash of the record before it (the expected initial
  hash for the first).  When it reports an error, the index in the error is that of the first
  record that breaks the chain: the records before it verify and the chain up to it does not.
\<close>

theorem verify_chain_pinpoints:
  "case verify_chain_with_initial_hash hasher json records h of
     Inr _ \<Rightarrow> linked hasher json h records
   | Inl e \<Rightarrow> error_index e < length records \<and> linked hasher json h (take (error_index e) records) \<and>
       \<not> linked hasher json h (take (Suc (error_index e)) records)"
proof (cases "verify_chain_with_initial_hash hasher json records h")
  case (Inl e)
  then obtain r rs where rs: "records = r # rs" by (cases records) (auto simp: verify_chain_with_initial_hash_def)
  show ?thesis
  proof (cases "previous_hash r = h \<and> current_hash r = record_hash hasher json r")
    case True
    then have "verify_links hasher json 1 r rs = Inl e"
      using Inl rs by (simp add: verify_chain_with_initial_hash_def Let_def)
    from verify_links_error [OF this] show ?thesis using True Inl rs by auto
  next
    case False
    then show ?thesis using Inl rs by (auto simp: verify_chain_with_initial_hash_def Let_def split: if_splits)
  qed
next
  case (Inr u)
  then show ?thesis using verify_chain_iff [of hasher json records h] by simp
qed

section \<open>The contract of a hasher\<close>

locale audit_hasher =
  fixes hasher :: AuditHasher and len :: nat
  assumes concatenates: "hex_digest hasher inputs = hex_digest hasher [concat inputs]"
    and fixed_length: "length (as_bytes (hex_digest hasher inputs)) = len"
    and as_bytes_digest_inj: "as_bytes (hex_digest hasher x) = as_bytes (hex_digest hasher y) \<Longrightarrow>
      hex_digest hasher x = hex_digest hasher y"
begin

abbreviation collision :: "bytes \<Rightarrow> bytes \<Rightarrow> bool" where
  "collision x y \<equiv> x \<noteq> y \<and> hex_digest hasher [x] = hex_digest hasher [y]"

abbreviation content :: "audit_json \<Rightarrow> AuditRecord \<Rightarrow> bytes" where
  "content json r \<equiv> concat (record_inputs json r)"

lemma record_hash_content: "record_hash hasher json r = hex_digest hasher [content json r]"
  unfolding record_hash_def compute_hash_def record_inputs_def by (rule concatenates)

lemma content_previous:
  assumes "content json r = content json q" and "previous_hash r = hex_digest hasher x" and "previous_hash q = hex_digest hasher y"
  shows "previous_hash r = previous_hash q"
proof -
  have "as_bytes (previous_hash r) = as_bytes (previous_hash q)"
    using assms(1) fixed_length [of x] fixed_length [of y] by (simp add: record_inputs_def hash_inputs_def assms(2,3))
  then show ?thesis unfolding assms(2,3) by (rule as_bytes_digest_inj)
qed

lemma same_last_hash:
  assumes "length rs = length qs" and "linked hasher json h rs" and "linked hasher json h qs"
    and "rs \<noteq> [] \<Longrightarrow> current_hash (last rs) = current_hash (last qs)"
  shows "map (content json) rs = map (content json) qs \<or>
    (\<exists>r\<in>set rs. \<exists>q\<in>set qs. collision (content json r) (content json q))"
  using assms
proof (induction rs qs rule: rev_induct2)
  case (4 r rs q qs)
  have l: "linked hasher json h rs" "linked hasher json h qs" "length rs = length qs"
    "previous_hash r = (if rs = [] then h else current_hash (last rs))" "current_hash r = record_hash hasher json r"
    "previous_hash q = (if qs = [] then h else current_hash (last qs))" "current_hash q = record_hash hasher json q"
    using 4 by (simp_all add: linked_append)
  have eq: "hex_digest hasher [content json r] = hex_digest hasher [content json q]"
    using 4 l by (simp add: record_hash_content)
  show ?case
  proof (cases "content json r = content json q")
    case True
    have "current_hash (last rs) = current_hash (last qs)" if ne: "rs \<noteq> []"
    proof -
      have ne': "qs \<noteq> []" using ne l(3) by auto
      have "current_hash (last xs) = record_hash hasher json (last xs)" if "linked hasher json h xs" "xs \<noteq> []" for xs
        using that by (metis append_butlast_last_id linked.simps(2) linked_append)
      then have "previous_hash r = hex_digest hasher [content json (last rs)]" "previous_hash q = hex_digest hasher [content json (last qs)]"
        using l ne ne' by (simp_all add: record_hash_content)
      from content_previous [OF True this] show ?thesis using l ne ne' by simp
    qed
    from "4.IH" [OF l(3,1,2) this] show ?thesis using True by auto
  next
    case False
    then show ?thesis using eq by auto
  qed
qed auto

end

lemma hex_encode_ascii: "list_all (\<lambda>c. c < 128) (hex_encode bs)"
  by (induction bs) (simp_all add: hex_encode_def fmt_hex2_def hex_digit_ascii high_nibble)

lemma length_hex_encode: "length (hex_encode bs) = 2 * length bs"
  by (induction bs) (simp_all add: hex_encode_def fmt_hex2_def)

lemma as_bytes_ascii_inj:
  assumes "list_all (\<lambda>c. c < 128) s" and "list_all (\<lambda>c. c < 128) t" and "as_bytes s = as_bytes t"
  shows "s = t"
proof -
  have "map unat (as_bytes s) = s" "map unat (as_bytes t) = t"
    using assms(1,2) by (auto simp: as_bytes_ascii list_all_iff unat_of_nat intro!: map_idI)
  then show ?thesis using assms(3) by metis
qed

lemma shake256_hex: "shake256_hex_digest inputs = hex_encode (shake_spec 136 (concat inputs) 32)"
  by (simp add: shake256_hex_digest_def shake256_of_spec)

lemma hex_encode_inj: "hex_encode bs = hex_encode cs \<Longrightarrow> bs = cs"
proof (induction bs arbitrary: cs)
  case Nil
  then show ?case by (cases cs) (simp_all add: hex_encode_def fmt_hex2_def)
next
  case (Cons b bs)
  then obtain c cs' where cs: "cs = c # cs'" by (cases cs) (simp_all add: hex_encode_def fmt_hex2_def)
  have "hex_digit 97 (unat b div 16) = hex_digit 97 (unat c div 16)" "hex_digit 97 (unat b mod 16) = hex_digit 97 (unat c mod 16)"
    and rest: "hex_encode bs = hex_encode cs'" using Cons.prems by (simp_all add: cs hex_encode_def fmt_hex2_def)
  then have "unat b div 16 = unat c div 16" "unat b mod 16 = unat c mod 16"
    using hex_val_hex_digit [of _ 97] high_nibble by (metis option.inject mod_less_divisor zero_less_numeral)+
  then have "unat b = unat c" by (metis div_mult_mod_eq)
  then have "b = c" by (rule unsigned_word_eqI)
  then show ?case using Cons.IH [OF rest] by (simp add: cs)
qed

text \<open>A hasher that prints a digest of fixed length of the concatenated inputs meets the contract.\<close>

lemma hex_hasher:
  assumes "\<And>inputs. hex_digest hasher inputs = hex_encode (digest (concat inputs))" and "\<And>x. length (digest x) = n"
  shows "audit_hasher hasher (2 * n)"
proof
  show "hex_digest hasher x = hex_digest hasher y" if "as_bytes (hex_digest hasher x) = as_bytes (hex_digest hasher y)" for x y
    using that by (auto simp: assms(1) hex_encode_ascii intro: as_bytes_ascii_inj)
qed (simp_all add: assms as_bytes_length_ascii hex_encode_ascii length_hex_encode)

interpretation shake_hasher: audit_hasher Shake256AuditHasher 64
  using hex_hasher [of Shake256AuditHasher "\<lambda>x. shake_spec 136 x 32" 32]
  by (simp add: Shake256AuditHasher_def shake256_hex length_shake_spec)

lemma sha256_audit_hasher: "(\<And>x. length (sha256 x) = 32) \<Longrightarrow> audit_hasher (Sha256AuditHasher sha256) 64"
  using hex_hasher [of "Sha256AuditHasher sha256" sha256 32] by (simp add: Sha256AuditHasher_def)

text \<open>
  C30: Tamper evidence of the SHA-256 chain, the one the proxy keeps.  Two record lists of the same length
  that both verify from the same initial hash and end in the same hash have, record by record, the same
  hashed bytes, unless a record of the one and a record of the other are themselves a SHA-256 collision.
  Of SHA-256 only the length of the digest is assumed.
\<close>

theorem chain_tamper_evident:
  assumes "\<And>x. length (sha256 x) = 32"
    and "verify_chain_with_initial_hash (Sha256AuditHasher sha256) json rs h = Inr ()"
    and "verify_chain_with_initial_hash (Sha256AuditHasher sha256) json qs h = Inr ()"
    and "length rs = length qs" and "rs \<noteq> []" and "current_hash (last rs) = current_hash (last qs)"
  shows "map (concat \<circ> record_inputs json) rs = map (concat \<circ> record_inputs json) qs \<or>
    (\<exists>r\<in>set rs. \<exists>q\<in>set qs. concat (record_inputs json r) \<noteq> concat (record_inputs json q) \<and>
      sha256 (concat (record_inputs json r)) = sha256 (concat (record_inputs json q)))"
  using audit_hasher.same_last_hash [OF sha256_audit_hasher, of sha256 rs qs json h] assms
  by (fastforce simp: verify_chain_iff comp_def Sha256AuditHasher_def dest: hex_encode_inj)

text \<open>The same for the SHAKE-256 hasher, where nothing is assumed.\<close>

theorem shake_chain_tamper_evident:
  assumes "verify_chain_with_initial_hash Shake256AuditHasher json rs h = Inr ()"
    and "verify_chain_with_initial_hash Shake256AuditHasher json qs h = Inr ()"
    and "length rs = length qs" and "rs \<noteq> []" and "current_hash (last rs) = current_hash (last qs)"
  shows "map (concat \<circ> record_inputs json) rs = map (concat \<circ> record_inputs json) qs \<or>
    (\<exists>r\<in>set rs. \<exists>q\<in>set qs. concat (record_inputs json r) \<noteq> concat (record_inputs json q) \<and>
      shake_spec 136 (concat (record_inputs json r)) 32 = shake_spec 136 (concat (record_inputs json q)) 32)"
  using shake_hasher.same_last_hash [of rs qs json h] assms
  by (fastforce simp: verify_chain_iff comp_def Shake256AuditHasher_def shake256_hex dest: hex_encode_inj)

text \<open>A one-record chain, with the hash its content asks for.\<close>

definition sample_record :: AuditRecord where
  "sample_record =
    (let r = \<lparr>timestamp_utc = 7, event_id = rlit ''e1'', route_target = rlit ''bank'',
       crypto_profile = \<lparr>algorithm_suite = rlit ''ML-DSA-65'', hybrid_verified = True, starks_proven = False, proof_latency_ms = 0\<rparr>,
       localization_region = rlit ''IN'', system_action = SuccessForwarded, previous_hash = GENESIS_HASH, current_hash = []\<rparr>
     in r\<lparr>current_hash := record_hash Shake256AuditHasher \<lparr>crypto_json = algorithm_suite, action_json = \<lambda>_. []\<rparr> r\<rparr>)"

definition sample_json :: audit_json where
  "sample_json = \<lparr>crypto_json = algorithm_suite, action_json = \<lambda>_. []\<rparr>"

theorem chain_tamper_evident_witness:
  "let twin = sample_record\<lparr>event_id := rlit ''e'', route_target := rlit ''1bank''\<rparr>;
       bytes_of = concat \<circ> record_inputs sample_json
   in map bytes_of [sample_record] = map bytes_of [twin] \<or>
      (\<exists>r\<in>set [sample_record]. \<exists>q\<in>set [twin]. bytes_of r \<noteq> bytes_of q \<and>
        shake_spec 136 (bytes_of r) 32 = shake_spec 136 (bytes_of q) 32)"
proof -
  let ?sha = "\<lambda>x. shake_spec 136 x 32"
  have "verify_chain_with_initial_hash (Sha256AuditHasher ?sha) sample_json [sample_record] GENESIS_HASH = Inr ()"
    "verify_chain_with_initial_hash (Sha256AuditHasher ?sha) sample_json
      [sample_record\<lparr>event_id := rlit ''e'', route_target := rlit ''1bank''\<rparr>] GENESIS_HASH = Inr ()"
    by (simp_all add: verify_chain_iff sample_record_def sample_json_def Let_def record_hash_def compute_hash_def hash_inputs_def
        Shake256AuditHasher_def Sha256AuditHasher_def shake256_hex as_bytes_def rlit_def)
  from chain_tamper_evident [OF _ this] show ?thesis by (simp add: Let_def comp_def length_shake_spec)
qed

text \<open>
  The hashed bytes have no framing: moving characters from the end of the event identifier to the
  start of the route target leaves the hash of a record unchanged.
\<close>

theorem compute_hash_unframed:
  "compute_hash (Sha256AuditHasher sha256) json ts (event @ x) route profile region action previous
   = compute_hash (Sha256AuditHasher sha256) json ts event (x @ route) profile region action previous"
  by (simp add: compute_hash_def hash_inputs_def Sha256AuditHasher_def as_bytes_def)

end
