(* ===== verification/Calendar.thy ===== *)
theory Calendar
  imports Prelude
begin

text \<open>
  The Gregorian calendar helpers and the freshness test of field 7
  (\<open>solomon-core/src/iso8583.rs\<close>, lines 768 to 851).  Every \<open>u64\<close> is a 64-bit word, so the
  subtractions below the epoch wrap as they do in the program.  The conversion is exact on
  every day count the program can see, and the freshness test accepts a time stamp of the
  current year exactly when it is within the tolerance.
\<close>

section \<open>Definitions\<close>

definition days_to_ymd :: "u64 \<Rightarrow> u64 \<times> u64 \<times> u64" where
  "days_to_ymd days =
    (let z = days + 719468;
         era = z div 146097;
         doe = z mod 146097;
         yoe = (doe - doe div 1460 + doe div 36524 - doe div 146096) div 365;
         y = yoe + era * 400;
         doy = doe - (365 * yoe + yoe div 4 - yoe div 100);
         mp = (5 * doy + 2) div 153;
         d = doy - (153 * mp + 2) div 5 + 1;
         m = (if mp < 10 then mp + 3 else mp - 9);
         y = (if m \<le> 2 then y + 1 else y)
     in (y, m, d))"

definition ymd_to_days :: "u64 \<Rightarrow> u64 \<Rightarrow> u64 \<Rightarrow> u64" where
  "ymd_to_days year month day =
    (let (y, m) = (if month \<le> 2 then (year - 1, month + 9) else (year, month - 3));
         era = y div 400;
         yoe = y mod 400;
         doy = (153 * m + 2) div 5 + day - 1;
         doe = yoe * 365 + yoe div 4 - yoe div 100 + doy
     in era * 146097 + doe - 719468)"

text \<open>
  A two-digit group of the field with the guard of its match arm; the digits have been
  checked before.
\<close>

definition two_digits :: "rstr \<Rightarrow> nat \<Rightarrow> nat \<Rightarrow> nat \<Rightarrow> nat option" where
  "two_digits s i lo hi = (case parse_usize (take 2 (drop i s)) of
       Some v \<Rightarrow> if lo \<le> v \<and> v \<le> hi then Some v else None
     | None \<Rightarrow> None)"

definition parse_field7 :: "rstr \<Rightarrow> (nat \<times> nat \<times> nat \<times> nat \<times> nat) option" where
  "parse_field7 f7_str =
    (if str_len f7_str \<noteq> 10 then None
     else if \<not> list_all (\<lambda>b. is_ascii_digit (unat b)) (as_bytes f7_str) then None
     else Option.bind (two_digits f7_str 0 1 12) (\<lambda>month.
       Option.bind (two_digits f7_str 2 1 31) (\<lambda>day.
       Option.bind (two_digits f7_str 4 0 23) (\<lambda>hh.
       Option.bind (two_digits f7_str 6 0 59) (\<lambda>mm.
       Option.bind (two_digits f7_str 8 0 59) (\<lambda>ss. Some (month, day, hh, mm, ss)))))))"

definition resolve_year :: "nat \<Rightarrow> u64 \<Rightarrow> u64 \<Rightarrow> u64" where
  "resolve_year month curr_month curr_year =
    (if month = 12 \<and> curr_month = 1 then (if curr_year = 0 then 0 else curr_year - 1)
     else if month = 1 \<and> curr_month = 12 then curr_year + 1
     else curr_year)"

text \<open>\<open>i64::abs\<close>: the least value is its own absolute value in a release build.\<close>

definition i64_abs :: "i64 \<Rightarrow> i64" where
  "i64_abs w = (if w <s 0 then - w else w)"

definition is_field7_fresh :: "rstr \<Rightarrow> u64 \<Rightarrow> i64 \<Rightarrow> bool" where
  "is_field7_fresh f7_str current_utc_secs tolerance_secs =
    (case parse_field7 f7_str of None \<Rightarrow> False
     | Some (month, day, hh, mm, ss) \<Rightarrow>
         let current_days = current_utc_secs div 86400;
             (curr_year, curr_month, curr_day) = days_to_ymd current_days;
             year = resolve_year month curr_month curr_year;
             tx_days = ymd_to_days year (word_of_nat month) (word_of_nat day);
             tx_secs = tx_days * 86400 + word_of_nat hh * 3600 + word_of_nat mm * 60 + word_of_nat ss;
             diff = current_utc_secs - tx_secs
         in i64_abs diff \<le>s tolerance_secs)"

section \<open>The year of a day of the era\<close>

text \<open>The arithmetic on natural numbers; \<open>year_start y\<close> is the first day of year \<open>y\<close> of an era.\<close>

definition year_start :: "nat \<Rightarrow> nat" where
  "year_start y = 365 * y + y div 4 - y div 100"

definition day_rank :: "nat \<Rightarrow> nat" where
  "day_rank x = x - x div 1460 + x div 36524 - x div 146096"

lemma div_add_le: "(x + k) div c \<le> x div c + k" if "0 < c" for x k c :: nat
proof -
  have "k \<le> k * c" using that by simp
  then have "(x + k) div c \<le> (x + k * c) div c" by (intro div_le_mono) simp
  with that show ?thesis by simp
qed

lemma sub_div_mono: "x - x div c \<le> y - y div c" if "x \<le> y" "0 < c" for x y c :: nat
proof -
  define k where "k = y - x"
  with that(1) have k: "y = x + k" by simp
  show ?thesis unfolding k using div_add_le [OF that(2), of x k] div_le_dividend [of x c] by linarith
qed

lemma day_rank_mono: "x \<le> y \<Longrightarrow> day_rank x \<le> day_rank y"
proof -
  assume xy: "x \<le> y"
  have a: "x - x div 1460 \<le> y - y div 1460" using xy by (rule sub_div_mono) simp
  have q: "z div 36524 - z div 146096 = z div 36524 - z div 36524 div 4" for z :: nat
    by (simp add: div_mult2_eq [symmetric])
  have b: "x div 36524 - x div 146096 \<le> y div 36524 - y div 146096"
    unfolding q by (intro sub_div_mono div_le_mono xy) simp
  have le: "z div 146096 \<le> z div 36524" for z :: nat by (rule div_le_mono2) simp_all
  have "p + q - r \<le> p' + q' - r'" if "p \<le> p'" "q - r \<le> q' - r'" "r \<le> q" "r' \<le> q'" for p q r p' q' r' :: nat
    using that by linarith
  from this [OF a b le le] show ?thesis unfolding day_rank_def .
qed

text \<open>A finite check in blocks of twenty.\<close>

lemma block_check: "list_all (\<lambda>a. list_all (\<lambda>b. P (20 * a + b)) [0..<20]) [0..<20] \<Longrightarrow> y < 400 \<Longrightarrow> P y" for y :: nat
proof -
  assume P: "list_all (\<lambda>a. list_all (\<lambda>b. P (20 * a + b)) [0..<20]) [0..<20]" and y: "y < 400"
  have "y div 20 < 20" "y mod 20 < 20" using y by auto
  then have "y div 20 \<in> set [0..<20]" "y mod 20 \<in> set [0..<20]" by simp_all
  with P have "P (20 * (y div 20) + y mod 20)" unfolding list_all_iff by blast
  then show "P y" by simp
qed

lemma upto_20: "[0..<20] = [0 :: nat, 1, 2, 3, 4, 5, 6, 7, 8, 9, 10, 11, 12, 13, 14, 15, 16, 17, 18, 19]"
  by (simp add: upt_rec)

definition year_ok :: "nat \<Rightarrow> bool" where
  "year_ok y \<longleftrightarrow> 365 * y \<le> day_rank (year_start y)
      \<and> day_rank ((if y = 399 then 146097 else year_start (Suc y)) - 1) \<le> 365 * y + 364
      \<and> (if y = 399 then 146097 else year_start (Suc y)) \<le> year_start y + 366"

text \<open>Unfold at numerals only, so that the check runs on numbers.\<close>

lemmas year_ok_at = year_ok_def [of 0] year_ok_def [of 1] year_ok_def [of "Suc (Suc 0)"]
  year_ok_def [of "numeral k" for k] day_rank_def [of 0] day_rank_def [of "numeral k" for k]
  year_start_def [of 0] year_start_def [of "Suc 0"] year_start_def [of "numeral k" for k]

lemma year_table: "y < 400 \<Longrightarrow> year_ok y"
  by (erule block_check [rotated])
    (simp add: upto_20 year_ok_at del: One_nat_def, simp add: year_start_def day_rank_def)

lemma year_exists: "doe < 146097 \<Longrightarrow> \<exists>y<400. year_start y \<le> doe \<and> doe < (if y = 399 then 146097 else year_start (Suc y))"
proof (rule ccontr)
  assume doe: "doe < 146097"
    and no: "\<nexists>y. y < 400 \<and> year_start y \<le> doe \<and> doe < (if y = 399 then 146097 else year_start (Suc y))"
  have "year_start y \<le> doe" if "y < 400" for y
    using that
  proof (induction y)
    case 0
    then show ?case by (simp add: year_start_def)
  next
    case (Suc y)
    then have "year_start y \<le> doe" "y < 400" "y \<noteq> 399" by auto
    with no have "\<not> doe < year_start (Suc y)" by auto
    then show ?case by simp
  qed
  from this [of 399] no doe show False by auto
qed

lemma year_of_day:
  assumes "doe < 146097"
  shows "day_rank doe div 365 < 400" and "year_start (day_rank doe div 365) \<le> doe"
    and "doe - year_start (day_rank doe div 365) < 366"
proof -
  obtain y where y: "y < 400" "year_start y \<le> doe" "doe < (if y = 399 then 146097 else year_start (Suc y))"
    using year_exists [OF assms] by blast
  let ?e = "(if y = 399 then 146097 else year_start (Suc y)) - 1"
  have "365 * y \<le> day_rank (year_start y)" "day_rank ?e \<le> 365 * y + 364"
    using year_table [OF y(1)] unfolding year_ok_def by blast+
  moreover have "day_rank (year_start y) \<le> day_rank doe" "day_rank doe \<le> day_rank ?e"
    using y(2,3) by (intro day_rank_mono; simp)+
  ultimately have "day_rank doe div 365 = y" by (intro div_nat_eqI) auto
  moreover have "(if y = 399 then 146097 else year_start (Suc y)) \<le> year_start y + 366"
    using year_table [OF y(1)] unfolding year_ok_def by blast
  ultimately show "day_rank doe div 365 < 400" and "year_start (day_rank doe div 365) \<le> doe"
    and "doe - year_start (day_rank doe div 365) < 366" using y by auto
qed

lemma month_table:
  "doy < 366 \<Longrightarrow> (let mp = (5 * doy + 2) div 153 in
      mp \<le> 11 \<and> (153 * mp + 2) div 5 \<le> doy \<and> doy - (153 * mp + 2) div 5 < 31)" for doy :: nat
proof -
  have "doy < 366 \<longrightarrow> (let mp = (5 * doy + 2) div 153 in
      mp \<le> 11 \<and> (153 * mp + 2) div 5 \<le> doy \<and> doy - (153 * mp + 2) div 5 < 31)" if "doy < 400"
    using that by (rule block_check [rotated]) (simp add: upto_20 del: One_nat_def)
  then show "doy < 366 \<Longrightarrow> ?thesis" by simp
qed


section \<open>The conversions on words\<close>

lemma unat_u64_add: "unat a + unat b < 2 ^ 64 \<Longrightarrow> unat (a + b) = unat a + unat b" for a b :: u64
  using unat_add_lem [of a b] by simp

lemma unat_u64_mult: "unat a * unat b < 2 ^ 64 \<Longrightarrow> unat (a * b) = unat a * unat b" for a b :: u64
  using unat_mult_lem [of a b] by simp

lemma unat_u64_sub: "unat b \<le> unat a \<Longrightarrow> unat (a - b) = unat a - unat b" for a b :: u64
  by (simp add: unat_sub word_le_nat_alt)

lemmas u64_small = unat_u64_add unat_u64_mult unat_u64_sub unat_div unat_mod

text \<open>The steps of \<open>days_to_ymd\<close> read as natural numbers.\<close>

lemma days_to_ymd_steps:
  assumes n: "unat days < 2 ^ 40"
  defines "e \<equiv> (unat days + 719468) mod 146097" and "a \<equiv> (unat days + 719468) div 146097"
  defines "y \<equiv> day_rank e div 365"
  defines "t \<equiv> e - year_start y"
  defines "p \<equiv> (5 * t + 2) div 153"
  defines "m \<equiv> (if p < 10 then p + 3 else p - 9)"
  shows "\<exists>wy wm wd. days_to_ymd days = (wy, wm, wd)
    \<and> unat wy = (if m \<le> 2 then y + a * 400 + 1 else y + a * 400) \<and> unat wm = m
    \<and> unat wd = t - (153 * p + 2) div 5 + 1"
proof -
  define z where "z = days + 719468"
  define doe where "doe = z mod 146097"
  define yoe where "yoe = (doe - doe div 1460 + doe div 36524 - doe div 146096) div 365"
  define doy where "doy = doe - (365 * yoe + yoe div 4 - yoe div 100)"
  define mp where "mp = (5 * doy + 2) div 153"
  have z: "unat z = unat days + 719468" unfolding z_def using n by (subst unat_u64_add) simp_all
  have e: "unat doe = e" unfolding doe_def e_def by (simp add: unat_mod z)
  have a: "unat (z div 146097) = a" unfolding a_def by (simp add: unat_div z)
  have elt: "e < 146097" unfolding e_def by simp
  have alt: "a < 2 ^ 40" unfolding a_def using n by simp
  have le: "e div 146096 \<le> e div 36524" "e div 1460 \<le> e" by (simp_all add: div_le_mono2)
  have r: "unat (doe - doe div 1460 + doe div 36524 - doe div 146096) = day_rank e"
  proof -
    have 1: "unat (doe - doe div 1460) = e - e div 1460" using le(2) by (simp add: u64_small e)
    have 2: "unat (doe - doe div 1460 + doe div 36524) = e - e div 1460 + e div 36524"
      using elt by (subst unat_u64_add) (simp_all add: 1 unat_div e)
    show ?thesis using le(1) by (subst unat_u64_sub) (simp_all add: 2 unat_div e day_rank_def)
  qed
  have yu: "unat yoe = y" unfolding yoe_def y_def by (simp add: unat_div r)
  note yr = year_of_day [OF elt, folded y_def]
  have ys: "unat (365 * yoe + yoe div 4 - yoe div 100) = year_start y"
  proof -
    have 1: "unat (365 * yoe) = 365 * y" using yr(1) by (subst unat_u64_mult) (simp_all add: yu)
    have 2: "unat (365 * yoe + yoe div 4) = 365 * y + y div 4"
      using yr(1) by (subst unat_u64_add) (simp_all add: 1 unat_div yu)
    have "y div 100 \<le> y div 4" by (rule div_le_mono2) simp_all
    then show ?thesis by (subst unat_u64_sub) (simp_all add: 2 unat_div yu year_start_def)
  qed
  have t: "unat doy = t" unfolding doy_def t_def using yr(2) by (simp add: unat_u64_sub ys e)
  have tlt: "t < 366" unfolding t_def by (rule yr(3))
  note mt = month_table [OF tlt, unfolded Let_def, folded p_def]
  have p: "unat mp = p"
  proof -
    have 1: "unat (5 * doy) = 5 * t" using tlt by (subst unat_u64_mult) (simp_all add: t)
    have "unat (5 * doy + 2) = 5 * t + 2" using tlt by (subst unat_u64_add) (simp_all add: 1)
    then show ?thesis unfolding mp_def p_def by (simp add: unat_div)
  qed
  have d: "unat (doy - (153 * mp + 2) div 5 + 1) = t - (153 * p + 2) div 5 + 1"
  proof -
    have 1: "unat (153 * mp) = 153 * p" using mt by (subst unat_u64_mult) (simp_all add: p)
    have "unat (153 * mp + 2) = 153 * p + 2" using mt by (subst unat_u64_add) (simp_all add: 1 p)
    then have 2: "unat ((153 * mp + 2) div 5) = (153 * p + 2) div 5" by (simp add: unat_div)
    have 3: "unat (doy - (153 * mp + 2) div 5) = t - (153 * p + 2) div 5"
      using mt by (subst unat_u64_sub) (simp_all add: 2 t)
    show ?thesis using tlt by (subst unat_u64_add) (simp_all add: 3)
  qed
  have lt10: "mp < 10 \<longleftrightarrow> p < 10" by (simp add: word_less_nat_alt p)
  have m: "unat (if mp < 10 then mp + 3 else mp - 9) = m"
    using mt unfolding m_def lt10 by (simp add: unat_u64_add unat_u64_sub p)
  have y: "unat (yoe + z div 146097 * 400) = y + a * 400"
  proof -
    have 1: "unat (z div 146097 * 400) = a * 400" using alt by (subst unat_u64_mult) (simp_all add: a)
    show ?thesis using alt yr(1) by (subst unat_u64_add) (simp_all add: 1 yu)
  qed
  let ?wm = "if mp < 10 then mp + 3 else mp - 9"
  let ?wy = "yoe + z div 146097 * 400"
  have wm2: "?wm \<le> 2 \<longleftrightarrow> m \<le> 2" using m by (simp add: word_le_nat_alt)
  have y1: "unat (?wy + 1) = y + a * 400 + 1" using alt yr(1) by (subst unat_u64_add) (simp_all add: y)
  have "days_to_ymd days = (if ?wm \<le> 2 then ?wy + 1 else ?wy, ?wm, doy - (153 * mp + 2) div 5 + 1)"
    unfolding days_to_ymd_def Let_def mp_def doy_def yoe_def doe_def z_def by simp
  moreover have "unat (if ?wm \<le> 2 then ?wy + 1 else ?wy) = (if m \<le> 2 then y + a * 400 + 1 else y + a * 400)"
    unfolding wm2 using y y1 by simp
  ultimately show ?thesis using m d by blast
qed


lemma ymd_to_days_steps:
  assumes "unat year = Y" "unat month = M" "unat day = D" "Y < 2 ^ 42" "1 \<le> M" "M \<le> 12" "1 \<le> D" "D \<le> 31"
    and V: "V = (if M \<le> 2 then Y - 1 else Y)" and N: "N = (if M \<le> 2 then M + 9 else M - 3)" and "1 \<le> Y"
    and sum: "V div 400 * 146097 + (year_start (V mod 400) + ((153 * N + 2) div 5 + D - 1)) = s" and "719468 \<le> s"
  shows "unat (ymd_to_days year month day) = s - 719468"
proof -
  define y where "y = (if month \<le> 2 then year - 1 else year)"
  define m where "m = (if month \<le> 2 then month + 9 else month - 3)"
  have le2: "month \<le> 2 \<longleftrightarrow> M \<le> 2" using assms(2) by (simp add: word_le_nat_alt)
  have y: "unat y = V" using assms(1) \<open>1 \<le> Y\<close> unfolding y_def V le2 by (simp add: unat_u64_sub)
  have m: "unat m = N" using assms(2,6) unfolding m_def N le2 by (simp add: unat_u64_sub unat_u64_add)
  have Vlt: "V < 2 ^ 42" and Nle: "N \<le> 11" using assms(4,5,6) V N by auto
  have doy: "unat ((153 * m + 2) div 5 + day - 1) = (153 * N + 2) div 5 + D - 1"
  proof -
    have 1: "unat (153 * m) = 153 * N" using Nle by (subst unat_u64_mult) (simp_all add: m)
    have 2: "unat (153 * m + 2) = 153 * N + 2" using Nle by (subst unat_u64_add) (simp_all add: 1)
    have 3: "unat ((153 * m + 2) div 5 + day) = (153 * N + 2) div 5 + D"
      using Nle assms(3,8) by (subst unat_u64_add) (simp_all add: unat_div 2)
    show ?thesis using assms(7) by (subst unat_u64_sub) (simp_all add: 3)
  qed
  define v where "v = V mod 400"
  have vlt: "v < 400" by (simp add: v_def)
  have ym: "unat (y mod 400) = v" by (simp add: unat_mod y v_def)
  have ys: "unat (y mod 400 * 365 + y mod 400 div 4 - y mod 400 div 100) = year_start v"
  proof -
    have 1: "unat (y mod 400 * 365) = 365 * v" using vlt by (subst unat_u64_mult) (simp_all add: ym)
    have 2: "unat (y mod 400 * 365 + y mod 400 div 4) = 365 * v + v div 4"
      using vlt by (subst unat_u64_add) (simp_all add: 1 unat_div ym)
    have "v div 100 \<le> v div 4" by (rule div_le_mono2) simp_all
    then show ?thesis by (subst unat_u64_sub) (simp_all add: 2 unat_div ym year_start_def)
  qed
  let ?doy = "(153 * m + 2) div 5 + day - 1"
  have slt: "s < 2 ^ 60" and part: "V div 400 * 146097 \<le> s" "year_start v + ((153 * N + 2) div 5 + D - 1) \<le> s"
  proof -
    have "year_start v \<le> 365 * 400 + 100" using vlt by (simp add: year_start_def)
    moreover have "(153 * N + 2) div 5 + D - 1 \<le> 400" using Nle assms(8) by simp
    moreover have "V div 400 * 146097 \<le> 4398046511104 * 146097"
      using Vlt by (intro mult_right_mono) simp_all
    moreover have "(2 :: nat) ^ 60 = 1152921504606846976" by simp
    ultimately show "s < 2 ^ 60" using sum unfolding v_def [symmetric] by linarith
  qed (use sum in \<open>simp_all add: v_def\<close>)
  have doe: "unat (y mod 400 * 365 + y mod 400 div 4 - y mod 400 div 100 + ?doy)
      = year_start v + ((153 * N + 2) div 5 + D - 1)"
    using part(2) slt by (subst unat_u64_add) (simp_all add: ys doy)
  have era: "unat (y div 400 * 146097) = V div 400 * 146097"
    using part(1) slt by (subst unat_u64_mult) (simp_all add: unat_div y)
  have tot: "unat (y div 400 * 146097 + (y mod 400 * 365 + y mod 400 div 4 - y mod 400 div 100 + ?doy)) = s"
    using sum slt by (subst unat_u64_add) (simp_all add: era doe v_def)
  have "ymd_to_days year month day
      = y div 400 * 146097 + (y mod 400 * 365 + y mod 400 div 4 - y mod 400 div 100 + ?doy) - 719468"
    unfolding ymd_to_days_def y_def m_def Let_def by simp
  moreover have c: "unat (719468 :: u64) = 719468" by simp
  ultimately show ?thesis using \<open>719468 \<le> s\<close> by (simp only: unat_u64_sub tot c)
qed

section \<open>Properties\<close>

lemma days_ymd_inverse:
  assumes "unat days < 2 ^ 40" and "days_to_ymd days = (y, m, d)"
  shows "ymd_to_days y m d = days" and "1 \<le> unat m" and "unat m \<le> 12" and "1 \<le> unat d" and "unat d \<le> 31"
proof -
  define e where "e = (unat days + 719468) mod 146097"
  define a where "a = (unat days + 719468) div 146097"
  define yy where "yy = day_rank e div 365"
  define t where "t = e - year_start yy"
  define p where "p = (5 * t + 2) div 153"
  define mm where "mm = (if p < 10 then p + 3 else p - 9)"
  note steps = days_to_ymd_steps [OF assms(1), folded e_def a_def, folded yy_def, folded t_def, folded p_def, folded mm_def]
  have u: "unat y = (if mm \<le> 2 then yy + a * 400 + 1 else yy + a * 400)" "unat m = mm"
    "unat d = t - (153 * p + 2) div 5 + 1" using steps assms(2) by auto
  have elt: "e < 146097" by (simp add: e_def)
  note yr = year_of_day [OF elt, folded yy_def]
  have tlt: "t < 366" unfolding t_def by (rule yr(3))
  note mt = month_table [OF tlt, unfolded Let_def, folded p_def]
  show mb: "1 \<le> unat m" "unat m \<le> 12" using mt by (auto simp: u(2) mm_def)
  show db: "1 \<le> unat d" "unat d \<le> 31" using mt by (auto simp: u(3))
  have V: "(if mm \<le> 2 then unat y - 1 else unat y) = yy + a * 400" by (simp add: u(1))
  have N: "(if mm \<le> 2 then mm + 9 else mm - 3) = p" using mt by (auto simp: mm_def)
  have vm: "(yy + a * 400) div 400 = a" "(yy + a * 400) mod 400 = yy" using yr(1) by simp_all
  have "unat days + 719468 = a * 146097 + e" unfolding a_def e_def by simp
  moreover have "year_start yy + ((153 * p + 2) div 5 + unat d - 1) = e"
  proof -
    define k where "k = (153 * p + 2) div 5"
    have "k \<le> t" using mt by (simp add: k_def)
    then have "year_start yy + (k + (t - k + 1) - 1) = year_start yy + t" by simp
    also have "\<dots> = e" unfolding t_def using yr(2) by simp
    finally show ?thesis unfolding u(3) k_def .
  qed
  ultimately have sum: "(yy + a * 400) div 400 * 146097 + (year_start ((yy + a * 400) mod 400)
      + ((153 * p + 2) div 5 + unat d - 1)) = unat days + 719468" unfolding vm by simp
  have alt: "a < 2 ^ 24" "1 \<le> a" unfolding a_def using assms(1)
    by (simp_all add: div_greater_zero_iff Suc_le_eq less_mult_imp_div_less)
  have "unat (ymd_to_days y m d) = unat days + 719468 - 719468"
  proof (rule ymd_to_days_steps [OF refl refl refl _ mb db V [symmetric, folded u(2)] N [symmetric, folded u(2)] _ sum])
    show "unat y < 2 ^ 42" "1 \<le> unat y" using alt yr(1) by (simp_all add: u(1))
  qed simp
  then show "ymd_to_days y m d = days" by (simp add: word_unat_eq_iff)
qed

text \<open>
  \<open>ymd_to_days\<close> inverts \<open>days_to_ymd\<close> on every day count below \<open>2^40\<close> (three billion
  years), and the month and day it gives are in range.
\<close>

theorem days_ymd_roundtrip:
  assumes "unat days < 2 ^ 40"
  shows "case days_to_ymd days of (y, m, d) \<Rightarrow>
    ymd_to_days y m d = days \<and> 1 \<le> unat m \<and> unat m \<le> 12 \<and> 1 \<le> unat d \<and> unat d \<le> 31"
  using days_ymd_inverse [OF assms] by (cases "days_to_ymd days") auto

theorem days_ymd_roundtrip_witness:
  "case days_to_ymd 20000 of (y, m, d) \<Rightarrow>
    ymd_to_days y m d = 20000 \<and> 1 \<le> unat m \<and> unat m \<le> 12 \<and> 1 \<le> unat d \<and> unat d \<le> 31"
  by (rule days_ymd_roundtrip) simp


text \<open>Field 7 of a moment \<open>t\<close> (seconds since the epoch): month, day, hour, minute, second.\<close>

definition field7_of :: "nat \<Rightarrow> rstr" where
  "field7_of t = (case days_to_ymd (word_of_nat (t div 86400)) of (y, m, d) \<Rightarrow>
     fmt_pad 2 (unat m) @ fmt_pad 2 (unat d) @ fmt_pad 2 (t mod 86400 div 3600)
       @ fmt_pad 2 (t mod 3600 div 60) @ fmt_pad 2 (t mod 60))"

lemma two_digits_group:
  assumes "length pre = i" and "lo \<le> v" and "v \<le> hi" and "v < 100"
  shows "two_digits (pre @ fmt_pad 2 v @ post) i lo hi = Some v"
proof -
  have "length (fmt_pad 2 v) = 2" using assms(4) by (intro fmt_pad_length) simp_all
  then have "take 2 (drop i (pre @ fmt_pad 2 v @ post)) = fmt_pad 2 v" using assms(1) by simp
  then show ?thesis using assms by (simp add: two_digits_def parse_usize_fmt_pad)
qed

lemma parse_field7_groups:
  assumes "1 \<le> mo" "mo \<le> 12" "1 \<le> d" "d \<le> 31" "h < 24" "mi < 60" "se < 60"
  shows "parse_field7 (fmt_pad 2 mo @ fmt_pad 2 d @ fmt_pad 2 h @ fmt_pad 2 mi @ fmt_pad 2 se)
    = Some (mo, d, h, mi, se)" (is "parse_field7 ?s = _")
proof -
  let ?a = "fmt_pad 2 mo" and ?b = "fmt_pad 2 d" and ?c = "fmt_pad 2 h" and ?d = "fmt_pad 2 mi" and ?e = "fmt_pad 2 se"
  have l: "length (fmt_pad 2 v) = 2" if "v < 100" for v using that by (intro fmt_pad_length) simp_all
  have len: "length ?a = 2" "length ?b = 2" "length ?c = 2" "length ?d = 2" "length ?e = 2"
    using assms by (intro l; simp)+
  have dig: "list_all is_ascii_digit ?s" by (simp add: fmt_pad_digit)
  have "str_len ?s = length ?s" using dig by (rule str_len_digits)
  then have n: "str_len ?s = 10" by (simp add: len)
  have b: "list_all (\<lambda>b. is_ascii_digit (unat b)) (as_bytes ?s)"
    using dig by (rule as_bytes_digits)
  have g: "two_digits ?s 0 1 12 = Some mo" "two_digits ?s 2 1 31 = Some d" "two_digits ?s 4 0 23 = Some h"
    "two_digits ?s 6 0 59 = Some mi" "two_digits ?s 8 0 59 = Some se"
    using two_digits_group [of "[]" 0 1 mo 12 "?b @ ?c @ ?d @ ?e"] two_digits_group [of ?a 2 1 d 31 "?c @ ?d @ ?e"]
      two_digits_group [of "?a @ ?b" 4 0 h 23 "?d @ ?e"] two_digits_group [of "?a @ ?b @ ?c" 6 0 mi 59 ?e]
      two_digits_group [of "?a @ ?b @ ?c @ ?d" 8 0 se 59 "[]"] assms len by simp_all
  show ?thesis unfolding parse_field7_def g using n b by simp
qed

lemma sint_diff:
  assumes "a < 2 ^ 60" and "b < 2 ^ 60"
  shows "sint (word_of_nat a - word_of_nat b :: i64) = int a - int b"
proof -
  have "word_of_nat a - word_of_nat b = (word_of_int (int a - int b) :: i64)" by simp
  moreover have "sint (word_of_int (int a - int b) :: i64) = int a - int b"
    using assms by (intro sint_word_of_int_self) simp_all
  ultimately show ?thesis by metis
qed

lemma sint_i64_abs: "sint w \<noteq> - (2 ^ 63) \<Longrightarrow> sint (i64_abs w) = \<bar>sint w\<bar>"
proof -
  assume w: "sint w \<noteq> - (2 ^ 63)"
  have r: "- (2 ^ 63) \<le> sint w" "sint w < 2 ^ 63" using sint_range_size [of w] by (simp_all add: word_size)
  have "sint (- w) = - sint w"
  proof -
    have "- w = word_of_int (- sint w)" by simp
    moreover have "sint (word_of_int (- sint w) :: i64) = - sint w"
      using w r by (intro sint_word_of_int_self) simp_all
    ultimately show ?thesis by metis
  qed
  then show ?thesis by (simp add: i64_abs_def word_sless_alt)
qed

text \<open>
  the freshness test reads the field back exactly.  For the field 7 of any moment \<open>t\<close>, when the
  year the code infers from the current month is the year of \<open>t\<close> (the same year, or across the turn of
  the year), the test accepts it iff \<open>t\<close> is within the tolerance of the current time.
\<close>

theorem field7_fresh_iff:
  assumes "t < 2 ^ 50" and "now < 2 ^ 50"
    and t: "days_to_ymd (word_of_nat (t div 86400)) = (ty, tm, td)"
    and n: "days_to_ymd (word_of_nat (now div 86400)) = (ny, nm, nd)"
    and year: "resolve_year (unat tm) nm ny = ty"
  shows "is_field7_fresh (field7_of t) (word_of_nat now) tolerance \<longleftrightarrow> \<bar>int now - int t\<bar> \<le> sint tolerance"
proof -
  have small: "t div 86400 < 2 ^ 40" "now div 86400 < 2 ^ 40" using assms(1,2) by simp_all
  then have u: "unat (word_of_nat (t div 86400) :: u64) = t div 86400"
    "unat (word_of_nat now :: u64) = now" using assms(2) by (simp_all add: unat_of_nat)
  have wnow: "(word_of_nat now :: u64) div 86400 = word_of_nat (now div 86400)"
    using small assms(2) by (simp add: word_unat_eq_iff unat_div u unat_of_nat)
  note inv = days_ymd_inverse [OF _ t, unfolded u(1), OF small(1)]
  let ?h = "t mod 86400 div 3600" and ?m = "t mod 3600 div 60" and ?s = "t mod 60"
  have "?h < 24" "?m < 60" "?s < 60" by (simp_all add: less_mult_imp_div_less)
  with parse_field7_groups inv have p: "parse_field7 (field7_of t) = Some (unat tm, unat td, ?h, ?m, ?s)"
    by (simp add: field7_of_def t)
  have split: "t div 86400 * 86400 + ?h * 3600 + ?m * 60 + ?s = t"
  proof -
    have "t mod 86400 mod 3600 = t mod 3600" "t mod 3600 mod 60 = t mod 60" by (simp_all add: mod_mod_cancel)
    then have e: "?h * 3600 + t mod 3600 = t mod 86400" "?m * 60 + ?s = t mod 3600"
      using div_mult_mod_eq [of "t mod 86400" 3600] div_mult_mod_eq [of "t mod 3600" 60] by simp_all
    have "a * 86400 + h * 3600 + m * 60 + s = x" if "a * 86400 + c = x" "h * 3600 + d = c" "m * 60 + s = d"
      for a c h d m s x :: nat using that by linarith
    from this [OF div_mult_mod_eq e] show ?thesis .
  qed
  have "(word_of_nat (t div 86400) :: u64) * 86400 + word_of_nat ?h * 3600 + word_of_nat ?m * 60 + word_of_nat ?s
      = word_of_nat (t div 86400 * 86400 + ?h * 3600 + ?m * 60 + ?s)"
    by (simp only: of_nat_add of_nat_mult of_nat_numeral)
  then have tx: "ymd_to_days ty tm td * 86400 + word_of_nat ?h * 3600 + word_of_nat ?m * 60 + word_of_nat ?s
      = (word_of_nat t :: u64)"
    unfolding split inv(1) .
  have d: "sint (word_of_nat now - word_of_nat t :: i64) = int now - int t"
    using assms(1,2) by (intro sint_diff) simp_all
  then have "sint (i64_abs (word_of_nat now - word_of_nat t)) = \<bar>int now - int t\<bar>"
    using assms(1,2) by (subst sint_i64_abs) simp_all
  then show ?thesis
    using year tx by (simp add: is_field7_fresh_def p wnow n Let_def word_sle_eq)
qed

theorem field7_fresh_iff_witness:
  "is_field7_fresh (field7_of 100) (word_of_nat 200) 120 \<longleftrightarrow> \<bar>int 200 - int 100\<bar> \<le> sint (120 :: i64)"
proof -
  have d: "days_to_ymd (word_of_nat (100 div 86400)) = (1970, 1, 1)"
    "days_to_ymd (word_of_nat (200 div 86400)) = (1970, 1, 1)"
    by (simp_all add: days_to_ymd_def)
  show ?thesis by (rule field7_fresh_iff [OF _ _ d]) (simp_all add: resolve_year_def)
qed

end
