(* ===== verification/AuditLogger.thy ===== *)
theory AuditLogger
  imports AuditChain Calendar
begin

text \<open>
  The audit logger's background worker (\<open>audit/logger.rs\<close>): daily segments with a signed seal, the
  hash chain across records, the RAM spillover queue for disk outages, retention.  The worker is a
  state machine driven by commands; what the operating system answers (clock, whether a file opens,
  whether each write and flush succeeds, the directory listing) comes with each command as its
  \<open>io_env\<close>.  The disk is the sequence of lines written, each with its file.

  Whatever the environment does, the records handed back to the callers form one hash chain and
  the spillover queue stays within its capacity; when writes to an open file succeed, the disk and
  the queue together hold every record, in order.
\<close>

section \<open>Definitions\<close>

definition log_days_to_ymd :: "u64 \<Rightarrow> u64 \<times> u64 \<times> u64" where
  "log_days_to_ymd days =
    (let z = days + 719468;
         era = z div 146097;
         doe = z mod 146097;
         yoe = (doe - doe div 1460 + doe div 36524 - doe div 146096) div 365;
         y = yoe + era * 400;
         doy = doe - (365 * yoe + yoe div 4 - yoe div 100);
         mp = (5 * doy + 2) div 153;
         d = doy - (153 * mp + 2) div 5 + 1;
         m = (if mp < 10 then mp + 3 else mp - 9);
         y = (if m \<le> 2 then y + 1 else y)
     in (y, m, d))"

definition segment_day :: "u64 \<Rightarrow> rstr" where
  "segment_day secs =
    (let (y, m, d) = log_days_to_ymd (secs div 86400)
     in fmt_pad 4 (unat y) @ rlit ''-'' @ fmt_pad 2 (unat m) @ rlit ''-'' @ fmt_pad 2 (unat d))"

definition segment_path :: "rstr \<Rightarrow> rstr" where
  "segment_path date = rlit ''solomon_audit_'' @ date @ rlit ''.ndjson''"

datatype disk_line = RecordLine rstr | SealLine rstr

record worker =
  w_segment_date :: rstr
  w_file :: "rstr option"
  w_last_hash :: rstr
  w_healthy :: bool
  w_spill :: "rstr list"
  w_dropped :: u64
  w_recovered :: u64
  w_disk :: "(rstr \<times> disk_line) list"

text \<open>The collaborators of the worker, fixed when it is spawned.\<close>

record logger_config =
  cfg_hasher :: AuditHasher
  cfg_json :: audit_json
  cfg_record_json :: "AuditRecord \<Rightarrow> rstr option"
  cfg_seal_json :: "AuditSegmentSeal \<Rightarrow> rstr option"
  cfg_sign_bytes :: "bytes \<Rightarrow> bytes"
  cfg_node_identity_hex :: rstr
  cfg_boot_date :: rstr

record io_env =
  now_us :: u64
  now_secs :: u64
  open_ok :: bool
  reopen_ok :: bool
  seal_ok :: bool
  pending_ok :: "nat \<Rightarrow> bool"
  line_ok :: bool
  flush_ok :: bool
  listing :: "rstr list"

record audit_event =
  ev_id :: rstr
  ev_route :: rstr
  ev_profile :: CryptoAuditMeta
  ev_region :: rstr
  ev_action :: SystemAction

datatype AuditLogCommand = LogEvent audit_event | Flush

definition worker_start :: "rstr \<Rightarrow> rstr \<Rightarrow> bool \<Rightarrow> worker" where
  "worker_start today initial_hash opened =
    \<lparr>w_segment_date = today, w_file = (if opened then Some (segment_path today) else None),
     w_last_hash = initial_hash, w_healthy = opened, w_spill = [], w_dropped = 0, w_recovered = 0, w_disk = []\<rparr>"

definition make_seal :: "logger_config \<Rightarrow> worker \<Rightarrow> io_env \<Rightarrow> AuditSegmentSeal" where
  "make_seal cfg w env =
    (let prev = w_last_hash w;
         payload = signable_payload (cfg_hasher cfg) (w_segment_date w) prev (now_us env) (cfg_node_identity_hex cfg);
         sig_bytes = cfg_sign_bytes cfg payload
     in \<lparr>record_type = rlit ''SEGMENT_SEAL'', segment_date = w_segment_date w, last_record_hash = prev,
         sealed_at_utc_us = now_us env, node_identity = cfg_node_identity_hex cfg, seal_signature = hex_encode sig_bytes\<rparr>)"

text \<open>The segments the retention step removes: the oldest of the listing, down to 3650.\<close>

definition purge :: "io_env \<Rightarrow> worker \<Rightarrow> worker" where
  "purge env w = (let old = take (length (listing env) - 3650) (listing env)
     in w\<lparr>w_disk := filter (\<lambda>(p, l). p \<notin> set old) (w_disk w)\<rparr>)"

definition rotate_segment :: "logger_config \<Rightarrow> io_env \<Rightarrow> worker \<Rightarrow> worker" where
  "rotate_segment cfg env w =
    (let today_str = segment_day (now_secs env) in
     if today_str = w_segment_date w then w
     else let
       sealed = (case (w_file w, cfg_seal_json cfg (make_seal cfg w env)) of
           (Some path, Some line) \<Rightarrow> if seal_ok env then w\<lparr>w_disk := w_disk w @ [(path, SealLine line)]\<rparr> else w
         | _ \<Rightarrow> w);
       purged = purge env sealed
     in purged\<lparr>w_segment_date := today_str,
          w_file := (if open_ok env then Some (segment_path today_str) else None),
          w_healthy := open_ok env\<rparr>)"

definition chain_record :: "logger_config \<Rightarrow> io_env \<Rightarrow> audit_event \<Rightarrow> rstr \<Rightarrow> AuditRecord" where
  "chain_record cfg env ev prev_hash =
    \<lparr>timestamp_utc = now_us env, event_id = ev_id ev, route_target = ev_route ev, crypto_profile = ev_profile ev,
     localization_region = ev_region ev, system_action = ev_action ev, previous_hash = prev_hash,
     current_hash = compute_hash (cfg_hasher cfg) (cfg_json cfg) (now_us env) (ev_id ev) (ev_route ev) (ev_profile ev)
       (ev_region ev) (ev_action ev) prev_hash\<rparr>"

definition reconnect :: "logger_config \<Rightarrow> io_env \<Rightarrow> worker \<Rightarrow> worker" where
  "reconnect cfg env w =
    (if w_file w = None \<and> reopen_ok env
     then w\<lparr>w_file := Some (segment_path (cfg_boot_date cfg)), w_healthy := True\<rparr> else w)"

fun write_pending :: "io_env \<Rightarrow> rstr \<Rightarrow> nat \<Rightarrow> rstr list \<Rightarrow> worker \<Rightarrow> worker" where
  "write_pending env path k [] w = w"
| "write_pending env path k (line # ls) w =
    write_pending env path (k + 1) ls
      (if pending_ok env k
       then w\<lparr>w_disk := w_disk w @ [(path, RecordLine line)], w_recovered := w_recovered w + 1\<rparr> else w)"

definition drain_spillover :: "io_env \<Rightarrow> rstr \<Rightarrow> worker \<Rightarrow> worker" where
  "drain_spillover env path w = write_pending env path 0 (w_spill w) (w\<lparr>w_spill := []\<rparr>)"

definition spill_line :: "rstr \<Rightarrow> worker \<Rightarrow> worker" where
  "spill_line line w =
    (if length (w_spill w) < 5000 then w\<lparr>w_spill := w_spill w @ [line]\<rparr> else w\<lparr>w_dropped := w_dropped w + 1\<rparr>)"

definition persist_line :: "io_env \<Rightarrow> rstr \<Rightarrow> worker \<Rightarrow> worker" where
  "persist_line env line w =
    (case w_file w of
       None \<Rightarrow> spill_line line w
     | Some path \<Rightarrow>
         let w1 = drain_spillover env path w;
             w2 = (if line_ok env then w1\<lparr>w_disk := w_disk w1 @ [(path, RecordLine line)]\<rparr> else w1)
         in if line_ok env \<and> flush_ok env then w2 else spill_line line w2)"

definition log_event :: "logger_config \<Rightarrow> io_env \<Rightarrow> audit_event \<Rightarrow> worker \<Rightarrow> worker \<times> AuditRecord" where
  "log_event cfg env ev w =
    (let w1 = rotate_segment cfg env w;
         r = chain_record cfg env ev (w_last_hash w1);
         w2 = w1\<lparr>w_last_hash := current_hash r\<rparr>;
         w3 = reconnect cfg env w2;
         w4 = (case cfg_record_json cfg r of None \<Rightarrow> w3 | Some line \<Rightarrow> persist_line env line w3)
     in (w4, r))"

definition flush_command :: "io_env \<Rightarrow> worker \<Rightarrow> worker" where
  "flush_command env w = (case w_file w of None \<Rightarrow> w | Some path \<Rightarrow> drain_spillover env path w)"

text \<open>The loop of \<open>background_worker\<close>: the commands received, and the records answered.\<close>

fun background_worker :: "logger_config \<Rightarrow> (AuditLogCommand \<times> io_env) list \<Rightarrow> worker \<Rightarrow> worker \<times> AuditRecord list" where
  "background_worker cfg [] w = (w, [])"
| "background_worker cfg ((LogEvent ev, env) # cmds) w =
    (let (w1, r) = log_event cfg env ev w; (w2, rs) = background_worker cfg cmds w1 in (w2, r # rs))"
| "background_worker cfg ((Flush, env) # cmds) w = background_worker cfg cmds (flush_command env w)"

section \<open>The worker keeps the chain\<close>

lemma days_same: "log_days_to_ymd days = days_to_ymd days"
  by (simp add: log_days_to_ymd_def days_to_ymd_def)

lemma write_pending_fields [simp]:
  "w_last_hash (write_pending env path k ls w) = w_last_hash w" "w_spill (write_pending env path k ls w) = w_spill w"
  "w_dropped (write_pending env path k ls w) = w_dropped w"
  by (induction env path k ls w rule: write_pending.induct) auto

lemma persist_hash [simp]: "w_last_hash (persist_line env line w) = w_last_hash w"
  by (simp add: persist_line_def spill_line_def drain_spillover_def Let_def split: option.split)

lemma rotate_fields [simp]:
  "w_last_hash (rotate_segment cfg env w) = w_last_hash w" "w_spill (rotate_segment cfg env w) = w_spill w"
  "w_dropped (rotate_segment cfg env w) = w_dropped w"
  by (auto simp: rotate_segment_def purge_def Let_def split: option.splits)

lemma reconnect_fields [simp]:
  "w_last_hash (reconnect cfg env w) = w_last_hash w" "w_spill (reconnect cfg env w) = w_spill w"
  "w_dropped (reconnect cfg env w) = w_dropped w" "w_disk (reconnect cfg env w) = w_disk w"
  by (simp_all add: reconnect_def)

lemma log_event_chain:
  "w_last_hash (fst (log_event cfg env ev w)) = current_hash (snd (log_event cfg env ev w))"
  "linked (cfg_hasher cfg) (cfg_json cfg) (w_last_hash w) [snd (log_event cfg env ev w)]"
  by (simp_all add: log_event_def chain_record_def record_hash_def Let_def split: option.split)

lemma log_event_spill: "length (w_spill w) \<le> 5000 \<Longrightarrow> length (w_spill (fst (log_event cfg env ev w))) \<le> 5000"
  by (auto simp: log_event_def persist_line_def spill_line_def drain_spillover_def Let_def split: option.splits)

lemma flush_fields [simp]:
  "w_last_hash (flush_command env w) = w_last_hash w" "w_dropped (flush_command env w) = w_dropped w"
  "length (w_spill (flush_command env w)) \<le> length (w_spill w)"
  by (simp_all add: flush_command_def drain_spillover_def split: option.splits)

lemma worker_chain:
  "linked (cfg_hasher cfg) (cfg_json cfg) (w_last_hash w) (snd (background_worker cfg cmds w)) \<and>
   w_last_hash (fst (background_worker cfg cmds w)) = last (w_last_hash w # map current_hash (snd (background_worker cfg cmds w)))"
proof (induction cmds arbitrary: w)
  case (Cons c cmds)
  show ?case
  proof (cases c)
    case (Pair cmd env)
    show ?thesis
    proof (cases cmd)
      case (LogEvent ev)
      then show ?thesis using Pair Cons.IH [of "fst (log_event cfg env ev w)"] log_event_chain(1) [of cfg env ev w] log_event_chain(2) [of cfg w env ev]
        by (simp add: split_beta Let_def)
    next
      case Flush
      then show ?thesis using Pair Cons.IH [of "flush_command env w"] by simp
    qed
  qed
qed simp

lemma worker_spill_bound:
  "length (w_spill w) \<le> 5000 \<Longrightarrow> length (w_spill (fst (background_worker cfg cmds w))) \<le> 5000"
proof (induction cmds arbitrary: w)
  case (Cons c cmds)
  show ?case
  proof (cases c)
    case (Pair cmd env)
    show ?thesis
    proof (cases cmd)
      case (LogEvent ev)
      then show ?thesis using Pair Cons log_event_spill by (simp add: split_beta Let_def)
    next
      case Flush
      then show ?thesis using Pair Cons order.trans [OF flush_fields(3)] by simp
    qed
  qed
qed simp

text \<open>
  C7: Whatever the clock and the disk do, the records the worker returns to its callers verify as
  one chain from the hash it started with, the hash it keeps is that of the last record, and the
  spillover queue never exceeds 5000 lines.
\<close>

theorem worker_answers_chain:
  "case background_worker cfg cmds (worker_start today h opened) of (w, rs) \<Rightarrow>
     verify_chain_with_initial_hash (cfg_hasher cfg) (cfg_json cfg) rs h = Inr () \<and>
     w_last_hash w = last (h # map current_hash rs) \<and> length (w_spill w) \<le> 5000"
  using worker_chain [of cfg "worker_start today h opened" cmds] worker_spill_bound [of "worker_start today h opened" cfg cmds]
  by (simp add: verify_chain_iff split_beta worker_start_def)

section \<open>Nothing is lost while writes succeed\<close>

definition disk_ok :: "io_env \<Rightarrow> bool" where
  "disk_ok env \<longleftrightarrow> pending_ok env = (\<lambda>_. True) \<and> line_ok env \<and> flush_ok env \<and> length (listing env) \<le> 3650"

definition record_lines :: "(rstr \<times> disk_line) list \<Rightarrow> rstr list" where
  "record_lines ls = concat (map (\<lambda>(p, l). case l of RecordLine x \<Rightarrow> [x] | SealLine _ \<Rightarrow> []) ls)"

text \<open>The lines the logger still holds: those on disk, then those queued.\<close>

definition held :: "worker \<Rightarrow> rstr list" where
  "held w = record_lines (w_disk w) @ w_spill w"

lemma record_lines_simps [simp]:
  "record_lines [] = []" "record_lines (xs @ ys) = record_lines xs @ record_lines ys"
  "record_lines ((p, RecordLine l) # xs) = l # record_lines xs" "record_lines ((p, SealLine l) # xs) = record_lines xs"
  by (simp_all add: record_lines_def)

lemma write_pending_ok:
  "pending_ok env = (\<lambda>_. True) \<Longrightarrow> record_lines (w_disk (write_pending env path k ls w)) = record_lines (w_disk w) @ ls"
  by (induction env path k ls w rule: write_pending.induct) auto

lemma rotate_held: "disk_ok env \<Longrightarrow> held (rotate_segment cfg env w) = held w"
  by (auto simp: rotate_segment_def purge_def held_def disk_ok_def Let_def split: option.splits)

lemma persist_held:
  assumes "disk_ok env" and "length (w_spill w) < 5000"
  shows "held (persist_line env line w) = held w @ [line] \<and> w_dropped (persist_line env line w) = w_dropped w \<and>
    length (w_spill (persist_line env line w)) \<le> Suc (length (w_spill w))"
  using assms by (auto simp: persist_line_def spill_line_def drain_spillover_def held_def disk_ok_def write_pending_ok Let_def
      split: option.splits)

lemma log_event_held:
  assumes "disk_ok env" and "length (w_spill w) < 5000" and "cfg_record_json cfg = (\<lambda>r. Some (f r))"
  shows "held (fst (log_event cfg env ev w)) = held w @ [f (snd (log_event cfg env ev w))] \<and>
    w_dropped (fst (log_event cfg env ev w)) = w_dropped w \<and>
    length (w_spill (fst (log_event cfg env ev w))) \<le> Suc (length (w_spill w))"
proof -
  let ?w = "rotate_segment cfg env w"
  let ?r = "chain_record cfg env ev (w_last_hash ?w)"
  let ?v = "reconnect cfg env (?w\<lparr>w_last_hash := current_hash ?r\<rparr>)"
  have "held ?v = held w" using rotate_held [OF assms(1)] by (simp add: held_def)
  then show ?thesis using persist_held [OF assms(1), of ?v "f ?r"] assms(2,3) by (simp add: log_event_def Let_def)
qed

lemma worker_lossless_lemma:
  assumes "cfg_record_json cfg = (\<lambda>r. Some (f r))"
  shows "list_all (\<lambda>c. disk_ok (snd c)) cmds \<Longrightarrow> length (w_spill w) + length cmds \<le> 5000 \<Longrightarrow>
    held (fst (background_worker cfg cmds w)) = held w @ map f (snd (background_worker cfg cmds w)) \<and>
    w_dropped (fst (background_worker cfg cmds w)) = w_dropped w"
proof (induction cmds arbitrary: w)
  case (Cons c cmds)
  show ?case
  proof (cases c)
    case (Pair cmd env)
    then have env: "disk_ok env" and rest: "list_all (\<lambda>c. disk_ok (snd c)) cmds" using Cons.prems by simp_all
    show ?thesis
    proof (cases cmd)
      case (LogEvent ev)
      then show ?thesis
        using Pair rest Cons.prems(2) Cons.IH [of "fst (log_event cfg env ev w)"] log_event_held [OF env _ assms, of w ev]
        by (simp add: split_beta Let_def)
    next
      case Flush
      have "held (flush_command env w) = held w"
        using env by (simp add: flush_command_def drain_spillover_def held_def disk_ok_def write_pending_ok split: option.split)
      then show ?thesis using Flush Pair rest Cons.prems(2) Cons.IH [of "flush_command env w"] flush_fields [of env w]
        by (simp del: flush_fields)
    qed
  qed
qed simp



text \<open>
  A queued line whose write fails while the queue is being drained is gone: it is neither on disk
  nor in the queue, and no counter records it.
\<close>

theorem failed_drain_loses_line:
  assumes "w_file w = Some path" and "w_spill w = [line]" and "\<not> pending_ok env 0"
  shows "flush_command env w = w\<lparr>w_spill := []\<rparr>"
  using assms by (simp add: flush_command_def drain_spillover_def)

end
