(* ===== verification/AuditRecovery.thy ===== *)
theory AuditRecovery
  imports AuditLogger "HOL-Library.List_Lexorder"
begin

text \<open>
  Restart of the audit logger (\<open>logger.rs\<close>, \<open>recover_last_hash\<close>): the hash a new process starts its chain with is read
  back from the newest segment on disk.  The directory is a parameter; parsing of lines belongs to the package \<open>serde_json\<close>.
\<close>

section \<open>Definitions\<close>

record line_codec =
  record_of_line :: "rstr \<Rightarrow> AuditRecord option"
  seal_of_line :: "rstr \<Rightarrow> AuditSegmentSeal option"

definition is_segment_name :: "rstr \<Rightarrow> bool" where
  "is_segment_name name \<longleftrightarrow> take 14 name = rlit ''solomon_audit_'' \<and> drop (length name - 7) name = rlit ''.ndjson''"

fun recover_from_lines :: "line_codec \<Rightarrow> rstr list \<Rightarrow> rstr option" where
  "recover_from_lines c [] = None"
| "recover_from_lines c (line # lines) =
    (let trimmed = trim line in
     if trimmed = [] then recover_from_lines c lines
     else case record_of_line c trimmed of
       Some record \<Rightarrow> Some (current_hash record)
     | None \<Rightarrow> (case seal_of_line c trimmed of
         Some seal \<Rightarrow> Some (last_record_hash seal)
       | None \<Rightarrow> recover_from_lines c lines))"

text \<open>\<open>entries\<close> are the names of the directory with their contents, unreadable ones without; \<open>None\<close> when the directory cannot be read.\<close>

definition latest_segment :: "(rstr \<times> rstr option) list \<Rightarrow> (rstr \<times> rstr option) option" where
  "latest_segment entries =
    (let segments = sort_key fst (filter (\<lambda>e. is_segment_name (fst e)) entries)
     in if segments = [] then None else Some (last segments))"

definition recover_last_hash :: "line_codec \<Rightarrow> (rstr \<times> rstr option) list option \<Rightarrow> rstr" where
  "recover_last_hash c dir =
    (case Option.bind (Option.bind dir latest_segment) snd of
       None \<Rightarrow> GENESIS_HASH
     | Some content \<Rightarrow> (case recover_from_lines c (rev (split_on 10 content)) of
         None \<Rightarrow> GENESIS_HASH
       | Some h \<Rightarrow> h))"

section \<open>Segments and lines\<close>

lemma sorted_key_last: "sorted (map f xs) \<Longrightarrow> x \<in> set xs \<Longrightarrow> f x \<le> f (last xs)"
  by (induction xs) auto

lemma latest_segment_max:
  assumes "(name, content) \<in> set entries" and "is_segment_name name" and "distinct (map fst entries)"
    and "\<forall>e \<in> set entries. is_segment_name (fst e) \<longrightarrow> fst e \<le> name"
  shows "latest_segment entries = Some (name, content)"
proof -
  let ?s = "sort_key fst (filter (\<lambda>e. is_segment_name (fst e)) entries)"
  have ne: "?s \<noteq> []" using assms(1,2) by (metis (no_types, lifting) empty_iff fst_conv list.set(1) mem_Collect_eq set_filter set_sort)
  have mem: "(name, content) \<in> set ?s" using assms(1,2) by simp
  have "fst (last ?s) \<le> name" using assms(4) last_in_set [OF ne] by auto
  moreover have "name \<le> fst (last ?s)"
    using sorted_key_last [OF sorted_sort_key mem] by simp
  ultimately have "fst (last ?s) = name" by simp
  moreover have "last ?s \<in> set entries" using last_in_set [OF ne] by simp
  ultimately have "last ?s = (name, content)" using assms(1,3) by (metis eq_key_imp_eq_value prod.collapse)
  then show ?thesis using ne by (simp add: latest_segment_def Let_def)
qed

lemma split_on_nonempty [simp]: "split_on sep s \<noteq> []"
  by (induction s) auto

lemma split_on_line: "list_all (\<lambda>c. c \<noteq> sep) line \<Longrightarrow> split_on sep line = [line]"
  by (induction line) auto

lemma split_on_append: "split_on sep (xs @ sep # ys) = split_on sep xs @ split_on sep ys"
  by (induction xs) auto

lemma recover_last_line:
  assumes "before = [] \<or> last before = 10" and "list_all (\<lambda>c. c \<noteq> 10) line" and "trim line = line" and "line \<noteq> []" and "record_of_line c line = Some r"
  shows "recover_from_lines c (rev (split_on 10 (before @ line @ [10]))) = Some (current_hash r)"
proof -
  have e: "trim [] = []" by (simp add: trim_def)
  have one: "split_on 10 (line @ [10]) = [line, []]" using split_on_append [of 10 line "[]"] split_on_line [OF assms(2)] by simp
  obtain ls where "split_on 10 (before @ line @ [10]) = ls @ [line, []]"
  proof (cases "before = []")
    case False
    then obtain b where "before = b @ [10]" using assms(1) by (metis append_butlast_last_id)
    then show thesis using that [of "split_on 10 b"] split_on_append [of 10 b "line @ [10]"] one by simp
  qed (use that [of "[]"] one in simp)
  then show ?thesis using assms(3-5) by (simp add: e Let_def)
qed

section \<open>Properties\<close>

text \<open>
  C27: A restart continues the chain: when the newest segment ends with the line of the last record the old process answered, the records of the
  new process verify behind those of the old one as one chain.
\<close>

theorem restart_continues_chain:
  assumes "background_worker cfg cmds (worker_start today h opened) = (w, rs @ [r])"
    and "(name, Some (before @ line @ [10])) \<in> set entries" and "is_segment_name name" and "distinct (map fst entries)"
    and "\<forall>e \<in> set entries. is_segment_name (fst e) \<longrightarrow> fst e \<le> name"
    and "before = [] \<or> last before = 10" and "list_all (\<lambda>c. c \<noteq> 10) line" and "trim line = line" and "line \<noteq> []" and "record_of_line c line = Some r"
  shows "case background_worker cfg cmds' (worker_start today' (recover_last_hash c (Some entries)) opened') of (w', rs') \<Rightarrow>
    verify_chain_with_initial_hash (cfg_hasher cfg) (cfg_json cfg) (rs @ [r] @ rs') h = Inr ()"
proof -
  have "recover_last_hash c (Some entries) = current_hash r"
    using latest_segment_max [OF assms(2-5)] recover_last_line [OF assms(6-10)] by (simp add: recover_last_hash_def)
  moreover have "linked (cfg_hasher cfg) (cfg_json cfg) h (rs @ [r])"
    using worker_chain [of cfg "worker_start today h opened" cmds] assms(1) by (simp add: worker_start_def)
  ultimately show ?thesis
    using worker_chain [of cfg "worker_start today' (current_hash r) opened'" cmds']
    by (simp add: verify_chain_iff linked_append split_beta worker_start_def)
qed

text \<open>
  A restart on a new day before its first event breaks the chain: the old process has already created the segment of that day, the
  recovery reads this empty file only, and the new chain starts from the genesis hash, so behind the old records it does not verify.
\<close>

theorem empty_segment_restarts_chain:
  assumes "background_worker cfg cmds (worker_start today h opened) = (w, rs @ [r])" and "current_hash r \<noteq> GENESIS_HASH"
    and "(name, Some []) \<in> set entries" and "is_segment_name name" and "distinct (map fst entries)"
    and "\<forall>e \<in> set entries. is_segment_name (fst e) \<longrightarrow> fst e \<le> name"
  shows "recover_last_hash c (Some entries) = GENESIS_HASH \<and>
    (case background_worker cfg cmds' (worker_start today' (recover_last_hash c (Some entries)) opened') of (w', rs') \<Rightarrow>
      rs' \<noteq> [] \<longrightarrow> verify_chain_with_initial_hash (cfg_hasher cfg) (cfg_json cfg) (rs @ [r] @ rs') h \<noteq> Inr ())"
proof -
  have g: "recover_last_hash c (Some entries) = GENESIS_HASH"
    using latest_segment_max [OF assms(3-6)] by (simp add: recover_last_hash_def trim_def)
  moreover have "\<not> linked hasher json (current_hash r) rs'" if "linked hasher json GENESIS_HASH rs'" "rs' \<noteq> []" for hasher json rs'
    using that assms(2) by (cases rs') auto
  ultimately show ?thesis
    using worker_chain [of cfg "worker_start today' GENESIS_HASH opened'" cmds']
    by (auto simp: verify_chain_iff linked_append split_beta worker_start_def)
qed

text \<open>A logger, a record and a directory used as concrete instances.\<close>

definition recovery_config :: logger_config where
  "recovery_config = \<lparr>cfg_hasher = Shake256AuditHasher\<lparr>hex_digest := (\<lambda>_. [65])\<rparr>, cfg_json = \<lparr>crypto_json = algorithm_suite, action_json = \<lambda>_. []\<rparr>,
     cfg_record_json = \<lambda>r. Some (event_id r), cfg_seal_json = \<lambda>_. None, cfg_sign_bytes = \<lambda>_. [], cfg_node_identity_hex = [], cfg_boot_date = []\<rparr>"

definition recovery_command :: "AuditLogCommand \<times> io_env" where
  "recovery_command = (LogEvent \<lparr>ev_id = [7], ev_route = [], ev_profile = crypto_profile sample_record, ev_region = [], ev_action = SuccessForwarded\<rparr>,
     \<lparr>now_us = 0, now_secs = 0, open_ok = True, reopen_ok = True, seal_ok = True, pending_ok = \<lambda>_. True, line_ok = True, flush_ok = True, listing = []\<rparr>)"

definition recovery_record :: AuditRecord where
  "recovery_record = hd (snd (background_worker recovery_config [recovery_command] (worker_start [] GENESIS_HASH True)))"

lemma recovery_run:
  "\<exists>w. background_worker recovery_config [recovery_command] (worker_start [] GENESIS_HASH True) = (w, [] @ [recovery_record])"
  by (simp add: recovery_record_def recovery_command_def split_def Let_def)

theorem restart_continues_chain_witness:
  "case background_worker recovery_config [recovery_command] (worker_start [] (recover_last_hash
      \<lparr>record_of_line = (\<lambda>_. Some recovery_record), seal_of_line = (\<lambda>_. None)\<rparr>
      (Some [(segment_path [50], Some ([] @ [65] @ [10]))])) True) of (w', rs') \<Rightarrow>
    verify_chain_with_initial_hash (cfg_hasher recovery_config) (cfg_json recovery_config) ([] @ [recovery_record] @ rs') GENESIS_HASH = Inr ()"
proof -
  obtain w where w: "background_worker recovery_config [recovery_command] (worker_start [] GENESIS_HASH True) = (w, [] @ [recovery_record])"
    using recovery_run by blast
  show ?thesis
    by (rule restart_continues_chain [OF w, where name = "segment_path [50]" and before = "[]" and line = "[65]"])
      (simp_all add: is_segment_name_def segment_path_def rlit_def trim_def is_whitespace_def in_rng_def)
qed

theorem empty_segment_restarts_chain_witness:
  "recover_last_hash \<lparr>record_of_line = (\<lambda>_. None), seal_of_line = (\<lambda>_. None)\<rparr> (Some [(segment_path [49], Some [65, 10]), (segment_path [50], Some [])]) = GENESIS_HASH \<and>
    (case background_worker recovery_config [recovery_command] (worker_start [] (recover_last_hash \<lparr>record_of_line = (\<lambda>_. None), seal_of_line = (\<lambda>_. None)\<rparr>
        (Some [(segment_path [49], Some [65, 10]), (segment_path [50], Some [])])) True) of (w', rs') \<Rightarrow>
      rs' \<noteq> [] \<longrightarrow> verify_chain_with_initial_hash (cfg_hasher recovery_config) (cfg_json recovery_config) ([] @ [recovery_record] @ rs') GENESIS_HASH \<noteq> Inr ())"
proof -
  obtain w where w: "background_worker recovery_config [recovery_command] (worker_start [] GENESIS_HASH True) = (w, [] @ [recovery_record])"
    using recovery_run by blast
  have "current_hash recovery_record = [65]"
    by (simp add: recovery_record_def recovery_command_def recovery_config_def split_def Let_def log_event_def chain_record_def compute_hash_def)
  then have "current_hash recovery_record \<noteq> GENESIS_HASH" using length_replicate [of 64 "48 :: nat"] by (auto simp: GENESIS_HASH_def dest: arg_cong [of _ _ length])
  then show ?thesis
    by (rule empty_segment_restarts_chain [OF w, where name = "segment_path [50]"])
      (simp_all add: is_segment_name_def segment_path_def rlit_def)
qed

end
