(* ===== verification/Compliance.thy ===== *)
theory Compliance
  imports AuditChain "HOL-Library.Sublist"
begin

text \<open>
  Two compliance guards of the audit subsystem: the data-localization filter
  (\<open>audit/data_localization.rs\<close>) and the anomaly detector (\<open>audit/anomaly.rs\<close>).

  The filter is a pure function of the lower-cased route; its lower-casing is Rust's
  \<open>to_lowercase\<close>, Unicode code the sources only call, and is a parameter.  The detector is a state
  machine over observations; the hash map's iteration order, which decides between equally stale
  routes, is a parameter too.
\<close>

section \<open>Data localization: definitions\<close>

definition APPROVED_INDIA_REGIONS :: "rstr list" where
  "APPROVED_INDIA_REGIONS = map rlit [
    ''ap-south-1'', ''ap-south-2'',
    ''asia-south1'', ''asia-south2'',
    ''centralindia'', ''southindia'', ''westindia'',
    ''in-mum'', ''in-del'', ''in-blr'', ''in-hyd'', ''in-chn'',
    ''10.'', ''192.168.'', ''172.16.'', ''172.17.'', ''172.18.'', ''172.19.'',
    ''172.20.'', ''172.21.'', ''172.22.'', ''172.23.'', ''172.24.'', ''172.25.'',
    ''172.26.'', ''172.27.'', ''172.28.'', ''172.29.'', ''172.30.'', ''172.31.'',
    ''127.0.0.1'', ''localhost'', ''::1'']"

definition BLOCKED_FOREIGN_REGIONS :: "rstr list" where
  "BLOCKED_FOREIGN_REGIONS = map rlit [
    ''us-east'', ''us-west'', ''us-central'', ''eu-west'', ''eu-central'', ''eu-north'',
    ''ap-northeast'', ''ap-southeast-1'', ''ap-southeast-2'', ''ap-southeast-3'', ''ap-southeast-4'',
    ''sa-east'', ''ca-central'', ''me-central'', ''af-south'', ''us-gov'',
    ''.co.uk'', ''.de'', ''.fr'', ''.cn'', ''.ru'', ''.jp'', ''.au'', ''.sg'']"

definition CLOUD_PROVIDERS :: "rstr list" where
  "CLOUD_PROVIDERS = map rlit [''amazonaws.com'', ''azure.com'', ''googlecloud.com'', ''googleapis.com'']"

datatype LocalizationResult = Approved | Rejected rstr

fun str_contains :: "rstr \<Rightarrow> rstr \<Rightarrow> bool" where
  "str_contains [] pat \<longleftrightarrow> pat = []"
| "str_contains (c # cs) pat \<longleftrightarrow> take (length pat) (c # cs) = pat \<or> str_contains cs pat"

definition check_data_localization :: "(rstr \<Rightarrow> rstr) \<Rightarrow> rstr \<Rightarrow> LocalizationResult" where
  "check_data_localization to_lowercase route =
    (let route_lower = to_lowercase route in
     case find (str_contains route_lower) BLOCKED_FOREIGN_REGIONS of
       Some pattern \<Rightarrow> Rejected (rlit ''RBI Data Localization Violation: route '' @ [39] @ route @ [39] @
         rlit '' matches blocked foreign region pattern '' @ [39] @ pattern @ [39])
     | None \<Rightarrow>
         let is_cloud_provider = list_ex (str_contains route_lower) CLOUD_PROVIDERS in
         if is_cloud_provider
         then (if list_ex (str_contains route_lower) APPROVED_INDIA_REGIONS then Approved
               else Rejected (rlit ''RBI Data Localization Violation: cloud route '' @ [39] @ route @ [39] @
                 rlit '' does not specify an approved Indian region (e.g., ap-south-1, centralindia, asia-south1)''))
         else (if list_ex (str_contains route_lower) APPROVED_INDIA_REGIONS then Approved
               else Rejected (rlit ''RBI Data Localization: route '' @ [39] @ route @ [39] @
                 rlit '' does not match any approved Indian datacenter pattern'' @ [32, 8212, 32] @ rlit ''rejected (fail-closed)'')))"

section \<open>Anomaly detection: definitions\<close>

definition BURST_FAILURE_THRESHOLD :: nat where "BURST_FAILURE_THRESHOLD = 10"
definition BURST_FAILURE_WINDOW_SECS :: u64 where "BURST_FAILURE_WINDOW_SECS = 60"
definition MAX_FAILURE_TIMESTAMPS :: nat where "MAX_FAILURE_TIMESTAMPS = 1000"
definition ROUTE_SATURATION_THRESHOLD :: nat where "ROUTE_SATURATION_THRESHOLD = 100"
definition ROUTE_SATURATION_WINDOW_SECS :: u64 where "ROUTE_SATURATION_WINDOW_SECS = 10"
definition MAX_TRACKED_ROUTES :: nat where "MAX_TRACKED_ROUTES = 1024"
definition ALERT_DEDUP_WINDOW_SECS :: u64 where "ALERT_DEDUP_WINDOW_SECS = 300"

text \<open>
  The detector: the maps as finite partial functions.  \<open>alerts\<close> is the sequence printed to stderr
  (key and time).
\<close>

record AnomalyDetector =
  failure_timestamps :: "u64 list"
  route_timestamps :: "(rstr \<times> u64 list) list"
  last_alert_times :: "rstr \<rightharpoonup> u64"
  alert_count :: u64
  alerts :: "(rstr \<times> u64) list"

definition detector_new :: AnomalyDetector where
  "detector_new = \<lparr>failure_timestamps = [], route_timestamps = [], last_alert_times = Map.empty, alert_count = 0, alerts = []\<rparr>"

definition fire_alert :: "rstr \<Rightarrow> u64 \<Rightarrow> AnomalyDetector \<Rightarrow> AnomalyDetector" where
  "fire_alert alert_key now d =
    (let previous = (case last_alert_times d alert_key of None \<Rightarrow> 0 | Some t \<Rightarrow> t) in
     if saturating_sub now previous < ALERT_DEDUP_WINDOW_SECS then d
     else d\<lparr>last_alert_times := (last_alert_times d)(alert_key \<mapsto> now), alert_count := alert_count d + 1,
            alerts := alerts d @ [(alert_key, now)]\<rparr>)"

definition is_failure :: "SystemAction \<Rightarrow> bool" where
  "is_failure a \<longleftrightarrow> a = ValidationErrorRejected \<or> a = FailClosedBypassed \<or> a = CircuitBreakerTripped"

definition observe_failure :: "SystemAction \<Rightarrow> u64 \<Rightarrow> AnomalyDetector \<Rightarrow> AnomalyDetector" where
  "observe_failure action now d =
    (if \<not> is_failure action then d
     else let failures = failure_timestamps d @ [now];
              cutoff = saturating_sub now BURST_FAILURE_WINDOW_SECS;
              failures = filter (\<lambda>t. cutoff \<le> t) failures;
              failures = (if MAX_FAILURE_TIMESTAMPS < length failures
                then drop (length failures - MAX_FAILURE_TIMESTAMPS) failures else failures);
              d = d\<lparr>failure_timestamps := failures\<rparr>
       in if BURST_FAILURE_THRESHOLD \<le> length failures then fire_alert (rlit ''BURST_FAILURE'') now d else d)"

definition hour_ist :: "u64 \<Rightarrow> nat" where
  "hour_ist now = unat ((saturating_add now 19800 mod 86400) div 3600)"

definition observe_hours :: "u64 \<Rightarrow> AnomalyDetector \<Rightarrow> AnomalyDetector" where
  "observe_hours now d =
    (if hour_ist now < 6 \<or> 22 \<le> hour_ist now
     then fire_alert (rlit ''AFTER_HOURS_'' @ dec_digits (hour_ist now)) now d else d)"

definition oldest :: "u64 list \<Rightarrow> u64" where
  "oldest ts = fold min ts (- 1)"

text \<open>
  \<open>min_by_key\<close> over the map in its iteration order: the first route with the smallest oldest time
  stamp.
\<close>

fun stalest :: "(rstr \<times> u64 list) list \<Rightarrow> (rstr \<times> u64) option" where
  "stalest [] = None"
| "stalest ((k, ts) # rest) = (case stalest rest of
     None \<Rightarrow> Some (k, oldest ts)
   | Some (k', o') \<Rightarrow> if oldest ts \<le> o' then Some (k, oldest ts) else Some (k', o'))"

definition evict_stalest :: "((rstr \<times> u64 list) list \<Rightarrow> (rstr \<times> u64 list) list) \<Rightarrow> (rstr \<times> u64 list) list \<Rightarrow> (rstr \<times> u64 list) list" where
  "evict_stalest iteration_order routes =
    (case stalest (iteration_order routes) of None \<Rightarrow> routes | Some (k, _) \<Rightarrow> filter (\<lambda>e. fst e \<noteq> k) routes)"

definition observe_route :: "((rstr \<times> u64 list) list \<Rightarrow> (rstr \<times> u64 list) list) \<Rightarrow> rstr \<Rightarrow> u64 \<Rightarrow> AnomalyDetector \<Rightarrow> AnomalyDetector" where
  "observe_route iteration_order route now d =
    (let routes = route_timestamps d;
         routes = (if MAX_TRACKED_ROUTES \<le> length routes \<and> map_of routes route = None
           then evict_stalest iteration_order routes else routes);
         times = (case map_of routes route of None \<Rightarrow> [] | Some ts \<Rightarrow> ts) @ [now];
         cutoff = saturating_sub now ROUTE_SATURATION_WINDOW_SECS;
         times = filter (\<lambda>t. cutoff \<le> t) times;
         d = d\<lparr>route_timestamps := (route, times) # filter (\<lambda>e. fst e \<noteq> route) routes\<rparr>
     in if ROUTE_SATURATION_THRESHOLD \<le> length times
        then fire_alert (rlit ''ROUTE_SAT_'' @ route) now d else d)"

definition observe :: "((rstr \<times> u64 list) list \<Rightarrow> (rstr \<times> u64 list) list) \<Rightarrow> SystemAction \<Rightarrow> rstr \<Rightarrow> u64 \<Rightarrow> AnomalyDetector \<Rightarrow> AnomalyDetector" where
  "observe iteration_order action route now d =
    observe_route iteration_order route now (observe_hours now (observe_failure action now d))"

type_synonym observation = "SystemAction \<times> rstr \<times> u64"

definition observe_all :: "((rstr \<times> u64 list) list \<Rightarrow> (rstr \<times> u64 list) list) \<Rightarrow> observation list \<Rightarrow> AnomalyDetector \<Rightarrow> AnomalyDetector" where
  "observe_all iteration_order os d = fold (\<lambda>(action, route, now). observe iteration_order action route now) os d"

definition total_alerts :: "AnomalyDetector \<Rightarrow> u64" where
  "total_alerts d = alert_count d"

text \<open>Specification side: the alerts a detector has fired under one key, and what it means for them to be spaced.\<close>

definition alerts_for :: "rstr \<Rightarrow> AnomalyDetector \<Rightarrow> u64 list" where
  "alerts_for k d = map snd (filter (\<lambda>e. fst e = k) (alerts d))"

fun spaced :: "nat \<Rightarrow> u64 list \<Rightarrow> bool" where
  "spaced _ [] \<longleftrightarrow> True"
| "spaced prev (t # ts) \<longleftrightarrow> prev + 300 \<le> unat t \<and> spaced (unat t) ts"

section \<open>Data localization: lemmas\<close>

lemma str_contains_sublist: "str_contains xs pat \<longleftrightarrow> sublist pat xs"
proof (induction xs)
  case (Cons c cs)
  have "take (length pat) (c # cs) = pat \<longleftrightarrow> prefix pat (c # cs)"
    by (metis append_eq_conv_conj append_take_drop_id prefix_def)
  then show ?case using Cons.IH by (simp add: sublist_Cons_right)
qed simp

text \<open>
  The localization filter decides exactly the published policy: a route is approved if and only
  if its lower-cased text contains none of the blocked foreign patterns and at least one of the
  approved Indian patterns as a contiguous substring.  The separate treatment of cloud providers
  changes the reason given, never the verdict.
\<close>

theorem localization_policy:
  "check_data_localization lower route = Approved \<longleftrightarrow>
     \<not> list_ex (\<lambda>p. sublist p (lower route)) BLOCKED_FOREIGN_REGIONS \<and>
     list_ex (\<lambda>p. sublist p (lower route)) APPROVED_INDIA_REGIONS"
proof -
  have c: "str_contains (lower route) = (\<lambda>p. sublist p (lower route))"
    by (rule ext) (rule str_contains_sublist)
  have f: "find P xs = None \<longleftrightarrow> \<not> list_ex P xs" for P and xs :: "rstr list"
    by (auto simp: find_None_iff list_ex_iff)
  show ?thesis
    using f [of "\<lambda>p. sublist p (lower route)" BLOCKED_FOREIGN_REGIONS]
    by (cases "find (\<lambda>p. sublist p (lower route)) BLOCKED_FOREIGN_REGIONS")
       (simp_all add: check_data_localization_def Let_def c)
qed

text \<open>
  The approved patterns are matched anywhere in the route, so the private-network prefix 10. also
  approves a public address that merely has an octet ending in 10.
\<close>

theorem public_address_approved:
  "check_data_localization id (rlit ''203.0.110.5:443'') = Approved"
  by code_simp

section \<open>Anomaly detection: lemmas\<close>

lemma spaced_snoc: "spaced a (ts @ [t]) \<longleftrightarrow> spaced a ts \<and> (if ts = [] then a else unat (last ts)) + 300 \<le> unat t"
  by (induction ts arbitrary: a) auto

text \<open>
  The invariant of the deduplication table: under every key the fired alerts are spaced, the table
  holds the time of the last one (0 when there is none), and the counter counts them all.
\<close>

definition dedup_inv :: "AnomalyDetector \<Rightarrow> bool" where
  "dedup_inv d \<longleftrightarrow> alert_count d = of_nat (length (alerts d)) \<and>
     (\<forall>k. spaced 0 (alerts_for k d) \<and>
          last_alert_times d k = (if alerts_for k d = [] then None else Some (last (alerts_for k d))))"

lemma dedup_inv_new: "dedup_inv detector_new"
  by (simp add: dedup_inv_def detector_new_def alerts_for_def)

lemma dedup_fires: "\<not> saturating_sub now previous < ALERT_DEDUP_WINDOW_SECS \<longleftrightarrow> unat previous + 300 \<le> unat now"
  by (simp add: word_less_nat_alt saturating_sub_unat ALERT_DEDUP_WINDOW_SECS_def) linarith

lemma alerts_for_update [simp]:
  "alerts_for k (d\<lparr>failure_timestamps := fs\<rparr>) = alerts_for k d"
  "alerts_for k (d\<lparr>route_timestamps := rs\<rparr>) = alerts_for k d"
  "alerts_for k (d\<lparr>last_alert_times := m, alert_count := n, alerts := alerts d @ [(key, now)]\<rparr>) =
     (if k = key then alerts_for k d @ [now] else alerts_for k d)"
  by (auto simp: alerts_for_def)

lemma fire_alert_inv:
  assumes "dedup_inv d"
  shows "dedup_inv (fire_alert key now d)"
proof (cases "saturating_sub now (case last_alert_times d key of None \<Rightarrow> 0 | Some t \<Rightarrow> t) < ALERT_DEDUP_WINDOW_SECS")
  case True
  then show ?thesis using assms by (simp add: fire_alert_def)
next
  case False
  have "spaced 0 (alerts_for key d @ [now])"
    using assms False [unfolded dedup_fires]
    by (simp add: dedup_inv_def spaced_snoc split: if_splits)
  then show ?thesis
    using assms False by (simp add: fire_alert_def dedup_inv_def)
qed

lemma dedup_inv_frame [simp]:
  "dedup_inv (d\<lparr>failure_timestamps := fs\<rparr>) \<longleftrightarrow> dedup_inv d"
  "dedup_inv (d\<lparr>route_timestamps := rs\<rparr>) \<longleftrightarrow> dedup_inv d"
  by (simp_all add: dedup_inv_def)

lemma observe_failure_inv: "dedup_inv d \<Longrightarrow> dedup_inv (observe_failure action now d)"
  by (simp add: observe_failure_def Let_def fire_alert_inv)

lemma observe_hours_inv: "dedup_inv d \<Longrightarrow> dedup_inv (observe_hours now d)"
  by (simp add: observe_hours_def fire_alert_inv)

lemma observe_route_inv: "dedup_inv d \<Longrightarrow> dedup_inv (observe_route ord route now d)"
  unfolding observe_route_def Let_def by (rule if_split [THEN iffD2]) (simp add: fire_alert_inv)

lemma observe_inv: "dedup_inv d \<Longrightarrow> dedup_inv (observe ord action route now d)"
  by (simp add: observe_def observe_route_inv observe_hours_inv observe_failure_inv)

lemma observe_all_inv: "dedup_inv d \<Longrightarrow> dedup_inv (observe_all ord os d)"
  by (induction os arbitrary: d) (auto simp: observe_all_def observe_inv)

text \<open>
  Whatever is observed, in whatever order the clock readings come, the alerts fired under one key
  are at least 300 seconds apart (in particular strictly increasing in time), and none is fired before
  second 300 of the clock.
\<close>

theorem alerts_rate_limited: "spaced 0 (alerts_for key (observe_all ord os detector_new))"
  using observe_all_inv [OF dedup_inv_new] by (simp add: dedup_inv_def)

text \<open>The counter reported by \<open>total_alerts\<close> is the number of alerts written out.\<close>

theorem total_alerts_counts: "total_alerts (observe_all ord os detector_new) = of_nat (length (alerts (observe_all ord os detector_new)))"
  using observe_all_inv [OF dedup_inv_new] by (simp add: dedup_inv_def total_alerts_def)

subsection \<open>Bounded memory\<close>

text \<open>
  The bounds: at most 1000 failure time stamps; at most 1024 tracked routes, each once.
\<close>

definition bounded :: "AnomalyDetector \<Rightarrow> bool" where
  "bounded d \<longleftrightarrow> length (failure_timestamps d) \<le> MAX_FAILURE_TIMESTAMPS \<and>
     length (route_timestamps d) \<le> MAX_TRACKED_ROUTES \<and> distinct (map fst (route_timestamps d))"

lemma bounded_new: "bounded detector_new"
  by (simp add: bounded_def detector_new_def)

lemma stalest_mem: "rs \<noteq> [] \<Longrightarrow> \<exists>k t. stalest rs = Some (k, t) \<and> k \<in> fst ` set rs"
  by (induction rs rule: stalest.induct) (force split: option.splits)+

lemma filter_fst_length:
  "k \<in> fst ` set rs \<Longrightarrow> length (filter (\<lambda>e. fst e \<noteq> k) rs) < length rs"
  by (force intro: length_filter_less)

lemma distinct_fst_filter: "distinct (map fst rs) \<Longrightarrow> distinct (map fst (filter P rs))"
  by (simp add: distinct_map_filter)

lemma evict_stalest_length:
  assumes "mset (ord rs) = mset rs" "rs \<noteq> []"
  shows "length (evict_stalest ord rs) < length rs"
proof -
  obtain k t where "stalest (ord rs) = Some (k, t)" "k \<in> fst ` set (ord rs)"
    using assms stalest_mem [of "ord rs"] by (metis mset_zero_iff_right)
  then show ?thesis
    using mset_eq_setD [OF assms(1)] by (simp add: evict_stalest_def filter_fst_length)
qed

lemma insert_route_length:
  assumes "length rs < n \<or> map_of rs route \<noteq> None" "length rs \<le> n"
  shows "length ((route, ts) # filter (\<lambda>e. fst e \<noteq> route) rs) \<le> n"
proof (cases "route \<in> fst ` set rs")
  case True
  then show ?thesis using filter_fst_length [OF True] assms(2) by simp
next
  case False
  then have "length rs < n" using assms(1) by (simp add: map_of_eq_None_iff)
  then have "length (filter (\<lambda>e. fst e \<noteq> route) rs) < n" by (rule le_less_trans [OF length_filter_le])
  then show ?thesis by simp
qed

lemma fire_alert_bounded [simp]: "bounded (fire_alert key now d) \<longleftrightarrow> bounded d"
  by (simp add: fire_alert_def bounded_def Let_def)

lemma observe_failure_bounded: "bounded d \<Longrightarrow> bounded (observe_failure action now d)"
  by (auto simp: observe_failure_def bounded_def Let_def fire_alert_def)

lemma observe_hours_bounded [simp]: "bounded (observe_hours now d) \<longleftrightarrow> bounded d"
  by (simp add: observe_hours_def)

lemma observe_route_bounded:
  assumes "\<And>rs. mset (ord rs) = mset rs" "bounded d"
  shows "bounded (observe_route ord route now d)"
proof -
  let ?rs = "route_timestamps d"
  let ?rs' = "if MAX_TRACKED_ROUTES \<le> length ?rs \<and> map_of ?rs route = None then evict_stalest ord ?rs else ?rs"
  have room: "length ?rs' < MAX_TRACKED_ROUTES \<or> map_of ?rs' route \<noteq> None" and le: "length ?rs' \<le> MAX_TRACKED_ROUTES"
    using assms(2) evict_stalest_length [of ord ?rs, OF assms(1)]
    by (fastforce simp: bounded_def MAX_TRACKED_ROUTES_def)+
  have "distinct (map fst ?rs')"
    using assms(2) by (auto simp: bounded_def evict_stalest_def distinct_fst_filter split: option.splits)
  then have "bounded (d\<lparr>route_timestamps := (route, ts) # filter (\<lambda>e. fst e \<noteq> route) ?rs'\<rparr>)" for ts
    using insert_route_length [OF room le] assms(2) by (auto simp: bounded_def distinct_fst_filter)
  then show ?thesis by (simp add: observe_route_def Let_def)
qed

text \<open>
  The detector's memory is bounded for every stream of observations: at most 1000 failure time
  stamps and at most 1024 routes, each tracked once; this needs only that iterating the hash map
  visits its entries, each once.
\<close>

theorem detector_bounded:
  assumes "\<And>rs. mset (ord rs) = mset rs"
  shows "bounded (observe_all ord os detector_new)"
proof -
  have "bounded d \<Longrightarrow> bounded (observe_all ord os d)" for d
    by (induction os arbitrary: d)
       (simp_all add: observe_all_def observe_def split_beta observe_failure_bounded observe_route_bounded assms)
  then show ?thesis using bounded_new by blast
qed

theorem detector_bounded_witness:
  "bounded (observe_all rev [(CircuitBreakerTripped, rlit ''switch'', 1000), (SuccessForwarded, rlit ''hsm'', 1001)] detector_new)"
  by (rule detector_bounded) simp

end
