(* ===== verification/Heartbeat.thy ===== *)
theory Heartbeat
  imports Sign
begin

text \<open>
  The licence heartbeat: the authenticated and encrypted epoch token that carries the daily salt
  (\<open>crypto/heartbeat.rs\<close>), and the manager that derives the operational status from the last
  synchronisation, with its cache file (\<open>heartbeat.rs\<close>).

  The process-wide salt and the manager are one state, \<open>heartbeat\<close>; the cache file is part of it.
  The clock and the outcome of the file write are arguments.  The theorems: the proxy may
  process transactions exactly in the 96 hours after a synchronisation; a token is accepted exactly
  when its tag matches; a restart recovers what was saved; and in every run the operational proxy
  has seen an accepted token within the last 96 hours.
\<close>

section \<open>Definitions\<close>

subsection \<open>Epoch tokens\<close>

record salt_store =
  has_salt :: bool
  daily_salt :: bytes

definition default_license_key :: bytes where
  "default_license_key = as_bytes (rlit ''SOLOMON_KEY_2026_SECURE_LICENSE_'')"

text \<open>The argument is the environment variable, if it is set.\<close>

definition get_master_license_key :: "rstr option \<Rightarrow> bytes" where
  "get_master_license_key env = (case env of
     Some env_key \<Rightarrow> let bs = as_bytes env_key; len = min (length bs) 32 in take len bs @ replicate (32 - len) 0
   | None \<Rightarrow> default_license_key)"

definition set_daily_salt :: "bytes \<Rightarrow> salt_store \<Rightarrow> salt_store" where
  "set_daily_salt salt st = st\<lparr>has_salt := True, daily_salt := salt\<rparr>"

definition get_daily_salt :: "salt_store \<Rightarrow> MlDsaError + bytes" where
  "get_daily_salt st = (if \<not> has_salt st then Inl InternalError else Inr (daily_salt st))"

definition reset_daily_salt :: "salt_store \<Rightarrow> salt_store" where
  "reset_daily_salt st = st\<lparr>has_salt := False, daily_salt := replicate 32 0\<rparr>"

text \<open>The constant-time comparison: the disjunction of the differences of the first \<open>n\<close> bytes.\<close>

definition ct_diff :: "nat \<Rightarrow> bytes \<Rightarrow> bytes \<Rightarrow> u8" where
  "ct_diff n xs ys = fold (\<lambda>i diff. diff OR (xs ! i XOR ys ! i)) [0..<n] 0"

definition verify_and_apply_epoch_token :: "bytes \<Rightarrow> bytes \<Rightarrow> salt_store \<Rightarrow> ((MlDsaError + unit) \<times> salt_store) option" where
  "verify_and_apply_epoch_token master_key token st =
    (if length token \<noteq> 80 then Some (Inl InvalidParameter, st)
     else
       let iv = take 32 token;
           ciphertext = take 32 (drop 32 token);
           rec_mac = drop 64 token
       in do {
         computed_mac \<leftarrow> shake256_of [master_key, iv, ciphertext] 16;
         if ct_diff 16 rec_mac computed_mac \<noteq> 0 then Some (Inl InternalError, st)
         else do {
           keystream \<leftarrow> shake256_of [master_key, iv] 32;
           let salt = map (\<lambda>i. ciphertext ! i XOR keystream ! i) [0..<32];
           Some (Inr (), set_daily_salt salt st)
         }
       })"

subsection \<open>Obfuscated literals and the loopback handshake\<close>

record EncryptedString =
  enc_ciphertext :: bytes
  enc_key :: u8

definition encrypted_string_new :: "nat \<Rightarrow> bytes \<Rightarrow> u8 \<Rightarrow> EncryptedString" where
  "encrypted_string_new n plaintext key =
    \<lparr>enc_ciphertext = map (\<lambda>i. if i < length plaintext then plaintext ! i XOR key else key) [0..<n], enc_key = key\<rparr>"

definition decrypt_string :: "EncryptedString \<Rightarrow> bytes" where
  "decrypt_string e = map (\<lambda>c. c XOR enc_key e) (enc_ciphertext e)"

definition enc_str :: "rstr \<Rightarrow> u8 \<Rightarrow> EncryptedString" where
  "enc_str str key = encrypted_string_new (length (as_bytes str)) (as_bytes str) key"

text \<open>
  The socket: whether an address can be connected to, whether the time-out can be set, whether a request
  can be written, and all the bytes the peer sends before it closes or the time-out strikes.
\<close>

record handshake_env =
  hs_connects :: "rstr \<Rightarrow> bool"
  hs_timeout_set :: bool
  hs_writes :: "bytes \<Rightarrow> bool"
  hs_answer :: bytes

definition run_heartbeat_handshake :: "bytes \<Rightarrow> handshake_env \<Rightarrow> salt_store \<Rightarrow> ((MlDsaError + unit) \<times> salt_store) option" where
  "run_heartbeat_handshake master_key env st =
    (case from_utf8 (decrypt_string (enc_str (rlit ''127.0.0.1:1337'') 0x47)) of
       None \<Rightarrow> Some (Inl InternalError, st)
     | Some ip_str \<Rightarrow>
         if \<not> hs_connects env ip_str then Some (Inl HashFailure, st)
         else if \<not> hs_timeout_set env then Some (Inl InternalError, st)
         else if \<not> hs_writes env (decrypt_string (enc_str (rlit ''GET_EPOCH_TOKEN'') 0x33)) then Some (Inl InternalError, st)
         else if length (hs_answer env) < 80 then Some (Inl InternalError, st)
         else verify_and_apply_epoch_token master_key (take 80 (hs_answer env)) st)"

subsection \<open>The heartbeat manager\<close>

definition ACTIVE_WINDOW_SECS :: u64 where "ACTIVE_WINDOW_SECS = 24 * 60 * 60"
definition GRACE_WINDOW_SECS :: u64 where "GRACE_WINDOW_SECS = 72 * 60 * 60"
definition TOTAL_EXPIRY_SECS :: u64 where "TOTAL_EXPIRY_SECS = ACTIVE_WINDOW_SECS + GRACE_WINDOW_SECS"

datatype HeartbeatStatus =
    Active u64 u64
  | GracePeriod u64 u64 u64
  | ExpiredFailClosed u64 u64

fun status_operational :: "HeartbeatStatus \<Rightarrow> bool" where
  "status_operational (Active _ _) = True"
| "status_operational (GracePeriod _ _ _) = True"
| "status_operational (ExpiredFailClosed _ _) = False"

record heartbeat =
  last_synced_epoch :: u64
  hardware_fingerprint :: bytes
  state_code :: u8
  salt :: salt_store
  cache :: "bytes option"

definition get_status :: "u64 \<Rightarrow> heartbeat \<Rightarrow> HeartbeatStatus \<times> heartbeat" where
  "get_status now mgr =
    (let last_synced = last_synced_epoch mgr in
     if last_synced = 0 then (ExpiredFailClosed 0 0, mgr)
     else let valid_until = saturating_add last_synced ACTIVE_WINDOW_SECS;
              grace_until = saturating_add last_synced TOTAL_EXPIRY_SECS
       in if now \<le> valid_until then (Active last_synced valid_until, mgr\<lparr>state_code := 0\<rparr>)
          else if now \<le> grace_until
          then (GracePeriod last_synced grace_until (saturating_sub grace_until now), mgr\<lparr>state_code := 1\<rparr>)
          else (ExpiredFailClosed last_synced grace_until, mgr\<lparr>state_code := 2\<rparr>))"

definition is_operational :: "u64 \<Rightarrow> heartbeat \<Rightarrow> bool" where
  "is_operational now mgr = status_operational (fst (get_status now mgr))"

text \<open>\<open>write_ok\<close> is whether writing the cache file succeeds; the code ignores a failure.\<close>

definition save_to_cache :: "bool \<Rightarrow> bytes \<Rightarrow> u64 \<Rightarrow> heartbeat \<Rightarrow> heartbeat option" where
  "save_to_cache write_ok token timestamp mgr =
    (let buf = be_bytes 8 (unat timestamp) @ token in do {
       mac \<leftarrow> shake256_of [hardware_fingerprint mgr, buf] 32;
       Some (if write_ok then mgr\<lparr>cache := Some (buf @ mac)\<rparr> else mgr)
     })"

definition record_successful_sync :: "bytes \<Rightarrow> u64 \<Rightarrow> bool \<Rightarrow> bytes \<Rightarrow> u64 option \<Rightarrow> heartbeat \<Rightarrow> (bool \<times> heartbeat) option" where
  "record_successful_sync master_key now write_ok token timestamp mgr =
    (let ts = (case timestamp of Some t \<Rightarrow> t | None \<Rightarrow> now) in do {
       (r, st) \<leftarrow> verify_and_apply_epoch_token master_key token (salt mgr);
       case r of
         Inl _ \<Rightarrow> Some (False, mgr\<lparr>salt := st\<rparr>)
       | Inr _ \<Rightarrow> do {
           mgr' \<leftarrow> save_to_cache write_ok token ts (mgr\<lparr>salt := st, last_synced_epoch := ts, state_code := 0\<rparr>);
           Some (True, mgr')
         }
     })"

definition recover_from_cache :: "bytes \<Rightarrow> u64 \<Rightarrow> heartbeat \<Rightarrow> heartbeat option" where
  "recover_from_cache master_key now mgr =
    (case cache mgr of
       None \<Rightarrow> Some mgr
     | Some data \<Rightarrow>
         if length data \<noteq> 120 then Some mgr
         else let timestamp = word_of_nat (from_be (take 8 data));
                  token = take 80 (drop 8 data);
                  rec_mac = drop 88 data
           in do {
             expected_mac \<leftarrow> shake256_of [hardware_fingerprint mgr, take 88 data] 32;
             if ct_diff 32 rec_mac expected_mac \<noteq> 0 then Some mgr
             else let grace_until = saturating_add timestamp TOTAL_EXPIRY_SECS in
               if now \<le> grace_until
               then do {
                 (r, st) \<leftarrow> verify_and_apply_epoch_token master_key token (salt mgr);
                 case r of
                   Inl _ \<Rightarrow> Some (mgr\<lparr>salt := st\<rparr>)
                 | Inr _ \<Rightarrow> Some (snd (get_status now (mgr\<lparr>salt := st, last_synced_epoch := timestamp\<rparr>)))
               }
               else Some mgr
           })"

text \<open>A start of the process: the salt is not set, and the cache file is what the last run left.\<close>

definition manager_new :: "bytes \<Rightarrow> u64 \<Rightarrow> bytes \<Rightarrow> bytes option \<Rightarrow> heartbeat option" where
  "manager_new master_key now fingerprint file =
    recover_from_cache master_key now
      \<lparr>last_synced_epoch = 0, hardware_fingerprint = fingerprint, state_code = 2,
       salt = \<lparr>has_salt = False, daily_salt = replicate 32 0\<rparr>, cache = file\<rparr>"

text \<open>What a token says: whether its tag is right, and the salt it carries.\<close>

definition token_authentic :: "bytes \<Rightarrow> bytes \<Rightarrow> bool" where
  "token_authentic key token \<longleftrightarrow> length token = 80 \<and> drop 64 token = shake_spec 136 (key @ take 64 token) 16"

definition token_salt :: "bytes \<Rightarrow> bytes \<Rightarrow> bytes" where
  "token_salt key token = map2 (XOR) (take 32 (drop 32 token)) (shake_spec 136 (key @ take 32 token) 32)"

section \<open>Tokens\<close>

lemma xor_eq_0: "a XOR b = 0 \<longleftrightarrow> a = (b :: u8)"
proof
  assume "a XOR b = 0"
  then have "(a XOR b) XOR b = 0 XOR b" by (rule arg_cong)
  then show "a = b" by (simp only: xor.assoc xor_self_eq xor.right_neutral xor.left_neutral)
qed simp

lemma ct_diff_fold:
  "fold (\<lambda>i diff. diff OR (xs ! i XOR ys ! i)) is d = (0 :: u8) \<longleftrightarrow> d = 0 \<and> list_all (\<lambda>i. xs ! i = ys ! i) is"
  by (induction "is" arbitrary: d) (simp_all add: or_eq_0_iff xor_eq_0)

lemma ct_diff_zero: "length xs = n \<Longrightarrow> length ys = n \<Longrightarrow> ct_diff n xs ys = 0 \<longleftrightarrow> xs = ys"
  by (simp add: ct_diff_def ct_diff_fold list_all_iff list_eq_iff_nth_eq Ball_def)

lemma verify_token:
  "verify_and_apply_epoch_token key token st =
    Some (if token_authentic key token then (Inr (), set_daily_salt (token_salt key token) st)
          else (Inl (if length token = 80 then InternalError else InvalidParameter), st))"
proof (cases "length token = 80")
  case True
  have t: "take 32 token @ take 32 (drop 32 token) = take 64 token"
    using take_add [of 32 32 token] by simp
  have "map (\<lambda>i. take 32 (drop 32 token) ! i XOR ks ! i) [0..<32] = map2 (XOR) (take 32 (drop 32 token)) ks"
    if "length ks = 32" for ks
    using that True by (intro nth_equalityI) simp_all
  then show ?thesis
    using True by (simp add: verify_and_apply_epoch_token_def shake256_of_spec token_authentic_def token_salt_def
        ct_diff_zero t)
qed (simp add: verify_and_apply_epoch_token_def token_authentic_def)

text \<open>
  A token is applied exactly when it has 80 bytes and its last 16 are the SHAKE-256 tag, under the
  master key, of the others; the salt installed is then the decryption of its middle part.  Every
  other byte string is refused with the error the length decides and leaves the salt as it was, so
  a proxy without an accepted token has no salt.
\<close>

theorem token_gate:
  "(do { (r, st) \<leftarrow> verify_and_apply_epoch_token key token \<lparr>has_salt = False, daily_salt = replicate 32 0\<rparr>; Some (r, get_daily_salt st) })
   = Some (if length token \<noteq> 80 then (Inl InvalidParameter, Inl InternalError)
       else if drop 64 token \<noteq> shake_spec 136 (key @ take 64 token) 16 then (Inl InternalError, Inl InternalError)
       else (Inr (), Inr (map2 (XOR) (take 32 (drop 32 token)) (shake_spec 136 (key @ take 32 token) 32))))"
  by (simp add: verify_token token_authentic_def token_salt_def get_daily_salt_def set_daily_salt_def)

section \<open>The operational window\<close>

lemma windows: "unat ACTIVE_WINDOW_SECS = 86400" "unat TOTAL_EXPIRY_SECS = 345600"
  by (simp_all add: ACTIVE_WINDOW_SECS_def TOTAL_EXPIRY_SECS_def GRACE_WINDOW_SECS_def)

lemma within_window: "now \<le> saturating_add t w \<longleftrightarrow> unat now \<le> unat t + unat w"
  using unat_u64_less [of now] by (simp add: word_le_nat_alt saturating_add_unat)

lemma is_operational_iff:
  "is_operational now mgr \<longleftrightarrow> last_synced_epoch mgr \<noteq> 0 \<and> unat now \<le> unat (last_synced_epoch mgr) + 345600"
  by (auto simp: is_operational_def get_status_def Let_def within_window windows)

lemma get_status_fields [simp]:
  "last_synced_epoch (snd (get_status now mgr)) = last_synced_epoch mgr" "salt (snd (get_status now mgr)) = salt mgr"
  "cache (snd (get_status now mgr)) = cache mgr" "hardware_fingerprint (snd (get_status now mgr)) = hardware_fingerprint mgr"
  by (simp_all add: get_status_def Let_def)

lemma is_operational_status [simp]: "is_operational now (snd (get_status now' mgr)) = is_operational now mgr"
  by (simp add: is_operational_iff)

text \<open>
  The status as a function of the clock: without a synchronisation the proxy is expired; with one
  at time \<open>t\<close> it is active up to \<open>t + 24\<close> hours, in the grace period up to \<open>t + 96\<close> hours, and expired
  afterwards, the comparisons being those of the integers even where the additions saturate.  Only
  the first two are operational.
\<close>

theorem status_by_age:
  "let t = unat (last_synced_epoch mgr); s = fst (get_status now mgr) in
   (if t = 0 \<or> t + 345600 < unat now then \<not> is_operational now mgr
    else is_operational now mgr \<and>
      (if unat now \<le> t + 86400 then s = Active (last_synced_epoch mgr) (saturating_add (last_synced_epoch mgr) 86400)
       else \<exists>u r. s = GracePeriod (last_synced_epoch mgr) u r \<and> unat u = min (t + 345600) (2 ^ 64 - 1) \<and> unat r = unat u - unat now))"
proof -
  have z: "unat (last_synced_epoch mgr) = 0 \<longleftrightarrow> last_synced_epoch mgr = 0" by (simp add: unat_eq_0)
  show ?thesis
    by (auto simp: Let_def z is_operational_iff get_status_def within_window windows saturating_sub_unat saturating_add_unat
        ACTIVE_WINDOW_SECS_def)
qed

section \<open>Synchronisation and restart\<close>

text \<open>The cache file of a synchronisation.\<close>

definition cache_bytes :: "bytes \<Rightarrow> u64 \<Rightarrow> bytes \<Rightarrow> bytes" where
  "cache_bytes fingerprint ts token =
    (let buf = be_bytes 8 (unat ts) @ token in buf @ shake_spec 136 (fingerprint @ buf) 32)"

lemma record_sync:
  "record_successful_sync key now write_ok token timestamp mgr =
    Some (if token_authentic key token
      then let ts = (case timestamp of Some t \<Rightarrow> t | None \<Rightarrow> now) in
        (True, mgr\<lparr>salt := set_daily_salt (token_salt key token) (salt mgr), last_synced_epoch := ts, state_code := 0,
          cache := (if write_ok then Some (cache_bytes (hardware_fingerprint mgr) ts token) else cache mgr)\<rparr>)
      else (False, mgr))"
  by (simp add: record_successful_sync_def verify_token save_to_cache_def shake256_of_spec cache_bytes_def Let_def split: option.split)

definition cache_valid :: "bytes \<Rightarrow> bytes \<Rightarrow> bool" where
  "cache_valid fingerprint data \<longleftrightarrow> length data = 120 \<and> drop 88 data = shake_spec 136 (fingerprint @ take 88 data) 32"

definition cache_time :: "bytes \<Rightarrow> u64" where
  "cache_time data = word_of_nat (from_be (take 8 data))"

definition cache_token :: "bytes \<Rightarrow> bytes" where
  "cache_token data = take 80 (drop 8 data)"

lemma cache_bytes_fields:
  assumes "length token = 80"
  shows "cache_valid fp (cache_bytes fp ts token)" "cache_time (cache_bytes fp ts token) = ts"
    "cache_token (cache_bytes fp ts token) = token"
proof -
  have "unat ts < 256 ^ 8" using unat_u64_less [of ts] by simp
  then show "cache_time (cache_bytes fp ts token) = ts"
    by (simp add: cache_time_def cache_bytes_def Let_def from_be_be_bytes del: be_bytes.simps)
  show "cache_valid fp (cache_bytes fp ts token)" "cache_token (cache_bytes fp ts token) = token"
    using assms by (simp_all add: cache_valid_def cache_token_def cache_bytes_def Let_def del: be_bytes.simps)
qed

lemma cache_valid_bytes:
  assumes "cache_valid fp data"
  shows "data = cache_bytes fp (cache_time data) (cache_token data)"
proof -
  have len: "length data = 120" using assms by (simp add: cache_valid_def)
  then have "from_be (take 8 data) < 2 ^ 64" using from_be_bound [of "take 8 data"] by simp
  then have "be_bytes 8 (unat (cache_time data)) = take 8 data"
    using len by (simp add: cache_time_def unat_of_nat be_bytes_from_be del: be_bytes.simps)
  moreover have "take 8 data @ cache_token data = take 88 data"
    using take_add [of 8 80 data] by (simp add: cache_token_def)
  ultimately show ?thesis
    using assms by (simp add: cache_bytes_def cache_valid_def Let_def flip: append.assoc) (metis append_take_drop_id)
qed

lemma recover_cache:
  "recover_from_cache key now mgr = Some (case cache mgr of
     None \<Rightarrow> mgr
   | Some data \<Rightarrow>
       if cache_valid (hardware_fingerprint mgr) data \<and> unat now \<le> unat (cache_time data) + 345600 \<and> token_authentic key (cache_token data)
       then snd (get_status now (mgr\<lparr>salt := set_daily_salt (token_salt key (cache_token data)) (salt mgr),
              last_synced_epoch := cache_time data\<rparr>))
       else mgr)"
  by (auto simp: recover_from_cache_def shake256_of_spec cache_valid_def cache_time_def cache_token_def ct_diff_zero
      verify_token within_window windows Let_def split: option.split)

text \<open>
  Which cache files revive a restarted proxy: exactly those that carry a non-zero time stamp no
  older than 96 hours and an authentic token, sealed with the tag over fingerprint, time and token.
  A file that is missing, of another length, altered, sealed for other hardware, too old or with a
  forged token leaves the new manager expired.
\<close>

theorem restart_gate:
  "map_option (is_operational now) (manager_new key now fp saved) =
     Some (\<exists>ts token. saved = Some (cache_bytes fp ts token) \<and> token_authentic key token \<and> ts \<noteq> 0 \<and> unat now \<le> unat ts + 345600)"
proof (cases saved)
  case None
  then show ?thesis by (simp add: manager_new_def recover_cache is_operational_iff)
next
  case (Some data)
  have len: "length token = 80" if "token_authentic key token" for token using that by (simp add: token_authentic_def)
  have "map_option (is_operational now) (manager_new key now fp saved) = Some
    (cache_valid fp data \<and> token_authentic key (cache_token data) \<and> cache_time data \<noteq> 0 \<and> unat now \<le> unat (cache_time data) + 345600)"
    using Some by (auto simp: manager_new_def recover_cache is_operational_iff)
  also have "\<dots> = Some (\<exists>ts token. data = cache_bytes fp ts token \<and> token_authentic key token \<and> ts \<noteq> 0 \<and> unat now \<le> unat ts + 345600)"
    (is "Some ?a = Some ?b")
  proof -
    have "?a \<Longrightarrow> ?b" using cache_valid_bytes [of fp data] by blast
    moreover have "?b \<Longrightarrow> ?a" using cache_bytes_fields [OF len] by auto
    ultimately show ?thesis by blast
  qed
  finally show ?thesis using Some by simp
qed

text \<open>
  Nothing is lost by a restart within the window: after a synchronisation whose cache file was
  written, a new process on the same hardware within 96 hours has the same synchronisation time and
  the same salt.
\<close>

theorem sync_survives_restart:
  assumes "token_authentic key token" and "unat now \<le> unat t + 345600"
  shows "(do { (ok, m) \<leftarrow> record_successful_sync key t True token None mgr;
               m' \<leftarrow> manager_new key now (hardware_fingerprint m) (cache m);
               Some (ok, last_synced_epoch m', get_daily_salt (salt m')) })
         = Some (True, t, Inr (token_salt key token))"
proof -
  have "length token = 80" using assms(1) by (simp add: token_authentic_def)
  note cache = cache_bytes_fields [OF this]
  show ?thesis
    using assms by (simp add: record_sync manager_new_def recover_cache cache get_daily_salt_def set_daily_salt_def)
qed

theorem sync_survives_restart_witness:
  "let key = default_license_key; body = replicate 64 7; token = body @ shake_spec 136 (key @ body) 16;
       mgr = \<lparr>last_synced_epoch = 0, hardware_fingerprint = [], state_code = 2, salt = \<lparr>has_salt = False, daily_salt = []\<rparr>, cache = None\<rparr>
   in (do { (ok, m) \<leftarrow> record_successful_sync key 1000 True token None mgr;
            m' \<leftarrow> manager_new key 2000 (hardware_fingerprint m) (cache m);
            Some (ok, last_synced_epoch m', get_daily_salt (salt m')) })
      = Some (True, 1000, Inr (token_salt key token))"
  unfolding Let_def by (rule sync_survives_restart) (simp_all add: token_authentic_def)

section \<open>Runs of the proxy\<close>

text \<open>
  What can happen to the heartbeat, each at any reading of the clock: a token arrives (with the file
  write succeeding or not), the status is asked for, the process restarts, the cache file is deleted.
  The second component records the times of the accepted tokens.
\<close>

inductive hb_step :: "bytes \<Rightarrow> heartbeat \<times> u64 list \<Rightarrow> heartbeat \<times> u64 list \<Rightarrow> bool" for key where
  sync: "record_successful_sync key now write_ok token None mgr = Some (ok, mgr') \<Longrightarrow>
     hb_step key (mgr, synced) (mgr', if ok then now # synced else synced)"
| check: "hb_step key (mgr, synced) (snd (get_status now mgr), synced)"
| restart: "manager_new key now (hardware_fingerprint mgr) (cache mgr) = Some mgr' \<Longrightarrow> hb_step key (mgr, synced) (mgr', synced)"
| lose_cache: "hb_step key (mgr, synced) (mgr\<lparr>cache := None\<rparr>, synced)"

definition hb_start :: "bytes \<Rightarrow> heartbeat" where
  "hb_start fp = \<lparr>last_synced_epoch = 0, hardware_fingerprint = fp, state_code = 2,
     salt = \<lparr>has_salt = False, daily_salt = replicate 32 0\<rparr>, cache = None\<rparr>"

text \<open>
  The invariant: a synchronisation time in use, and one in a cache file that would be accepted, is
  that of an accepted token; and a proxy that has one has a salt.
\<close>

definition own_cache :: "bytes \<Rightarrow> u64 list \<Rightarrow> bytes option \<Rightarrow> bool" where
  "own_cache fp synced c \<longleftrightarrow> c = None \<or> (\<exists>ts\<in>set synced. \<exists>token. length token = 80 \<and> c = Some (cache_bytes fp ts token))"

definition hb_inv :: "heartbeat \<times> u64 list \<Rightarrow> bool" where
  "hb_inv s \<longleftrightarrow> (case s of (mgr, synced) \<Rightarrow>
     (last_synced_epoch mgr = 0 \<or> last_synced_epoch mgr \<in> set synced \<and> has_salt (salt mgr)) \<and>
     own_cache (hardware_fingerprint mgr) synced (cache mgr))"

lemma own_cache_None [simp]: "own_cache fp synced None"
  by (simp add: own_cache_def)

lemma own_cache_saved [simp]: "length token = 80 \<Longrightarrow> ts \<in> set synced \<Longrightarrow> own_cache fp synced (Some (cache_bytes fp ts token))"
  by (auto simp: own_cache_def)

lemma own_cache_later: "own_cache fp synced c \<Longrightarrow> own_cache fp (t # synced) c"
  by (auto simp: own_cache_def)

lemma hb_inv_sync:
  assumes "hb_inv (mgr, synced)" and "record_successful_sync key now write_ok token None mgr = Some (ok, mgr')"
  shows "hb_inv (mgr', if ok then now # synced else synced)"
proof (cases "token_authentic key token")
  case True
  then have "length token = 80" by (simp add: token_authentic_def)
  then show ?thesis using assms True
    by (auto simp: hb_inv_def record_sync set_daily_salt_def Let_def own_cache_later)
next
  case False
  then show ?thesis using assms by (auto simp: record_sync)
qed

lemma manager_new_fields:
  assumes "manager_new key now fp saved = Some mgr"
  shows "hardware_fingerprint mgr = fp" and "cache mgr = saved"
    and "last_synced_epoch mgr = 0 \<or> (\<exists>data. saved = Some data \<and> last_synced_epoch mgr = cache_time data \<and> has_salt (salt mgr))"
  using assms by (auto simp: manager_new_def recover_cache set_daily_salt_def split: option.splits if_splits)

lemma hb_inv_restart:
  assumes "hb_inv (mgr, synced)" and "manager_new key now (hardware_fingerprint mgr) (cache mgr) = Some mgr'"
  shows "hb_inv (mgr', synced)"
  using assms(1) manager_new_fields [OF assms(2)]
  by (auto simp: hb_inv_def own_cache_def cache_bytes_fields)

lemma hb_inv_step: "hb_step key s s' \<Longrightarrow> hb_inv s \<Longrightarrow> hb_inv s'"
proof (induction rule: hb_step.induct)
  case (check mgr synced now)
  then show ?case by (simp add: hb_inv_def)
next
  case (lose_cache mgr synced)
  then show ?case by (auto simp: hb_inv_def)
next
  case (restart now mgr mgr' synced)
  then show ?case by (rule hb_inv_restart [rotated])
next
  case (sync now write_ok token mgr ok mgr' synced)
  then show ?case by (rule hb_inv_sync [rotated])
qed

lemma hb_inv_reachable: "(hb_step key)\<^sup>*\<^sup>* (hb_start fp, []) s \<Longrightarrow> hb_inv s"
proof (induction rule: rtranclp_induct)
  case base
  then show ?case by (auto simp: hb_inv_def hb_start_def)
qed (rule hb_inv_step)

lemma operational_token:
  assumes "(hb_step key)\<^sup>*\<^sup>* (hb_start fp, []) (mgr, synced)" and "is_operational now mgr"
  shows "(\<exists>t\<in>set synced. unat now \<le> unat t + 345600) \<and> has_salt (salt mgr)"
  using hb_inv_reachable [OF assms(1)] assms(2) by (auto simp: hb_inv_def is_operational_iff)



text \<open>
  The handshake in closed form: the literals decrypt to the address and the request, and the salt changes exactly when
  every step of the exchange succeeds and the first 80 bytes of the answer are an authentic token.
\<close>

lemma decrypt_enc_str: "decrypt_string (enc_str str key) = as_bytes str"
  by (rule nth_equalityI) (simp_all add: decrypt_string_def enc_str_def encrypted_string_new_def xor.assoc)

theorem handshake_exact:
  "run_heartbeat_handshake key env st = Some
    (if \<not> hs_connects env (rlit ''127.0.0.1:1337'') then (Inl HashFailure, st)
     else if hs_timeout_set env \<and> hs_writes env (as_bytes (rlit ''GET_EPOCH_TOKEN'')) \<and> 80 \<le> length (hs_answer env)
       \<and> token_authentic key (take 80 (hs_answer env))
     then (Inr (), set_daily_salt (token_salt key (take 80 (hs_answer env))) st)
     else (Inl InternalError, st))"
proof -
  have "from_utf8 (as_bytes (rlit ''127.0.0.1:1337'')) = Some (rlit ''127.0.0.1:1337'')"
    by (rule from_utf8_as_bytes_ascii) (simp add: rlit_def)
  then show ?thesis by (auto simp: run_heartbeat_handshake_def decrypt_enc_str verify_token)
qed

end
