(* ===== verification/Licensing.thy ===== *)
theory Licensing
  imports Heartbeat Hybrid AuditChain
begin

text \<open>
  The two ends of the licensing protocol: the cloud control plane that authenticates a proxy by
  trust on first use, issues its epoch token and administers the licences (\<open>solomon-cloud/src/api.rs\<close>), and
  the renewal step of the proxy that receives the answer (\<open>proxy.rs\<close>, \<open>run_heartbeat_loop\<close>).

  The database is the table of licences; whether a query succeeds comes with each call.  SHAKE-256 on
  the cloud side is the crate \<open>sha3\<close> (parameter \<open>xof\<close>), Ed25519 the crate \<open>ed25519_dalek\<close> (the
  parameter of Hybrid), random bytes are arguments.  The theorems: what the cloud issues the proxy
  accepts, with the salt the cloud drew; a licence stays bound to the first fingerprint through
  every sequence of requests; and the lookup and the binding, being two queries, can be interleaved so that
  two fingerprints are served.
\<close>

section \<open>Definitions\<close>

subsection \<open>Hexadecimal transport\<close>

definition to_hex :: "bytes \<Rightarrow> rstr" where
  "to_hex bs = concat (map (fmt_hex2 97) bs)"

definition cloud_hex_encode :: "bytes \<Rightarrow> rstr" where
  "cloud_hex_encode bs = concat (map (fmt_hex2 97) bs)"

fun parse_hex_loop :: "rstr \<Rightarrow> nat list \<Rightarrow> bytes \<Rightarrow> (unit, bytes option) outcome" where
  "parse_hex_loop s [] arr = Inr (Some arr)"
| "parse_hex_loop s (i # is) arr =
    (case str_slice (i * 2) (i * 2 + 2) s of
       None \<Rightarrow> Panicked
     | Some byte_str \<Rightarrow> (case from_str_radix_16 byte_str of
         None \<Rightarrow> Inr None
       | Some b \<Rightarrow> parse_hex_loop s is (arr[i := b])))"

definition parse_hex :: "nat \<Rightarrow> rstr \<Rightarrow> (unit, bytes option) outcome" where
  "parse_hex n hex_str =
    (if str_len hex_str \<noteq> n * 2 then Inr None else parse_hex_loop hex_str [0..<n] (replicate n 0))"

subsection \<open>The control plane\<close>

datatype StatusCode = UNAUTHORIZED | FORBIDDEN | NOT_FOUND | INTERNAL_SERVER_ERROR | SERVICE_UNAVAILABLE | PAYLOAD_TOO_LARGE | BAD_GATEWAY

record DBClient =
  bound_fingerprint :: "rstr option"
  is_active :: int

type_synonym clients = "rstr \<rightharpoonup> DBClient"

record db_env =
  fetch_ok :: bool
  update_ok :: bool

text \<open>
  \<open>authenticate_client\<close> runs two queries; \<open>auth_lookup\<close> decides on the row read by the first, and
  \<open>auth_bind\<close> is the second, which only a first use reaches.
\<close>

datatype auth_decision = Deny StatusCode | Accept | Bind

definition auth_lookup :: "bool \<Rightarrow> rstr \<Rightarrow> rstr \<Rightarrow> clients \<Rightarrow> auth_decision" where
  "auth_lookup ok license_id fingerprint db =
    (if \<not> ok then Deny INTERNAL_SERVER_ERROR
     else case db license_id of
       None \<Rightarrow> Deny UNAUTHORIZED
     | Some client \<Rightarrow>
         if is_active client = 0 then Deny UNAUTHORIZED
         else (case bound_fingerprint client of
             None \<Rightarrow> Bind
           | Some stored_fingerprint \<Rightarrow> if stored_fingerprint \<noteq> fingerprint then Deny FORBIDDEN else Accept))"

definition auth_bind :: "bool \<Rightarrow> rstr \<Rightarrow> rstr \<Rightarrow> clients \<Rightarrow> (StatusCode + unit) \<times> clients" where
  "auth_bind ok license_id fingerprint db =
    (if ok then (Inr (), db(license_id := map_option (\<lambda>c. c\<lparr>bound_fingerprint := Some fingerprint\<rparr>) (db license_id)))
     else (Inl INTERNAL_SERVER_ERROR, db))"

definition authenticate_client :: "db_env \<Rightarrow> rstr \<Rightarrow> rstr \<Rightarrow> clients \<Rightarrow> (StatusCode + unit) \<times> clients" where
  "authenticate_client env license_id fingerprint db =
    (case auth_lookup (fetch_ok env) license_id fingerprint db of
       Deny code \<Rightarrow> (Inl code, db)
     | Accept \<Rightarrow> (Inr (), db)
     | Bind \<Rightarrow> auth_bind (update_ok env) license_id fingerprint db)"

record LicenseResponse =
  resp_token :: rstr
  resp_signature :: rstr

text \<open>The randomness of one request and the keys the service holds.\<close>

record cloud =
  xof :: "bytes list \<Rightarrow> nat \<Rightarrow> bytes"
  cloud_ed :: ed25519
  signing_seed :: bytes
  cloud_license_env :: "rstr option"
  base64 :: "bytes \<Rightarrow> rstr"

definition cloud_sign :: "cloud \<Rightarrow> bytes \<Rightarrow> bytes" where
  "cloud_sign c data = ed_sign (cloud_ed c) (signing_seed c) data"

definition issue_token :: "cloud \<Rightarrow> bytes \<Rightarrow> bytes \<Rightarrow> bytes" where
  "issue_token c drawn_salt iv =
    (let master_key = get_master_license_key (cloud_license_env c);
         keystream = xof c [master_key, iv] 32;
         ciphertext = map (\<lambda>i. drawn_salt ! i XOR keystream ! i) [0..<32];
         mac = xof c [master_key, iv, ciphertext] 16
     in iv @ ciphertext @ mac)"

definition verify_licensing :: "cloud \<Rightarrow> db_env \<Rightarrow> bytes \<Rightarrow> bytes \<Rightarrow> rstr \<Rightarrow> rstr \<Rightarrow> clients \<Rightarrow> (StatusCode + LicenseResponse) \<times> clients" where
  "verify_licensing c env drawn_salt iv license_id fingerprint db =
    (case authenticate_client env license_id fingerprint db of
       (Inl code, db') \<Rightarrow> (Inl code, db')
     | (Inr _, db') \<Rightarrow>
         let token_bytes = issue_token c drawn_salt iv;
             sig_bytes = cloud_sign c token_bytes
         in (Inr \<lparr>resp_token = cloud_hex_encode token_bytes, resp_signature = cloud_hex_encode sig_bytes\<rparr>, db'))"

definition verify_handshake :: "cloud \<Rightarrow> db_env \<Rightarrow> bytes \<Rightarrow> rstr \<Rightarrow> rstr \<Rightarrow> clients \<Rightarrow> (StatusCode + rstr \<times> rstr) \<times> clients" where
  "verify_handshake c env drawn_salt license_id fingerprint db =
    (case authenticate_client env license_id fingerprint db of
       (Inl code, db') \<Rightarrow> (Inl code, db')
     | (Inr _, db') \<Rightarrow> (Inr (base64 c drawn_salt, base64 c (cloud_sign c drawn_salt)), db'))"

definition dashboard_toggle_handler :: "db_env \<Rightarrow> rstr \<Rightarrow> clients \<Rightarrow> (StatusCode + rstr) \<times> clients" where
  "dashboard_toggle_handler env license_id db =
    (if \<not> fetch_ok env then (Inl INTERNAL_SERVER_ERROR, db)
     else case db license_id of
       None \<Rightarrow> (Inl NOT_FOUND, db)
     | Some client \<Rightarrow>
         let new_state = (if is_active client = 1 then 0 else 1) in
         if \<not> update_ok env then (Inl INTERNAL_SERVER_ERROR, db)
         else (Inr (if new_state = 1 then rlit ''Online'' else rlit ''Suspended''),
               db(license_id \<mapsto> client\<lparr>is_active := new_state\<rparr>)))"

text \<open>
  The licence number and the two random words are drawn by the handler; the insertion fails on a
  licence that exists (it is the primary key) or when the database does.
\<close>

definition dashboard_register_handler :: "db_env \<Rightarrow> nat \<Rightarrow> u64 \<Rightarrow> u64 \<Rightarrow> clients \<Rightarrow> (StatusCode + rstr) \<times> clients" where
  "dashboard_register_handler env num w1 w2 db =
    (let license_id = rlit ''ENT-'' @ dec_digits num;
         fp = to_hex (be_bytes 8 (unat w1)) @ to_hex (be_bytes 8 (unat w2))
     in if \<not> update_ok env \<or> db license_id \<noteq> None then (Inl INTERNAL_SERVER_ERROR, db)
        else (Inr license_id, db(license_id \<mapsto> \<lparr>bound_fingerprint = Some fp, is_active = 1\<rparr>)))"

subsection \<open>The renewal step of the proxy\<close>

definition verify_epoch_signature_with_pk :: "ed25519 \<Rightarrow> bytes \<Rightarrow> bytes \<Rightarrow> bytes \<Rightarrow> bool" where
  "verify_epoch_signature_with_pk ed token signature_bytes master_pk =
    (ed_key_ok ed master_pk \<and> ed_verify ed master_pk token signature_bytes)"

text \<open>
  One round of \<open>run_heartbeat_loop\<close>: \<open>response\<close> is what the request returned, \<open>None\<close> when it failed
  or was not a licence response (a failed request also asks for the status, which only refreshes
  the state code).
\<close>

definition heartbeat_round :: "ed25519 \<Rightarrow> bytes \<Rightarrow> bytes \<Rightarrow> u64 \<Rightarrow> bool \<Rightarrow> LicenseResponse option \<Rightarrow> heartbeat \<Rightarrow> (unit, heartbeat) outcome option" where
  "heartbeat_round ed master_pk license_key now write_ok response mgr =
    (case response of
       None \<Rightarrow> Some (Inr (snd (get_status now mgr)))
     | Some lic_res \<Rightarrow>
         (case parse_hex 80 (resp_token lic_res) of
            Inl f \<Rightarrow> Some (Inl f)
          | Inr token \<Rightarrow>
            (case parse_hex 64 (resp_signature lic_res) of
               Inl f \<Rightarrow> Some (Inl f)
             | Inr sig \<Rightarrow>
               (case (token, sig) of
                  (Some token_bytes, Some sig_bytes) \<Rightarrow>
                    if verify_epoch_signature_with_pk ed token_bytes sig_bytes master_pk
                    then map_option (\<lambda>(ok, mgr'). Inr mgr') (record_successful_sync license_key now write_ok token_bytes None mgr)
                    else Some (Inr mgr)
                | _ \<Rightarrow> Some (Inr mgr)))))"

subsection \<open>Requests in sequence\<close>

datatype cloud_request =
    Authenticate rstr rstr
  | Toggle rstr
  | Register nat u64 u64

text \<open>The requests the service handles one after the other, and the licence and fingerprint of those it let through.\<close>

fun serve :: "(cloud_request \<times> db_env) list \<Rightarrow> clients \<Rightarrow> clients \<times> (rstr \<times> rstr) list" where
  "serve [] db = (db, [])"
| "serve ((Authenticate lic fp, env) # rs) db =
    (case authenticate_client env lic fp db of
       (Inl _, db') \<Rightarrow> serve rs db'
     | (Inr _, db') \<Rightarrow> (case serve rs db' of (db'', ok) \<Rightarrow> (db'', (lic, fp) # ok)))"
| "serve ((Toggle lic, env) # rs) db = serve rs (snd (dashboard_toggle_handler env lic db))"
| "serve ((Register num w1 w2, env) # rs) db = serve rs (snd (dashboard_register_handler env num w1 w2 db))"

section \<open>Hexadecimal round trip\<close>

lemma ascii_slices:
  assumes "list_all (\<lambda>c. c < 128) s"
  shows "n \<le> length s \<Longrightarrow> skip_bytes n s = Some (drop n s)" "n \<le> length s \<Longrightarrow> first_bytes n s = Some (take n s)"
proof -
  have "n \<le> length s \<Longrightarrow> skip_bytes n s = Some (drop n s) \<and> first_bytes n s = Some (take n s)"
    using assms by (induction s arbitrary: n; case_tac n) (auto simp: utf8_len_def)
  then show "n \<le> length s \<Longrightarrow> skip_bytes n s = Some (drop n s)" "n \<le> length s \<Longrightarrow> first_bytes n s = Some (take n s)"
    by blast+
qed

lemma str_len_ascii: "list_all (\<lambda>c. c < 128) s \<Longrightarrow> str_len s = length s"
  by (induction s) (simp_all add: str_len_def utf8_len_def)

lemma to_hex_ascii: "list_all (\<lambda>c. c < 128) (to_hex bs)"
  using hex_encode_ascii by (simp add: to_hex_def hex_encode_def)

lemma length_to_hex: "length (to_hex bs) = 2 * length bs"
  using length_hex_encode by (simp add: to_hex_def hex_encode_def)

lemma to_hex_slice:
  assumes "i < length bs"
  shows "str_slice (i * 2) (i * 2 + 2) (to_hex bs) = Some (fmt_hex2 97 (bs ! i))"
proof -
  have split: "to_hex bs = to_hex (take i bs) @ fmt_hex2 97 (bs ! i) @ to_hex (drop (Suc i) bs)"
    using assms by (metis (no_types, lifting) to_hex_def id_take_nth_drop map_append concat_append list.simps(9) concat.simps(2))
  have "list_all (\<lambda>c. c < 128) (drop (i * 2) (to_hex bs))"
    using to_hex_ascii [of bs] by (metis append_take_drop_id list_all_append)
  moreover have "drop (i * 2) (to_hex bs) = fmt_hex2 97 (bs ! i) @ to_hex (drop (Suc i) bs)"
    using assms by (subst split) (simp add: length_to_hex)
  ultimately show ?thesis
    using assms by (simp add: str_slice_def ascii_slices to_hex_ascii length_to_hex fmt_hex2_def)
qed

lemma parse_hex_loop_to_hex:
  "k \<le> length bs \<Longrightarrow> parse_hex_loop (to_hex bs) [k..<length bs] (take k bs @ replicate (length bs - k) 0) = Inr (Some bs)"
proof (induction "length bs - k" arbitrary: k)
  case (Suc n)
  then have k: "k < length bs" by simp
  have upd: "(take k bs @ replicate (length bs - k) 0)[k := bs ! k] = take (Suc k) bs @ replicate (length bs - Suc k) 0"
    using k by (simp add: list_update_append take_Suc_conv_app_nth Suc_diff_Suc [symmetric, of k])
  have "[k..<length bs] = k # [Suc k..<length bs]" using k by (rule upt_conv_Cons)
  then show ?case
    using k Suc.hyps(1) [of "Suc k"] Suc.hyps(2) upd by (simp add: to_hex_slice [simplified] from_str_radix_hex2)
qed simp

lemma parse_hex_to_hex: "length bs = n \<Longrightarrow> parse_hex n (to_hex bs) = Inr (Some bs)"
  using parse_hex_loop_to_hex [of 0 bs] by (simp add: parse_hex_def str_len_ascii to_hex_ascii length_to_hex)

text \<open>
  The slices are taken by byte offset without regard to character boundaries: four bytes of text with
  an accented letter in the middle make the proxy panic instead of refusing the string.
\<close>

theorem parse_hex_panics: "parse_hex 2 [97, 0xE9, 97] = Panicked"
  by (simp add: parse_hex_def str_len_def utf8_len_def str_slice_def numeral_2_eq_2 upt_rec)

section \<open>Issued tokens are accepted\<close>

lemma issued_token:
  assumes "\<And>parts n. xof c parts n = shake_spec 136 (concat parts) n" and "length drawn = 32" and "length iv = 32"
  shows "token_authentic (get_master_license_key (cloud_license_env c)) (issue_token c drawn iv)"
    and "token_salt (get_master_license_key (cloud_license_env c)) (issue_token c drawn iv) = drawn"
proof -
  show "token_authentic (get_master_license_key (cloud_license_env c)) (issue_token c drawn iv)"
    using assms by (simp add: token_authentic_def issue_token_def Let_def)
  show "token_salt (get_master_license_key (cloud_license_env c)) (issue_token c drawn iv) = drawn"
    using assms by (intro nth_equalityI) (simp_all add: token_salt_def issue_token_def Let_def xor.assoc)
qed

text \<open>
  C9: The licensing protocol end to end.  Whenever the control plane answers a licensing request, the
  renewal step of a proxy that holds the matching master public key and the same licence key accepts the
  answer: it synchronises at the current time and its daily salt is the one the control plane drew.
  Ed25519 is taken to verify what it signs, with signatures of 64 bytes, and the \<open>sha3\<close> crate to
  compute SHAKE-256.
\<close>

theorem licensing_end_to_end:
  assumes sha3: "\<And>parts n. xof c parts n = shake_spec 136 (concat parts) n"
    and "ed25519_correct (cloud_ed c)" and sig: "\<And>m. length (ed_sign (cloud_ed c) (signing_seed c) m) = 64"
    and len: "length drawn = 32" "length iv = 32"
    and answer: "verify_licensing c env drawn iv lic fp db = (Inr resp, db')"
  shows "map_option (map_sum id (\<lambda>m. (last_synced_epoch m, get_daily_salt (salt m))))
           (heartbeat_round (cloud_ed c) (ed_public (cloud_ed c) (signing_seed c)) (get_master_license_key (cloud_license_env c))
              now write_ok (Some resp) mgr)
         = Some (Inr (now, Inr drawn))"
proof -
  let ?token = "issue_token c drawn iv"
  note token = issued_token [OF sha3 len]
  have "resp = \<lparr>resp_token = to_hex ?token, resp_signature = to_hex (cloud_sign c ?token)\<rparr>"
    using answer by (simp add: verify_licensing_def cloud_hex_encode_def to_hex_def Let_def split: prod.splits sum.splits)
  moreover have "length ?token = 80" using token(1) by (simp add: token_authentic_def)
  ultimately show ?thesis
    using assms(2) sig token
    by (simp add: heartbeat_round_def parse_hex_to_hex cloud_sign_def verify_epoch_signature_with_pk_def ed25519_correct_def
        record_sync get_daily_salt_def set_daily_salt_def Let_def)
qed

text \<open>A service whose hash is SHAKE-256 and whose signatures have 64 bytes.\<close>

definition sample_cloud :: cloud where
  "sample_cloud = \<lparr>xof = \<lambda>parts n. shake_spec 136 (concat parts) n,
     cloud_ed = \<lparr>ed_public = id, ed_sign = \<lambda>seed m. shake_spec 136 (seed @ m) 64, ed_key_ok = \<lambda>_. True,
       ed_verify = \<lambda>pk m s. s = shake_spec 136 (pk @ m) 64\<rparr>,
     signing_seed = [1], cloud_license_env = None, base64 = to_hex\<rparr>"

theorem licensing_end_to_end_witness:
  "let env = \<lparr>fetch_ok = True, update_ok = True\<rparr>; db = [[76] \<mapsto> \<lparr>bound_fingerprint = None, is_active = 1\<rparr>] in
   case verify_licensing sample_cloud env (replicate 32 5) (replicate 32 9) [76] [70] db of
     (Inl _, _) \<Rightarrow> False
   | (Inr resp, db') \<Rightarrow>
       map_option (map_sum id (\<lambda>m. (last_synced_epoch m, get_daily_salt (salt m))))
         (heartbeat_round (cloud_ed sample_cloud) (ed_public (cloud_ed sample_cloud) [1]) default_license_key 42 True (Some resp) (hb_start []))
       = Some (Inr (42, Inr (replicate 32 5)))"
proof -
  let ?env = "\<lparr>fetch_ok = True, update_ok = True\<rparr>"
  let ?db = "[[76] \<mapsto> \<lparr>bound_fingerprint = None, is_active = 1\<rparr>] :: clients"
  obtain resp db' where a: "verify_licensing sample_cloud ?env (replicate 32 5) (replicate 32 9) [76] [70] ?db = (Inr resp, db')"
    by (simp add: verify_licensing_def authenticate_client_def auth_lookup_def auth_bind_def Let_def)
  have "ed25519_correct (cloud_ed sample_cloud)" by (simp add: ed25519_correct_def sample_cloud_def)
  moreover have "xof sample_cloud parts n = shake_spec 136 (concat parts) n"
    "length (ed_sign (cloud_ed sample_cloud) (signing_seed sample_cloud) m) = 64" for parts n m
    by (simp_all add: sample_cloud_def)
  moreover have "signing_seed sample_cloud = [1]" "get_master_license_key (cloud_license_env sample_cloud) = default_license_key"
    by (simp_all add: sample_cloud_def get_master_license_key_def)
  ultimately show ?thesis
    using licensing_end_to_end [OF _ _ _ _ _ a, of 42 True "hb_start []"] a by (simp add: Let_def)
qed

section \<open>Trust on first use\<close>

definition bound :: "clients \<Rightarrow> rstr \<Rightarrow> rstr option" where
  "bound db lic = Option.bind (db lic) bound_fingerprint"

lemma authenticate_bound:
  "authenticate_client env lic fp db = (Inr u, db') \<Longrightarrow> bound db' lic = Some fp"
  "authenticate_client env lic fp db = (r, db') \<Longrightarrow> bound db l = Some f \<Longrightarrow> bound db' l = Some f"
  by (auto simp: authenticate_client_def auth_lookup_def auth_bind_def bound_def split: if_splits option.splits)

lemma toggle_bound: "bound (snd (dashboard_toggle_handler env lic db)) l = bound db l"
  by (auto simp: dashboard_toggle_handler_def bound_def Let_def split: option.splits)

lemma register_bound: "bound db l = Some f \<Longrightarrow> bound (snd (dashboard_register_handler env num w1 w2 db)) l = Some f"
  by (auto simp: dashboard_register_handler_def bound_def Let_def)

lemma serve_bound:
  "serve rs db = (db', ok) \<Longrightarrow>
    (\<forall>(l, f) \<in> set ok. \<forall>g. bound db l = Some g \<longrightarrow> f = g) \<and>
    (\<forall>(l, f) \<in> set ok. \<forall>(l', f') \<in> set ok. l = l' \<longrightarrow> f = f')"
proof (induction rs db arbitrary: db' ok rule: serve.induct)
  case (2 lic fp env rs db)
  obtain r db1 where auth: "authenticate_client env lic fp db = (r, db1)" by (cases "authenticate_client env lic fp db")
  obtain db2 ok2 where rest: "serve rs db1 = (db2, ok2)" by (cases "serve rs db1")
  have keep: "bound db l = Some g \<Longrightarrow> bound db1 l = Some g" for l g using authenticate_bound(2) [OF auth] .
  show ?case
  proof (cases r)
    case (Inl code)
    then show ?thesis using 2 auth rest keep by fastforce
  next
    case (Inr u)
    then have "bound db1 lic = Some fp" using authenticate_bound(1) auth by simp
    moreover have "ok = (lic, fp) # ok2" using "2.prems" auth rest Inr by simp
    moreover have "(\<forall>(l, f) \<in> set ok2. \<forall>g. bound db1 l = Some g \<longrightarrow> f = g) \<and>
        (\<forall>(l, f) \<in> set ok2. \<forall>(l', f') \<in> set ok2. l = l' \<longrightarrow> f = f')"
      using "2.IH"(2) [OF auth [symmetric] Inr rest] .
    ultimately show ?thesis using keep by fastforce
  qed
next
  case (4 num w1 w2 env rs db)
  then have "serve rs (snd (dashboard_register_handler env num w1 w2 db)) = (db', ok)" by simp
  from "4.IH" [OF this] show ?case using register_bound [of db] by fastforce
qed (auto simp: toggle_bound)

text \<open>
  C23: Trust on first use is sticky.  Over every sequence of authentications, suspensions and
  registrations handled one after the other, with queries failing at will, no two requests for the
  same licence are let through with different fingerprints.
\<close>

theorem tofu_sticky:
  "case serve rs db of (db', ok) \<Rightarrow> \<not> list_ex (\<lambda>((l, f), (l', f')). l = l' \<and> f \<noteq> f') (List.product ok ok)"
proof (cases "serve rs db")
  case (Pair db' ok)
  from serve_bound [OF this] show ?thesis by (auto simp: Pair list_ex_iff)
qed

text \<open>
  The lookup and the binding are separate queries, and the update does not repeat the test that the
  fingerprint is unset.  When two proxies make their first request for the same licence at the same time and
  both lookups come before both updates, both are served a token; the second is bound and the
  first is refused from then on.
\<close>

theorem tofu_race:
  assumes "db lic = Some c" and "is_active c \<noteq> 0" and "bound_fingerprint c = None" and "fp1 \<noteq> fp2"
  shows "auth_lookup True lic fp1 db = Bind \<and> auth_lookup True lic fp2 db = Bind \<and>
    (case auth_bind True lic fp1 db of (r1, db1) \<Rightarrow> case auth_bind True lic fp2 db1 of (r2, db2) \<Rightarrow>
       r1 = Inr () \<and> r2 = Inr () \<and> auth_lookup True lic fp1 db2 = Deny FORBIDDEN)"
  using assms by (simp add: auth_lookup_def auth_bind_def)

end
