(* ===== verification/KeyStore.thy ===== *)
theory KeyStore
  imports Sign
begin

text \<open>
  Key storage (\<open>hsm.rs\<close>) and the engine it wraps (\<open>crypto/audited_mldsa.rs\<close>): the storage trait as a
  record of operations, the back end on the code's own ML-DSA, the back end on the \<open>ml-dsa\<close> crate with
  its two wrappers, the encrypted key file, and the registry of tenant keys.

  The locale \<open>key_storage\<close> is the contract the proxy relies on: what the store signs verifies under the
  public key it reports.  It is discharged for the code's own back end, for any key material,
  because that back end passes its public key to the verify-before-release guard.  SHA-256,
  AES-256-GCM, \<open>bincode\<close> and the \<open>ml-dsa\<close> crate are parameters.  Page locking has no functional effect.
\<close>

section \<open>Definitions\<close>

datatype KeyStatus = KeyActive | KeyDeprecated | KeyRevoked

text \<open>The trait object: signing may not return, may fail with a message, or panic.\<close>

record KeyStorageBackend =
  backend_name :: rstr
  get_public_key :: "rstr + bytes"
  sign_payload :: "bytes \<Rightarrow> (rstr, bytes) outcome option"
  sign_hedged_payload :: "bytes \<Rightarrow> bytes \<Rightarrow> (rstr, bytes) outcome option"
  key_status :: KeyStatus

definition revoked_message :: rstr where
  "revoked_message = rlit ''Cannot sign with revoked cryptographic key''"

subsection \<open>The back end on the code's own engine\<close>

record SoftwarePinnedMemoryBackend =
  sw_pk :: bytes
  sw_sk :: bytes
  sw_status :: KeyStatus

definition software_generate_new :: "bytes \<Rightarrow> SoftwarePinnedMemoryBackend option" where
  "software_generate_new seed = do { (sk, pk) \<leftarrow> keygen seed; Some \<lparr>sw_pk = pk, sw_sk = sk, sw_status = KeyActive\<rparr> }"

definition software_from_existing :: "bytes \<Rightarrow> bytes \<Rightarrow> SoftwarePinnedMemoryBackend" where
  "software_from_existing pk sk = \<lparr>sw_pk = pk, sw_sk = sk, sw_status = KeyActive\<rparr>"

definition software_set_status :: "KeyStatus \<Rightarrow> SoftwarePinnedMemoryBackend \<Rightarrow> SoftwarePinnedMemoryBackend" where
  "software_set_status status b = b\<lparr>sw_status := status\<rparr>"

definition software_zeroize_keys :: "SoftwarePinnedMemoryBackend \<Rightarrow> SoftwarePinnedMemoryBackend" where
  "software_zeroize_keys b = b\<lparr>sw_sk := replicate 4032 0\<rparr>"

definition software_sign_hedged_payload :: "SoftwarePinnedMemoryBackend \<Rightarrow> bytes \<Rightarrow> bytes \<Rightarrow> (rstr, bytes) outcome option" where
  "software_sign_hedged_payload b message rnd =
    (if sw_status b = KeyRevoked then Some (Err revoked_message)
     else case format_m_prime_pub message [] of
       Inl _ \<Rightarrow> Some Panicked
     | Inr m_prime \<Rightarrow> map_option (map_err (\<lambda>_. Panic)) (sign_internal_with_pk (sw_sk b) m_prime rnd (Some (sw_pk b))))"

definition software_sign_payload :: "(bytes \<Rightarrow> bytes) \<Rightarrow> SoftwarePinnedMemoryBackend \<Rightarrow> bytes \<Rightarrow> (rstr, bytes) outcome option" where
  "software_sign_payload sha256 b message =
    (if sw_status b = KeyRevoked then Some (Err revoked_message)
     else let rnd = sha256 (take 32 (sw_sk b) @ message) in
       case format_m_prime_pub message [] of
         Inl _ \<Rightarrow> Some Panicked
       | Inr m_prime \<Rightarrow> map_option (map_err (\<lambda>_. Panic)) (sign_internal_with_pk (sw_sk b) m_prime rnd (Some (sw_pk b))))"

definition software_backend :: "(bytes \<Rightarrow> bytes) \<Rightarrow> SoftwarePinnedMemoryBackend \<Rightarrow> KeyStorageBackend" where
  "software_backend sha256 b =
    \<lparr>backend_name = rlit ''SoftwarePinnedMemory (Fast-SIMD with RAM-Lock & Zeroization)'',
     get_public_key = Inr (sw_pk b),
     sign_payload = software_sign_payload sha256 b,
     sign_hedged_payload = software_sign_hedged_payload b,
     key_status = sw_status b\<rparr>"

subsection \<open>The audited engine and its back ends\<close>

text \<open>The operations of the \<open>ml-dsa\<close> crate, on keys and signatures as bytes.\<close>

record mldsa_crate =
  cr_from_seed :: "bytes \<Rightarrow> bytes \<times> bytes"
  cr_sign_internal :: "bytes \<Rightarrow> bytes \<Rightarrow> bytes \<Rightarrow> bytes"
  cr_decode_ok :: "bytes \<Rightarrow> bool"
  cr_verify_with_context :: "bytes \<Rightarrow> bytes \<Rightarrow> bytes \<Rightarrow> bytes \<Rightarrow> bool"
  cr_verify_internal :: "bytes \<Rightarrow> bytes \<Rightarrow> bytes \<Rightarrow> bool"

text \<open>Here the context length is cut to a byte, where \<open>nist_api\<close> asserts that it fits.\<close>

definition audited_format_m_prime :: "bytes \<Rightarrow> bytes \<Rightarrow> bytes" where
  "audited_format_m_prime message ctx = [0] @ [word_of_nat (length ctx)] @ ctx @ message"

definition audited_keygen :: "mldsa_crate \<Rightarrow> bytes \<Rightarrow> bytes \<times> bytes" where
  "audited_keygen cr seed = cr_from_seed cr seed"

definition audited_sign_internal_with_sk :: "mldsa_crate \<Rightarrow> bytes \<Rightarrow> bytes \<Rightarrow> bytes \<Rightarrow> bytes" where
  "audited_sign_internal_with_sk cr sk_bytes m_prime rnd = cr_sign_internal cr sk_bytes m_prime rnd"

definition audited_sign_internal_with_seed :: "mldsa_crate \<Rightarrow> bytes \<Rightarrow> bytes \<Rightarrow> bytes \<Rightarrow> bytes" where
  "audited_sign_internal_with_seed cr seed m_prime rnd = cr_sign_internal cr (fst (cr_from_seed cr seed)) m_prime rnd"

definition audited_sign_with_seed :: "mldsa_crate \<Rightarrow> bytes \<Rightarrow> bytes \<Rightarrow> bytes \<Rightarrow> bytes" where
  "audited_sign_with_seed cr seed message rnd =
    cr_sign_internal cr (fst (cr_from_seed cr seed)) (audited_format_m_prime message []) rnd"

definition audited_verify_with_context :: "mldsa_crate \<Rightarrow> bytes \<Rightarrow> bytes \<Rightarrow> bytes \<Rightarrow> bytes \<Rightarrow> bool" where
  "audited_verify_with_context cr pk_bytes message ctx sig_bytes =
    (if \<not> cr_decode_ok cr sig_bytes then False else cr_verify_with_context cr pk_bytes message ctx sig_bytes)"

definition audited_verify :: "mldsa_crate \<Rightarrow> bytes \<Rightarrow> bytes \<Rightarrow> bytes \<Rightarrow> bool" where
  "audited_verify cr pk_bytes message sig_bytes = audited_verify_with_context cr pk_bytes message [] sig_bytes"

definition audited_verify_internal :: "mldsa_crate \<Rightarrow> bytes \<Rightarrow> bytes \<Rightarrow> bytes \<Rightarrow> bool" where
  "audited_verify_internal cr pk_bytes m_prime sig_bytes =
    (if \<not> cr_decode_ok cr sig_bytes then False else cr_verify_internal cr pk_bytes m_prime sig_bytes)"

record AuditedKeyStorageBackend =
  au_pk :: bytes
  au_sk :: bytes
  au_status :: KeyStatus

definition audited_generate_new :: "mldsa_crate \<Rightarrow> bytes \<Rightarrow> AuditedKeyStorageBackend" where
  "audited_generate_new cr seed = (let (sk, pk) = audited_keygen cr seed in \<lparr>au_pk = pk, au_sk = sk, au_status = KeyActive\<rparr>)"

definition audited_from_existing :: "bytes \<Rightarrow> bytes \<Rightarrow> AuditedKeyStorageBackend" where
  "audited_from_existing pk sk = \<lparr>au_pk = pk, au_sk = sk, au_status = KeyActive\<rparr>"

definition audited_set_status :: "KeyStatus \<Rightarrow> AuditedKeyStorageBackend \<Rightarrow> AuditedKeyStorageBackend" where
  "audited_set_status status b = b\<lparr>au_status := status\<rparr>"

definition audited_zeroize_keys :: "AuditedKeyStorageBackend \<Rightarrow> AuditedKeyStorageBackend" where
  "audited_zeroize_keys b = b\<lparr>au_sk := replicate 4032 0\<rparr>"

definition audited_sign_hedged_payload :: "mldsa_crate \<Rightarrow> AuditedKeyStorageBackend \<Rightarrow> bytes \<Rightarrow> bytes \<Rightarrow> (rstr, bytes) outcome option" where
  "audited_sign_hedged_payload cr b message rnd =
    (if au_status b = KeyRevoked then Some (Err revoked_message)
     else Some (Inr (audited_sign_internal_with_sk cr (au_sk b) (audited_format_m_prime message []) rnd)))"

definition audited_sign_payload :: "mldsa_crate \<Rightarrow> (bytes \<Rightarrow> bytes) \<Rightarrow> AuditedKeyStorageBackend \<Rightarrow> bytes \<Rightarrow> (rstr, bytes) outcome option" where
  "audited_sign_payload cr sha256 b message =
    (if au_status b = KeyRevoked then Some (Err revoked_message)
     else let rnd = sha256 (take 32 (au_sk b) @ message) in
       Some (Inr (audited_sign_internal_with_sk cr (au_sk b) (audited_format_m_prime message []) rnd)))"

definition audited_backend :: "mldsa_crate \<Rightarrow> (bytes \<Rightarrow> bytes) \<Rightarrow> AuditedKeyStorageBackend \<Rightarrow> KeyStorageBackend" where
  "audited_backend cr sha256 b =
    \<lparr>backend_name = rlit ''AuditedRustCrypto (FIPS 204 ML-DSA-65 with RAM-Lock & Zeroization)'',
     get_public_key = Inr (au_pk b),
     sign_payload = audited_sign_payload cr sha256 b,
     sign_hedged_payload = audited_sign_hedged_payload cr b,
     key_status = au_status b\<rparr>"

text \<open>The two wrappers delegate everything but their name.\<close>

definition encrypted_file_backend :: "mldsa_crate \<Rightarrow> (bytes \<Rightarrow> bytes) \<Rightarrow> AuditedKeyStorageBackend \<Rightarrow> KeyStorageBackend" where
  "encrypted_file_backend cr sha256 inner =
    (audited_backend cr sha256 inner)\<lparr>backend_name := rlit ''EncryptedFileKeystore (AES-256-GCM with OS RAM-Locking)''\<rparr>"

definition kms_envelope_backend :: "mldsa_crate \<Rightarrow> (bytes \<Rightarrow> bytes) \<Rightarrow> bytes \<Rightarrow> bytes \<Rightarrow> KeyStorageBackend" where
  "kms_envelope_backend cr sha256 pk sk =
    (audited_backend cr sha256 (audited_from_existing pk sk))\<lparr>backend_name := rlit ''KmsEnvelopeBackend (AWS KMS / Vault Root of Trust)''\<rparr>"

subsection \<open>The encrypted key file\<close>

record EncryptedKeystoreFile =
  ks_version :: nat
  ks_salt :: bytes
  ks_nonce :: bytes
  ks_pk :: bytes
  ks_encrypted_sk :: bytes

text \<open>AES-256-GCM (\<open>encrypt key nonce plaintext\<close>; \<open>decrypt\<close> fails on a wrong tag) and \<open>bincode\<close>.\<close>

record file_crypto =
  fc_sha256 :: "bytes \<Rightarrow> bytes"
  fc_encrypt :: "bytes \<Rightarrow> bytes \<Rightarrow> bytes \<Rightarrow> bytes option"
  fc_decrypt :: "bytes \<Rightarrow> bytes \<Rightarrow> bytes \<Rightarrow> bytes option"
  fc_serialize :: "EncryptedKeystoreFile \<Rightarrow> bytes option"
  fc_deserialize :: "bytes \<Rightarrow> EncryptedKeystoreFile option"

definition derive_key :: "(bytes \<Rightarrow> bytes) \<Rightarrow> rstr \<Rightarrow> bytes \<Rightarrow> bytes" where
  "derive_key sha256 passphrase salt =
    fold (\<lambda>i key. sha256 (key @ le_bytes 4 i)) [0..<10000] (sha256 (as_bytes passphrase @ salt))"

datatype keystore_error =
    CorruptedFormat
  | AuthenticationFailure
  | InvalidDimensions
  | EncryptionError
  | SerializationFailed
  | WriteFailed

definition load_keystore :: "file_crypto \<Rightarrow> rstr \<Rightarrow> bytes \<Rightarrow> keystore_error + AuditedKeyStorageBackend" where
  "load_keystore fc passphrase data =
    (case fc_deserialize fc data of
       None \<Rightarrow> Inl CorruptedFormat
     | Some r \<Rightarrow>
         let aes_key = derive_key (fc_sha256 fc) passphrase (ks_salt r) in
         (case fc_decrypt fc aes_key (ks_nonce r) (ks_encrypted_sk r) of
            None \<Rightarrow> Inl AuthenticationFailure
          | Some decrypted_sk \<Rightarrow>
              if length decrypted_sk \<noteq> 4032 \<or> length (ks_pk r) \<noteq> 1952 then Inl InvalidDimensions
              else Inr (audited_from_existing (ks_pk r) decrypted_sk)))"

text \<open>\<open>now_nanos\<close> is the clock, \<open>write_ok\<close> whether the file can be written; the bytes are what is written.\<close>

definition generate_keystore :: "mldsa_crate \<Rightarrow> file_crypto \<Rightarrow> rstr \<Rightarrow> bytes option \<Rightarrow> u64 \<Rightarrow> bool \<Rightarrow> keystore_error + AuditedKeyStorageBackend \<times> bytes" where
  "generate_keystore cr fc passphrase seed now_nanos write_ok =
    (let ts = le_bytes 8 (unat now_nanos);
         actual_seed = (case seed of Some s \<Rightarrow> s | None \<Rightarrow> fc_sha256 fc (as_bytes (rlit ''SOLOMON_DEFAULT_INITIAL_SEED'') @ ts));
         (sk, pk) = audited_keygen cr actual_seed;
         salt = ts @ ts;
         nonce = ts @ replicate 4 0;
         aes_key = derive_key (fc_sha256 fc) passphrase salt
     in case fc_encrypt fc aes_key nonce sk of
          None \<Rightarrow> Inl EncryptionError
        | Some encrypted_sk \<Rightarrow>
            (case fc_serialize fc \<lparr>ks_version = 1, ks_salt = salt, ks_nonce = nonce, ks_pk = pk, ks_encrypted_sk = encrypted_sk\<rparr> of
               None \<Rightarrow> Inl SerializationFailed
             | Some encoded \<Rightarrow> if \<not> write_ok then Inl WriteFailed else Inr (audited_from_existing pk sk, encoded)))"

subsection \<open>The tenant registry\<close>

record 'b TenantKeyRegistry =
  tenants :: "rstr \<rightharpoonup> 'b"
  default_backend :: 'b

definition registry_new :: "'b \<Rightarrow> 'b TenantKeyRegistry" where
  "registry_new backend = \<lparr>tenants = Map.empty, default_backend = backend\<rparr>"

definition register_tenant :: "rstr \<Rightarrow> 'b \<Rightarrow> 'b TenantKeyRegistry \<Rightarrow> 'b TenantKeyRegistry" where
  "register_tenant tenant_id backend r = r\<lparr>tenants := (tenants r)(tenant_id \<mapsto> backend)\<rparr>"

definition get_backend :: "rstr \<Rightarrow> 'b TenantKeyRegistry \<Rightarrow> 'b" where
  "get_backend tenant_id r = (case tenants r tenant_id of Some b \<Rightarrow> b | None \<Rightarrow> default_backend r)"

definition rotate_tenant_key :: "rstr \<Rightarrow> 'b \<Rightarrow> 'b TenantKeyRegistry \<Rightarrow> (rstr + unit) \<times> 'b TenantKeyRegistry" where
  "rotate_tenant_key tenant_id new_backend r = (Inr (), r\<lparr>tenants := (tenants r)(tenant_id \<mapsto> new_backend)\<rparr>)"

definition list_tenants :: "'b TenantKeyRegistry \<Rightarrow> rstr set" where
  "list_tenants r = dom (tenants r)"

datatype 'b registry_op = RegisterTenant rstr 'b | RotateTenantKey rstr 'b

fun registry_apply :: "'b registry_op \<Rightarrow> 'b TenantKeyRegistry \<Rightarrow> 'b TenantKeyRegistry" where
  "registry_apply (RegisterTenant t b) r = register_tenant t b r"
| "registry_apply (RotateTenantKey t b) r = snd (rotate_tenant_key t b r)"

section \<open>The contract of a key store\<close>

text \<open>What the proxy relies on: the public key is available, and a signature that is returned has the size of the
  wire format and verifies.\<close>

locale key_storage =
  fixes ks :: KeyStorageBackend and pk :: bytes
  assumes public_key: "get_public_key ks = Inr pk"
    and signs: "sign_payload ks message = Some (Inr sig) \<Longrightarrow> length sig = 3309 \<and> verify pk message sig = Some (Inr True)"
begin

text \<open>The guard a client runs after signing never rejects.\<close>

lemma guard_passes:
  "(do { r \<leftarrow> sign_payload ks message;
         case r of Inl f \<Rightarrow> Some (Inl f) | Inr sig \<Rightarrow> map_option (map_sum (\<lambda>_. Panic) (\<lambda>ok. (ok, length sig))) (verify pk message sig) })
   = map_option (map_sum id (\<lambda>_. (True, 3309))) (sign_payload ks message)"
proof (cases "sign_payload ks message")
  case (Some r)
  then show ?thesis using signs [of message] by (cases r) auto
qed simp

end

lemma software_sign_verifies:
  assumes "software_sign_payload sha256 b message = Some (Inr sig)"
  shows "length sig = 3309 \<and> verify (sw_pk b) message sig = Some (Inr True)"
proof -
  let ?m = "[0, 0] @ message"
  obtain r where r: "sign_internal_with_pk (sw_sk b) ?m (sha256 (take 32 (sw_sk b) @ message)) (Some (sw_pk b)) = Some r"
    and "map_err (\<lambda>_. Panic :: rstr fault) r = Inr sig"
    using assms by (auto simp: software_sign_payload_def format_m_prime_pub_def Let_def split: if_splits)
  then have "r = Inr sig" by (cases r) simp_all
  then have "length sig = 3309 \<and> verify_internal (sw_pk b) ?m sig = Some True"
    using sign_released [of "Some (sw_pk b)" ?m "sw_sk b" "sha256 (take 32 (sw_sk b) @ message)"] r by simp
  then show ?thesis by (simp add: verify_def verify_ctx_def format_m_prime_def format_m_prime_pub_def)
qed

interpretation software: key_storage "software_backend sha256 b" "sw_pk b" for sha256 b
  by unfold_locales (auto simp: software_backend_def dest: software_sign_verifies)

text \<open>
  C24: Whatever key material the memory-pinned store holds, even a public key that does not belong to
  the secret key, a signature it hands out has 3309 bytes and verifies under the public key it
  reports: the guard the proxy runs after signing changes nothing.
\<close>

theorem software_store_guarded:
  "(do { r \<leftarrow> sign_payload (software_backend sha256 b) message;
         case r of Inl f \<Rightarrow> Some (Inl f)
         | Inr sig \<Rightarrow> map_option (map_sum (\<lambda>_. Panic) (\<lambda>ok. (ok, length sig))) (verify (sw_pk b) message sig) })
   = map_option (map_sum id (\<lambda>_. (True, 3309))) (sign_payload (software_backend sha256 b) message)"
  by (rule software.guard_passes)

text \<open>A revoked key signs nothing, in any of the back ends.\<close>

theorem revoked_never_signs:
  "list_all (\<lambda>k. sign_payload k message = Some (Err revoked_message) \<and> sign_hedged_payload k message rnd = Some (Err revoked_message))
     [software_backend sha256 (software_set_status KeyRevoked b), audited_backend cr sha256 (audited_set_status KeyRevoked a),
      encrypted_file_backend cr sha256 (audited_set_status KeyRevoked a)]"
  by (simp add: software_backend_def audited_backend_def encrypted_file_backend_def software_set_status_def audited_set_status_def
      software_sign_payload_def software_sign_hedged_payload_def audited_sign_payload_def audited_sign_hedged_payload_def)

section \<open>The key file round trip\<close>

text \<open>
  A key file opens with the passphrase it was made with.  If decryption undoes encryption,
  deserialization undoes serialization and the crate's keys have the documented sizes, loading the
  bytes that key generation wrote gives back exactly the key pair it returned.
\<close>

theorem keystore_file_roundtrip:
  assumes aes: "\<And>key nonce m c. fc_encrypt fc key nonce m = Some c \<Longrightarrow> fc_decrypt fc key nonce c = Some m"
    and bincode: "\<And>r bs. fc_serialize fc r = Some bs \<Longrightarrow> fc_deserialize fc bs = Some r"
    and sizes: "\<And>seed. length (fst (cr_from_seed cr seed)) = 4032 \<and> length (snd (cr_from_seed cr seed)) = 1952"
  shows "(case generate_keystore cr fc passphrase seed now_nanos write_ok of
      Inl e \<Rightarrow> True | Inr (b, file_bytes) \<Rightarrow> load_keystore fc passphrase file_bytes = Inr b)"
proof -
  have "load_keystore fc passphrase file_bytes = Inr b"
    if "generate_keystore cr fc passphrase seed now_nanos write_ok = Inr (b, file_bytes)" for b file_bytes
    using that sizes
    by (auto simp: generate_keystore_def load_keystore_def audited_keygen_def audited_from_existing_def Let_def split_beta
        split: option.splits if_splits dest!: aes bincode)
  then show ?thesis by (auto split: sum.split)
qed

text \<open>Parameters that satisfy the hypotheses.\<close>

definition sample_file_crypto :: file_crypto where
  "sample_file_crypto = \<lparr>fc_sha256 = id, fc_encrypt = \<lambda>key nonce m. Some (1 # m),
     fc_decrypt = \<lambda>key nonce c. (if hd c = 1 then Some (tl c) else None),
     fc_serialize = \<lambda>r. (if ks_version r = 1 \<and> length (ks_salt r) = 16 \<and> length (ks_nonce r) = 12 \<and> length (ks_pk r) = 1952
       then Some (ks_salt r @ ks_nonce r @ ks_pk r @ ks_encrypted_sk r) else None),
     fc_deserialize = \<lambda>bs. Some \<lparr>ks_version = 1, ks_salt = take 16 bs, ks_nonce = take 12 (drop 16 bs),
       ks_pk = take 1952 (drop 28 bs), ks_encrypted_sk = drop 1980 bs\<rparr>\<rparr>"

definition sample_crate :: mldsa_crate where
  "sample_crate = \<lparr>cr_from_seed = \<lambda>seed. (replicate 4032 0, replicate 1952 1), cr_sign_internal = \<lambda>sk m rnd. replicate 3309 0,
     cr_decode_ok = \<lambda>_. True, cr_verify_with_context = \<lambda>_ _ _ _. True, cr_verify_internal = \<lambda>_ _ _. True\<rparr>"

theorem keystore_file_roundtrip_witness:
  "\<exists>b file_bytes. generate_keystore sample_crate sample_file_crypto (rlit ''pass'') None 77 True = Inr (b, file_bytes) \<and>
     load_keystore sample_file_crypto (rlit ''pass'') file_bytes = Inr b"
proof -
  let ?g = "generate_keystore sample_crate sample_file_crypto (rlit ''pass'') None 77 True"
  obtain b file_bytes where g: "?g = Inr (b, file_bytes)"
    by (simp add: generate_keystore_def sample_crate_def sample_file_crypto_def audited_keygen_def Let_def)
  have "case ?g of Inl e \<Rightarrow> True | Inr (b, file_bytes) \<Rightarrow> load_keystore sample_file_crypto (rlit ''pass'') file_bytes = Inr b"
    by (rule keystore_file_roundtrip)
       (auto simp: sample_crate_def sample_file_crypto_def split: if_splits)
  then show ?thesis using g by simp
qed

section \<open>Tenants\<close>

fun op_entry :: "'b registry_op \<Rightarrow> rstr \<times> 'b" where
  "op_entry (RegisterTenant t b) = (t, b)"
| "op_entry (RotateTenantKey t b) = (t, b)"

lemma get_backend_apply:
  "get_backend t (registry_apply op r) = (if fst (op_entry op) = t then snd (op_entry op) else get_backend t r)"
  by (cases op; cases "tenants r t") (auto simp: get_backend_def register_tenant_def rotate_tenant_key_def)

text \<open>
  Tenants are isolated.  After any sequence of registrations and rotations, a tenant's key is the
  last one stored for that tenant, and the default if none was; operations of other tenants have no
  effect on it.
\<close>

theorem tenant_isolation:
  "get_backend t (fold registry_apply ops (registry_new d)) =
    (case find (\<lambda>op. fst (op_entry op) = t) (rev ops) of None \<Rightarrow> d | Some op \<Rightarrow> snd (op_entry op))"
  by (induction ops rule: rev_induct) (simp_all add: get_backend_apply, simp add: get_backend_def registry_new_def)

end
