(* ===== verification/ProxyIso.thy ===== *)
theory ProxyIso
  imports Iso8583 Calendar KeyStore Heartbeat AuditLogger "HOL-Library.Sublist"
begin

text \<open>
  The ISO 8583 TCP proxy (\<open>proxy.rs\<close>): the authorization proof, the receiving mode's verify-and-strip,
  the ingress mode's sign-and-inject, the monitor mode, and the session loop with its frames and the
  licence gate.

  A session is a function of the bytes the client sends, of the environment (clock readings, what
  the back end answers to each frame, whether writes to the client succeed) and of the proxy's
  state; its result is the sequence of effects (frames to the client, frames to the back end, audit
  events, batch records) and how it ended.  The anomaly score and tracing have no effect on them and
  do not appear, but feature extraction can panic; the batch queue is recorded as the records offered to it.
\<close>

section \<open>Definitions\<close>

subsection \<open>Authorization proofs\<close>

record ZkAuthorizationProof =
  identity_commitment :: bytes
  attestation_hash :: bytes
  state_commitment :: bytes
  proof_elements :: bytes

definition zk_generate :: "bytes \<Rightarrow> bytes \<Rightarrow> bytes \<Rightarrow> ZkAuthorizationProof option" where
  "zk_generate identity fingerprint sig_hash = do {
     elements \<leftarrow> shake256_of [identity, fingerprint, sig_hash] 32;
     Some \<lparr>identity_commitment = identity, attestation_hash = fingerprint, state_commitment = sig_hash, proof_elements = elements\<rparr>
   }"

definition zk_verify :: "ZkAuthorizationProof \<Rightarrow> bytes \<Rightarrow> bool option" where
  "zk_verify p expected_sig_hash =
    (if state_commitment p \<noteq> expected_sig_hash then Some False
     else do {
       expected \<leftarrow> shake256_of [identity_commitment p, attestation_hash p, state_commitment p] 32;
       Some (proof_elements p = expected)
     })"

subsection \<open>State, effects and errors\<close>

datatype ProxyMode = Ingress | Receiving | MonitorMode

text \<open>
  \<open>field_numbers\<close> are the \<open>pqc_field_number\<close>s of the sponsor banks in the iteration order of the
  configuration's hash map; \<open>audited\<close> is whether an audit logger is configured.
\<close>

record ProxyState =
  proxy_mode :: ProxyMode
  keystore :: KeyStorageBackend
  node_identity :: bytes
  proxy_fingerprint :: bytes
  field_numbers :: "nat list"
  audited :: bool

datatype proxy_error =
    IsoError Iso8583Error
  | StaleField7 rstr
  | MissingPqcField
  | StripFailed
  | PayloadTooShort
  | IdentityMismatch
  | ProofMismatch
  | KeyUnavailable rstr
  | SigningFailed rstr
  | VbrFailure
  | SignatureInvalid
  | EmptyFrame
  | OversizedFrame nat
  | FrameTooLarge nat
  | ReadFailure
  | BackendUnreachable
  | BackendFrameInvalid nat
  | BackendReadFailure
  | ClientWriteFailure

record TransactionRecord =
  tx_payload :: bytes
  tx_public_key :: bytes
  tx_signature :: bytes

datatype effect =
    ToClient bytes
  | ToBackend bytes
  | Audit audit_event
  | Batch TransactionRecord

definition ISO_MAX_PACKET_BYTES :: nat where "ISO_MAX_PACKET_BYTES = 32768"

subsection \<open>Receiving mode: verify and strip\<close>

text \<open>The replay guard on field 7 of the request messages 01xx and 02xx.\<close>

definition is_request :: "Iso8583Message \<Rightarrow> bool" where
  "is_request m \<longleftrightarrow> mti m ! 0 = 0x30 \<and> (mti m ! 1 = 0x31 \<or> mti m ! 1 = 0x32)"

definition stale_field7 :: "u64 \<Rightarrow> Iso8583Message \<Rightarrow> rstr option" where
  "stale_field7 now m =
    (if is_request m
     then (case get_field_str 7 m of
         None \<Rightarrow> None
       | Some f7_str \<Rightarrow> if \<not> is_field7_fresh f7_str now 120 then Some f7_str else None)
     else None)"

definition pqc_field_of :: "Iso8583Message \<Rightarrow> nat option" where
  "pqc_field_of m = (if has_field 112 m then Some 112 else if has_field 123 m then Some 123 else None)"

text \<open>The last check: the signature, when the payload is long enough to hold one.\<close>

definition check_signature :: "ProxyState \<Rightarrow> bytes \<Rightarrow> bytes \<Rightarrow> (proxy_error, bytes) outcome option" where
  "check_signature st payload clean =
    (if 128 + 3309 \<le> length payload
     then (case get_public_key (keystore st) of
         Inl e \<Rightarrow> Some (Err (KeyUnavailable e))
       | Inr pk \<Rightarrow> map_option (\<lambda>r. case r of
           Inl _ \<Rightarrow> Panicked
         | Inr ok \<Rightarrow> if ok then Inr clean else Err SignatureInvalid)
           (verify pk clean (take 3309 (drop 128 payload))))
     else Some (Inr clean))"

definition process_receiving_iso8583_message :: "ProxyState \<Rightarrow> u64 \<Rightarrow> bytes \<Rightarrow> (proxy_error, bytes) outcome option" where
  "process_receiving_iso8583_message st now packet_buf =
    (case parse packet_buf of
       Inl f \<Rightarrow> Some (Inl (map_fault_fn IsoError f))
     | Inr iso_msg \<Rightarrow>
     (case stale_field7 now iso_msg of
        Some f7_str \<Rightarrow> Some (Err (StaleField7 f7_str))
      | None \<Rightarrow>
      (case pqc_field_of iso_msg of
         None \<Rightarrow> Some (Err MissingPqcField)
       | Some pqc_field_num \<Rightarrow>
       (case strip_pqc_field pqc_field_num iso_msg of
          (None, _) \<Rightarrow> Some (Err StripFailed)
        | (Some pqc_payload, stripped) \<Rightarrow>
            if length pqc_payload < 128 then Some (Err PayloadTooShort)
            else let identity = take 32 pqc_payload;
                     attestation = take 32 (drop 32 pqc_payload);
                     commitment = take 32 (drop 64 pqc_payload);
                     elements = take 32 (drop 96 pqc_payload)
              in if identity \<noteq> node_identity st then Some (Err IdentityMismatch)
                 else do {
                   expected_proof \<leftarrow> shake256_of [identity, attestation, commitment] 32;
                   if ct_diff 32 elements expected_proof \<noteq> 0 then Some (Err ProofMismatch)
                   else check_signature st pqc_payload (serialize stripped)
                 }))))"

subsection \<open>Ingress mode: sign and inject\<close>

definition error_reply :: "bytes \<Rightarrow> bytes \<Rightarrow> Iso8583Message" where
  "error_reply m code = set_field 39 code (new_message m)"

text \<open>The reply to a stale request: its class with function 10, the trace number echoed, code 94.\<close>

definition stale_reply :: "Iso8583Message \<Rightarrow> Iso8583Message" where
  "stale_reply m =
    (let resp = new_message [mti m ! 0, mti m ! 1, 0x31, 0x30];
         resp = (case get_field 11 m of Some stan \<Rightarrow> set_field 11 stan resp | None \<Rightarrow> resp)
     in set_field 39 [0x39, 0x34] resp)"

text \<open>Signing with the verify-before-release guard.\<close>

definition sign_guarded :: "ProxyState \<Rightarrow> bytes \<Rightarrow> (proxy_error, bytes \<times> bytes) outcome option" where
  "sign_guarded st raw =
    (case get_public_key (keystore st) of
       Inl e \<Rightarrow> Some (Err (KeyUnavailable e))
     | Inr pk \<Rightarrow> do {
         r \<leftarrow> sign_payload (keystore st) raw;
         case r of
           Inl f \<Rightarrow> Some (Inl (map_fault_fn SigningFailed f))
         | Inr sig \<Rightarrow> do {
             v \<leftarrow> verify pk raw sig;
             case v of
               Inl _ \<Rightarrow> Some Panicked
             | Inr ok \<Rightarrow> Some (if ok then Inr (sig, pk) else Err VbrFailure)
           }
       })"

text \<open>
  Feature extraction for the anomaly score takes a slice of field 7 of whatever parses as a message: the one way it can panic.  The score itself
  is only logged.
\<close>

definition extract_features_panics :: "bytes \<Rightarrow> bool" where
  "extract_features_panics payload =
    (case parse payload of
       Inl f \<Rightarrow> f = Panic
     | Inr msg \<Rightarrow> (case get_field_str 7 msg of
         None \<Rightarrow> False
       | Some s \<Rightarrow> 10 \<le> str_len s \<and> str_slice 8 10 s = None))"

definition proof_payload :: "ProxyState \<Rightarrow> bytes \<Rightarrow> bytes option" where
  "proof_payload st sig = do {
     sig_hash \<leftarrow> shake256_of [sig] 32;
     p \<leftarrow> zk_generate (node_identity st) (proxy_fingerprint st) sig_hash;
     Some (identity_commitment p @ attestation_hash p @ state_commitment p @ proof_elements p @ sig)
   }"

definition ingress_audit_event :: "Iso8583Message \<Rightarrow> audit_event" where
  "ingress_audit_event m =
    \<lparr>ev_id = rlit ''ISO-TX-'' @ (case get_field_str 11 m of Some s \<Rightarrow> s | None \<Rightarrow> rlit ''000000''),
     ev_route = rlit ''tcs_bancs_switch'',
     ev_profile = \<lparr>algorithm_suite = rlit ''FIPS-204-ML-DSA-65'', hybrid_verified = True, starks_proven = False, proof_latency_ms = 0\<rparr>,
     ev_region = rlit ''ap-south-1'', ev_action = SuccessForwarded\<rparr>"

datatype ingress_result =
    StaleRequest "Iso8583Message"
  | Enriched "Iso8583Message" TransactionRecord

definition ingress_message :: "ProxyState \<Rightarrow> u64 \<Rightarrow> bytes \<Rightarrow> (proxy_error, ingress_result) outcome option" where
  "ingress_message st now packet_buf =
    (case parse packet_buf of
       Inl f \<Rightarrow> Some (Inl (map_fault_fn IsoError f))
     | Inr iso_msg \<Rightarrow>
     (case stale_field7 now iso_msg of
        Some _ \<Rightarrow> Some (Inr (StaleRequest (stale_reply iso_msg)))
      | None \<Rightarrow>
        let raw_iso_bytes = serialize iso_msg in do {
          r \<leftarrow> sign_guarded st raw_iso_bytes;
          case r of
            Inl f \<Rightarrow> Some (Inl f)
          | Inr (sig, pk) \<Rightarrow> if extract_features_panics raw_iso_bytes then Some Panicked else do {
              payload \<leftarrow> proof_payload st sig;
              let pqc_field_num = (case field_numbers st of [] \<Rightarrow> 112 | n # _ \<Rightarrow> n);
              Some (Inr (Enriched (inject_pqc_field pqc_field_num payload iso_msg)
                \<lparr>tx_payload = raw_iso_bytes, tx_public_key = pk, tx_signature = sig\<rparr>))
            }
        }))"

subsection \<open>The session\<close>

text \<open>
  The environment of a session, by the number of the frame: the clock, whether the back end can be
  reached, the bytes it answers to a frame, whether a write to the client succeeds.
  \<open>input_end\<close> is what the client's stream does after its bytes.
\<close>

datatype input_end = EndOfStream | IdleTimeout | StreamError

record session_env =
  clock :: "nat \<Rightarrow> u64"
  connects :: "nat \<Rightarrow> bool"
  backend :: "nat \<Rightarrow> bytes \<Rightarrow> bytes"
  client_ok :: "nat \<Rightarrow> bool"
  stream_end :: input_end

datatype session_end = Closed | Failed proxy_error | SessionPanic

text \<open>The answer of the back end: a two-byte length within bounds, and that many bytes.\<close>

definition read_backend :: "bytes \<Rightarrow> proxy_error + bytes" where
  "read_backend answer =
    (if length answer < 2 then Inl BackendReadFailure
     else let n = from_be (take 2 answer) in
       if n = 0 \<or> n > ISO_MAX_PACKET_BYTES then Inl (BackendFrameInvalid n)
       else if length answer < 2 + n then Inl BackendReadFailure
       else Inr (take (2 + n) answer))"

text \<open>Send a frame to the back end and relay the answer: the effects, and the end if the session ends here.\<close>

definition relay :: "session_env \<Rightarrow> nat \<Rightarrow> bytes \<Rightarrow> effect list \<times> session_end option" where
  "relay env k frame =
    (if \<not> connects env k then ([], Some (Failed BackendUnreachable))
     else case read_backend (backend env k frame) of
       Inl e \<Rightarrow> ([ToBackend frame], Some (Failed e))
     | Inr out \<Rightarrow>
         if client_ok env k then ([ToBackend frame, ToClient out], None)
         else ([ToBackend frame], Some (Failed ClientWriteFailure)))"

text \<open>A reply of the proxy itself; whether it reaches the client is ignored.\<close>

definition reply :: "session_env \<Rightarrow> nat \<Rightarrow> Iso8583Message \<Rightarrow> effect list \<times> session_end option" where
  "reply env k m =
    (case serialize_tcp_framed m of
       Inl Panic \<Rightarrow> ([], Some SessionPanic)
     | Inl (Fail e) \<Rightarrow> ([], Some (Failed (IsoError e)))
     | Inr framed \<Rightarrow> (if client_ok env k then [ToClient framed] else [], None))"

fun end_of_fault :: "proxy_error fault \<Rightarrow> session_end" where
  "end_of_fault Panic = SessionPanic"
| "end_of_fault (Fail e) = Failed e"

definition ingress_frame :: "ProxyState \<Rightarrow> session_env \<Rightarrow> nat \<Rightarrow> bytes \<Rightarrow> (effect list \<times> session_end option) option" where
  "ingress_frame st env k packet_buf =
    map_option (\<lambda>r. case r of
        Inl f \<Rightarrow> ([], Some (end_of_fault f))
      | Inr (StaleRequest m) \<Rightarrow> reply env k m
      | Inr (Enriched m tx) \<Rightarrow>
          let before = Batch tx # (if audited st then [Audit (ingress_audit_event m)] else []) in
          if \<not> connects env k then (before, Some (Failed BackendUnreachable))
          else (case serialize_tcp_framed m of
             Inl Panic \<Rightarrow> (before, Some SessionPanic)
           | Inl (Fail e) \<Rightarrow> (before, Some (Failed (IsoError e)))
           | Inr framed \<Rightarrow> (case relay env k framed of (es, e) \<Rightarrow> (before @ es, e))))
      (ingress_message st (clock env k) packet_buf)"

definition receiving_frame :: "ProxyState \<Rightarrow> session_env \<Rightarrow> nat \<Rightarrow> bytes \<Rightarrow> (effect list \<times> session_end option) option" where
  "receiving_frame st env k packet_buf =
    map_option (\<lambda>r. case r of
        Inl Panic \<Rightarrow> ([], Some SessionPanic)
      | Inl (Fail _) \<Rightarrow> reply env k (error_reply [0x30, 0x32, 0x31, 0x30] [0x39, 0x36])
      | Inr clean \<Rightarrow>
          if length clean > 65535 then ([], Some (Failed (FrameTooLarge (length clean))))
          else relay env k (be_bytes 2 (length clean) @ clean))
      (process_receiving_iso8583_message st (clock env k) packet_buf)"

text \<open>The monitor's shadow path only produces a log line, but it does sign, and may panic.\<close>

definition shadow_path :: "ProxyState \<Rightarrow> bytes \<Rightarrow> (proxy_error, nat) outcome option" where
  "shadow_path st packet_buf =
    (case parse packet_buf of
       Inl f \<Rightarrow> Some (Inl (map_fault_fn IsoError f))
     | Inr iso_msg \<Rightarrow> do {
         r \<leftarrow> sign_guarded st (serialize iso_msg);
         case r of
           Inl f \<Rightarrow> Some (Inl f)
         | Inr (sig, pk) \<Rightarrow> do { payload \<leftarrow> proof_payload st sig; Some (Inr (length sig)) }
       })"

definition monitor_frame :: "ProxyState \<Rightarrow> session_env \<Rightarrow> nat \<Rightarrow> bytes \<Rightarrow> bytes \<Rightarrow> (effect list \<times> session_end option) option" where
  "monitor_frame st env k len_buf packet_buf =
    map_option (\<lambda>r. case r of
        Inl Panic \<Rightarrow> ([], Some SessionPanic)
      | _ \<Rightarrow> relay env k (len_buf @ packet_buf))
      (shadow_path st packet_buf)"

definition serve_frame :: "ProxyState \<Rightarrow> session_env \<Rightarrow> nat \<Rightarrow> bytes \<Rightarrow> bytes \<Rightarrow> (effect list \<times> session_end option) option" where
  "serve_frame st env k len_buf packet_buf =
    (case proxy_mode st of
       Ingress \<Rightarrow> ingress_frame st env k packet_buf
     | Receiving \<Rightarrow> receiving_frame st env k packet_buf
     | MonitorMode \<Rightarrow> monitor_frame st env k len_buf packet_buf)"

fun session :: "ProxyState \<Rightarrow> session_env \<Rightarrow> nat \<Rightarrow> bytes \<Rightarrow> (effect list \<times> session_end) option" where
  "session st env k inp =
    (if length inp < 2
     then Some ([], if stream_end env = StreamError then Failed ReadFailure else Closed)
     else let packet_len = from_be (take 2 inp) in
       if packet_len = 0 then Some ([], Failed EmptyFrame)
       else if packet_len > ISO_MAX_PACKET_BYTES then Some ([], Failed (OversizedFrame packet_len))
       else if length inp < 2 + packet_len then Some ([], Failed ReadFailure)
       else (case serve_frame st env k (take 2 inp) (take packet_len (drop 2 inp)) of
           None \<Rightarrow> None
         | Some (es, Some e) \<Rightarrow> Some (es, e)
         | Some (es, None) \<Rightarrow>
             map_option (\<lambda>(es', e). (es @ es', e)) (session st env (k + 1) (drop (2 + packet_len) inp))))"

declare session.simps [simp del]

definition handle_iso8583_tcp_connection :: "ProxyState \<Rightarrow> heartbeat \<Rightarrow> session_env \<Rightarrow> bytes \<Rightarrow> (effect list \<times> session_end) option" where
  "handle_iso8583_tcp_connection st mgr env inp =
    (if \<not> is_operational (clock env 0) mgr \<and> proxy_mode st \<noteq> MonitorMode
     then Some (case reply env 0 (error_reply [0x30, 0x32, 0x31, 0x30] [0x39, 0x31]) of
         (es, None) \<Rightarrow> (es, Closed) | (es, Some e) \<Rightarrow> (es, e))
     else session st env 0 inp)"

text \<open>The frames that reach the back end.\<close>

fun sent :: "effect list \<Rightarrow> bytes list" where
  "sent [] = []"
| "sent (ToBackend f # es) = f # sent es"
| "sent (ToClient _ # es) = sent es"
| "sent (Audit _ # es) = sent es"
| "sent (Batch _ # es) = sent es"

section \<open>What the receiving mode accepts\<close>

lemma sent_append [simp]: "sent (es @ fs) = sent es @ sent fs"
  by (induction es rule: sent.induct) simp_all

lemma check_signature_ok:
  "check_signature st payload clean = Some (Inr out) \<longleftrightarrow> out = clean \<and>
    (length payload < 3437 \<or> (\<exists>pk. get_public_key (keystore st) = Inr pk \<and> verify pk clean (take 3309 (drop 128 payload)) = Some (Inr True)))"
proof (cases "length payload < 3437")
  case True
  then show ?thesis by (auto simp: check_signature_def)
next
  case False
  show ?thesis
  proof (cases "get_public_key (keystore st)")
    case (Inr pk)
    then show ?thesis using False
      by (cases "verify pk clean (take 3309 (drop 128 payload))") (auto simp: check_signature_def split: sum.splits)
  qed (use False in \<open>simp add: check_signature_def\<close>)
qed

lemma payload_parts:
  "take 32 payload = identity \<Longrightarrow> identity @ take 32 (drop 32 payload) @ take 32 (drop 64 payload) = take 96 payload"
  using take_add [of 32 64 payload] take_add [of 32 32 "drop 32 payload"] by simp

lemma strip_pair: "strip_pqc_field f m = (msg_fields m f, m\<lparr>msg_fields := (msg_fields m)(f := None)\<rparr>)"
  by (simp add: strip_pqc_field_def remove_field_def)

lemma accepts_iff:
  "process_receiving_iso8583_message st now packet = Some (Inr clean) \<longleftrightarrow>
    (\<exists>m f payload. parse packet = Inr m \<and> stale_field7 now m = None \<and> pqc_field_of m = Some f \<and> msg_fields m f = Some payload \<and>
       128 \<le> length payload \<and> take 32 payload = node_identity st \<and>
       take 32 (drop 96 payload) = shake_spec 136 (take 96 payload) 32 \<and>
       clean = serialize (m\<lparr>msg_fields := (msg_fields m)(f := None)\<rparr>) \<and>
       (length payload < 3437 \<or>
        (\<exists>pk. get_public_key (keystore st) = Inr pk \<and> verify pk clean (take 3309 (drop 128 payload)) = Some (Inr True))))"
  by (auto simp: process_receiving_iso8583_message_def strip_pair shake256_of_spec ct_diff_zero check_signature_ok
      payload_parts Let_def not_less split: sum.splits option.splits if_splits)

text \<open>
  C10: What the receiving proxy lets through to the core banking host, exactly: the packet parses, its
  field 7 is fresh if it is a request that has one, field 112 (or else 123) holds at least 128 bytes that
  start with this node's identity and carry the right hash, the result is the serialization of the
  message without that field, and the ML-DSA signature verifies over it if the field has room for
  one.  A field of 128 to 3436 bytes is not asked for a signature.
\<close>

theorem receiving_accepts_iff:
  "process_receiving_iso8583_message st now packet = Some (Inr clean) \<longleftrightarrow>
    (\<exists>m f payload. parse packet = Inr m \<and> stale_field7 now m = None \<and> pqc_field_of m = Some f \<and> msg_fields m f = Some payload \<and>
       128 \<le> length payload \<and> take 32 payload = node_identity st \<and>
       take 32 (drop 96 payload) = shake_spec 136 (take 96 payload) 32 \<and>
       clean = serialize (m\<lparr>msg_fields := (msg_fields m)(f := None)\<rparr>) \<and>
       (length payload < 3437 \<or>
        (\<exists>pk. get_public_key (keystore st) = Inr pk \<and> verify pk clean (take 3309 (drop 128 payload)) = Some (Inr True))))"
  by (rule accepts_iff)

text \<open>A proxy and a network management message used as concrete instances.\<close>

definition sample_proxy :: ProxyState where
  "sample_proxy = \<lparr>proxy_mode = Ingress,
     keystore = software_backend id \<lparr>sw_pk = replicate 1952 0, sw_sk = replicate 4032 0, sw_status = KeyActive\<rparr>,
     node_identity = replicate 32 1, proxy_fingerprint = replicate 32 2, field_numbers = [112, 123], audited = False\<rparr>"

definition sample_message :: Iso8583Message where
  "sample_message = new_message [0x30, 0x38, 0x30, 0x30]"

lemma sample_message_ok:
  "wf_message sample_message" "norm_message sample_message = sample_message" "\<not> has_field 112 sample_message"
  "\<not> has_field 123 sample_message" "stale_field7 now sample_message = None" "parse (serialize sample_message) = Inr sample_message"
proof -
  show wf: "wf_message sample_message"
    by (simp add: sample_message_def wf_message_def new_message_def is_ascii_digit_def in_rng_def)
  show norm: "norm_message sample_message = sample_message"
    by (simp add: sample_message_def norm_message_def new_message_def fun_eq_iff)
  show "\<not> has_field 112 sample_message" "\<not> has_field 123 sample_message" "stale_field7 now sample_message = None"
    by (simp_all add: sample_message_def has_field_def new_message_def stale_field7_def is_request_def)
  show "parse (serialize sample_message) = Inr sample_message"
    using parse_serialize_hex_lemma [OF wf] norm by (simp add: serialize_def)
qed

lemma inject_parses:
  assumes "wf_message m" and "norm_message m = m" and "f = 112 \<or> f = 123" and "length payload \<le> 9999"
  shows "parse (serialize (inject_pqc_field f payload m)) = Inr (inject_pqc_field f payload m)"
proof -
  let ?i = "inject_pqc_field f payload m"
  have wf: "wf_message ?i" using assms(1,3) by (auto simp: inject_pqc_field_def set_field_def wf_message_def)
  have fits: "field_norm f payload = payload"
    using assms(3,4) by (auto simp: field_norm_def get_field_type_def field_table_def)
  have normal: "(if 2 \<le> x \<and> x \<le> 128 then map_option (field_norm x) (msg_fields m x) else None) = msg_fields m x" for x
    using arg_cong [OF assms(2), of "\<lambda>m. msg_fields m x"] by (simp add: norm_message_def)
  have "msg_fields (norm_message ?i) x = msg_fields ?i x" for x
    using assms(3) fits normal [of x] by (auto simp: inject_pqc_field_def set_field_def norm_message_def)
  then have "norm_message ?i = ?i" by (intro Iso8583Message.equality ext) (simp_all add: norm_message_def)
  then show ?thesis using parse_serialize_hex_lemma [OF wf] by (simp add: serialize_def)
qed

lemma injected_fields:
  assumes "f = 112 \<or> f = 123" and "\<not> has_field 112 m" and "\<not> has_field 123 m"
  shows "pqc_field_of (inject_pqc_field f payload m) = Some f" "msg_fields (inject_pqc_field f payload m) f = Some payload"
    "(inject_pqc_field f payload m)\<lparr>msg_fields := (msg_fields (inject_pqc_field f payload m))(f := None)\<rparr> = m"
  using assms by (cases m; auto simp: pqc_field_of_def has_field_def inject_pqc_field_def set_field_def fun_eq_iff)+

lemma injected_stale: "f = 112 \<or> f = 123 \<Longrightarrow> stale_field7 now (inject_pqc_field f payload m) = stale_field7 now m"
  by (auto simp: inject_pqc_field_def set_field_def stale_field7_def is_request_def get_field_str_def get_field_def)

text \<open>
  The signature is optional.  Any message in normal form without a PQC field is let through once a field
  112 of 128 bytes is added that anyone can compute: the node identity (which every earlier message
  shows), 64 bytes of choice, and their hash.  No key is involved.
\<close>

theorem unsigned_message_accepted:
  assumes "wf_message m" and "norm_message m = m" and "\<not> has_field 112 m" and "\<not> has_field 123 m" and "stale_field7 now m = None"
    and "length (node_identity st) = 32" and "length x = 64"
  shows "process_receiving_iso8583_message st now
      (serialize (inject_pqc_field 112 (node_identity st @ x @ shake_spec 136 (node_identity st @ x) 32) m))
    = Some (Inr (serialize m))"
proof -
  let ?p = "node_identity st @ x @ shake_spec 136 (node_identity st @ x) 32"
  have len: "length ?p = 128" using assms(6,7) by simp
  have "parse (serialize (inject_pqc_field 112 ?p m)) = Inr (inject_pqc_field 112 ?p m)"
    using assms(1,2) len by (intro inject_parses) simp_all
  then show ?thesis
    unfolding accepts_iff using injected_fields [of 112 m ?p] injected_stale [of 112 now ?p m] assms(3-7)
    by (intro exI [of _ "inject_pqc_field 112 ?p m"] exI [of _ 112] exI [of _ ?p]) simp
qed

theorem unsigned_message_accepted_witness:
  "process_receiving_iso8583_message sample_proxy 5
      (serialize (inject_pqc_field 112 (node_identity sample_proxy @ replicate 64 3 @ shake_spec 136 (node_identity sample_proxy @ replicate 64 3) 32) sample_message))
    = Some (Inr (serialize sample_message))"
  by (rule unsigned_message_accepted) (simp_all add: sample_message_ok sample_proxy_def)

section \<open>From ingress to receiving\<close>

lemma proof_payload_spec:
  "proof_payload st sig = Some (let c = node_identity st @ proxy_fingerprint st @ shake_spec 136 sig 32 in c @ shake_spec 136 c 32 @ sig)"
  by (simp add: proof_payload_def zk_generate_def shake256_of_spec Let_def)

lemma sign_guarded_ok:
  "sign_guarded st raw = Some (Inr (sig, pk)) \<longleftrightarrow>
    get_public_key (keystore st) = Inr pk \<and> sign_payload (keystore st) raw = Some (Inr sig) \<and> verify pk raw sig = Some (Inr True)"
proof (cases "get_public_key (keystore st)")
  case (Inr pk')
  show ?thesis
  proof (cases "sign_payload (keystore st) raw")
    case (Some r)
    then show ?thesis
    proof (cases r)
      case (Inr sig')
      then show ?thesis using Some \<open>get_public_key (keystore st) = Inr pk'\<close>
        by (cases "verify pk' raw sig'") (auto simp: sign_guarded_def split: sum.split)
    qed (simp add: Inr sign_guarded_def)
  qed (simp add: Inr sign_guarded_def)
qed (simp add: sign_guarded_def)

lemma ingress_enriched:
  assumes "ingress_message st now packet = Some (Inr (Enriched m' tx))"
  obtains m sig pk where "parse packet = Inr m" and "stale_field7 now m = None"
    and "sign_guarded st (serialize m) = Some (Inr (sig, pk))"
    and "m' = inject_pqc_field (case field_numbers st of [] \<Rightarrow> 112 | n # _ \<Rightarrow> n)
           (let c = node_identity st @ proxy_fingerprint st @ shake_spec 136 sig 32 in c @ shake_spec 136 c 32 @ sig) m"
proof (cases "parse packet")
  case (Inr m)
  with assms have fresh: "stale_field7 now m = None" by (auto simp: ingress_message_def split: option.splits)
  show ?thesis
  proof (cases "sign_guarded st (serialize m)")
    case None
    then show ?thesis using assms Inr fresh by (simp add: ingress_message_def Let_def)
  next
    case (Some r)
    then show ?thesis using assms Inr fresh that
      by (cases r) (auto simp: ingress_message_def proof_payload_spec Let_def split: if_splits)
  qed
qed (use assms in \<open>simp add: ingress_message_def\<close>)

context key_storage
begin

lemma ingress_receiving:
  assumes ingress: "ingress_message st now packet = Some (Inr (Enriched m' tx))" and ks: "keystore st = ks"
    and parsed: "parse packet = Inr m" and plain: "\<not> has_field 112 m" "\<not> has_field 123 m"
    and field: "field_numbers st = f # fs" "f = 112 \<or> f = 123"
    and sizes: "length (node_identity st) = 32" "length (proxy_fingerprint st) = 32"
    and peer: "node_identity st' = node_identity st" "get_public_key (keystore st') = Inr pk"
    and fresh: "stale_field7 now' m = None"
  shows "process_receiving_iso8583_message st' now' (serialize m') = Some (Inr (serialize m))"
proof -
  obtain sig pk' where sign: "sign_guarded st (serialize m) = Some (Inr (sig, pk'))"
    and m': "m' = inject_pqc_field f (let c = node_identity st @ proxy_fingerprint st @ shake_spec 136 sig 32 in c @ shake_spec 136 c 32 @ sig) m"
    using ingress_enriched [OF ingress] parsed field(1) by (metis list.simps(5) sum.inject(2))
  let ?c = "node_identity st @ proxy_fingerprint st @ shake_spec 136 sig 32"
  let ?p = "?c @ shake_spec 136 ?c 32 @ sig"
  have sg: "sign_payload ks (serialize m) = Some (Inr sig)" using sign ks by (simp add: sign_guarded_ok)
  have len: "length sig = 3309" "length ?c = 96" using signs [OF sg] sizes by auto
  then have "parse (serialize m') = Inr m'"
    unfolding m' Let_def using field(2) parse_normal_lemma [OF parsed] by (intro inject_parses) simp_all
  then show ?thesis
    unfolding accepts_iff using injected_fields [OF field(2) plain, of ?p] injected_stale [OF field(2), of now' ?p m] fresh peer signs [OF sg] len
    by (intro exI [of _ m'] exI [of _ f] exI [of _ ?p]) (simp add: m' sizes)
qed

end



text \<open>A network management message whose field 7 has a character across the eighth byte.\<close>

definition multibyte_message :: Iso8583Message where
  "multibyte_message = set_field 7 (replicate 7 0x30 @ [0xC3, 0xA9, 0x30]) sample_message"

lemma multibyte_ok:
  "parse (serialize multibyte_message) = Inr multibyte_message" "stale_field7 now multibyte_message = None"
  "extract_features_panics (serialize multibyte_message)"
proof -
  have wf: "wf_message multibyte_message"
    by (simp add: multibyte_message_def sample_message_def set_field_def wf_message_def new_message_def is_ascii_digit_def in_rng_def)
  have "norm_message multibyte_message = multibyte_message"
    by (simp add: multibyte_message_def sample_message_def set_field_def norm_message_def new_message_def field_norm_def get_field_type_def field_table_def fun_eq_iff)
  then show p: "parse (serialize multibyte_message) = Inr multibyte_message"
    using parse_serialize_hex_lemma [OF wf] by (simp add: serialize_def)
  show "stale_field7 now multibyte_message = None"
    by (simp add: multibyte_message_def sample_message_def set_field_def new_message_def stale_field7_def is_request_def)
  have "from_utf8 (replicate 7 0x30 @ [0xC3, 0xA9, 0x30]) = Some (replicate 7 48 @ [233, 48])" by code_simp
  moreover have "str_len (replicate 7 48 @ [233, 48]) = 10" "str_slice 8 10 (replicate 7 48 @ [233, 48]) = None"
    by (simp_all add: str_len_def str_slice_def utf8_len_def eval_nat_numeral)
  ultimately show "extract_features_panics (serialize multibyte_message)"
    unfolding extract_features_panics_def p by (simp add: get_field_str_def get_field_def multibyte_message_def set_field_def)
qed

text \<open>
  Such a message ends its connection: the freshness guard skips a network management message, the signature is made, and then feature
  extraction panics, so nothing is forwarded and nothing is answered.
\<close>

theorem multibyte_field7_panics:
  "ingress_message st now (serialize multibyte_message)
    = map_option (\<lambda>r. case r of Inl f \<Rightarrow> Inl f | Inr _ \<Rightarrow> Panicked) (sign_guarded st (serialize multibyte_message))"
  by (cases "sign_guarded st (serialize multibyte_message)")
    (simp_all add: ingress_message_def multibyte_ok Let_def split: sum.split)

section \<open>Sessions\<close>

lemma relay_cases:
  "relay env k frame = (es, None) \<Longrightarrow> sent es = [frame]"
  "relay env k frame = (es, e) \<Longrightarrow> sent es = [] \<or> sent es = [frame]"
  by (auto simp: relay_def split: if_splits sum.splits)

lemma reply_sent: "reply env k m = (es, e) \<Longrightarrow> sent es = []"
  by (auto simp: reply_def split: sum.splits fault.splits if_splits)

text \<open>A session consists of complete frames served one after the other.\<close>

lemma session_cases:
  assumes "session st env k inp = Some (es, e)"
  obtains (stop) "es = []"
  | (last) n e' where "2 + n \<le> length inp" "n = from_be (take 2 inp)" "serve_frame st env k (take 2 inp) (take n (drop 2 inp)) = Some (es, Some e')"
  | (more) n es1 es2 where "2 + n \<le> length inp" "n = from_be (take 2 inp)"
      "serve_frame st env k (take 2 inp) (take n (drop 2 inp)) = Some (es1, None)"
      "session st env (k + 1) (drop (2 + n) inp) = Some (es2, e)" "es = es1 @ es2"
proof -
  let ?n = "from_be (take 2 inp)"
  let ?r = "serve_frame st env k (take 2 inp) (take ?n (drop 2 inp))"
  show thesis
  proof (cases "length inp < 2 \<or> ?n = 0 \<or> ?n > ISO_MAX_PACKET_BYTES \<or> length inp < 2 + ?n")
    case True
    then show thesis using assms stop by (subst (asm) session.simps) (auto simp: Let_def split: if_splits)
  next
    case False
    then have eq: "session st env k inp = (case ?r of None \<Rightarrow> None | Some (es, Some e) \<Rightarrow> Some (es, e)
        | Some (es, None) \<Rightarrow> map_option (\<lambda>(es', e). (es @ es', e)) (session st env (k + 1) (drop (2 + ?n) inp)))"
      by (subst session.simps) (simp add: Let_def)
    have "2 + ?n \<le> length inp" using False by simp
    then show thesis using assms last [of ?n] more [of ?n] unfolding eq by (auto split: option.splits prod.splits)
  qed
qed

lemma session_sent:
  assumes "session st env k inp = Some (es, e)"
    and "\<And>k len packet es e. serve_frame st env k len packet = Some (es, e) \<Longrightarrow> list_all P (sent es)"
  shows "list_all P (sent es)"
  using assms(1)
proof (induction "length inp" arbitrary: k inp es rule: less_induct)
  case less
  from less.prems show ?case
  proof (cases rule: session_cases)
    case (more n es1 es2)
    then have "list_all P (sent es2)" using less.hyps [of "drop (2 + n) inp" "k + 1" es2] by simp
    then show ?thesis using more assms(2) by simp
  qed (use assms(2) in auto)
qed

lemma receiving_sent:
  assumes "receiving_frame st env k packet = Some (es, e)"
  shows "list_all (\<lambda>f. \<exists>now packet. process_receiving_iso8583_message st now packet = Some (Inr (drop 2 f)) \<and> f = be_bytes 2 (length (drop 2 f)) @ drop 2 f) (sent es)"
proof -
  obtain r where r: "process_receiving_iso8583_message st (clock env k) packet = Some r" using assms by (auto simp: receiving_frame_def)
  show ?thesis
  proof (cases r)
    case (Inl f)
    then show ?thesis using assms r reply_sent
      by (cases f) (auto simp: receiving_frame_def)
  next
    case (Inr clean)
    then have "sent es = [] \<or> sent es = [be_bytes 2 (length clean) @ clean]"
      using assms r relay_cases(2) by (auto simp: receiving_frame_def split: if_splits)
    then show ?thesis using r Inr by (auto simp del: be_bytes.simps) blast
  qed
qed

text \<open>
  C15: In receiving mode the core banking host sees only verified messages: every frame a connection
  forwards, for every input stream and every behaviour of clock, host and client, is the
  length-prefixed result of a packet the verify-and-strip engine accepted.
\<close>

theorem receiving_forwards_verified:
  "pred_option (\<lambda>(es, e). list_all (\<lambda>f. \<exists>now packet.
       process_receiving_iso8583_message (st\<lparr>proxy_mode := Receiving\<rparr>) now packet = Some (Inr (drop 2 f)) \<and>
       f = be_bytes 2 (length (drop 2 f)) @ drop 2 f) (sent es))
     (handle_iso8583_tcp_connection (st\<lparr>proxy_mode := Receiving\<rparr>) mgr env inp)"
proof -
  let ?st = "st\<lparr>proxy_mode := Receiving\<rparr>"
  let ?P = "\<lambda>f. \<exists>now packet. process_receiving_iso8583_message ?st now packet = Some (Inr (drop 2 f)) \<and> f = be_bytes 2 (length (drop 2 f)) @ drop 2 f"
  have "list_all ?P (sent es)" if "handle_iso8583_tcp_connection ?st mgr env inp = Some (es, e)" for es e
  proof (cases "is_operational (clock env 0) mgr")
    case True
    then have "session ?st env 0 inp = Some (es, e)" using that by (simp add: handle_iso8583_tcp_connection_def)
    then show ?thesis by (rule session_sent) (use receiving_sent [of ?st env] in \<open>simp add: serve_frame_def\<close>)
  next
    case False
    then have "sent es = []" using that reply_sent
      by (auto simp: handle_iso8583_tcp_connection_def split: prod.splits option.splits)
    then show ?thesis by simp
  qed
  then show ?thesis by (auto simp: option.pred_set)
qed

lemma monitor_sent:
  assumes "monitor_frame st env k len packet = Some (es, e)"
  shows "sent es = [] \<and> e \<noteq> None \<or> sent es = [len @ packet]"
proof -
  obtain r where r: "shadow_path st packet = Some r" using assms by (auto simp: monitor_frame_def)
  show ?thesis
  proof (cases "r = Panicked")
    case True
    then show ?thesis using assms r by (auto simp: monitor_frame_def)
  next
    case False
    then have "relay env k (len @ packet) = (es, e)" using assms r
      by (auto simp: monitor_frame_def split: sum.splits fault.splits)
    then show ?thesis using relay_cases [of env k "len @ packet" es] by (cases e) auto
  qed
qed

lemma monitor_prefix:
  assumes "session st env k inp = Some (es, e)" and "proxy_mode st = MonitorMode"
  shows "prefix (concat (sent es)) inp"
  using assms(1)
proof (induction "length inp" arbitrary: k inp es rule: less_induct)
  case less
  have frame: "take 2 inp @ take n (drop 2 inp) = take (2 + n) inp" for n by (metis take_add)
  from less.prems show ?case
  proof (cases rule: session_cases)
    case (last n e')
    then have "sent es = [] \<or> sent es = [take (2 + n) inp]"
      using monitor_sent [of st env k "take 2 inp"] assms(2) frame by (fastforce simp: serve_frame_def)
    then show ?thesis by (auto simp: take_is_prefix)
  next
    case (more n es1 es2)
    then have "sent es1 = [take (2 + n) inp]"
      using monitor_sent [of st env k "take 2 inp"] assms(2) frame by (fastforce simp: serve_frame_def)
    moreover have "prefix (concat (sent es2)) (drop (2 + n) inp)" using less.hyps [of "drop (2 + n) inp"] more by simp
    ultimately show ?thesis using more by (metis append_take_drop_id concat.simps sent_append same_prefix_prefix concat_append append_Nil2)
  qed simp
qed

text \<open>
  C20: Monitor mode is transparent.  The bytes a connection sends to the back end are an initial part
  of the bytes it received from the client, whole frames unchanged and in order, whatever the
  licence state, the key store, the clock and the back end do.
\<close>

theorem monitor_transparent:
  "pred_option (\<lambda>(es, e). prefix (concat (sent es)) inp)
     (handle_iso8583_tcp_connection (st\<lparr>proxy_mode := MonitorMode\<rparr>) mgr env inp)"
  using monitor_prefix [of "st\<lparr>proxy_mode := MonitorMode\<rparr>" env 0 inp]
  by (auto simp: handle_iso8583_tcp_connection_def option.pred_set)


definition sample_env :: session_env where
  "sample_env = \<lparr>clock = \<lambda>_. 400000, connects = \<lambda>_. True, backend = \<lambda>_ frame. frame, client_ok = \<lambda>_. True, stream_end = EndOfStream\<rparr>"


end
