(* ===== verification/Goldilocks.thy ===== *)
theory Goldilocks
  imports Prelude
begin

text \<open>
  The Goldilocks prime field of \<open>solomon-zk/src/field.rs\<close>.  A field element is a 64-bit
  word; the operations are those of the trait \<open>Field\<close>.  The theory builds the field of integers modulo
  the prime as a type of its own, proves that it is a field, and shows that every
  operation of the code computes in it.
\<close>

section \<open>The code's operations\<close>

type_synonym GoldilocksField = u64

definition GOLDILOCKS_PRIME :: u64 where
  "GOLDILOCKS_PRIME = 0xFFFFFFFF00000001"

definition DILITHIUM_Q :: u64 where
  "DILITHIUM_Q = 8380417"

definition from_u64 :: "u64 \<Rightarrow> GoldilocksField" where
  "from_u64 val = (if val \<ge> GOLDILOCKS_PRIME then val - GOLDILOCKS_PRIME else val)"

definition from_dilithium :: "u32 \<Rightarrow> GoldilocksField" where
  "from_dilithium val = ucast val mod DILITHIUM_Q"

definition reduce_u128 :: "u128 \<Rightarrow> GoldilocksField" where
  "reduce_u128 x =
    (let x_lo = ucast x :: u64;
         x_hi = ucast (drop_bit 64 x) :: u64;
         x_hi_hi = drop_bit 32 x_hi;
         x_hi_lo = x_hi AND 0xFFFFFFFF;
         t0 = ucast x_lo + push_bit 32 (ucast x_hi_lo) - ucast x_hi + ucast x_hi_hi * 0xFFFFFFFF :: 128 word;
         p = ucast GOLDILOCKS_PRIME :: 128 word;
         res = irem t0 p
     in ucast (if sint res < 0 then res + p else res))"

definition gadd :: "GoldilocksField \<Rightarrow> GoldilocksField \<Rightarrow> GoldilocksField" where
  "gadd a b =
    (let res = a + b; carry = res < a
     in if carry \<or> res \<ge> GOLDILOCKS_PRIME then res - GOLDILOCKS_PRIME else res)"

definition gsub :: "GoldilocksField \<Rightarrow> GoldilocksField \<Rightarrow> GoldilocksField" where
  "gsub a b = (if a \<ge> b then a - b else GOLDILOCKS_PRIME - (b - a))"

definition gmul :: "GoldilocksField \<Rightarrow> GoldilocksField \<Rightarrow> GoldilocksField" where
  "gmul a b = reduce_u128 (ucast a * ucast b)"

text \<open>The loop of \<open>exp\<close>, on the remaining power.\<close>

function exp_loop :: "GoldilocksField \<Rightarrow> GoldilocksField \<Rightarrow> u64 \<Rightarrow> GoldilocksField" where
  "exp_loop base res pow =
    (if pow = 0 then res
     else exp_loop (gmul base base) (if pow AND 1 = 1 then gmul res base else res) (drop_bit 1 pow))"
  by pat_completeness auto

lemma unat_shift_less: "(w :: u64) \<noteq> 0 \<Longrightarrow> unat (drop_bit 1 w) < unat w"
proof -
  assume "w \<noteq> 0"
  then have "0 < unat w" by (simp add: unat_gt_0)
  moreover have "unat (drop_bit 1 w) = unat w div 2"
    by (subst unat_drop_bit_eq) (simp add: drop_bit_eq_div)
  ultimately show ?thesis by simp
qed

termination exp_loop
  by (relation "measure (\<lambda>(_, _, pow). unat pow)") (use unat_shift_less in auto)

declare exp_loop.simps [simp del]

definition gexp :: "GoldilocksField \<Rightarrow> u64 \<Rightarrow> GoldilocksField" where
  "gexp a pow = exp_loop a 1 pow"

text \<open>\<open>invert\<close> asserts that its argument is not zero.\<close>

definition invert :: "GoldilocksField \<Rightarrow> ('e, GoldilocksField) outcome" where
  "invert a = (if a = 0 then Panicked else Inr (gexp a (GOLDILOCKS_PRIME - 2)))"

section \<open>Integers modulo the prime\<close>

abbreviation GP :: int where "GP \<equiv> 18446744069414584321"

typedef fp = "{0..<GP}"
  by auto

setup_lifting type_definition_fp

instantiation fp :: comm_ring_1
begin

lift_definition zero_fp :: fp is 0
  by simp

lift_definition one_fp :: fp is 1
  by simp

lift_definition uminus_fp :: "fp \<Rightarrow> fp" is "\<lambda>x. (- x) mod GP"
  by simp

lift_definition plus_fp :: "fp \<Rightarrow> fp \<Rightarrow> fp" is "\<lambda>x y. (x + y) mod GP"
  by simp

lift_definition minus_fp :: "fp \<Rightarrow> fp \<Rightarrow> fp" is "\<lambda>x y. (x - y) mod GP"
  by simp

lift_definition times_fp :: "fp \<Rightarrow> fp \<Rightarrow> fp" is "\<lambda>x y. (x * y) mod GP"
  by simp

instance
  by standard (transfer; simp add: algebra_simps mod_simps)+

end

instance fp :: finite
  by standard (simp add: type_definition.univ [OF type_definition_fp])

lemma card_fp: "card (UNIV :: fp set) = nat GP"
  by (simp add: type_definition.univ [OF type_definition_fp] card_image inj_on_def Abs_fp_inject)

lemma Rep_fp_of_nat: "Rep_fp (of_nat n) = int n mod GP"
  by (induction n) (simp_all add: zero_fp.rep_eq plus_fp.rep_eq one_fp.rep_eq mod_simps add.commute)

lemma Rep_fp_of_int: "Rep_fp (of_int z) = z mod GP"
  by (cases z) (simp_all only: of_int_minus of_int_of_nat_eq uminus_fp.rep_eq Rep_fp_of_nat mod_minus_eq)

lemma of_int_fp_eq: "(of_int a :: fp) = of_int b \<longleftrightarrow> a mod GP = b mod GP"
  by (metis Rep_fp_inject Rep_fp_of_int)

lemma of_int_fp_surj: "(x :: fp) = of_int (Rep_fp x)"
  using Rep_fp [of x] by (simp flip: Rep_fp_inject add: Rep_fp_of_int)

section \<open>The operations compute in the field\<close>

definition canonical_gf :: "GoldilocksField \<Rightarrow> bool" where
  "canonical_gf a \<longleftrightarrow> a < GOLDILOCKS_PRIME"

definition gval :: "GoldilocksField \<Rightarrow> fp" where
  "gval a = of_int (uint a)"

named_theorems gf_simps "field operations of the code, read in the field"

lemma canonical_gf_iff: "canonical_gf a \<longleftrightarrow> uint a < GP"
  by (simp add: canonical_gf_def GOLDILOCKS_PRIME_def word_less_def)

lemma gval_eq: "canonical_gf a \<Longrightarrow> canonical_gf b \<Longrightarrow> gval a = gval b \<longleftrightarrow> a = b"
  by (simp add: gval_def canonical_gf_iff word_uint_eq_iff del: of_int_uint) (simp only: of_int_fp_eq mod_pos_pos_trivial uint_ge_0)


lemma smod_correct:
  assumes "0 < (p :: int)"
  shows "(if t smod p < 0 then t smod p + p else t smod p) = t mod p"
proof (cases "0 \<le> t")
  case True
  then show ?thesis using assms pos_mod_sign [OF assms, of t, THEN leD] by (auto simp: smod_int_alt_def sgn_if)
next
  case False
  then show ?thesis using assms
    using pos_mod_sign [OF assms, of t] pos_mod_bound [OF assms, of t] by (auto simp: smod_int_alt_def sgn_if zmod_zminus1_eq_if)
qed

lemma mod_once: "(p :: int) \<le> z \<Longrightarrow> z < 2 * p \<Longrightarrow> z mod p = z - p"
  by (metis add_diff_cancel_right' diff_add_cancel diff_ge_0_iff_ge diff_less_eq mod_add_self2 mod_pos_pos_trivial mult_2)

lemma uint_u64_bound: "uint (a :: u64) < 18446744073709551616"
  using uint_lt2p [of a] by simp

lemma uint_u64_ucast: "uint (ucast (a :: u64) :: u128) = uint a"
  using uint_u64_bound [of a] by (simp add: unsigned_ucast_eq take_bit_eq_mod)

lemma reduce_u128_uint: "uint (reduce_u128 x) = uint x mod GP"
proof -
  define lo hi where "lo = uint x mod 2 ^ 64" and "hi = uint x div 2 ^ 64"
  define t where "t = lo + hi mod 2 ^ 32 * 2 ^ 32 - hi + hi div 2 ^ 32 * 0xFFFFFFFF"
  have x: "uint x = hi * 2 ^ 64 + lo" by (simp add: lo_def hi_def)
  have "uint x < 2 ^ 128" "0 \<le> uint x" using uint_lt2p [of x] by simp_all
  then have hi: "0 \<le> hi" "hi < 2 ^ 64" unfolding hi_def by (auto simp: pos_imp_zdiv_nonneg_iff)
  have lo: "0 \<le> lo" "lo < 2 ^ 64" by (auto simp: lo_def)
  have hi2: "hi div 2 ^ 32 < 2 ^ 32" "0 \<le> hi div 2 ^ 32" using hi by (auto simp: pos_imp_zdiv_nonneg_iff)
  have hi3: "0 \<le> hi mod 2 ^ 32" "hi mod 2 ^ 32 < 2 ^ 32" by auto
  have bound: "- (2 ^ 127) \<le> t" "t < 2 ^ 127" using hi lo hi2 hi3 by (auto simp: t_def)
  have uhi: "uint (ucast (drop_bit 64 x) :: u64) = hi"
    by (subst unsigned_ucast_eq, subst unsigned_drop_bit_eq) (use hi in \<open>simp add: hi_def drop_bit_eq_div take_bit_eq_mod\<close>)
  have xlo: "uint (ucast x :: u64) = lo"
    by (simp add: unsigned_ucast_eq take_bit_eq_mod lo_def)
  have xhihi: "uint (drop_bit 32 (ucast (drop_bit 64 x) :: u64)) = hi div 2 ^ 32"
    by (subst unsigned_drop_bit_eq, subst uhi) (use hi in \<open>simp add: drop_bit_eq_div take_bit_eq_mod\<close>)
  have mask: "(0xFFFFFFFF :: u64) = mask 32" by (simp add: mask_eq_exp_minus_1)
  have xhilo: "uint ((ucast (drop_bit 64 x) :: u64) AND 0xFFFFFFFF) = hi mod 2 ^ 32"
    unfolding mask take_bit_eq_mask [symmetric] by (subst unsigned_take_bit_eq, subst uhi) (simp add: take_bit_eq_mod)
  define t0 p where "t0 = ucast (ucast x :: u64) + push_bit 32 (ucast ((ucast (drop_bit 64 x) :: u64) AND 0xFFFFFFFF))
      - ucast (ucast (drop_bit 64 x) :: u64) + ucast (drop_bit 32 (ucast (drop_bit 64 x) :: u64)) * (0xFFFFFFFF :: 128 word)"
    and "p = (ucast GOLDILOCKS_PRIME :: 128 word)"
  have ucast: "(ucast (w :: u64) :: 128 word) = word_of_int (uint w)" for w
    by (simp add: word_of_int_eq_iff)
  have t0: "t0 = word_of_int t"
    unfolding t0_def t_def ucast xlo uhi xhihi xhilo by (simp add: push_bit_eq_mult)
  then have st: "sint t0 = t" using bound by (simp add: sint_word_of_int_self)
  have sp: "sint p = GP" by (simp add: p_def GOLDILOCKS_PRIME_def)
  have small: "\<bar>t smod GP\<bar> < GP" by (auto simp: smod_int_alt_def abs_mult sgn_if)
  then have r: "sint (irem t0 p) = t smod GP"
    unfolding irem_def st sp by (intro sint_word_of_int_self) (simp_all add: abs_less_iff)
  have "(if sint (irem t0 p) < 0 then irem t0 p + p else irem t0 p)
      = word_of_int (if t smod GP < 0 then t smod GP + GP else t smod GP)"
    unfolding r by (simp add: irem_def st sp) (simp add: p_def GOLDILOCKS_PRIME_def)
  then have "(if sint (irem t0 p) < 0 then irem t0 p + p else irem t0 p) = word_of_int (t mod GP)"
    by (simp add: smod_correct)
  moreover have "reduce_u128 x = ucast (if sint (irem t0 p) < 0 then irem t0 p + p else irem t0 p)"
    by (simp add: reduce_u128_def Let_def t0_def p_def)
  moreover have "0 \<le> t mod GP" "t mod GP < GP" by simp_all
  ultimately have "uint (reduce_u128 x) = t mod GP"
    by (simp only: unsigned_ucast_eq) (simp add: uint_word_of_int take_bit_eq_mod del: mod_less_divisor)
  moreover obtain q r where q: "hi div 2 ^ 32 = q" and r: "hi mod 2 ^ 32 = r" by blast
  have "hi = 2 ^ 32 * q + r" unfolding q [symmetric] r [symmetric] by (rule mult_div_mod_eq [symmetric])
  then have "t = uint x + GP * (- hi - hi div 2 ^ 32)"
    unfolding t_def x q r by (simp add: algebra_simps)
  then have "t mod GP = uint x mod GP" by (simp only: mod_mult_self2)
  ultimately show ?thesis by simp
qed

lemma canonical_uint: "canonical_gf a \<Longrightarrow> uint a mod GP = uint a"
  by (simp add: canonical_gf_iff)

lemma gval_of_uint: "uint a = z mod GP \<Longrightarrow> gval a = of_int z"
  unfolding gval_def of_int_fp_eq by simp

lemma canonical_of_uint: "uint a = z mod GP \<Longrightarrow> canonical_gf a"
  by (simp add: canonical_gf_iff)

lemma uint_prime: "uint GOLDILOCKS_PRIME = GP"
  by (simp add: GOLDILOCKS_PRIME_def)

lemma from_u64_uint: "uint (from_u64 a) = uint a mod GP"
proof (cases "GP \<le> uint a")
  case True
  then have "uint a mod GP = uint a - GP" using uint_u64_bound [of a] by (intro mod_once) auto
  moreover have "uint (a - GOLDILOCKS_PRIME) = uint a - GP"
    using True uint_sub_lem [of GOLDILOCKS_PRIME a] by (simp add: uint_prime)
  ultimately show ?thesis using True by (simp add: from_u64_def word_le_def uint_prime)
qed (simp add: from_u64_def word_le_def uint_prime)

lemma gadd_uint:
  assumes "canonical_gf a" and "canonical_gf b"
  shows "uint (gadd a b) = (uint a + uint b) mod GP"
proof -
  have b: "uint a < GP" "uint b < GP" using assms by (simp_all add: canonical_gf_iff)
  show ?thesis
  proof (cases "uint a + uint b < 2 ^ 64")
    case True
    then have s: "uint (a + b) = uint a + uint b" using uint_plus_if' [of a b] by simp
    then have "\<not> a + b < a" by (simp add: word_less_def)
    then have "gadd a b = from_u64 (a + b)" by (simp add: gadd_def from_u64_def Let_def)
    then show ?thesis by (simp add: from_u64_uint s)
  next
    case False
    then have s: "uint (a + b) = uint a + uint b - 2 ^ 64"
      using b uint_plus_if' [of a b] by simp
    then have "a + b < a" using b by (simp add: word_less_def)
    then have "gadd a b = a + b - GOLDILOCKS_PRIME" by (simp add: gadd_def Let_def)
    then have "uint (gadd a b) = uint a + uint b - GP"
      using b False s uint_sub_if' [of "a + b" GOLDILOCKS_PRIME] by (simp add: uint_prime)
    then show ?thesis using b False by (simp add: mod_once)
  qed
qed

lemma gsub_uint:
  assumes "canonical_gf a" and "canonical_gf b"
  shows "uint (gsub a b) = (uint a - uint b) mod GP"
proof -
  have c: "uint a < GP" "uint b < GP" using assms by (simp_all add: canonical_gf_iff)
  show ?thesis
  proof (cases "uint b \<le> uint a")
    case True
    moreover have "(uint a - uint b) mod GP = uint a - uint b"
      using True c uint_ge_0 [of b] by (intro mod_pos_pos_trivial) linarith+
    ultimately show ?thesis by (simp add: gsub_def word_le_def uint_sub_lem)
  next
    case False
    then have d: "uint (b - a) = uint b - uint a" using uint_sub_lem [of a b] by linarith
    have "uint (GOLDILOCKS_PRIME - (b - a)) = GP - (uint b - uint a)"
      using c False d uint_sub_lem [of "b - a" GOLDILOCKS_PRIME] uint_ge_0 [of a] by (simp add: uint_prime)
    moreover have "(uint a - uint b) mod GP = (uint a - uint b + GP) mod GP" by simp
    moreover have "(uint a - uint b + GP) mod GP = uint a - uint b + GP"
      using c False uint_ge_0 [of a] by (intro mod_pos_pos_trivial) linarith+
    ultimately show ?thesis using False by (simp add: gsub_def word_le_def)
  qed
qed

lemma gmul_uint: "uint (gmul a b) = uint a * uint b mod GP"
proof -
  have "uint a * uint b < 2 ^ 64 * 2 ^ 64"
    using uint_lt2p [of a] uint_lt2p [of b] by (intro mult_strict_mono) auto
  then have "uint (ucast a * ucast b :: u128) = uint a * uint b"
    by (subst uint_mult_lem [THEN iffD1]) (simp_all only: uint_u64_ucast, simp_all)
  then show ?thesis by (simp add: gmul_def reduce_u128_uint)
qed

lemma gadd_gval [gf_simps]:
  "canonical_gf a \<Longrightarrow> canonical_gf b \<Longrightarrow> gval (gadd a b) = gval a + gval b"
  "canonical_gf a \<Longrightarrow> canonical_gf b \<Longrightarrow> canonical_gf (gadd a b)"
  by (rule gval_of_uint [OF gadd_uint, THEN trans]; simp add: gval_def) (rule canonical_of_uint [OF gadd_uint])

lemma gsub_gval [gf_simps]:
  "canonical_gf a \<Longrightarrow> canonical_gf b \<Longrightarrow> gval (gsub a b) = gval a - gval b"
  "canonical_gf a \<Longrightarrow> canonical_gf b \<Longrightarrow> canonical_gf (gsub a b)"
  by (rule gval_of_uint [OF gsub_uint, THEN trans]; simp add: gval_def) (rule canonical_of_uint [OF gsub_uint])

lemma gmul_gval [gf_simps]:
  "gval (gmul a b) = gval a * gval b"
  "canonical_gf (gmul a b)"
  by (rule gval_of_uint [OF gmul_uint, THEN trans]; simp add: gval_def) (rule canonical_of_uint [OF gmul_uint])

lemma from_u64_gval [gf_simps]: "gval (from_u64 a) = gval a" "canonical_gf (from_u64 a)"
  by (rule gval_of_uint [OF from_u64_uint, THEN trans]; simp add: gval_def) (rule canonical_of_uint [OF from_u64_uint])

lemma gval_consts [gf_simps]: "gval 0 = 0" "gval 1 = 1" "canonical_gf 0" "canonical_gf 1"
  by (simp_all add: gval_def canonical_gf_def GOLDILOCKS_PRIME_def)

lemma exp_loop_gval:
  "canonical_gf res \<Longrightarrow> gval (exp_loop base res pow) = gval res * gval base ^ unat pow
    \<and> canonical_gf (exp_loop base res pow)"
proof (induction base res pow rule: exp_loop.induct)
  case (1 base res pow)
  show ?case
  proof (cases "pow = 0")
    case True
    then show ?thesis using 1(2) by (simp add: exp_loop.simps)
  next
    case False
    have "pow AND 1 = 1 \<longleftrightarrow> odd (unat pow)"
      by (simp add: word_unat_eq_iff and_one_eq odd_iff_mod_2_eq_one unat_mod_distrib)
    moreover have "unat (drop_bit 1 pow) = unat pow div 2"
      by (subst unat_drop_bit_eq) (simp add: drop_bit_eq_div)
    ultimately have half: "unat pow = 2 * unat (drop_bit 1 pow) + (if pow AND 1 = 1 then 1 else 0)"
      by simp
    have "canonical_gf (if pow AND 1 = 1 then gmul res base else res)" using 1(2) by (simp add: gf_simps)
    from 1(1) [OF False this] show ?thesis
      unfolding half by (subst (1 2) exp_loop.simps) (simp add: False gf_simps power_add power_mult power2_eq_square)
  qed
qed

lemma gexp_gval [gf_simps]: "gval (gexp a pow) = gval a ^ unat pow" "canonical_gf (gexp a pow)"
  using exp_loop_gval [of 1 a pow] by (simp_all add: gexp_def gf_simps)

section \<open>The prime is a prime\<close>

text \<open>
  \<open>7 ^ ((p - 1) / 2)\<close> is \<open>- 1\<close> modulo \<open>p = 2 ^ 64 - 2 ^ 32 + 1\<close>.  The power is computed by
  squaring; every step carries its quotient, so that the check is a multiplication.
\<close>

abbreviation GN :: nat where "GN \<equiv> 18446744069414584320"

fun chain_ok :: "int \<Rightarrow> (bool \<times> int \<times> int) list \<Rightarrow> int \<Rightarrow> bool" where
  "chain_ok a [] z \<longleftrightarrow> a = z"
| "chain_ok a ((b, q, r) # cs) z \<longleftrightarrow> a * a * (if b then 7 else 1) = q * GP + r \<and> chain_ok r cs z"

fun chain_exp :: "nat \<Rightarrow> (bool \<times> int \<times> int) list \<Rightarrow> nat" where
  "chain_exp e [] = e"
| "chain_exp e ((b, q, r) # cs) = chain_exp (2 * e + (if b then 1 else 0)) cs"

lemma of_int_GP: "(of_int (q * GP + r) :: fp) = of_int r"
  by (simp only: of_int_fp_eq mod_mult_self3)

lemma chain_power:
  assumes "chain_ok a cs z" and "(7 :: fp) ^ e = of_int a" and "chain_exp e cs = n"
  shows "(7 :: fp) ^ n = of_int z"
  using assms
proof (induction a cs z arbitrary: e rule: chain_ok.induct)
  case (2 a b q r cs z)
  have "(7 :: fp) ^ (2 * e + (if b then 1 else 0)) = of_int (a * a * (if b then 7 else 1))"
    using "2.prems"(2) by (simp add: power_add mult_2)
  also have "\<dots> = of_int r" using "2.prems"(1) of_int_GP [of q r] by (simp only: chain_ok.simps)
  finally show ?case using "2.prems" by (intro "2.IH") simp_all
qed simp

lemma seven_chain_0: "(7 :: fp) ^ 131071 = of_int 4326791766630348883"
  by (rule chain_power [where cs = "[(True, 0, 343),
    (True, 0, 823543),
    (True, 0, 4747561509943),
    (True, 8553020, 11074261478625843323),
    (True, 46538016023229720673, 12148266161370408270),
    (True, 56002435508678139577, 7007601668316978083),
    (True, 18634473742308562026, 8125271997680889877),
    (True, 25052676695413524112, 2624486902016877951),
    (True, 2613768603856235308, 8253119735826302939),
    (True, 25847265827672469332, 3543566522599720475),
    (True, 4764962617243911856, 11981551684735969599),
    (True, 54475904345860342852, 10062120588441922115),
    (True, 38419999349886321742, 10485806445487905393),
    (True, 41723620970151811147, 4139485063330164956),
    (True, 6502359206338864843, 12134830135347446949),
    (True, 55878626223541897244, 4326791766630348883)]" and e = "1" and a = "7"])
     simp_all

lemma seven_chain_1: "(7 :: fp) ^ 8589934590 = of_int 4614640910117430873"
  by (rule chain_power [OF _ seven_chain_0, where cs = "[(True, 7104120296206835795, 206761543466863628),
    (True, 16222502457426627, 10086585273483141421),
    (True, 38607052533218672533, 1855730417186139594),
    (True, 1306796883947548869, 7626447102712710903),
    (True, 22071042257716239407, 7790920094560990216),
    (True, 23033281637127610743, 5901922255895126089),
    (True, 13217985964617414221, 8935258787870022506),
    (True, 30296508974182092522, 13093775858033092690),
    (True, 65059110649923945754, 11243737384857129666),
    (True, 47973312218535118729, 2063617152444052883),
    (True, 1615982210782367681, 13064848991504552222),
    (True, 64771970039786058224, 16593403251012455084),
    (True, 104483870589968102175, 5859133952941131217),
    (True, 13027022755088247160, 15659105665374529263),
    (True, 93049110738273779291, 1753635133440165772),
    (False, 166708887468903991, 4614640910117430873)]"])
     simp_all

lemma seven_chain_2: "(7 :: fp) ^ 281474976645120 = of_int 6115771955107415310"
  by (rule chain_power [OF _ seven_chain_1, where cs = "[(False, 1154399424049971884, 9123114210336311365),
    (False, 4511973093009996851, 16116352524544190054),
    (False, 14080361158478670879, 6414415596519834757),
    (False, 2230460144622294524, 1213594585890690845),
    (False, 79841288704448195, 17096174751763063430),
    (False, 15844486704156700236, 5456943929260765144),
    (False, 1614281465338340559, 9713644485405565297),
    (False, 5114988793349933654, 16905767614792059275),
    (False, 15493518941330557636, 5416168637041100469),
    (False, 1590247178281506213, 17654865857378133588),
    (False, 16896981237942002723, 3511170319078647661),
    (False, 668319404399374695, 18146160046829613826),
    (False, 17850473948468743512, 9306717745644682924),
    (False, 4695408299218975106, 12380578893860276750),
    (False, 8309256808156222390, 6115771955107415310)]"])
     simp_all

lemma seven_chain_3: "(7 :: fp) ^ 9223372034707292160 = of_int 18446744069414584320"
  by (rule chain_power [OF _ seven_chain_2, where cs = "[(False, 2027602620068516376, 17776499369601055404),
    (False, 17130607366173278638, 16207902636198568418),
    (False, 14240784545824149997, 1532612707718625687),
    (False, 127334216977357403, 17492915097719143606),
    (False, 16588405924890216597, 455906449640507599),
    (False, 11267608529812975, 11353340290879379826),
    (False, 6987592784692205430, 1803076106186727246),
    (False, 176241586724885086, 13797081185216407910),
    (False, 10319406422896923811, 17870292113338400769),
    (False, 17311854006015885313, 549755813888),
    (False, 16384, 70368744161280),
    (False, 268435455, 17293822564807737345),
    (False, 16212958654255595520, 18446744069397807105),
    (False, 18446744069381029889, 281474976710656),
    (False, 4294967296, 18446744069414584320)]"])
     simp_all

lemma seven_half: "(7 :: fp) ^ 9223372034707292160 = - 1"
proof -
  have "(of_int 18446744069414584320 :: fp) = of_int (- 1)" by (simp only: of_int_fp_eq) simp
  then show ?thesis by (simp only: seven_chain_3 of_int_minus of_int_1)
qed

lemma two_part:
  assumes "0 < (d :: nat)"
  obtains t u where "d = 2 ^ t * u" and "odd u"
  using assms
proof (induction d arbitrary: thesis rule: less_induct)
  case (less d)
  show ?case
  proof (cases "odd d")
    case True
    then show ?thesis using less.prems(1) [of 0 d] by simp
  next
    case False
    then obtain c where c: "d = 2 * c" by blast
    show ?thesis
    proof (rule less.IH [of c])
      show "c < d" "0 < c" using c less.prems(2) by auto
      fix t u assume "c = 2 ^ t * u" "odd u"
      then show ?thesis using c less.prems(1) [of "Suc t" u] by simp
    qed
  qed
qed

lemma root_order:
  fixes g q :: int
  assumes g: "q dvd g ^ (2 ^ 31) + 1" and q: "odd q" "1 < q" and d: "0 < d" "d < 2 ^ 32"
  shows "\<not> q dvd g ^ d - 1"
proof
  assume 1: "q dvd g ^ d - 1"
  obtain t u where tu: "d = 2 ^ t * u" "odd u" using two_part [OF d(1)] .
  have "t < 32"
  proof (rule ccontr)
    assume "\<not> t < 32"
    then have "(2 :: nat) ^ 32 \<le> 2 ^ t" by (intro power_increasing) auto
    moreover have "2 ^ t \<le> d" using tu by (cases u) auto
    ultimately show False using d(2) by linarith
  qed
  then have "d * 2 ^ (31 - t) = 2 ^ 31 * u" by (simp add: tu mult.assoc mult.commute mult.left_commute flip: power_add)
  then have e: "(g ^ d) ^ (2 ^ (31 - t)) = (g ^ (2 ^ 31)) ^ u" by (simp only: power_mult [symmetric])
  have "(g ^ d) ^ (2 ^ (31 - t)) mod q = 1"
    using 1 q by (metis mod_eq_dvd_iff mod_pos_pos_trivial power_mod power_one zero_le_one)
  moreover have "(g ^ (2 ^ 31)) ^ u mod q = (- 1) ^ u mod q"
    using g by (metis diff_minus_eq_add mod_eq_dvd_iff power_mod)
  ultimately have "(- 1) mod q = (1 :: int) mod q" using tu(2) q(2) unfolding e by simp
  then have "q dvd 2" by (simp add: mod_eq_dvd_iff)
  then have "q \<le> 2" by (simp add: zdvd_imp_le)
  then show False using q by presburger
qed

lemma seven_root: "\<exists>g. GP dvd g ^ (2 ^ 31) + 1"
proof -
  have "of_int ((7 ^ 4294967295) ^ (2 ^ 31) + 1) = ((7 :: fp) ^ 4294967295) ^ (2 ^ 31) + 1"
    by (simp only: of_int_add of_int_power of_int_1 of_int_numeral)
  also have "\<dots> = 7 ^ 9223372034707292160 + 1"
    unfolding power_mult [symmetric] by (rule arg_cong [where f = "\<lambda>n. 7 ^ n + 1"]) simp
  also have "\<dots> = of_int 0" by (simp only: seven_half) simp
  finally have "GP dvd (7 ^ 4294967295) ^ (2 ^ 31) + 1"
    unfolding of_int_fp_eq dvd_eq_mod_eq_0 by (simp only: mod_0)
  then show ?thesis by (rule exI)
qed

lemma divisor_large:
  assumes "q dvd GP" and "1 < q"
  shows "2 ^ 32 < q"
proof -
  obtain g where "GP dvd g ^ (2 ^ 31) + 1" using seven_root by blast
  then have g: "q dvd g ^ (2 ^ 31) + 1" using assms(1) dvd_trans by blast
  have "odd GP" by simp
  then have odd: "odd q" using assms(1) dvd_trans by blast
  have "gcd g q dvd 1"
  proof -
    have "gcd g q dvd g ^ (2 ^ 31)" by (rule dvd_power_le [of _ _ 1, simplified]) simp_all
    moreover have "gcd g q dvd g ^ (2 ^ 31) + 1" using g by (rule dvd_trans [OF gcd_dvd2])
    ultimately show ?thesis by (simp add: dvd_add_right_iff)
  qed
  then have "coprime g q" by (simp add: coprime_iff_gcd_eq_1)
  then have cop: "coprime (g ^ i) q" for i by simp
  have neq: "g ^ i mod q \<noteq> g ^ j mod q" if "i < j" "j < 2 ^ 32" for i j
  proof
    assume "g ^ i mod q = g ^ j mod q"
    then have "q dvd g ^ j - g ^ i" by (metis mod_eq_dvd_iff)
    moreover have "g ^ j - g ^ i = g ^ i * (g ^ (j - i) - 1)"
      using that by (simp add: algebra_simps flip: power_add)
    ultimately have "q dvd g ^ (j - i) - 1"
      using cop [of i] by (simp add: coprime_commute coprime_dvd_mult_right_iff)
    then show False using root_order [OF g odd assms(2), of "j - i"] that by linarith
  qed
  have "inj_on (\<lambda>i. g ^ i mod q) {..<2 ^ 32}"
    by (rule linorder_inj_onI') (use neq in auto)
  then have "card ((\<lambda>i. g ^ i mod q) ` {..<2 ^ 32}) = 2 ^ 32" by (simp only: card_image card_lessThan)
  moreover have "(\<lambda>i. g ^ i mod q) ` {..<2 ^ 32} \<subseteq> {1..<q}"
  proof (rule image_subsetI)
    fix i :: nat
    have "g ^ i mod q \<noteq> 0"
    proof
      assume "g ^ i mod q = 0"
      then have "q dvd g ^ i" by auto
      then have "is_unit q" using cop [of i] by (metis coprime_absorb_right)
      then show False using assms(2) by simp
    qed
    moreover have "0 \<le> g ^ i mod q" "g ^ i mod q < q" using assms(2) by simp_all
    ultimately show "g ^ i mod q \<in> {1..<q}" by simp
  qed
  ultimately have "(2 :: nat) ^ 32 \<le> card {1..<q}" by (metis card_mono finite_atLeastLessThan_int)
  then show ?thesis by (simp add: le_nat_iff)
qed

lemma GP_prime: "q dvd GP \<Longrightarrow> 0 < q \<Longrightarrow> q = 1 \<or> q = GP"
proof (rule ccontr)
  assume q: "q dvd GP" "0 < q" and "\<not> (q = 1 \<or> q = GP)"
  then have "1 < q" by simp
  obtain r where r: "GP = q * r" using q(1) by blast
  have "0 < r" using r q(2) by (metis zero_less_mult_pos zero_less_numeral)
  moreover have "r \<noteq> 1" using r \<open>\<not> (q = 1 \<or> q = GP)\<close> by auto
  ultimately have "1 < r" by simp
  moreover have "r dvd GP" using r by (metis dvd_triv_right)
  ultimately have "(2 ^ 32 + 1) * (2 ^ 32 + 1) \<le> q * r"
    using divisor_large [OF q(1) \<open>1 < q\<close>] divisor_large [of r] by (intro mult_mono) auto
  then show False using r by simp
qed

instance fp :: idom
proof
  fix a b :: fp
  assume ab: "a \<noteq> 0" "b \<noteq> 0"
  have nd: "\<not> GP dvd Rep_fp x" if "x \<noteq> 0" for x
  proof
    assume "GP dvd Rep_fp x"
    then have "Rep_fp x = 0" using Rep_fp [of x] zdvd_imp_le [of GP "Rep_fp x"] by force
    then show False using that by (metis Rep_fp_inject zero_fp.rep_eq)
  qed
  have "gcd (Rep_fp a) GP = 1"
    using GP_prime [of "gcd (Rep_fp a) GP"] nd [OF ab(1)] by (metis gcd_dvd1 gcd_dvd2 gcd_pos_int zero_neq_numeral)
  then have "\<not> GP dvd Rep_fp a * Rep_fp b"
    using nd [OF ab(2)] by (simp add: coprime_iff_gcd_eq_1 coprime_commute coprime_dvd_mult_right_iff gcd.commute)
  then show "a * b \<noteq> 0"
    by (auto simp flip: Rep_fp_inject simp: zero_fp.rep_eq times_fp.rep_eq dvd_eq_mod_eq_0)
qed

lemma fp_fermat:
  assumes "(a :: fp) \<noteq> 0"
  shows "a ^ GN = 1"
proof -
  let ?U = "UNIV - {0 :: fp}"
  have inj: "inj_on ((*) a) ?U" using assms by (simp add: inj_on_def)
  moreover have "(*) a ` ?U \<subseteq> ?U" using assms by auto
  ultimately have "bij_betw ((*) a) ?U ?U" by (simp add: bij_betw_def endo_inj_surj)
  then have "(\<Prod>x\<in>?U. a * x) = (\<Prod>x\<in>?U. x)" by (rule prod.reindex_bij_betw)
  then have "a ^ card ?U * \<Prod>?U = \<Prod>?U" by (simp add: prod.distrib)
  moreover have "\<Prod>?U \<noteq> 0" by simp
  moreover have "card ?U = GN" by (simp add: card_Diff_singleton card_fp)
  ultimately show ?thesis by (metis mult_cancel_right2)
qed

instantiation fp :: field
begin

definition inverse_fp :: "fp \<Rightarrow> fp" where
  "inverse_fp a = a ^ (GN - 1)"

definition divide_fp :: "fp \<Rightarrow> fp \<Rightarrow> fp" where
  "divide_fp a b = a * inverse b"

instance
proof
  fix a b :: fp
  have "a ^ (GN - 1) * a = a ^ GN" by (rule power_minus_mult) simp
  then show "a \<noteq> 0 \<Longrightarrow> inverse a * a = 1" using fp_fermat [of a] unfolding inverse_fp_def by argo
  show "a div b = a * inverse b" by (simp add: divide_fp_def)
  show "inverse (0 :: fp) = 0" by (simp only: inverse_fp_def) (rule zero_power, simp)
qed

end

lemma gval_zero_iff: "canonical_gf a \<Longrightarrow> gval a = 0 \<longleftrightarrow> a = 0"
  using gval_eq [of a 0] by (simp add: gf_simps)

definition ginv :: "GoldilocksField \<Rightarrow> GoldilocksField" where
  "ginv a = gexp a (GOLDILOCKS_PRIME - 2)"

lemma invert_ok: "a \<noteq> 0 \<Longrightarrow> invert a = Inr (ginv a)"
  by (simp add: invert_def ginv_def)

lemma ginv_gval [gf_simps]: "gval (ginv a) = inverse (gval a)" "canonical_gf (ginv a)"
proof -
  have "unat (GOLDILOCKS_PRIME - 2) = GN - 1" by (simp add: GOLDILOCKS_PRIME_def)
  then show "gval (ginv a) = inverse (gval a)" by (simp only: ginv_def gf_simps inverse_fp_def)
qed (simp add: ginv_def gf_simps)

lemma gval_nonzero: "gval a \<noteq> 0 \<Longrightarrow> a \<noteq> 0"
  using gval_consts(1) by metis

text \<open>
  C38: The five operations compute addition, subtraction, multiplication, powers and inverses of the
  field of \<open>p\<close> elements, on canonical representatives and with canonical results.  Only
  the inverse of zero panics.
\<close>

theorem goldilocks_field:
  assumes "canonical_gf a" and "canonical_gf b"
  shows "uint (gadd a b) = (uint a + uint b) mod GP \<and> uint (gsub a b) = (uint a - uint b) mod GP
    \<and> uint (gmul a b) = uint a * uint b mod GP \<and> uint (gexp a n) = uint a ^ unat n mod GP
    \<and> (a = 0 \<longrightarrow> invert a = (Panicked :: (unit, u64) outcome))
    \<and> (a \<noteq> 0 \<longrightarrow> (\<exists>c. invert a = (Inr c :: (unit, u64) outcome) \<and> canonical_gf c \<and> uint c * uint a mod GP = 1))"
proof -
  have "gval (gexp a n) = of_int (uint a ^ unat n)" unfolding gexp_gval(1) by (simp only: gval_def of_int_power)
  then have "uint (gexp a n) = uint a ^ unat n mod GP"
    unfolding gval_def of_int_fp_eq canonical_uint [OF gexp_gval(2)] .
  moreover have "\<exists>c. invert a = (Inr c :: (unit, u64) outcome) \<and> canonical_gf c \<and> uint c * uint a mod GP = 1" if nz: "a \<noteq> 0"
  proof -
    have "gval (ginv a) * gval a = 1" using nz assms(1) by (simp add: gf_simps gval_zero_iff)
    then have "(of_int (uint (ginv a) * uint a) :: fp) = of_int 1" by (simp add: gval_def)
    then show ?thesis using nz invert_ok gf_simps by (simp only: of_int_fp_eq) (simp add: invert_ok gf_simps)
  qed
  ultimately show ?thesis using assms by (simp add: gadd_uint gsub_uint gmul_uint invert_def)
qed

theorem goldilocks_field_witness:
  "uint (gadd 18446744069414584320 5) = 4
    \<and> (\<exists>c. invert 18446744069414584320 = (Inr c :: (unit, u64) outcome) \<and> canonical_gf c \<and> uint c * 18446744069414584320 mod GP = 1)"
  using goldilocks_field [of 18446744069414584320 5 0] by (simp add: canonical_gf_iff)

end
