(* ===== verification/Merkle.thy ===== *)
theory Merkle
  imports Goldilocks
begin

text \<open>
  Merkle trees and the Fiat-Shamir transcript of the STARK prover (\<open>solomon-zk/src/merkle.rs\<close>,
  \<open>solomon-zk/src/challenger.rs\<close>).  Keccak-256 of the crate \<open>sha3\<close> is the parameter
  \<open>keccak256\<close>; a hasher is the string of bytes it has been fed.

  Every leaf of a tree opens against its root, and an opening of the right depth can differ from
  the leaf only if one of the strings hashed by the check collides with one hashed for the tree.
\<close>

section \<open>The code\<close>

type_synonym digest = bytes
type_synonym hash_fn = "bytes \<Rightarrow> digest"

definition zero_digest :: digest where
  "zero_digest = replicate 32 0"

definition hash_row :: "hash_fn \<Rightarrow> GoldilocksField list \<Rightarrow> digest" where
  "hash_row keccak256 row = keccak256 (concat (map (\<lambda>element. le_bytes 8 (unat element)) row))"

text \<open>The doubling loop; it starts at 1, and the test \<open>0 < p\<close> only serves its termination.\<close>

function next_pow2 :: "nat \<Rightarrow> nat \<Rightarrow> nat" where
  "next_pow2 p n = (if p < n \<and> 0 < p then next_pow2 (p * 2) n else p)"
  by pat_completeness auto

termination next_pow2
  by (relation "measure (\<lambda>(p, n). n - p)") auto

declare next_pow2.simps [simp del]

definition pad_leaves :: "digest list \<Rightarrow> digest list" where
  "pad_leaves leaves = leaves @ replicate (next_pow2 1 (length leaves) - length leaves) zero_digest"

fun hash_pairs :: "hash_fn \<Rightarrow> digest list \<Rightarrow> digest list" where
  "hash_pairs keccak256 [] = []"
| "hash_pairs keccak256 [a] = [keccak256 (a @ zero_digest)]"
| "hash_pairs keccak256 (a # b # rest) = keccak256 (a @ b) # hash_pairs keccak256 rest"

lemma length_hash_pairs [simp]: "length (hash_pairs h xs) = Suc (length xs) div 2"
  by (induction h xs rule: hash_pairs.induct) simp_all

function merkle_loop :: "hash_fn \<Rightarrow> digest list list \<Rightarrow> digest list \<Rightarrow> digest list \<times> digest list list" where
  "merkle_loop keccak256 layers current =
    (if 1 < length current
     then let next = hash_pairs keccak256 current in merkle_loop keccak256 (layers @ [next]) next
     else (current, layers))"
  by pat_completeness auto

termination merkle_loop
  by (relation "measure (\<lambda>(h, layers, current). length current)") auto

declare merkle_loop.simps [simp del]

definition build_merkle_tree_from_leaves :: "hash_fn \<Rightarrow> digest list \<Rightarrow> digest \<times> digest list list" where
  "build_merkle_tree_from_leaves keccak256 leaves =
    (if leaves = [] then (zero_digest, [])
     else let leaves = pad_leaves leaves;
              (current, layers) = merkle_loop keccak256 [leaves] leaves
          in (current ! 0, layers))"

definition build_merkle_tree_from_matrix :: "hash_fn \<Rightarrow> GoldilocksField list list \<Rightarrow> digest \<times> digest list list" where
  "build_merkle_tree_from_matrix keccak256 matrix = build_merkle_tree_from_leaves keccak256 (map (hash_row keccak256) matrix)"

definition compute_trace_merkle_root :: "hash_fn \<Rightarrow> GoldilocksField list list \<Rightarrow> digest" where
  "compute_trace_merkle_root keccak256 matrix = (let (root, _) = build_merkle_tree_from_matrix keccak256 matrix in root)"

definition sibling_index :: "nat \<Rightarrow> nat" where
  "sibling_index idx = (if idx mod 2 = 0 then idx + 1 else idx - 1)"

fun siblings :: "digest list list \<Rightarrow> nat \<Rightarrow> digest list" where
  "siblings [] idx = []"
| "siblings (layer # layers) idx =
    (if sibling_index idx < length layer then [layer ! sibling_index idx] else []) @ siblings layers (idx div 2)"

text \<open>The slice \<open>..layers.len() - 1\<close> panics when there is no layer.\<close>

definition generate_merkle_proof :: "digest list list \<Rightarrow> nat \<Rightarrow> ('e, digest list) outcome" where
  "generate_merkle_proof layers index = (if layers = [] then Panicked else Inr (siblings (butlast layers) index))"

definition merkle_step :: "hash_fn \<Rightarrow> digest \<times> nat \<Rightarrow> digest \<Rightarrow> digest \<times> nat" where
  "merkle_step keccak256 = (\<lambda>(current, idx) sibling.
    (keccak256 (if idx mod 2 = 0 then current @ sibling else sibling @ current), idx div 2))"

definition verify_merkle_proof :: "hash_fn \<Rightarrow> digest \<Rightarrow> digest \<Rightarrow> digest list \<Rightarrow> nat \<Rightarrow> bool" where
  "verify_merkle_proof keccak256 root leaf proof index =
    (let (current, idx) = foldl (merkle_step keccak256) (leaf, index) proof in current = root)"

subsection \<open>The transcript\<close>

record Challenger =
  hasher :: bytes

definition new_challenger :: Challenger where
  "new_challenger = \<lparr>hasher = []\<rparr>"

definition challenger_observe :: "GoldilocksField \<Rightarrow> Challenger \<Rightarrow> Challenger" where
  "challenger_observe element c = c\<lparr>hasher := hasher c @ le_bytes 8 (unat element)\<rparr>"

definition observe_slice :: "bytes \<Rightarrow> Challenger \<Rightarrow> Challenger" where
  "observe_slice data c = c\<lparr>hasher := hasher c @ data\<rparr>"

definition sample_ext :: "hash_fn \<Rightarrow> Challenger \<Rightarrow> GoldilocksField \<times> Challenger" where
  "sample_ext keccak256 c =
    (let result = keccak256 (hasher c);
         c = c\<lparr>hasher := result\<rparr>;
         raw_val = word_of_nat (from_le (take 8 result)) :: u64
     in (from_u64 (raw_val mod GOLDILOCKS_PRIME), c))"

fun sample_alphas :: "hash_fn \<Rightarrow> nat \<Rightarrow> Challenger \<Rightarrow> GoldilocksField list \<times> Challenger" where
  "sample_alphas keccak256 0 c = ([], c)"
| "sample_alphas keccak256 (Suc count) c =
    (let (a, c) = sample_ext keccak256 c; (as, c) = sample_alphas keccak256 count c in (a # as, c))"

section \<open>Shape of a tree\<close>

lemma next_pow2_exp: "\<exists>d. next_pow2 (2 ^ a) n = 2 ^ d \<and> n \<le> 2 ^ d"
proof (induction "n - 2 ^ a" arbitrary: a rule: less_induct)
  case less
  show ?case
  proof (cases "2 ^ a < n")
    case True
    then have "n - 2 ^ Suc a < n - 2 ^ a" by (simp add: diff_less_mono2)
    from less [OF this] True show ?thesis by (subst next_pow2.simps) (simp add: mult.commute)
  next
    case False
    then show ?thesis by (subst next_pow2.simps) (auto simp: not_less)
  qed
qed

lemma pad_leaves_exp: "\<exists>d. length (pad_leaves leaves) = 2 ^ d"
  using next_pow2_exp [of 0 "length leaves"] by (auto simp: pad_leaves_def)

lemma pad_leaves_nth: "i < length leaves \<Longrightarrow> pad_leaves leaves ! i = leaves ! i"
  by (simp add: pad_leaves_def nth_append)

lemma length_pad_leaves: "length leaves \<le> length (pad_leaves leaves)"
  by (simp add: pad_leaves_def)

text \<open>The levels of the tree above a list, from the leaves to the root.\<close>

function levels :: "hash_fn \<Rightarrow> digest list \<Rightarrow> digest list list" where
  "levels h xs = (if 1 < length xs then xs # levels h (hash_pairs h xs) else [xs])"
  by pat_completeness auto

termination levels
  by (relation "measure (\<lambda>(h, xs). length xs)") auto

declare levels.simps [simp del]

lemma levels_nonempty [simp]: "levels h xs \<noteq> []"
  by (subst levels.simps) simp

lemma merkle_loop_levels: "merkle_loop h layers xs = (last (levels h xs), layers @ tl (levels h xs))"
proof (induction h layers xs rule: merkle_loop.induct)
  case (1 h layers xs)
  have "hash_pairs h xs # tl (levels h (hash_pairs h xs)) = levels h (hash_pairs h xs)"
    by (subst (1 2) levels.simps) simp
  then show ?case using 1 by (subst merkle_loop.simps, subst levels.simps) (simp add: Let_def levels.simps [of h xs])
qed

lemma hd_levels: "hd (levels h xs) = xs"
  by (subst levels.simps) simp

lemma build_tree_levels:
  assumes "leaves \<noteq> []"
  shows "build_merkle_tree_from_leaves h leaves = (last (levels h (pad_leaves leaves)) ! 0, levels h (pad_leaves leaves))"
proof -
  have "pad_leaves leaves # tl (levels h (pad_leaves leaves)) = levels h (pad_leaves leaves)"
    using hd_levels [of h "pad_leaves leaves"] list.collapse [OF levels_nonempty, of h "pad_leaves leaves"] by simp
  then show ?thesis using assms by (simp add: build_merkle_tree_from_leaves_def merkle_loop_levels Let_def)
qed

lemma levels_Suc: "length xs = 2 ^ Suc d \<Longrightarrow> levels h xs = xs # levels h (hash_pairs h xs)"
  using one_less_power [of "2 :: nat" "Suc d"] by (subst levels.simps) simp

lemma length_levels: "length xs = 2 ^ d \<Longrightarrow> length (levels h xs) = Suc d"
proof (induction d arbitrary: xs)
  case 0
  then show ?case by (subst levels.simps) simp
next
  case (Suc d)
  then show ?case by (simp add: levels_Suc)
qed

lemma hash_pairs_nth: "2 * j + 1 < length xs \<Longrightarrow> hash_pairs h xs ! j = h (xs ! (2 * j) @ xs ! (2 * j + 1))"
proof (induction h xs arbitrary: j rule: hash_pairs.induct)
  case (3 h a b rest)
  then show ?case by (cases j) simp_all
qed simp_all

lemma hash_pairs_exp: "length xs = 2 ^ Suc d \<Longrightarrow> length (hash_pairs h xs) = 2 ^ d"
  by simp

text \<open>A node and its sibling, in the order of their parent.\<close>

lemma parent_input:
  assumes "i < 2 ^ Suc d"
  shows "(if i mod 2 = 0 then xs ! i @ xs ! sibling_index i else xs ! sibling_index i @ xs ! i)
      = xs ! (2 * (i div 2)) @ xs ! (2 * (i div 2) + 1)"
    "sibling_index i < 2 ^ Suc d" "2 * (i div 2) + 1 < 2 ^ Suc d" "i div 2 < 2 ^ d"
proof -
  have div: "i div 2 < 2 ^ d" using assms by auto
  then show "i div 2 < 2 ^ d" "2 * (i div 2) + 1 < 2 ^ Suc d" by simp_all
  have "i = (if i mod 2 = 0 then 2 * (i div 2) else 2 * (i div 2) + 1)" by (simp; presburger)
  moreover have "sibling_index i = (if i mod 2 = 0 then 2 * (i div 2) + 1 else 2 * (i div 2))"
    unfolding sibling_index_def by (auto; presburger)
  ultimately show "(if i mod 2 = 0 then xs ! i @ xs ! sibling_index i else xs ! sibling_index i @ xs ! i)
      = xs ! (2 * (i div 2)) @ xs ! (2 * (i div 2) + 1)" "sibling_index i < 2 ^ Suc d"
    using div by (auto split: if_splits)
qed

lemma siblings_Suc:
  assumes "length xs = 2 ^ Suc d" and "i < 2 ^ Suc d"
  shows "siblings (butlast (levels h xs)) i
    = xs ! sibling_index i # siblings (butlast (levels h (hash_pairs h xs))) (i div 2)"
  using parent_input(2) [OF assms(2)] assms(1) by (simp add: levels_Suc [OF assms(1)])

lemma tree_opens:
  "length xs = 2 ^ d \<Longrightarrow> i < 2 ^ d \<Longrightarrow>
    foldl (merkle_step h) (xs ! i, i) (siblings (butlast (levels h xs)) i) = (last (levels h xs) ! 0, 0)
    \<and> length (siblings (butlast (levels h xs)) i) = d"
proof (induction d arbitrary: xs i)
  case 0
  then show ?case by (subst (1 2 3) levels.simps) simp
next
  case (Suc d)
  have "merkle_step h (xs ! i, i) (xs ! sibling_index i) = (hash_pairs h xs ! (i div 2), i div 2)"
    using parent_input(3) [OF Suc.prems(2)] parent_input(1) [OF Suc.prems(2), of xs] Suc.prems(1) by (simp add: merkle_step_def hash_pairs_nth)
  then show ?case
    using Suc.IH [OF hash_pairs_exp [OF Suc.prems(1)] parent_input(4) [OF Suc.prems(2)]]
    unfolding siblings_Suc [OF Suc.prems] by (simp add: levels_Suc [OF Suc.prems(1)])
qed

section \<open>Strings hashed for a tree and for a check\<close>

fun pair_strings :: "digest list \<Rightarrow> bytes list" where
  "pair_strings [] = []"
| "pair_strings [a] = [a @ zero_digest]"
| "pair_strings (a # b # rest) = (a @ b) # pair_strings rest"

definition tree_inputs :: "digest list list \<Rightarrow> bytes list" where
  "tree_inputs layers = concat (map pair_strings (butlast layers))"

fun path_inputs :: "hash_fn \<Rightarrow> digest \<Rightarrow> nat \<Rightarrow> digest list \<Rightarrow> bytes list" where
  "path_inputs h cur idx [] = []"
| "path_inputs h cur idx (s # proof) =
    (let x = (if idx mod 2 = 0 then cur @ s else s @ cur) in x # path_inputs h (h x) (idx div 2) proof)"

text \<open>Two lists of strings collide when a string of the one and another of the other have the same hash.\<close>

definition collide :: "hash_fn \<Rightarrow> bytes list \<Rightarrow> bytes list \<Rightarrow> bool" where
  "collide h xs ys = (\<exists>x\<in>set xs. \<exists>y\<in>set ys. x \<noteq> y \<and> h x = h y)"

lemma pair_strings_nth: "2 * j + 1 < length xs \<Longrightarrow> xs ! (2 * j) @ xs ! (2 * j + 1) \<in> set (pair_strings xs)"
proof (induction xs arbitrary: j rule: pair_strings.induct)
  case (3 a b rest)
  then show ?case by (cases j) simp_all
qed simp_all

lemma tree_inputs_Suc:
  "length xs = 2 ^ Suc d \<Longrightarrow> tree_inputs (levels h xs) = pair_strings xs @ tree_inputs (levels h (hash_pairs h xs))"
  by (simp add: tree_inputs_def levels_Suc)

lemma hash_pairs_lengths:
  "(\<And>x. length (h x) = 32) \<Longrightarrow> list_all (\<lambda>x. length x = 32) (hash_pairs h xs)"
  by (induction h xs rule: hash_pairs.induct) simp_all

lemma tree_binds:
  assumes "\<And>x. length (h x) = 32"
  shows "length xs = 2 ^ d \<Longrightarrow> i < 2 ^ d \<Longrightarrow> list_all (\<lambda>x. length x = 32) (leaf # proof @ xs) \<Longrightarrow> length proof = d \<Longrightarrow>
    fst (foldl (merkle_step h) (leaf, i) proof) = last (levels h xs) ! 0 \<Longrightarrow>
    leaf = xs ! i \<and> proof = siblings (butlast (levels h xs)) i
    \<or> collide h (path_inputs h leaf i proof) (tree_inputs (levels h xs))"
proof (induction d arbitrary: xs i leaf "proof")
  case 0
  then show ?case by (simp add: levels.simps)
next
  case (Suc d)
  obtain s p where sp: "proof = s # p" using Suc.prems(4) by (cases "proof") auto
  define x where "x = (if i mod 2 = 0 then leaf @ s else s @ leaf)"
  let ?ys = "hash_pairs h xs" and ?y = "xs ! (2 * (i div 2)) @ xs ! (2 * (i div 2) + 1)"
  note par = parent_input [OF Suc.prems(2)]
  have y: "?y \<in> set (pair_strings xs)" "?ys ! (i div 2) = h ?y"
    using pair_strings_nth [of "i div 2" xs] hash_pairs_nth [of "i div 2" xs h] par(3) Suc.prems(1) by simp_all
  have "h x = ?ys ! (i div 2) \<and> p = siblings (butlast (levels h ?ys)) (i div 2)
    \<or> collide h (path_inputs h (h x) (i div 2) p) (tree_inputs (levels h ?ys))"
  proof (rule Suc.IH [OF hash_pairs_exp [OF Suc.prems(1)] par(4)])
    show "fst (foldl (merkle_step h) (h x, i div 2) p) = last (levels h ?ys) ! 0"
      using Suc.prems(5) unfolding sp by (simp add: levels_Suc [OF Suc.prems(1)] merkle_step_def x_def)
  qed (use Suc.prems(3,4) hash_pairs_lengths [OF assms] assms sp in simp_all)
  moreover have inputs: "path_inputs h leaf i proof = x # path_inputs h (h x) (i div 2) p" by (simp add: sp x_def Let_def)
  moreover have "leaf = xs ! i \<and> s = xs ! sibling_index i" if "x = ?y"
  proof -
    have lens: "length leaf = 32" "length s = 32" "length (xs ! i) = 32" "length (xs ! sibling_index i) = 32"
      using Suc.prems(1-3) par(2) sp by (simp_all add: list_all_iff)
    have "x = (if i mod 2 = 0 then xs ! i @ xs ! sibling_index i else xs ! sibling_index i @ xs ! i)"
      unfolding par(1) by (rule that)
    then show ?thesis unfolding x_def using lens by (simp split: if_splits)
  qed
  ultimately show ?case
    unfolding siblings_Suc [OF Suc.prems(1,2)] tree_inputs_Suc [OF Suc.prems(1)] using y
    by (auto simp: sp collide_def)
qed

section \<open>Properties\<close>

text \<open>
  Every leaf of a tree opens: for each position of the padded list of leaves the generated path has the
  depth of the tree and is accepted against the root.
\<close>

theorem merkle_proof_verifies:
  assumes "leaves \<noteq> []" and "i < length (pad_leaves leaves)"
  shows "case build_merkle_tree_from_leaves keccak256 leaves of (root, layers) \<Rightarrow>
    \<exists>path. generate_merkle_proof layers i = Inr path \<and> 2 ^ length path = length (pad_leaves leaves)
      \<and> verify_merkle_proof keccak256 root (pad_leaves leaves ! i) path i"
proof -
  obtain d where d: "length (pad_leaves leaves) = 2 ^ d" using pad_leaves_exp by blast
  show ?thesis using tree_opens [OF d, of i keccak256] assms d
    by (simp add: build_tree_levels generate_merkle_proof_def verify_merkle_proof_def)
qed

theorem merkle_proof_verifies_witness:
  "case build_merkle_tree_from_leaves (take 32) [replicate 32 1, replicate 32 2, replicate 32 3] of (root, layers) \<Rightarrow>
    \<exists>path. generate_merkle_proof layers 2 = (Inr path :: (unit, digest list) outcome) \<and> 2 ^ length path = length (pad_leaves [replicate 32 1, replicate 32 2, replicate 32 3])
      \<and> verify_merkle_proof (take 32) root (pad_leaves [replicate 32 1, replicate 32 2, replicate 32 3] ! 2) path 2"
  by (rule merkle_proof_verifies) (simp_all add: pad_leaves_def next_pow2.simps)

text \<open>
  C37: The root binds: an opening of the depth of the tree that is accepted at a position opens the leaf at that
  position with the generated path, unless one of the strings hashed by the check collides with one of
  those hashed for the tree.  The depth matters: the check itself does not compare it.
\<close>

theorem merkle_root_binds:
  assumes "\<And>x. length (keccak256 x) = 32"
    and "leaves \<noteq> []" and "list_all (\<lambda>x. length x = 32) (leaf # path @ leaves)"
    and "build_merkle_tree_from_leaves keccak256 leaves = (root, layers)"
    and "i < length (pad_leaves leaves)" and "2 ^ length path = length (pad_leaves leaves)"
    and "verify_merkle_proof keccak256 root leaf path i"
  shows "leaf = pad_leaves leaves ! i \<and> generate_merkle_proof layers i = Inr path
    \<or> collide keccak256 (path_inputs keccak256 leaf i path) (tree_inputs layers)"
proof -
  let ?xs = "pad_leaves leaves"
  have "list_all (\<lambda>x. length x = 32) (leaf # path @ ?xs)"
    using assms(3) by (auto simp: pad_leaves_def zero_digest_def list_all_iff)
  moreover have "layers = levels keccak256 ?xs" "root = last (levels keccak256 ?xs) ! 0"
    using assms(4) unfolding build_tree_levels [OF assms(2)] by blast+
  ultimately show ?thesis
    using tree_binds [of keccak256, OF assms(1) assms(6) [symmetric], of i leaf path] assms(5-7)
    by (auto simp: verify_merkle_proof_def generate_merkle_proof_def split_def)
qed

text \<open>A function with outputs of 32 bytes, to show that the hypothesis on the hash can hold.\<close>

definition sample_hash :: hash_fn where
  "sample_hash x = take 32 (x @ replicate 32 0)"

lemma length_sample_hash [simp]: "length (sample_hash x) = 32"
  by (simp add: sample_hash_def)

theorem merkle_root_binds_witness:
  "let leaves = [replicate 32 1, replicate 32 2]; layers = snd (build_merkle_tree_from_leaves sample_hash leaves) in
    replicate 32 1 = pad_leaves leaves ! 0 \<and> generate_merkle_proof layers 0 = (Inr [replicate 32 2] :: (unit, digest list) outcome)
    \<or> collide sample_hash (path_inputs sample_hash (replicate 32 1) 0 [replicate 32 2]) (tree_inputs layers)"
proof -
  let ?leaves = "[replicate 32 1, replicate 32 2] :: digest list"
  have pad: "pad_leaves ?leaves = ?leaves" by (simp add: pad_leaves_def next_pow2.simps)
  obtain root layers where t: "build_merkle_tree_from_leaves sample_hash ?leaves = (root, layers)" by (cases "build_merkle_tree_from_leaves sample_hash ?leaves")
  have "verify_merkle_proof sample_hash root (replicate 32 1) [replicate 32 2] 0"
    using t by (simp add: build_tree_levels pad levels.simps verify_merkle_proof_def merkle_step_def)
  then show ?thesis using merkle_root_binds [of sample_hash ?leaves "replicate 32 1" "[replicate 32 2]" root layers 0] t
    by (simp add: pad Let_def)
qed

end
