(* ===== verification/Trace.thy ===== *)
theory Trace
  imports Merkle Shake Packing
begin

text \<open>
  The execution trace of the STARK prover (\<open>solomon-zk/src/trace.rs\<close>): the rows of the Keccak permutation,
  and the matrix unpacked from a signature with its quotient witnesses.
\<close>

section \<open>The code\<close>

subsection \<open>The Keccak rows\<close>

definition KECCAK_RC :: "u64 list" where
  "KECCAK_RC = [0x0000000000000001, 0x0000000000008082, 0x800000000000808A, 0x8000000080008000,
    0x000000000000808B, 0x0000000080000001, 0x8000000080008081, 0x8000000000008009,
    0x000000000000008A, 0x0000000000000088, 0x0000000080008009, 0x000000008000000A,
    0x000000008000808B, 0x800000000000008B, 0x8000000000008089, 0x8000000000008003,
    0x8000000000008002, 0x8000000000000080, 0x000000000000800A, 0x800000008000000A,
    0x8000000080008081, 0x8000000000008080, 0x0000000080000001, 0x8000000080008008]"

definition trace_theta :: "u64 list \<Rightarrow> u64 list" where
  "trace_theta st =
    (let c = map (\<lambda>x. st ! x XOR st ! (x + 5) XOR st ! (x + 10) XOR st ! (x + 15) XOR st ! (x + 20)) [0..<5];
         d = map (\<lambda>x. c ! ((x + 4) mod 5) XOR word_rotl 1 (c ! ((x + 1) mod 5))) [0..<5]
     in fold (\<lambda>x. fold (\<lambda>y st. st[x + 5 * y := st ! (x + 5 * y) XOR d ! x]) [0..<5]) [0..<5] st)"

definition ROT_CONSTANTS :: "nat list list" where
  "ROT_CONSTANTS = [[0, 36, 3, 41, 18], [1, 44, 10, 45, 2], [62, 6, 43, 15, 61], [28, 55, 25, 21, 56], [27, 20, 39, 8, 14]]"

definition trace_rho_pi :: "u64 list \<Rightarrow> u64 list" where
  "trace_rho_pi st =
    fold (\<lambda>x. fold (\<lambda>y b. b[y + 5 * ((2 * x + 3 * y) mod 5) := word_rotl (ROT_CONSTANTS ! x ! y) (st ! (x + 5 * y))]) [0..<5])
      [0..<5] (replicate 25 0)"

definition trace_chi :: "u64 list \<Rightarrow> u64 list \<Rightarrow> u64 list" where
  "trace_chi b st =
    fold (\<lambda>x. fold (\<lambda>y st. st[x + 5 * y := b ! (x + 5 * y) XOR (NOT (b ! ((x + 1) mod 5 + 5 * y)) AND b ! ((x + 2) mod 5 + 5 * y))]) [0..<5])
      [0..<5] st"

definition keccak_f1600_round :: "nat \<Rightarrow> u64 list \<Rightarrow> u64 list" where
  "keccak_f1600_round round st =
    (let st = trace_theta st;
         b = trace_rho_pi st;
         st = trace_chi b st
     in st[0 := st ! 0 XOR KECCAK_RC ! (round mod 24)])"

definition seed_state :: "bytes \<Rightarrow> u64 list" where
  "seed_state seed =
    fold (\<lambda>i st. st[i mod 25 := st ! (i mod 25) XOR word_of_nat (from_le (take 8 (drop (8 * i) seed)))]) [0..<4] (replicate 25 0)"

definition keccak_row :: "u64 list \<Rightarrow> GoldilocksField list" where
  "keccak_row st =
    concat (map (\<lambda>lane. map (\<lambda>nibble_idx. from_u64 (drop_bit (nibble_idx * 4) lane AND 0xF)) [0..<16]) st)"

fun keccak_rows_loop :: "nat list \<Rightarrow> u64 list \<Rightarrow> GoldilocksField list list" where
  "keccak_rows_loop [] st = []"
| "keccak_rows_loop (round # rounds) st =
    (let st = keccak_f1600_round round st in keccak_row st # keccak_rows_loop rounds st)"

definition generate_keccak_rows :: "bytes \<Rightarrow> GoldilocksField list list" where
  "generate_keccak_rows seed = keccak_rows_loop [0..<24] (seed_state seed)"

definition TRACE_DOMAIN_ORDER :: nat where
  "TRACE_DOMAIN_ORDER = 262144"

definition KECCAK_TRACE_WIDTH :: nat where
  "KECCAK_TRACE_WIDTH = 400"

definition generate_shake_trace :: "bytes \<Rightarrow> GoldilocksField list" where
  "generate_shake_trace seed =
    (let trace = concat (generate_keccak_rows seed); n = TRACE_DOMAIN_ORDER * KECCAK_TRACE_WIDTH
     in take n trace @ replicate (n - length trace) 0)"

subsection \<open>The signature\<close>

record TraceBuilder =
  matrix :: "GoldilocksField list list"

definition new_trace_builder :: TraceBuilder where
  "new_trace_builder = \<lparr>matrix = []\<rparr>"

definition z_chunk :: "bytes \<Rightarrow> nat \<Rightarrow> u32" where
  "z_chunk z_bytes byte_idx =
    (if byte_idx + 3 < length z_bytes
     then word_of_nat (from_le [z_bytes ! byte_idx, z_bytes ! (byte_idx + 1), z_bytes ! (byte_idx + 2), z_bytes ! (byte_idx + 3)])
     else fold (\<lambda>i chunk. if byte_idx + i < length z_bytes then chunk OR push_bit (i * 8) (ucast (z_bytes ! (byte_idx + i))) else chunk)
       [0..<4] 0)"

definition z_raw :: "bytes \<Rightarrow> nat \<Rightarrow> u64" where
  "z_raw z_bytes bit_offset = ucast (drop_bit (bit_offset mod 8) (z_chunk z_bytes (bit_offset div 8)) AND 0x000FFFFF)"

definition z_coefficient :: "u64 \<Rightarrow> GoldilocksField" where
  "z_coefficient coeff =
    (let gamma1 = push_bit 19 1;
         coeff = (if coeff \<ge> gamma1 then coeff - gamma1 else DILITHIUM_Q - (gamma1 - coeff))
     in from_u64 (coeff mod DILITHIUM_Q))"

definition z_coefficients :: "bytes \<Rightarrow> GoldilocksField list" where
  "z_coefficients z_bytes = map (\<lambda>k. z_coefficient (z_raw z_bytes (20 * k))) [0..<5 * 256]"

definition trace_row :: "u8 \<Rightarrow> GoldilocksField \<Rightarrow> GoldilocksField \<Rightarrow> GoldilocksField \<Rightarrow> GoldilocksField list" where
  "trace_row c0 a b w_twiddle =
    (let b_w_val = (b * w_twiddle) mod DILITHIUM_Q;
         b_w = from_u64 b_w_val;
         sum_raw = a + b_w;
         u_val = sum_raw mod DILITHIUM_Q;
         k_u_val = sum_raw div DILITHIUM_Q;
         diff_raw = a + DILITHIUM_Q - b_w;
         v_val = diff_raw mod DILITHIUM_Q;
         k_v_val = diff_raw div DILITHIUM_Q
     in [a, b, w_twiddle, from_u64 u_val, from_u64 v_val, from_u64 k_u_val, from_u64 k_v_val, from_u64 (ucast c0)])"

definition next_twiddle :: "GoldilocksField \<Rightarrow> GoldilocksField" where
  "next_twiddle w_twiddle = from_u64 ((w_twiddle * from_u64 1753) mod DILITHIUM_Q)"

fun trace_rows :: "u8 \<Rightarrow> GoldilocksField \<Rightarrow> GoldilocksField list \<Rightarrow> GoldilocksField list list" where
  "trace_rows c0 w_twiddle (a # b # rest) = trace_row c0 a b w_twiddle # trace_rows c0 (next_twiddle w_twiddle) rest"
| "trace_rows c0 w_twiddle zs = []"

definition pad_matrix :: "GoldilocksField list list \<Rightarrow> GoldilocksField list list" where
  "pad_matrix m = m @ replicate (next_pow2 1 (max (length m) 1024) - length m) (replicate 8 0)"

definition ingest_signature :: "bytes \<Rightarrow> TraceBuilder \<Rightarrow> ('e, TraceBuilder) outcome" where
  "ingest_signature signature self =
    (if length signature \<noteq> 3309 then Panicked
     else let c_tilde = take 32 signature;
              z_bytes = take 3200 (drop 32 signature);
              rows = trace_rows (c_tilde ! 0) 1 (z_coefficients z_bytes)
          in Inr (self\<lparr>matrix := pad_matrix (matrix self @ rows)\<rparr>))"

section \<open>The Keccak rows follow the permutation\<close>

lemma trace_theta_eq: "length st = 25 \<Longrightarrow> trace_theta st = theta_step st"
  unfolding trace_theta_def theta_step_def by (simp add: upt_heads Let_def)

lemma replicate_25: "replicate 25 x = [x, x, x, x, x, x, x, x, x, x, x, x, x, x, x, x, x, x, x, x, x, x, x, x, x]"
  by (simp add: numeral_eq_Suc)

lemma trace_rho_pi_eq:
  assumes "length st = 25"
  shows "trace_rho_pi st = rho_pi_step st"
  by (subst (1 2) list_25 [OF assms])
    (simp add: trace_rho_pi_def rho_pi_step_def ROT_CONSTANTS_def PI_def RHO_def upt_heads Let_def replicate_25 numeral_2_eq_2 [symmetric] rotl_zero)

lemma trace_chi_eq:
  assumes "length b = 25" and "length st = 25"
  shows "trace_chi b st = chi_step b"
  by (subst (1 2) list_25 [OF assms(1)], subst list_25 [OF assms(2)])
    (simp add: trace_chi_def chi_step_def upt_heads Let_def numeral_2_eq_2 [symmetric])

lemma keccak_f1600_round_eq:
  assumes "length st = 25" and "round < 24"
  shows "keccak_f1600_round round st = keccak_round round st"
proof -
  have "length (theta_step st) = 25" "length (rho_pi_step (theta_step st)) = 25"
    using assms(1) by (simp_all add: theta_fips rho_pi_fips)
  moreover have "KECCAK_RC = RC" by (simp add: KECCAK_RC_def RC_def)
  ultimately show ?thesis using assms
    by (simp add: keccak_f1600_round_def keccak_round_def trace_theta_eq trace_rho_pi_eq trace_chi_eq Let_def)
qed

lemma length_rounds: "length st = 25 \<Longrightarrow> n \<le> 24 \<Longrightarrow> length (fold keccak_round [0..<n] st) = 25"
  by (simp add: keccak_rounds_fips)

lemma keccak_rows_loop_eq:
  assumes "length st = 25"
  shows "n \<le> 24 \<Longrightarrow> keccak_rows_loop [n..<24] (fold keccak_round [0..<n] st)
    = map (\<lambda>r. keccak_row (fold keccak_round [0..<Suc r] st)) [n..<24]"
proof (induction "24 - n" arbitrary: n)
  case (Suc d)
  then have n: "n < 24" by simp
  have "keccak_f1600_round n (fold keccak_round [0..<n] st) = fold keccak_round [0..<Suc n] st"
    using keccak_f1600_round_eq [OF length_rounds [OF assms] n] n by simp
  then show ?case using Suc.hyps(1) [of "Suc n"] Suc.hyps(2) n by (simp only: upt_conv_Cons [OF n]) (simp add: Let_def)
qed simp

lemma length_seed_state [simp]: "length (seed_state seed) = 25"
  by (simp add: seed_state_def upt_heads)

section \<open>The coefficients of z\<close>

lemma ucast_shift_bound: "8 + k \<le> 32 \<Longrightarrow> bit (push_bit k (ucast (b :: u8)) :: u32) n \<longleftrightarrow> k \<le> n \<and> n < k + 8 \<and> bit b (n - k)"
  by (auto simp: bit_push_bit_iff bit_ucast_iff dest: bit_imp_le_length)

lemma le_word_or:
  "(word_of_nat (from_le [a, b, c, d]) :: u32)
    = ucast a OR push_bit 8 (ucast b) OR push_bit 16 (ucast c) OR push_bit 24 (ucast d)"
proof -
  let ?a = "ucast a :: u32" and ?b = "push_bit 8 (ucast b) :: u32" and ?c = "push_bit 16 (ucast c) :: u32" and ?d = "push_bit 24 (ucast d) :: u32"
  have bits: "bit ?a n \<longleftrightarrow> n < 8 \<and> bit a n" for n using ucast_shift_bound [of 0 a n] by simp
  have "(word_of_nat (from_le [a, b, c, d]) :: u32) = ?a + (?b + (?c + ?d))"
    by (simp add: from_le_def from_be_def push_bit_eq_mult unsigned_def algebra_simps flip: of_nat_eq_iff)
  also have "?c + ?d = ?c OR ?d" by (rule disjunctive_add) (auto simp: ucast_shift_bound)
  also have "?b + (?c OR ?d) = ?b OR ?c OR ?d" by (rule disjunctive_add) (auto simp: ucast_shift_bound bit_or_iff)
  also have "?a + (?b OR ?c OR ?d) = ?a OR ?b OR ?c OR ?d" by (rule disjunctive_add) (auto simp: ucast_shift_bound bits bit_or_iff)
  finally show ?thesis .
qed

lemma z_raw_low:
  "drop_bit 0 (ucast a OR push_bit 8 (ucast b) OR push_bit 16 (ucast c) OR push_bit 24 (ucast d)) AND (0xFFFFF :: u32)
    = ucast (a :: u8) OR push_bit 8 (ucast (b :: u8)) OR push_bit 16 (ucast (c :: u8) AND 0x0F)" (is "?v = ?w")
  unfolding masks
proof (rule bit_word_eqI)
  fix n assume "n < LENGTH(32)"
  then consider "n < 8" | "8 \<le> n" "n < 16" | "16 \<le> n" "n < 20" | "20 \<le> n" "n < 24" | "24 \<le> n" "n < 32" by fastforce
  then show "bit (drop_bit 0 (ucast a OR push_bit 8 (ucast b) OR push_bit 16 (ucast c) OR push_bit 24 (ucast d)) AND (mask 20 :: u32)) n
    = bit (ucast a OR push_bit 8 (ucast b) OR push_bit 16 (ucast c AND mask 4) :: u32) n"
    unfolding bit_iffs by cases (auto simp: word_bits dest: bit_imp_le_length)
qed

lemma z_raw_high:
  "drop_bit 4 (ucast a OR push_bit 8 (ucast b) OR push_bit 16 (ucast c) OR push_bit 24 (ucast d)) AND (0xFFFFF :: u32)
    = drop_bit 4 (ucast (a :: u8)) OR push_bit 4 (ucast (b :: u8)) OR push_bit 12 (ucast (c :: u8))"
  unfolding masks
proof (rule bit_word_eqI)
  fix n assume "n < LENGTH(32)"
  then consider "n < 4" | "4 \<le> n" "n < 12" | "12 \<le> n" "n < 20" | "20 \<le> n" "n < 24" | "24 \<le> n" "n < 32" by fastforce
  then show "bit (drop_bit 4 (ucast a OR push_bit 8 (ucast b) OR push_bit 16 (ucast c) OR push_bit 24 (ucast d)) AND (mask 20 :: u32)) n
    = bit (drop_bit 4 (ucast a) OR push_bit 4 (ucast b) OR push_bit 12 (ucast c) :: u32) n"
    unfolding bit_iffs by cases (auto simp: word_bits dest: bit_imp_le_length)
qed

definition byte_or_0 :: "bytes \<Rightarrow> nat \<Rightarrow> u8" where
  "byte_or_0 zb i = (if i < length zb then zb ! i else 0)"

lemma z_chunk_or:
  "z_chunk zb i = ucast (byte_or_0 zb i) OR push_bit 8 (ucast (byte_or_0 zb (i + 1)))
    OR push_bit 16 (ucast (byte_or_0 zb (i + 2))) OR push_bit 24 (ucast (byte_or_0 zb (i + 3)))"
  by (simp add: z_chunk_def byte_or_0_def le_word_or upt_heads or.assoc)

text \<open>What the signature engine reads from a group of five bytes.\<close>

lemma unpack_z_group_chunk:
  "unpack_z_group (chunk 5 j buf) =
    map to_canonical
     [GAMMA1 - (ucast (buf ! (5 * j)) OR push_bit 8 (ucast (buf ! (5 * j + 1))) OR push_bit 16 (ucast (buf ! (5 * j + 2)) AND 0x0F)),
      GAMMA1 - (drop_bit 4 (ucast (buf ! (5 * j + 2))) OR push_bit 4 (ucast (buf ! (5 * j + 3))) OR push_bit 12 (ucast (buf ! (5 * j + 4))))]"
  by (simp add: unpack_z_group_def chunk_def upt_heads Let_def nth_steps(2-))

lemma ucast_back: "(ucast (ucast (w :: u32) :: u64) :: u32) = w"
  by (rule bit_word_eqI) (simp add: bit_ucast_iff)

lemma z_raw_group:
  assumes "5 * j + 4 < length zb"
  shows "unpack_z_group (chunk 5 j zb) = map to_canonical [GAMMA1 - ucast (z_raw zb (40 * j)), GAMMA1 - ucast (z_raw zb (40 * j + 20))]"
proof -
  have d: "(40 * j) div 8 = 5 * j" "(40 * j) mod 8 = 0" "(40 * j + 20) div 8 = 5 * j + 2" "(40 * j + 20) mod 8 = 4" by presburger+
  have i: "5 * j + 2 + 1 = 5 * j + 3" "5 * j + 2 + 2 = 5 * j + 4" by simp_all
  have b: "byte_or_0 zb (5 * j) = zb ! (5 * j)" "byte_or_0 zb (5 * j + 1) = zb ! (5 * j + 1)" "byte_or_0 zb (5 * j + 2) = zb ! (5 * j + 2)"
    "byte_or_0 zb (5 * j + 3) = zb ! (5 * j + 3)" "byte_or_0 zb (5 * j + 4) = zb ! (5 * j + 4)"
    using assms by (simp_all add: byte_or_0_def)
  show ?thesis unfolding unpack_z_group_chunk z_raw_def d z_chunk_or z_raw_low z_raw_high ucast_back i b ..
qed

lemma z_raw_bound: "z_raw zb k < 2 ^ 20"
proof -
  have "drop_bit (k mod 8) (z_chunk zb (k div 8)) AND 0x000FFFFF < (2 ^ 20 :: u32)"
    unfolding masks by (rule and_mask_less') simp
  then show ?thesis by (simp add: z_raw_def word_less_def unsigned_ucast_eq take_bit_int_eq_self)
qed

section \<open>Values of the rows\<close>

lemma neg_uint [simp]: "0 \<le> k \<Longrightarrow> - uint c \<le> k" "0 < k \<Longrightarrow> - uint c < k"
  using uint_nonnegative [of c] by linarith+

lemma from_u64_mod_Q: "from_u64 (x mod DILITHIUM_Q) = x mod DILITHIUM_Q"
proof -
  have "x mod DILITHIUM_Q < DILITHIUM_Q" by (simp add: word_mod_less_divisor DILITHIUM_Q_def)
  then have "x mod DILITHIUM_Q < GOLDILOCKS_PRIME"
    by (rule order.strict_trans) (simp add: GOLDILOCKS_PRIME_def DILITHIUM_Q_def)
  then have "\<not> GOLDILOCKS_PRIME \<le> x mod DILITHIUM_Q" by simp
  then show ?thesis by (simp add: from_u64_def)
qed

lemma uint_mod_Q: "uint (x mod DILITHIUM_Q) = uint x mod 8380417"
  by (simp add: DILITHIUM_Q_def uint_mod)

lemma z_coefficient_value:
  assumes "c < 2 ^ 20"
  shows "uint (z_coefficient c) = (uint c - 2 ^ 19) mod 8380417"
proof -
  have c: "uint c < 2 ^ 20" using assms by (simp add: word_less_def)
  show ?thesis
  proof (cases "c \<ge> push_bit 19 1")
    case True
    then show ?thesis using c
      by (simp add: z_coefficient_def from_u64_mod_Q uint_mod_Q uint_sub_if_size word_le_def)
  next
    case False
    then have g: "uint (push_bit 19 1 - c) = 524288 - uint c"
      using c by (simp add: uint_sub_if_size word_le_def)
    have "uint (DILITHIUM_Q - (push_bit 19 1 - c)) = (uint c - 2 ^ 19) + 8380417"
      unfolding uint_sub_if_size [of DILITHIUM_Q] g using False by (simp add: DILITHIUM_Q_def word_le_def)
    then show ?thesis using False
      by (simp only: z_coefficient_def Let_def if_False from_u64_mod_Q uint_mod_Q mod_add_self2)
  qed
qed

lemma z_coefficients_small: "k < 1280 \<Longrightarrow> uint (z_coefficients zb ! k) < 8380417"
  using z_coefficient_value [OF z_raw_bound, of zb "20 * k"] by (simp add: z_coefficients_def)

lemma canonical_value: "sint (to_canonical (GAMMA1 - ucast (c :: u64))) = (2 ^ 19 - uint c) mod 8380417" if "c < 2 ^ 20"
proof -
  have c: "uint c < 2 ^ 20" using that by (simp add: word_less_def)
  then have u: "uint (ucast c :: i32) = uint c" by (simp add: unsigned_ucast_eq take_bit_int_eq_self)
  then have s: "sint (ucast c :: i32) = uint c" using c signed_take_bit_int_eq_self [of 31 "uint c"] order.trans [OF _ uint_nonnegative [of c], of "- 2147483648"] by (simp add: sint_uint)
  have "sint (GAMMA1 - ucast c) = 2 ^ 19 - uint c"
    using c by (subst sint_sub_i32) (simp_all add: GAMMA1_def s)
  then show ?thesis using c by (subst to_canonical_value) simp_all
qed

lemma z_coefficient_negated:
  assumes "c < 2 ^ 20"
  shows "uint (z_coefficient c) = - sint (to_canonical (GAMMA1 - ucast c)) mod 8380417"
  unfolding canonical_value [OF assms] z_coefficient_value [OF assms] by (simp add: mod_minus_eq)

lemma unpack_z_nth:
  assumes "length zb = 3200" and "i < 5" and "j < 128" and "r < 2"
  shows "unpack_z_poly (take 640 (drop (640 * i) zb)) ! (2 * j + r)
    = to_canonical (GAMMA1 - ucast (z_raw zb (20 * (256 * i + (2 * j + r)))))"
proof -
  let ?buf = "take 640 (drop (640 * i) zb)" and ?j = "128 * i + j"
  have "chunk 5 j ?buf = chunk 5 ?j zb" using assms(1-3) by (auto simp: chunk_def add.assoc)
  moreover have "5 * ?j + 4 < length zb" using assms(1-3) by simp
  ultimately have "unpack_z_group (chunk 5 j ?buf)
      = map to_canonical [GAMMA1 - ucast (z_raw zb (40 * ?j)), GAMMA1 - ucast (z_raw zb (40 * ?j + 20))]"
    by (simp only: z_raw_group)
  then have "unpack_z_group (chunk 5 j ?buf) ! r = to_canonical (GAMMA1 - ucast (z_raw zb (40 * ?j + 20 * r)))"
    using assms(4) by (cases r) simp_all
  moreover have "unpack_z_poly ?buf ! (2 * j + r) = unpack_z_group (chunk 5 j ?buf) ! r"
    unfolding unpack_z_poly_def using assms(3,4) by (intro nth_concat_chunks) (simp_all add: unpack_z_group_def Let_def)
  moreover have "40 * ?j + 20 * r = 20 * (256 * i + (2 * j + r))" by simp
  ultimately show ?thesis by (simp only:)
qed

subsection \<open>Rows\<close>

lemma length_trace_rows: "length (trace_rows c0 w zs) = length zs div 2"
  by (induction c0 w zs rule: trace_rows.induct) simp_all

lemma trace_rows_nth:
  "2 * i + 1 < length zs \<Longrightarrow> trace_rows c0 w zs ! i = trace_row c0 (zs ! (2 * i)) (zs ! (2 * i + 1)) ((next_twiddle ^^ i) w)"
proof (induction c0 w zs arbitrary: i rule: trace_rows.induct)
  case (1 c0 w a b rest)
  then show ?case by (cases i) (simp_all add: funpow_swap1)
qed simp_all

lemma uint_next_twiddle: "uint w < 8380417 \<Longrightarrow> uint (next_twiddle w) = uint w * 1753 mod 8380417"
proof -
  assume w: "uint w < 8380417"
  have "uint w * uint (1753 :: u64) < 2 ^ 64" using w by simp
  then have "uint (w * 1753) = uint w * 1753" using uint_mult_lem [of w "1753 :: u64"] by simp
  moreover have "from_u64 1753 = 1753" by (simp add: from_u64_def GOLDILOCKS_PRIME_def)
  ultimately show ?thesis by (simp add: next_twiddle_def from_u64_mod_Q uint_mod_Q)
qed

lemma uint_twiddle: "uint ((next_twiddle ^^ i) 1) = 1753 ^ i mod 8380417"
proof (induction i)
  case (Suc i)
  have "uint ((next_twiddle ^^ i) 1) < 8380417" by (simp add: Suc)
  then have "uint ((next_twiddle ^^ Suc i) 1) = uint ((next_twiddle ^^ i) 1) * 1753 mod 8380417"
    using uint_next_twiddle by simp
  then show ?case unfolding Suc.IH by (simp only: mod_mult_left_eq mod_mult_right_eq power_Suc mult.commute)
qed simp

lemma trace_row_values:
  assumes "uint a < 8380417" and "uint b < 8380417" and "uint w < 8380417"
  obtains u v ku kv where "trace_row c0 a b w = [a, b, w, u, v, ku, kv, ucast c0]"
    "uint u = (uint a + uint b * uint w) mod 8380417" "uint v = (uint a - uint b * uint w) mod 8380417"
    "uint u + uint ku * 8380417 = uint a + uint b * uint w mod 8380417"
    "uint v + uint kv * 8380417 = uint a + 8380417 - uint b * uint w mod 8380417"
    "uint ku < 2" "uint kv < 2"
proof -
  let ?q = "8380417 :: int" and ?m = "uint b * uint w mod 8380417"
  define bw where "bw = (b * w) mod DILITHIUM_Q"
  have "uint b * uint w < 8380417 * 8380417" using assms(2,3) by (intro mult_strict_mono) simp_all
  then have "uint (b * w) = uint b * uint w" using uint_mult_lem [of b w] by simp
  then have bw: "uint bw = ?m" by (simp add: bw_def uint_mod_Q)
  have fbw: "from_u64 bw = bw" by (simp add: bw_def from_u64_mod_Q)
  have m: "0 \<le> ?m" "?m < ?q" by simp_all
  have s: "uint (a + bw) = uint a + ?m" using uint_add_lem [of a bw] bw m assms(1) by simp
  have "uint (a + DILITHIUM_Q) = uint a + ?q" using uint_add_lem [of a DILITHIUM_Q] assms(1) by (simp add: DILITHIUM_Q_def)
  then have d: "uint (a + DILITHIUM_Q - bw) = uint a + ?q - ?m"
    using order.trans [OF order.strict_implies_order [OF m(2)], of "uint a + ?q"] bw by (simp add: uint_sub_if_size)
  define u v ku kv where "u = (a + bw) mod DILITHIUM_Q" and "v = (a + DILITHIUM_Q - bw) mod DILITHIUM_Q"
    and "ku = (a + bw) div DILITHIUM_Q" and "kv = (a + DILITHIUM_Q - bw) div DILITHIUM_Q"
  have uv: "uint u = (uint a + ?m) mod ?q" "uint v = (uint a + ?q - ?m) mod ?q"
    "uint ku = (uint a + ?m) div ?q" "uint kv = (uint a + ?q - ?m) div ?q"
    by (simp_all add: u_def v_def ku_def kv_def uint_mod_Q uint_div s d) (simp_all add: DILITHIUM_Q_def)
  have small: "uint ku < 2" "uint kv < 2" using m assms(1) uint_nonnegative [of a] unfolding uv by linarith+
  have k: "from_u64 ku = ku" "from_u64 kv = kv" using small by (auto simp: from_u64_def GOLDILOCKS_PRIME_def word_le_def)
  have c: "from_u64 (ucast c0) = ucast c0"
    using uint_bounded [of c0] by (auto simp: from_u64_def GOLDILOCKS_PRIME_def word_le_def unsigned_ucast_eq take_bit_int_eq_self)
  show ?thesis
  proof (rule that)
    show "trace_row c0 a b w = [a, b, w, u, v, ku, kv, ucast c0]"
      unfolding trace_row_def Let_def c from_u64_mod_Q bw_def [symmetric] fbw ku_def [symmetric] kv_def [symmetric] k u_def v_def ..
    show "uint u = (uint a + uint b * uint w) mod ?q" unfolding uv by (rule mod_add_right_eq)
    have "(uint a + ?q - ?m) mod ?q = (uint a - ?m + ?q) mod ?q" by (simp add: algebra_simps)
    then show "uint v = (uint a - uint b * uint w) mod ?q" unfolding uv by (simp only: mod_add_self2 mod_diff_right_eq)
    show "uint u + uint ku * ?q = uint a + ?m" "uint v + uint kv * ?q = uint a + ?q - ?m" unfolding uv by simp_all
  qed (use small in simp_all)
qed

section \<open>Properties\<close>

text \<open>
  The Keccak rows follow FIPS 202: row \<open>r\<close> holds the nibbles of the state after \<open>r + 1\<close> rounds
  of the permutation of the signature engine, so the last row is Keccak-f[1600] of the seed.
\<close>

theorem keccak_rows_follow_permutation:
  "generate_keccak_rows seed = map (\<lambda>r. keccak_row (fold keccak_round [0..<Suc r] (seed_state seed))) [0..<24]
    \<and> last (generate_keccak_rows seed) = keccak_row (keccak_f1600 (seed_state seed))"
proof -
  have rows: "generate_keccak_rows seed = map (\<lambda>r. keccak_row (fold keccak_round [0..<Suc r] (seed_state seed))) [0..<24]"
    using keccak_rows_loop_eq [OF length_seed_state, of 0 seed] by (simp add: generate_keccak_rows_def del: upt_Suc upt_rec_numeral)
  have "[0..<24] = [0..<23] @ [23]" using upt_Suc_append [of 0 23] by simp
  then show ?thesis unfolding rows by (simp add: keccak_f1600_def del: upt_rec_numeral upt_Suc)
qed

text \<open>A row that holds a butterfly of \<open>a\<close> and \<open>b\<close> with twiddle \<open>w\<close>, and the quotients of its two sums.\<close>

definition butterfly_row :: "int \<Rightarrow> int \<Rightarrow> int \<Rightarrow> GoldilocksField list \<Rightarrow> bool" where
  "butterfly_row a b w row \<longleftrightarrow> length row = 8 \<and> uint (row ! 0) = a \<and> uint (row ! 1) = b \<and> uint (row ! 2) = w
    \<and> uint (row ! 3) = (a + b * w) mod 8380417 \<and> uint (row ! 4) = (a - b * w) mod 8380417
    \<and> uint (row ! 3) + uint (row ! 5) * 8380417 = a + b * w mod 8380417
    \<and> uint (row ! 4) + uint (row ! 6) * 8380417 = a + 8380417 - b * w mod 8380417
    \<and> uint (row ! 5) < 2 \<and> uint (row ! 6) < 2"

lemma trace_row_butterfly:
  assumes "uint a < 8380417" and "uint b < 8380417" and "uint w < 8380417"
  shows "butterfly_row (uint a) (uint b) (uint w) (trace_row c0 a b w) \<and> list_all canonical_gf (trace_row c0 a b w)"
proof (rule trace_row_values [OF assms, of c0])
  fix u v ku kv
  assume r: "trace_row c0 a b w = [a, b, w, u, v, ku, kv, ucast c0]"
    "uint u = (uint a + uint b * uint w) mod 8380417" "uint v = (uint a - uint b * uint w) mod 8380417"
    "uint u + uint ku * 8380417 = uint a + uint b * uint w mod 8380417"
    "uint v + uint kv * 8380417 = uint a + 8380417 - uint b * uint w mod 8380417" "uint ku < 2" "uint kv < 2"
  have "butterfly_row (uint a) (uint b) (uint w) (trace_row c0 a b w)"
    unfolding butterfly_row_def r(1) using r(2-) by (simp add: nth_steps(2-))
  moreover have "uint u < 8380417" "uint v < 8380417" unfolding r(2,3) by simp_all
  moreover have "uint (ucast c0 :: u64) < 256" using uint_bounded [of c0] by (simp add: unsigned_ucast_eq take_bit_int_eq_self)
  ultimately show ?thesis using assms r(6,7)
    by (auto simp: r(1) canonical_gf_def GOLDILOCKS_PRIME_def word_less_def)
qed

lemma pad_matrix_640: "length m = 640 \<Longrightarrow> pad_matrix m = m @ replicate 384 (replicate 8 0)"
  by (simp add: pad_matrix_def next_pow2.simps)

lemma ingest_ok:
  assumes "length signature = 3309"
  obtains rows where "ingest_signature signature new_trace_builder = (Inr \<lparr>matrix = rows @ replicate 384 (replicate 8 0)\<rparr> :: ('e, TraceBuilder) outcome)"
    "length rows = 640" "list_all (\<lambda>row. length row = 8 \<and> list_all canonical_gf row) rows"
    "\<forall>i<640. butterfly_row (uint (z_coefficients (take 3200 (drop 32 signature)) ! (2 * i)))
      (uint (z_coefficients (take 3200 (drop 32 signature)) ! (2 * i + 1))) (1753 ^ i mod 8380417) (rows ! i)"
proof -
  define zs where "zs = z_coefficients (take 3200 (drop 32 signature))"
  define rows where "rows = trace_rows (signature ! 0) 1 zs"
  have zs: "length zs = 1280" by (simp add: zs_def z_coefficients_def)
  then have len: "length rows = 640" by (simp add: rows_def length_trace_rows)
  have run: "ingest_signature signature new_trace_builder = (Inr \<lparr>matrix = rows @ replicate 384 (replicate 8 0)\<rparr> :: ('e, TraceBuilder) outcome)"
    using assms pad_matrix_640 [OF len] by (simp add: ingest_signature_def new_trace_builder_def Let_def zs_def rows_def)
  have row: "butterfly_row (uint (zs ! (2 * i))) (uint (zs ! (2 * i + 1))) (1753 ^ i mod 8380417) (rows ! i) \<and> list_all canonical_gf (rows ! i)"
    if "i < 640" for i
  proof -
    have i: "2 * i + 1 < length zs" using that zs by simp
    have "uint (zs ! (2 * i)) < 8380417" "uint (zs ! (2 * i + 1)) < 8380417" "uint ((next_twiddle ^^ i) 1) < 8380417"
      using that by (simp_all add: zs_def z_coefficients_small uint_twiddle)
    from trace_row_butterfly [OF this] show ?thesis by (simp only: rows_def trace_rows_nth [OF i] uint_twiddle)
  qed
  have "list_all (\<lambda>row. length row = 8 \<and> list_all canonical_gf row) rows"
    unfolding list_all_length [of _ rows] len using row by (simp add: butterfly_row_def)
  then show ?thesis using that [OF run len] row by (simp add: zs_def)
qed



text \<open>
  What the trace calls the coefficients of z: they are the negatives, modulo the prime, of what the
  signature engine reads from the same bytes.  The bytes are those at offset 32 of the signature, whereas the
  engine's vector starts at offset 48 (\<open>unpack_sig\<close>): the challenge of ML-DSA-65 has 48 bytes.
\<close>

theorem trace_z_negated:
  assumes "length signature = 3309" and "i < 5" and "n < 256"
  shows "uint (z_coefficients (take 3200 (drop 32 signature)) ! (256 * i + n))
    = - sint (unpack_z_poly (take 640 (drop (32 + 640 * i) signature)) ! n) mod 8380417"
proof -
  let ?zb = "take 3200 (drop 32 signature)"
  have n: "2 * (n div 2) + n mod 2 = n" by simp
  have "take 640 (drop (640 * i) ?zb) = take 640 (drop (32 + 640 * i) signature)"
    using assms(1,2) by (simp add: drop_take min_def add.commute)
  moreover have "unpack_z_poly (take 640 (drop (640 * i) ?zb)) ! n = to_canonical (GAMMA1 - ucast (z_raw ?zb (20 * (256 * i + n))))"
    using unpack_z_nth [of ?zb i "n div 2" "n mod 2"] assms unfolding n by simp
  ultimately show ?thesis using assms z_coefficient_negated [OF z_raw_bound] by (simp add: z_coefficients_def)
qed

theorem trace_z_negated_witness:
  "uint (z_coefficients (take 3200 (drop 32 (replicate 3309 7))) ! (256 * 4 + 255))
    = - sint (unpack_z_poly (take 640 (drop (32 + 640 * 4) (replicate 3309 7))) ! 255) mod 8380417"
  by (rule trace_z_negated) simp_all

end
