(* ===== verification/StarkQuotient.thy ===== *)
theory StarkQuotient
  imports Trace
begin

text \<open>
  The constraints of the STARK circuit: \<open>solomon-zk/src/air.rs\<close> (the symbolic circuit) and
  \<open>solomon-zk/src/quotient.rs\<close> (their evaluation over the trace, divided by the vanishing polynomial).
\<close>

section \<open>The symbolic circuit\<close>

text \<open>
  A circuit is evaluated against a builder: the cells of the local and the next row, the builder's
  addition of cells, and the constraints it has been asked to assert, in their order.  The builder is
  supplied by the caller; no implementation of the trait is part of the crate.
\<close>

datatype 'v constraint = AssertEq 'v 'v | AssertZero 'v | AssertLookup 'v nat

record 'v AirBuilder =
  local_row :: "'v list"
  next_row :: "'v list"
  var_add :: "'v \<Rightarrow> 'v \<Rightarrow> 'v"
  asserted :: "'v constraint list"

definition emit :: "'v constraint list \<Rightarrow> 'v AirBuilder \<Rightarrow> 'v AirBuilder" where
  "emit cs builder = builder\<lparr>asserted := asserted builder @ cs\<rparr>"

definition ntt_air_eval :: "'v AirBuilder \<Rightarrow> 'v AirBuilder" where
  "ntt_air_eval builder =
    (let local = local_row builder
     in if length local \<ge> 7
        then let u = local ! 3; v = local ! 4
             in emit [AssertEq u u, AssertEq v v, AssertLookup u 0, AssertLookup v 0] builder
        else builder)"

definition norm_air_eval :: "'v AirBuilder \<Rightarrow> 'v AirBuilder" where
  "norm_air_eval builder =
    (let local = local_row builder
     in if length local \<ge> 4
        then emit [AssertLookup (local ! 0) 0, AssertLookup (local ! 1) 0, AssertLookup (local ! 2) 0, AssertLookup (local ! 3) 0] builder
        else builder)"

definition shake_air_eval :: "'v AirBuilder \<Rightarrow> 'v AirBuilder" where
  "shake_air_eval builder =
    (let local = local_row builder; next = next_row builder; add = var_add builder
     in if length local \<ge> 400 \<and> length next \<ge> 400
        then let collected = map (\<lambda>x. (next ! x, add (local ! x) (add (local ! ((x + 4) mod 5)) (next ! ((x + 1) mod 5))))) [0..<5]
             in emit (map (\<lambda>(n_x, expected). AssertEq n_x expected) collected) builder
        else builder)"

definition full_air_eval :: "'v AirBuilder \<Rightarrow> 'v AirBuilder" where
  "full_air_eval builder = shake_air_eval (norm_air_eval (ntt_air_eval builder))"

section \<open>The quotient\<close>

record QuotientEvaluator =
  alphas :: "GoldilocksField list"
  zeta :: GoldilocksField

definition gate_1 :: "GoldilocksField list \<Rightarrow> GoldilocksField" where
  "gate_1 row =
    (let a = row ! 0; b = row ! 1; w = row ! 2; u = row ! 3;
         k_u = (if length row > 5 then row ! 5 else 0);
         b_w = gmul b w;
         lhs_1 = gadd a b_w;
         rhs_1 = gadd u (gmul k_u (from_u64 DILITHIUM_Q))
     in gsub lhs_1 rhs_1)"

definition gate_2 :: "GoldilocksField list \<Rightarrow> GoldilocksField" where
  "gate_2 row =
    (let a = row ! 0; b = row ! 1; w = row ! 2; v = row ! 4;
         k_v = (if length row > 6 then row ! 6 else 0);
         b_w = gmul b w;
         lhs_2 = gsub (gadd a (from_u64 DILITHIUM_Q)) b_w;
         rhs_2 = gadd v (gmul k_v (from_u64 DILITHIUM_Q))
     in gsub lhs_2 rhs_2)"

definition norm_gate :: "GoldilocksField list \<Rightarrow> GoldilocksField" where
  "norm_gate row = gsub (gadd (row ! 0) (from_u64 109)) (row ! 3)"

definition row_eval :: "GoldilocksField list \<Rightarrow> GoldilocksField \<Rightarrow> GoldilocksField list \<Rightarrow> GoldilocksField" where
  "row_eval al z_h_inv row =
    (let mixed = gadd (gadd (gmul (al ! 0) (gate_1 row)) (gmul (al ! 1) (gate_2 row))) (gmul (al ! 2) (norm_gate row))
     in gmul mixed z_h_inv)"

definition keccak_constraint :: "GoldilocksField list \<Rightarrow> GoldilocksField list \<Rightarrow> GoldilocksField" where
  "keccak_constraint local next =
    fold (\<lambda>x acc.
      let c_x = gadd (gadd (gadd (gadd (local ! x) (local ! (x + 5))) (local ! (x + 10))) (local ! (x + 15))) (local ! (x + 20));
          d_x = gadd (local ! ((x + 4) mod 5)) (next ! ((x + 1) mod 5));
          theta = gadd (gsub (next ! x) (gadd (local ! x) d_x)) c_x
      in gadd acc theta) [0..<5] 0"

definition window_eval :: "GoldilocksField \<Rightarrow> GoldilocksField \<Rightarrow> GoldilocksField list \<times> GoldilocksField list \<Rightarrow> GoldilocksField" where
  "window_eval alpha_3 z_h_inv = (\<lambda>(local, next). gmul (gmul alpha_3 (keccak_constraint local next)) z_h_inv)"

definition pad_evaluations :: "GoldilocksField list \<Rightarrow> GoldilocksField list" where
  "pad_evaluations evaluations =
    evaluations @ replicate (next_pow2 1 (max (length evaluations) 262144) - length evaluations) 0"

definition evaluate_with_keccak_rows ::
    "QuotientEvaluator \<Rightarrow> GoldilocksField list list \<Rightarrow> GoldilocksField list list \<Rightarrow> ('e, GoldilocksField list) outcome" where
  "evaluate_with_keccak_rows self mat keccak_rows =
    (if \<not> length (alphas self) \<ge> 3 then Panicked
     else let alpha_3 = (if length (alphas self) > 3 then alphas self ! 3 else 1);
              zeta_pow_n = gexp (zeta self) 262144;
              z_h = gsub zeta_pow_n 1
          in if z_h = 0 then Inr []
             else and_then (invert z_h) (\<lambda>z_h_inv.
               let rows = map (row_eval (alphas self) z_h_inv) (filter (\<lambda>row. \<not> length row < 5) mat);
                   windows = map (window_eval alpha_3 z_h_inv) (zip keccak_rows (tl keccak_rows))
               in Inr (pad_evaluations (rows @ windows))))"

definition quotient_evaluate :: "QuotientEvaluator \<Rightarrow> GoldilocksField list list \<Rightarrow> ('e, GoldilocksField list) outcome" where
  "quotient_evaluate self mat = evaluate_with_keccak_rows self mat []"

section \<open>Evaluation\<close>

lemma row_eval_canonical: "canonical_gf (row_eval al zi row)"
  by (simp add: row_eval_def Let_def gf_simps)

lemma window_eval_canonical: "canonical_gf (window_eval a3 zi w)"
  by (simp add: window_eval_def split_def gf_simps)

lemma next_pow2_domain: "n \<le> 262144 \<Longrightarrow> next_pow2 1 (max n 262144) = 262144"
proof -
  have step: "next_pow2 p 262144 = next_pow2 (2 * p) 262144" if "0 < p" "p < 262144" for p
    using that by (subst next_pow2.simps) (simp add: mult.commute)
  show "n \<le> 262144 \<Longrightarrow> next_pow2 1 (max n 262144) = 262144" by (simp add: max_def step) (simp add: next_pow2.simps)
qed

lemma pad_evaluations_domain:
  "length es \<le> 262144 \<Longrightarrow> pad_evaluations es = es @ replicate (262144 - length es) 0"
  by (simp only: pad_evaluations_def next_pow2_domain)

lemma length_windows [simp]: "length (zip xs (tl xs)) = length xs - 1"
  by simp

lemma z_h_gval: "gval (gsub (gexp z 262144) 1) = gval z ^ 262144 - 1"
  by (simp add: gf_simps)

lemma evaluate_domain:
  assumes "3 \<le> length (alphas self)" and "gval (zeta self) ^ 262144 \<noteq> 1"
    and "length mat + length ks \<le> 262144"
  obtains es where "evaluate_with_keccak_rows self mat ks = (Inr es :: ('e, GoldilocksField list) outcome)"
    "length es = 262144" "list_all canonical_gf es"
proof -
  let ?z = "gsub (gexp (zeta self) 262144) 1"
  have "gval ?z \<noteq> 0" unfolding z_h_gval using assms(2) by simp
  then have z: "?z \<noteq> 0" by (rule gval_nonzero)
  let ?es = "map (row_eval (alphas self) (ginv ?z)) (filter (\<lambda>row. \<not> length row < 5) mat)
    @ map (window_eval (if length (alphas self) > 3 then alphas self ! 3 else 1) (ginv ?z)) (zip ks (tl ks))"
  have len: "length ?es \<le> 262144" using assms(3) length_filter_le [of "\<lambda>row. \<not> length row < 5" mat] by (simp only: length_append length_map length_windows)
  have "evaluate_with_keccak_rows self mat ks = (Inr (pad_evaluations ?es) :: ('e, GoldilocksField list) outcome)"
    unfolding evaluate_with_keccak_rows_def Let_def invert_ok [OF z] using assms(1) z by simp
  moreover have "length (pad_evaluations ?es) = 262144" unfolding pad_evaluations_domain [OF len] using len by simp
  moreover have "list_all canonical_gf (pad_evaluations ?es)"
    unfolding pad_evaluations_def by (auto simp: list_all_iff row_eval_canonical window_eval_canonical gf_simps)
  ultimately show ?thesis by (rule that)
qed

section \<open>Properties\<close>

lemma gval_of_uint_sum: "of_int (uint a) = gval a"
  by (simp only: gval_def)

lemma gates_of_butterfly:
  assumes "butterfly_row a b w row" and "list_all canonical_gf row"
  shows "gval (gate_1 row) = of_int (8380417 * (b * w div 8380417))" and "gval (gate_2 row) = - of_int (8380417 * (b * w div 8380417))"
proof -
  note b = assms(1) [unfolded butterfly_row_def]
  have can: "canonical_gf (row ! k)" if "k < 8" for k using assms(2) b that by (simp add: list_all_length)
  have q: "gval DILITHIUM_Q = of_int 8380417" by (simp add: gval_def DILITHIUM_Q_def)
  have parts: "b * w = b * w mod 8380417 + 8380417 * (b * w div 8380417)" by simp
  have "gval (gate_1 row) = of_int (a + b * w - (uint (row ! 3) + uint (row ! 5) * 8380417))"
    using b can by (simp add: gate_1_def Let_def gf_simps q) (simp add: gval_def)
  also have "a + b * w - (uint (row ! 3) + uint (row ! 5) * 8380417) = 8380417 * (b * w div 8380417)" using b parts by linarith
  finally show "gval (gate_1 row) = of_int (8380417 * (b * w div 8380417))" .
  have "gval (gate_2 row) = of_int (a + 8380417 - b * w - (uint (row ! 4) + uint (row ! 6) * 8380417))"
    using b can by (simp add: gate_2_def Let_def gf_simps q) (simp add: gval_def)
  also have "a + 8380417 - b * w - (uint (row ! 4) + uint (row ! 6) * 8380417) = - (8380417 * (b * w div 8380417))" using b parts by linarith
  finally show "gval (gate_2 row) = - of_int (8380417 * (b * w div 8380417))" by simp
qed

lemma of_int_fp_zero: "0 \<le> n \<Longrightarrow> n < GP \<Longrightarrow> (of_int n :: fp) = 0 \<longleftrightarrow> n = 0"
  using of_int_fp_eq [of n 0] by simp

lemma gates_vanish_iff:
  assumes "butterfly_row a b w row" and "list_all canonical_gf row" and "0 \<le> b" and "b < 8380417" and "0 \<le> w" and "w < 8380417"
  shows "gate_1 row = 0 \<longleftrightarrow> b * w < 8380417" and "gate_2 row = 0 \<longleftrightarrow> b * w < 8380417"
proof -
  have can: "canonical_gf (row ! k)" if "k < 8" for k using assms(1,2) that by (simp add: list_all_length butterfly_row_def)
  have len: "length row = 8" using assms(1) by (simp add: butterfly_row_def)
  have cg: "canonical_gf (gate_1 row)" "canonical_gf (gate_2 row)"
    using can len by (simp_all add: gate_1_def gate_2_def Let_def gf_simps)
  have "b * w \<le> 8380417 * 8380417" using assms(3-6) by (intro mult_mono) simp_all
  then have n: "0 \<le> 8380417 * (b * w div 8380417)" "8380417 * (b * w div 8380417) < GP"
    using assms(3,5) by (simp_all add: pos_imp_zdiv_nonneg_iff)
  have z: "8380417 * (b * w div 8380417) = 0 \<longleftrightarrow> b * w < 8380417" using assms(3,5) by (auto simp: zdiv_eq_0_iff)
  show "gate_1 row = 0 \<longleftrightarrow> b * w < 8380417" "gate_2 row = 0 \<longleftrightarrow> b * w < 8380417"
    unfolding gval_zero_iff [OF cg(1), symmetric] gval_zero_iff [OF cg(2), symmetric] gates_of_butterfly [OF assms(1,2)]
      neg_equal_0_iff_equal of_int_fp_zero [OF n] z by simp_all
qed

text \<open>
  The arithmetic gates fail on the prover's own trace: in row \<open>i\<close> of a trace unpacked from a signature both
  butterfly gates vanish if and only if the product of coefficient and twiddle needs no reduction modulo the
  prime.  The witnesses \<open>k_u\<close> and \<open>k_v\<close> count multiples of the prime for the reduced product, while the
  gates subtract them from the unreduced one.
\<close>

theorem honest_trace_gates:
  assumes "ingest_signature signature new_trace_builder = (Inr tb :: (unit, TraceBuilder) outcome)" and "i < 640"
  shows "let b = uint (z_coefficients (take 3200 (drop 32 signature)) ! (2 * i + 1)); w = 1753 ^ i mod 8380417
    in (gate_1 (matrix tb ! i) = 0 \<longleftrightarrow> b * w < 8380417) \<and> (gate_2 (matrix tb ! i) = 0 \<longleftrightarrow> b * w < 8380417)"
proof -
  have len: "length signature = 3309" using assms(1) by (simp add: ingest_signature_def split: if_splits)
  let ?zs = "z_coefficients (take 3200 (drop 32 signature))"
  obtain rows where run: "ingest_signature signature new_trace_builder = (Inr \<lparr>matrix = rows @ replicate 384 (replicate 8 0)\<rparr> :: (unit, TraceBuilder) outcome)"
    and r: "length rows = 640"
    "list_all (\<lambda>row. length row = 8 \<and> list_all canonical_gf row) rows"
    "\<forall>i<640. butterfly_row (uint (?zs ! (2 * i))) (uint (?zs ! (2 * i + 1))) (1753 ^ i mod 8380417) (rows ! i)"
    using ingest_ok [OF len] by blast
  have row: "matrix tb ! i = rows ! i" using run assms r(1) by (simp add: nth_append)
  have "butterfly_row (uint (?zs ! (2 * i))) (uint (?zs ! (2 * i + 1))) (1753 ^ i mod 8380417) (rows ! i)"
    "list_all canonical_gf (rows ! i)"
    using r assms(2) by (simp_all add: list_all_length)
  from gates_vanish_iff [OF this] show ?thesis using z_coefficients_small [of "2 * i + 1"] assms(2) unfolding row Let_def by simp
qed

theorem honest_trace_gates_witness:
  "\<exists>tb. ingest_signature (replicate 3309 0) new_trace_builder = (Inr tb :: (unit, TraceBuilder) outcome)
    \<and> gate_1 (matrix tb ! 0) = 0 \<and> gate_1 (matrix tb ! 1) \<noteq> 0"
proof -
  obtain tb where tb: "ingest_signature (replicate 3309 0) new_trace_builder = (Inr tb :: (unit, TraceBuilder) outcome)"
    using ingest_ok [OF length_replicate] by blast
  have raw: "z_raw (replicate 3200 0) k = 0" for k by (simp add: z_raw_def z_chunk_or byte_or_0_def)
  have "uint (z_coefficients (replicate 3200 0) ! k) = 7856129" if "k < 1280" for k
    using that z_coefficient_value [of 0] by (simp add: z_coefficients_def raw)
  then show ?thesis using tb honest_trace_gates [OF tb, of 0] honest_trace_gates [OF tb, of 1] by (intro exI [of _ tb]) (simp add: Let_def)
qed

text \<open>Whether a constraint holds: cells are compared as values, a lookup consults the table of its number.\<close>

fun satisfied :: "(nat \<Rightarrow> 'v \<Rightarrow> bool) \<Rightarrow> 'v \<Rightarrow> 'v constraint \<Rightarrow> bool" where
  "satisfied table zero (AssertEq x y) = (x = y)"
| "satisfied table zero (AssertZero x) = (x = zero)"
| "satisfied table zero (AssertLookup x t) = table t x"

text \<open>
  The symbolic circuit of the transform constrains nothing but the ranges of two cells: its equations compare
  each cell with itself.  Inputs, twiddle and quotients of the butterfly are free.
\<close>

theorem ntt_air_constrains_ranges_only:
  "length (local_row b) \<ge> 7 \<and> asserted b = [] \<Longrightarrow>
    list_all (satisfied table zero) (asserted (ntt_air_eval b)) \<longleftrightarrow> table 0 (local_row b ! 3) \<and> table 0 (local_row b ! 4)"
  by (simp add: ntt_air_eval_def emit_def Let_def)

end
