(* ===== verification/Simd.thy ===== *)
theory Simd
  imports Goldilocks
begin

text \<open>
  The vectorized field arithmetic of \<open>solomon-zk/src/simd\<close>: the portable eight-lane engine
  (\<open>portable.rs\<close>), the slice operations built on it (\<open>mod.rs\<close>), and the NEON and AVX-512
  engines (\<open>neon.rs\<close>, \<open>avx512.rs\<close>).  The intrinsics of \<open>core::arch\<close> are lane-wise
  functions on lists of words.  Every engine is compared with the scalar field.
\<close>

section \<open>The portable engine\<close>

type_synonym PackedGoldilocks8 = "u64 list"

definition LANES :: nat where
  "LANES = 8"

definition packed_broadcast :: "GoldilocksField \<Rightarrow> PackedGoldilocks8" where
  "packed_broadcast val = replicate LANES val"

definition packed_from_slice :: "GoldilocksField list \<Rightarrow> ('e, PackedGoldilocks8) outcome" where
  "packed_from_slice xs = (if length xs = LANES then Inr (map (\<lambda>i. xs ! i) [0..<LANES]) else Panicked)"

definition packed_store_to_slice :: "PackedGoldilocks8 \<Rightarrow> GoldilocksField list \<Rightarrow> ('e, GoldilocksField list) outcome" where
  "packed_store_to_slice v xs = (if length xs = LANES then Inr (map (\<lambda>i. v ! i) [0..<LANES]) else Panicked)"

definition packed_add :: "PackedGoldilocks8 \<Rightarrow> PackedGoldilocks8 \<Rightarrow> PackedGoldilocks8" where
  "packed_add a b = map (\<lambda>i.
    let sum = a ! i + b ! i; carry = sum < a ! i
    in if carry \<or> sum \<ge> GOLDILOCKS_PRIME then sum - GOLDILOCKS_PRIME else sum) [0..<LANES]"

definition packed_sub :: "PackedGoldilocks8 \<Rightarrow> PackedGoldilocks8 \<Rightarrow> PackedGoldilocks8" where
  "packed_sub a b = map (\<lambda>i.
    if a ! i \<ge> b ! i then a ! i - b ! i else GOLDILOCKS_PRIME - (b ! i - a ! i)) [0..<LANES]"

definition packed_mul :: "PackedGoldilocks8 \<Rightarrow> PackedGoldilocks8 \<Rightarrow> PackedGoldilocks8" where
  "packed_mul a b = map (\<lambda>i. reduce_u128 (ucast (a ! i) * ucast (b ! i))) [0..<LANES]"

definition reduce_hi_lo :: "PackedGoldilocks8 \<Rightarrow> PackedGoldilocks8 \<Rightarrow> PackedGoldilocks8" where
  "reduce_hi_lo x_hi x_lo = map (\<lambda>i. reduce_u128 (push_bit 64 (ucast (x_hi ! i)) OR ucast (x_lo ! i))) [0..<LANES]"

section \<open>Slice operations\<close>

text \<open>
  The four slice functions share their shape: blocks of eight lanes through the packed operation,
  then the tail element by element.  The two loops take the operations as arguments.
\<close>

function vector_blocks :: "(PackedGoldilocks8 \<Rightarrow> PackedGoldilocks8 \<Rightarrow> PackedGoldilocks8) \<Rightarrow> GoldilocksField list
    \<Rightarrow> (nat \<Rightarrow> ('e, PackedGoldilocks8) outcome) \<Rightarrow> nat \<Rightarrow> ('e, GoldilocksField list \<times> nat) outcome" where
  "vector_blocks f a vb i =
    (if i + 8 \<le> length a
     then and_then (packed_from_slice (take 8 (drop i a))) (\<lambda>va.
          and_then (vb i) (\<lambda>vb'.
          and_then (packed_store_to_slice (f va vb') (take 8 (drop i a))) (\<lambda>s.
          vector_blocks f (take i a @ s @ drop (i + 8) a) vb (i + 8))))
     else Inr (a, i))"
  by pat_completeness auto

termination vector_blocks
  by (relation "measure (\<lambda>(f, a, vb, i). length a - i)")
     (auto simp: packed_store_to_slice_def LANES_def split: if_splits)

declare vector_blocks.simps [simp del]

fun vector_tail :: "(GoldilocksField \<Rightarrow> nat \<Rightarrow> GoldilocksField) \<Rightarrow> GoldilocksField list \<Rightarrow> nat list \<Rightarrow> GoldilocksField list" where
  "vector_tail g a [] = a"
| "vector_tail g a (i # is) = vector_tail g (a[i := g (a ! i) i]) is"

definition vector_add_slice :: "GoldilocksField list \<Rightarrow> GoldilocksField list \<Rightarrow> ('e, GoldilocksField list) outcome" where
  "vector_add_slice a b =
    (if length a = length b
     then and_then (vector_blocks packed_add a (\<lambda>i. packed_from_slice (take 8 (drop i b))) 0) (\<lambda>(a', i).
          Inr (vector_tail (\<lambda>x i. gadd x (b ! i)) a' [i..<length a']))
     else Panicked)"

definition vector_sub_slice :: "GoldilocksField list \<Rightarrow> GoldilocksField list \<Rightarrow> ('e, GoldilocksField list) outcome" where
  "vector_sub_slice a b =
    (if length a = length b
     then and_then (vector_blocks packed_sub a (\<lambda>i. packed_from_slice (take 8 (drop i b))) 0) (\<lambda>(a', i).
          Inr (vector_tail (\<lambda>x i. gsub x (b ! i)) a' [i..<length a']))
     else Panicked)"

definition vector_mul_slice :: "GoldilocksField list \<Rightarrow> GoldilocksField list \<Rightarrow> ('e, GoldilocksField list) outcome" where
  "vector_mul_slice a b =
    (if length a = length b
     then and_then (vector_blocks packed_mul a (\<lambda>i. packed_from_slice (take 8 (drop i b))) 0) (\<lambda>(a', i).
          Inr (vector_tail (\<lambda>x i. gmul x (b ! i)) a' [i..<length a']))
     else Panicked)"

definition vector_mul_scalar :: "GoldilocksField list \<Rightarrow> GoldilocksField \<Rightarrow> ('e, GoldilocksField list) outcome" where
  "vector_mul_scalar a scalar =
    and_then (vector_blocks packed_mul a (\<lambda>i. Inr (packed_broadcast scalar)) 0) (\<lambda>(a', i).
      Inr (vector_tail (\<lambda>x i. gmul x scalar) a' [i..<length a']))"

text \<open>The order of the writes of the transposition of an 8 by 8 block; an index out of range panics.\<close>

fun transpose_cells :: "(nat \<times> nat) list \<Rightarrow> GoldilocksField list \<Rightarrow> nat \<Rightarrow> GoldilocksField list \<Rightarrow> nat \<Rightarrow> ('e, GoldilocksField list) outcome" where
  "transpose_cells [] src src_stride dst dst_stride = Inr dst"
| "transpose_cells ((r, c) # cells) src src_stride dst dst_stride =
    (if r * src_stride + c < length src \<and> c * dst_stride + r < length dst
     then transpose_cells cells src src_stride (dst[c * dst_stride + r := src ! (r * src_stride + c)]) dst_stride
     else Panicked)"

definition transpose_8x8_block :: "GoldilocksField list \<Rightarrow> nat \<Rightarrow> GoldilocksField list \<Rightarrow> nat \<Rightarrow> ('e, GoldilocksField list) outcome" where
  "transpose_8x8_block src src_stride dst dst_stride = transpose_cells (List.product [0..<8] [0..<8]) src src_stride dst dst_stride"

section \<open>The NEON engine\<close>

definition vbslq_u64 :: "u64 list \<Rightarrow> u64 list \<Rightarrow> u64 list \<Rightarrow> u64 list" where
  "vbslq_u64 m a b = map2 (\<lambda>k (x, y). (k AND x) OR (NOT k AND y)) m (zip a b)"

definition lane_mask :: "(u64 \<Rightarrow> u64 \<Rightarrow> bool) \<Rightarrow> u64 list \<Rightarrow> u64 list \<Rightarrow> u64 list" where
  "lane_mask p a b = map2 (\<lambda>x y. if p x y then - 1 else 0) a b"

definition neon_add :: "u64 list \<Rightarrow> u64 list \<Rightarrow> u64 list" where
  "neon_add a b =
    (let sum = map2 (+) a b;
         p_vec = replicate 2 GOLDILOCKS_PRIME;
         carry_mask = lane_mask (<) sum a;
         ge_p_mask = lane_mask (\<ge>) sum p_vec;
         reduce_mask = map2 (OR) carry_mask ge_p_mask;
         sub_p = map2 (-) sum p_vec
     in vbslq_u64 reduce_mask sub_p sum)"

definition neon_sub :: "u64 list \<Rightarrow> u64 list \<Rightarrow> u64 list" where
  "neon_sub a b =
    (let diff = map2 (-) a b;
         p_vec = replicate 2 GOLDILOCKS_PRIME;
         borrow_mask = lane_mask (<) a b;
         add_p = map2 (+) diff p_vec
     in vbslq_u64 borrow_mask add_p diff)"

definition neon_mul :: "u64 list \<Rightarrow> u64 list \<Rightarrow> u64 list" where
  "neon_mul a b = map (\<lambda>i. reduce_u128 (ucast (a ! i) * ucast (b ! i))) [0..<2]"

section \<open>The AVX-512 engine\<close>

definition mm512_mul_epu32 :: "u64 list \<Rightarrow> u64 list \<Rightarrow> u64 list" where
  "mm512_mul_epu32 a b = map2 (\<lambda>x y. take_bit 32 x * take_bit 32 y) a b"

text \<open>Lane \<open>i\<close> of the first source where the mask bit is clear, the operation elsewhere.\<close>

definition mm512_mask_op :: "(u64 \<Rightarrow> u64 \<Rightarrow> u64) \<Rightarrow> u64 list \<Rightarrow> bool list \<Rightarrow> u64 list \<Rightarrow> u64 list \<Rightarrow> u64 list" where
  "mm512_mask_op f src k a b = map2 (\<lambda>(s, m) (x, y). if m then f x y else s) (zip src k) (zip a b)"

definition avx512_add :: "u64 list \<Rightarrow> u64 list \<Rightarrow> u64 list" where
  "avx512_add a b =
    (let sum = map2 (+) a b;
         p_vec = replicate 8 GOLDILOCKS_PRIME;
         mask_carry = map2 (<) sum a;
         mask_ge_p = map2 (\<ge>) sum p_vec;
         mask_reduce = map2 (\<or>) mask_carry mask_ge_p
     in mm512_mask_op (-) sum mask_reduce sum p_vec)"

definition avx512_sub :: "u64 list \<Rightarrow> u64 list \<Rightarrow> u64 list" where
  "avx512_sub a b =
    (let diff = map2 (-) a b;
         p_vec = replicate 8 GOLDILOCKS_PRIME;
         mask_borrow = map2 (<) a b
     in mm512_mask_op (+) diff mask_borrow diff p_vec)"

definition avx512_mul :: "u64 list \<Rightarrow> u64 list \<Rightarrow> u64 list" where
  "avx512_mul a b =
    (let mask_32 = replicate 8 0xFFFFFFFF;
         a_lo = map2 (AND) a mask_32;
         a_hi = map (drop_bit 32) a;
         b_lo = map2 (AND) b mask_32;
         b_hi = map (drop_bit 32) b;
         c0 = mm512_mul_epu32 a_lo b_lo;
         c1_0 = mm512_mul_epu32 a_lo b_hi;
         c1_1 = mm512_mul_epu32 a_hi b_lo;
         c2 = mm512_mul_epu32 a_hi b_hi;
         c1 = map2 (+) c1_0 c1_1;
         c1_lo = map (push_bit 32) (map2 (AND) c1 mask_32);
         c1_hi = map (drop_bit 32) c1;
         x_lo = map2 (+) c0 c1_lo;
         x_hi = map2 (+) c2 c1_hi;
         x_hi_lo = map2 (AND) x_hi mask_32;
         x_hi_hi = map (drop_bit 32) x_hi;
         x_hi_shift32 = map (push_bit 32) x_hi_lo;
         t0 = map2 (-) x_lo x_hi;
         t1 = map2 (+) t0 x_hi_shift32;
         t2 = map2 (-) t1 x_hi_hi;
         p_vec = replicate 8 GOLDILOCKS_PRIME;
         mask_ge = map2 (\<ge>) t2 p_vec;
         res = mm512_mask_op (-) t2 mask_ge t2 p_vec
     in map (\<lambda>i. if res ! i \<ge> GOLDILOCKS_PRIME then res ! i else res ! i) [0..<8])"

section \<open>A packed operation is its scalar operation on every lane\<close>

locale lane_op =
  fixes packed :: "u64 list \<Rightarrow> u64 list \<Rightarrow> u64 list" and scalar :: "u64 \<Rightarrow> u64 \<Rightarrow> u64" and lanes :: nat
  assumes lanewise: "length a = lanes \<Longrightarrow> length b = lanes \<Longrightarrow> packed a b = map2 scalar a b"
begin

lemma packed_nth: "length a = lanes \<Longrightarrow> length b = lanes \<Longrightarrow> i < lanes \<Longrightarrow> packed a b ! i = scalar (a ! i) (b ! i)"
  by (simp add: lanewise)

lemma packed_length: "length a = lanes \<Longrightarrow> length b = lanes \<Longrightarrow> length (packed a b) = lanes"
  by (simp add: lanewise)

end

locale packed_op = lane_op packed scalar LANES
  for packed :: "u64 list \<Rightarrow> u64 list \<Rightarrow> u64 list" and scalar :: "u64 \<Rightarrow> u64 \<Rightarrow> u64"
begin

lemma blocks:
  assumes "\<And>i. i + 8 \<le> n \<Longrightarrow> vb i = Inr (map (\<lambda>j. y (i + j)) [0..<8])" and "length a = n" and "i \<le> n"
  shows "\<exists>a' e. vector_blocks packed a vb i = Inr (a', e) \<and> i \<le> e \<and> e \<le> n \<and> length a' = n
    \<and> (\<forall>j<n. a' ! j = (if i \<le> j \<and> j < e then scalar (a ! j) (y j) else a ! j))"
  using assms(2,3)
proof (induction "n - i" arbitrary: a i rule: less_induct)
  case less
  show ?case
  proof (cases "i + 8 \<le> n")
    case True
    let ?s = "map (\<lambda>j. scalar (a ! (i + j)) (y (i + j))) [0..<8]"
    let ?a = "take i a @ ?s @ drop (i + 8) a"
    have va: "packed_from_slice (take 8 (drop i a)) = Inr (map (\<lambda>j. a ! (i + j)) [0..<8])"
      using True less.prems by (simp add: packed_from_slice_def LANES_def)
    have "packed (map (\<lambda>j. a ! (i + j)) [0..<8]) (map (\<lambda>j. y (i + j)) [0..<8]) = ?s"
      by (subst lanewise) (auto simp: LANES_def intro: nth_equalityI)
    then have st: "packed_store_to_slice (packed (map (\<lambda>j. a ! (i + j)) [0..<8]) (map (\<lambda>j. y (i + j)) [0..<8]))
        (take 8 (drop i a)) = Inr ?s"
      using True less.prems by (auto simp: packed_store_to_slice_def LANES_def)
    have step: "vector_blocks packed a vb i = vector_blocks packed ?a vb (i + 8)"
      using True less.prems by (subst vector_blocks.simps) (simp add: va st assms(1))
    have len: "length ?a = n" using True less.prems by simp
    have nth: "?a ! j = (if i \<le> j \<and> j < i + 8 then scalar (a ! j) (y j) else a ! j)" if "j < n" for j
      using that True less.prems by (auto simp: nth_append min_def not_less)
    have "n - (i + 8) < n - i" using True by simp
    then obtain a' e where
      "vector_blocks packed ?a vb (i + 8) = Inr (a', e)" "i + 8 \<le> e" "e \<le> n" "length a' = n"
      "\<forall>j<n. a' ! j = (if i + 8 \<le> j \<and> j < e then scalar (?a ! j) (y j) else ?a ! j)"
      using less.hyps [OF _ len True] by blast
    then show ?thesis using step by (intro exI [of _ a'] exI [of _ e]) (auto simp: nth)
  next
    case False
    then show ?thesis using less.prems by (intro exI [of _ a] exI [of _ i]) (auto simp: vector_blocks.simps)
  qed
qed

lemma tail: "distinct is \<Longrightarrow> length (vector_tail g a is) = length a
    \<and> (\<forall>j<length a. vector_tail g a is ! j = (if j \<in> set is then g (a ! j) j else a ! j))"
  by (induction g a "is" rule: vector_tail.induct) (auto simp: nth_list_update, metis nth_list_update_neq)

lemma vector_slice:
  assumes "\<And>i. i + 8 \<le> length a \<Longrightarrow> vb i = Inr (map (\<lambda>j. y (i + j)) [0..<8])"
  shows "and_then (vector_blocks packed a vb 0) (\<lambda>(a', i). Inr (vector_tail (\<lambda>x i. scalar x (y i)) a' [i..<length a']))
    = Inr (map (\<lambda>j. scalar (a ! j) (y j)) [0..<length a])"
proof -
  obtain a' e where *: "vector_blocks packed a vb 0 = Inr (a', e)" "e \<le> length a" "length a' = length a"
    "\<forall>j<length a. a' ! j = (if j < e then scalar (a ! j) (y j) else a ! j)"
    using blocks [of "length a" vb y a 0] assms by auto
  have "vector_tail (\<lambda>x i. scalar x (y i)) a' [e..<length a'] = map (\<lambda>j. scalar (a ! j) (y j)) [0..<length a]"
    using tail [of "[e..<length a']" "\<lambda>x i. scalar x (y i)" a'] * by (intro nth_equalityI) auto
  then show ?thesis by (simp add: *)
qed

lemma vector_pair:
  assumes "length a = length b"
  shows "and_then (vector_blocks packed a (\<lambda>i. packed_from_slice (take 8 (drop i b))) 0) (\<lambda>(a', i).
      Inr (vector_tail (\<lambda>x i. scalar x (b ! i)) a' [i..<length a'])) = Inr (map2 scalar a b)"
  by (subst vector_slice [where y = "(!) b"]) (use assms in \<open>auto simp: packed_from_slice_def LANES_def intro: nth_equalityI\<close>)

end

interpretation padd: packed_op packed_add gadd
  by unfold_locales (auto simp: packed_add_def gadd_def Let_def intro!: nth_equalityI)

interpretation psub: packed_op packed_sub gsub
  by unfold_locales (auto simp: packed_sub_def gsub_def intro!: nth_equalityI)

interpretation pmul: packed_op packed_mul gmul
  by unfold_locales (auto simp: packed_mul_def gmul_def intro!: nth_equalityI)

interpretation neon_a: lane_op neon_add gadd 2
  by unfold_locales (auto simp: neon_add_def gadd_def Let_def vbslq_u64_def lane_mask_def intro!: nth_equalityI)

interpretation neon_s: lane_op neon_sub gsub 2
  by unfold_locales (auto simp: neon_sub_def gsub_def Let_def vbslq_u64_def lane_mask_def intro!: nth_equalityI)

interpretation neon_m: lane_op neon_mul gmul 2
  by unfold_locales (auto simp: neon_mul_def gmul_def intro!: nth_equalityI)

interpretation avx_a: lane_op avx512_add gadd 8
  by unfold_locales (auto simp: avx512_add_def gadd_def Let_def mm512_mask_op_def intro!: nth_equalityI)

interpretation avx_s: lane_op avx512_sub gsub 8
  by unfold_locales (auto simp: avx512_sub_def gsub_def Let_def mm512_mask_op_def intro!: nth_equalityI)

section \<open>Properties\<close>

text \<open>
  The slice functions are the field operations element by element, for every length: the split
  into blocks of eight and a tail is invisible.  Slices of unequal length panic.
\<close>

theorem vector_ops_elementwise:
  "vector_add_slice a b = (if length a = length b then Inr (map2 gadd a b) else Panicked)
    \<and> vector_sub_slice a b = (if length a = length b then Inr (map2 gsub a b) else Panicked)
    \<and> vector_mul_slice a b = (if length a = length b then Inr (map2 gmul a b) else Panicked)
    \<and> vector_mul_scalar a s = Inr (map (\<lambda>x. gmul x s) a)"
proof -
  have "vector_mul_scalar a s = Inr (map (\<lambda>j. gmul (a ! j) s) [0..<length a])"
    unfolding vector_mul_scalar_def
    by (rule pmul.vector_slice) (auto simp: packed_broadcast_def LANES_def map_replicate_trivial map_replicate_const)
  moreover have "map (\<lambda>j. gmul (a ! j) s) [0..<length a] = map (\<lambda>x. gmul x s) a"
    by (rule nth_equalityI) simp_all
  ultimately show ?thesis
    by (simp add: vector_add_slice_def vector_sub_slice_def vector_mul_slice_def padd.vector_pair psub.vector_pair pmul.vector_pair)
qed

text \<open>
  The NEON engine and the addition and subtraction of the AVX-512 engine agree with the scalar
  field on every lane, on all words.
\<close>

theorem simd_engines_agree:
  assumes "length a = 2" and "length b = 2" and "length c = 8" and "length d = 8"
  shows "neon_add a b = map2 gadd a b \<and> neon_sub a b = map2 gsub a b \<and> neon_mul a b = map2 gmul a b
    \<and> avx512_add c d = map2 gadd c d \<and> avx512_sub c d = map2 gsub c d"
  using assms by (simp add: neon_a.lanewise neon_s.lanewise neon_m.lanewise avx_a.lanewise avx_s.lanewise)

theorem simd_engines_agree_witness:
  "neon_add [1, 2] [3, 4] = map2 gadd [1, 2] [3, 4] \<and> neon_sub [1, 2] [3, 4] = map2 gsub [1, 2] [3, 4]
    \<and> neon_mul [1, 2] [3, 4] = map2 gmul [1, 2] [3, 4]
    \<and> avx512_add (replicate 8 5) (replicate 8 6) = map2 gadd (replicate 8 5) (replicate 8 6)
    \<and> avx512_sub (replicate 8 5) (replicate 8 6) = map2 gsub (replicate 8 5) (replicate 8 6)"
  by (rule simd_engines_agree) simp_all

text \<open>
  The AVX-512 multiplication does not.  Its reduction drops the carry of the folded upper half:
  the square of \<open>2 ^ 48\<close> is \<open>2 ^ 96 = - 1\<close> in the field, and the engine answers \<open>- 2\<close> in
  every lane.
\<close>

theorem avx512_mul_differs:
  "avx512_mul (replicate 8 0x1000000000000) (replicate 8 0x1000000000000) = replicate 8 (GOLDILOCKS_PRIME - 2)
    \<and> map2 gmul (replicate 8 0x1000000000000) (replicate 8 0x1000000000000) = replicate 8 (GOLDILOCKS_PRIME - 1)"
proof -
  have "uint (gmul 0x1000000000000 0x1000000000000) = uint (GOLDILOCKS_PRIME - 1)"
    by (simp add: gmul_uint GOLDILOCKS_PRIME_def)
  then have "gmul 0x1000000000000 0x1000000000000 = GOLDILOCKS_PRIME - 1" by (simp only: word_uint_eq_iff)
  moreover have "map ((!) (replicate 8 x)) [0..<8] = replicate 8 x" for x :: u64
    using map_nth [of "replicate 8 x"] by simp
  ultimately show ?thesis
    by (simp add: avx512_mul_def Let_def mm512_mul_epu32_def mm512_mask_op_def GOLDILOCKS_PRIME_def)
qed

end
