(* ===== verification/Ntt.thy ===== *)
theory Ntt
  imports Simd
begin

text \<open>
  The transforms over the Goldilocks field: \<open>solomon-zk/src/ntt.rs\<close> (radix-2 and four-step
  transforms and their inverses), \<open>intt.rs\<close> and \<open>lde.rs\<close>.  Loops over ranges are folds over the
  list of their indices; slices are lists.  The reference is the discrete Fourier transform as a
  sum over the field.
\<close>

section \<open>Ranges and roots of unity\<close>

text \<open>\<open>(0..n).step_by(len)\<close>\<close>

definition step_by :: "nat \<Rightarrow> nat \<Rightarrow> nat list" where
  "step_by n len = map ((*) len) [0..<(n + len - 1) div len]"

fun is_power_of_two :: "nat \<Rightarrow> bool" where
  "is_power_of_two n = (if n = 0 then False else if odd n then n = 1 else is_power_of_two (n div 2))"

declare is_power_of_two.simps [simp del]

fun usize_trailing_zeros :: "nat \<Rightarrow> nat" where
  "usize_trailing_zeros n = (if n = 0 then 64 else if odd n then 0 else Suc (usize_trailing_zeros (n div 2)))"

declare usize_trailing_zeros.simps [simp del]

definition get_root_of_unity :: "nat \<Rightarrow> ('e, GoldilocksField) outcome" where
  "get_root_of_unity n =
    (if is_power_of_two n \<and> n \<le> 2 ^ 32 then Inr (gexp 7 ((GOLDILOCKS_PRIME - 1) div word_of_nat n)) else Panicked)"

section \<open>Bit reversal\<close>

function rev_carry :: "nat \<Rightarrow> nat \<Rightarrow> nat" where
  "rev_carry j b = (if j AND b \<noteq> 0 then rev_carry (j XOR b) (drop_bit 1 b) else j XOR b)"
  by pat_completeness auto

termination rev_carry
  by (relation "measure snd") (auto simp: drop_bit_eq_div intro!: div_less_dividend gr0I)

declare rev_carry.simps [simp del]

definition swap :: "nat \<Rightarrow> nat \<Rightarrow> 'a list \<Rightarrow> 'a list" where
  "swap i j xs = xs[i := xs ! j, j := xs ! i]"

fun bit_reverse_loop :: "nat \<Rightarrow> nat list \<Rightarrow> nat \<Rightarrow> 'a list \<Rightarrow> 'a list" where
  "bit_reverse_loop n [] j evals = evals"
| "bit_reverse_loop n (i # is) j evals =
    bit_reverse_loop n is (rev_carry j (drop_bit 1 n)) (if i < j then swap i j evals else evals)"

definition bit_reverse :: "GoldilocksField list \<Rightarrow> GoldilocksField list" where
  "bit_reverse evals = bit_reverse_loop (length evals) [0..<length evals] 0 evals"

section \<open>Radix-2 transforms\<close>

text \<open>
  All transforms run butterflies over pairs of entries \<open>half\<close> apart, with a running twiddle.  The
  loop over one block takes the butterfly as an argument: Cooley-Tukey here, Gentleman-Sande in
  \<open>intt.rs\<close>.
\<close>

definition ct_butterfly :: "GoldilocksField \<Rightarrow> GoldilocksField \<Rightarrow> GoldilocksField \<Rightarrow> GoldilocksField \<times> GoldilocksField" where
  "ct_butterfly u x w = (let v = gmul x w in (gadd u v, gsub u v))"

fun butterflies :: "(GoldilocksField \<Rightarrow> GoldilocksField \<Rightarrow> GoldilocksField \<Rightarrow> GoldilocksField \<times> GoldilocksField) \<Rightarrow> nat \<Rightarrow> nat
    \<Rightarrow> GoldilocksField \<Rightarrow> nat list \<Rightarrow> GoldilocksField \<times> GoldilocksField list \<Rightarrow> GoldilocksField \<times> GoldilocksField list" where
  "butterflies bf half i w_step [] (w, evals) = (w, evals)"
| "butterflies bf half i w_step (k # ks) (w, evals) =
    (let (a, b) = bf (evals ! (i + k)) (evals ! (i + k + half)) w
     in butterflies bf half i w_step ks (gmul w w_step, evals[i + k := a, i + k + half := b]))"

definition ct_stage :: "nat \<Rightarrow> GoldilocksField \<Rightarrow> GoldilocksField list \<Rightarrow> GoldilocksField list" where
  "ct_stage len w_step evals =
    foldl (\<lambda>es i. snd (butterflies ct_butterfly (len div 2) i w_step [0..<len div 2] (1, es))) evals (step_by (length evals) len)"

text \<open>The outer loop, with \<open>len = 2 ^ s\<close>.\<close>

function ct_loop :: "GoldilocksField \<Rightarrow> nat \<Rightarrow> GoldilocksField list \<Rightarrow> GoldilocksField list" where
  "ct_loop omega s evals =
    (if 2 ^ s \<le> length evals
     then ct_loop omega (Suc s) (ct_stage (2 ^ s) (gexp omega (word_of_nat (length evals div 2 ^ s))) evals)
     else evals)"
  by pat_completeness auto

lemma butterflies_length [simp]: "length (snd (butterflies bf half i w_step ks st)) = length (snd st)"
  by (induction bf half i w_step ks st rule: butterflies.induct) (simp_all add: Let_def split: prod.split)

lemma ct_stage_length [simp]: "length (ct_stage len w_step evals) = length evals"
proof -
  have "length (foldl (\<lambda>es i. snd (butterflies ct_butterfly (len div 2) i w_step [0..<len div 2] (1, es))) evals is) = length evals" for "is"
    by (induction "is" arbitrary: evals) simp_all
  then show ?thesis by (simp add: ct_stage_def)
qed

termination ct_loop
proof (relation "measure (\<lambda>(omega, s, evals). length evals - s)")
  fix omega :: u64 and s and evals :: "u64 list"
  assume "2 ^ s \<le> length evals"
  then have "s < length evals" using less_exp [of s] by linarith
  then show "((omega, Suc s, ct_stage (2 ^ s) (gexp omega (word_of_nat (length evals div 2 ^ s))) evals), omega, s, evals)
    \<in> measure (\<lambda>(omega, s, evals). length evals - s)" by simp
qed simp

declare ct_loop.simps [simp del]

definition forward_ntt_radix2 :: "GoldilocksField list \<Rightarrow> ('e, GoldilocksField list) outcome" where
  "forward_ntt_radix2 evals =
    (let n = length evals
     in if n \<le> 1 then Inr evals
        else if \<not> is_power_of_two n then Panicked
        else let evals = bit_reverse evals
             in and_then (get_root_of_unity n) (\<lambda>omega_n. Inr (ct_loop omega_n 1 evals)))"

definition inverse_ntt_radix2 :: "GoldilocksField list \<Rightarrow> ('e, GoldilocksField list) outcome" where
  "inverse_ntt_radix2 evals =
    (let n = length evals
     in if n \<le> 1 then Inr evals
        else if \<not> is_power_of_two n then Panicked
        else let evals = bit_reverse evals
             in and_then (get_root_of_unity n) (\<lambda>root.
                and_then (invert root) (\<lambda>omega_inv.
                let evals = ct_loop omega_inv 1 evals
                in and_then (invert (from_u64 (word_of_nat n))) (\<lambda>n_inv. vector_mul_scalar evals n_inv))))"

section \<open>Four-step transforms\<close>

definition transpose_order :: "nat \<Rightarrow> nat \<Rightarrow> (nat \<times> nat) list" where
  "transpose_order n1 n2 =
    [(r, c). r_block \<leftarrow> step_by n1 64, c_block \<leftarrow> step_by n2 64,
             r \<leftarrow> [r_block..<min (r_block + 64) n1], c \<leftarrow> [c_block..<min (c_block + 64) n2]]"

definition matrix_transpose :: "GoldilocksField list \<Rightarrow> GoldilocksField list \<Rightarrow> nat \<Rightarrow> nat \<Rightarrow> ('e, GoldilocksField list) outcome" where
  "matrix_transpose src dst n1 n2 =
    (if length src = n1 * n2 \<and> length dst = n1 * n2
     then Inr (foldl (\<lambda>d (r, c). d[c * n1 + r := src ! (r * n2 + c)]) dst (transpose_order n1 n2))
     else Panicked)"

text \<open>A transform of every slice \<open>[k * w..(k + 1) * w]\<close>, in place.\<close>

fun each_row :: "(GoldilocksField list \<Rightarrow> ('e, GoldilocksField list) outcome) \<Rightarrow> nat \<Rightarrow> nat list
    \<Rightarrow> GoldilocksField list \<Rightarrow> ('e, GoldilocksField list) outcome" where
  "each_row f w [] evals = Inr evals"
| "each_row f w (k # ks) evals =
    and_then (get_range (k * w) ((k + 1) * w) evals) (\<lambda>row_slice.
    and_then (f row_slice) (\<lambda>row. each_row f w ks (take (k * w) evals @ row @ drop ((k + 1) * w) evals)))"

definition twiddle_all :: "GoldilocksField \<Rightarrow> nat \<Rightarrow> nat \<Rightarrow> GoldilocksField list \<Rightarrow> GoldilocksField list" where
  "twiddle_all omega n1 n2 evals =
    foldl (\<lambda>es (n2_idx, k1_idx). es[n2_idx * n1 + k1_idx :=
        gmul (es ! (n2_idx * n1 + k1_idx)) (gexp omega (word_of_nat (k1_idx * n2_idx)))])
      evals (List.product [0..<n2] [0..<n1])"

definition cache_oblivious_4step_ntt :: "GoldilocksField list \<Rightarrow> ('e, GoldilocksField list) outcome" where
  "cache_oblivious_4step_ntt evals =
    (let n = length evals
     in if n \<le> 1024 then forward_ntt_radix2 evals
        else let log_n = usize_trailing_zeros n; log_n1 = log_n div 2; log_n2 = log_n - log_n1;
                 n1 = 2 ^ log_n1; n2 = 2 ^ log_n2; temp = replicate n 0
             in and_then (get_root_of_unity n) (\<lambda>omega_n.
                and_then (matrix_transpose evals temp n1 n2) (\<lambda>temp.
                and_then (each_row forward_ntt_radix2 n1 [0..<n2] temp) (\<lambda>temp.
                let temp = twiddle_all omega_n n1 n2 temp in
                and_then (matrix_transpose temp evals n2 n1) (\<lambda>evals.
                and_then (each_row forward_ntt_radix2 n2 [0..<n1] evals) (\<lambda>evals.
                matrix_transpose evals temp n1 n2))))))"

definition cache_oblivious_4step_intt :: "GoldilocksField list \<Rightarrow> ('e, GoldilocksField list) outcome" where
  "cache_oblivious_4step_intt evals =
    (let n = length evals
     in if n \<le> 1024 then inverse_ntt_radix2 evals
        else let log_n = usize_trailing_zeros n; log_n1 = log_n div 2; log_n2 = log_n - log_n1;
                 n1 = 2 ^ log_n1; n2 = 2 ^ log_n2; temp = replicate n 0
             in and_then (get_root_of_unity n) (\<lambda>root.
                and_then (invert root) (\<lambda>omega_inv.
                and_then (matrix_transpose evals temp n2 n1) (\<lambda>temp.
                and_then (each_row inverse_ntt_radix2 n2 [0..<n1] temp) (\<lambda>temp.
                and_then (matrix_transpose temp evals n1 n2) (\<lambda>evals.
                let evals = twiddle_all omega_inv n1 n2 evals in
                and_then (each_row inverse_ntt_radix2 n1 [0..<n2] evals) (\<lambda>evals.
                matrix_transpose evals temp n2 n1)))))))"

section \<open>Bit reversal reverses the bits\<close>

fun bit_rev :: "nat \<Rightarrow> nat \<Rightarrow> nat" where
  "bit_rev 0 i = 0"
| "bit_rev (Suc m) i = i mod 2 * 2 ^ m + bit_rev m (i div 2)"

lemma bit_rev_less: "bit_rev m i < 2 ^ m"
proof (induction m arbitrary: i)
  case (Suc m)
  have "i mod 2 = 0 \<or> i mod 2 = 1" by auto
  then show ?case using Suc.IH [of "i div 2"] by auto
qed simp

lemma bit_rev_0 [simp]: "bit_rev m 0 = 0"
  by (induction m) simp_all

lemma bit_rev_low: "i < 2 ^ Suc m \<Longrightarrow> bit_rev (Suc m) i = 2 * bit_rev m (i mod 2 ^ m) + i div 2 ^ m"
proof (induction m arbitrary: i)
  case (Suc m)
  have "i div 2 < 2 ^ Suc m" using Suc.prems by auto
  moreover have "i mod 2 ^ Suc m mod 2 = i mod 2" by (simp add: mod_mod_cancel)
  moreover have "i mod 2 ^ Suc m div 2 = i div 2 mod 2 ^ m"
    by (simp add: mod_mult2_eq)
  moreover have "i div 2 div 2 ^ m = i div 2 ^ Suc m" by (simp add: div_mult2_eq)
  ultimately show ?case using Suc.IH [of "i div 2"] by simp
qed simp

lemma bit_rev_invol: "i < 2 ^ m \<Longrightarrow> bit_rev m (bit_rev m i) = i"
proof (induction m arbitrary: i)
  case (Suc m)
  let ?y = "bit_rev (Suc m) i"
  have "?y mod 2 ^ m = bit_rev m (i div 2)" "?y div 2 ^ m = i mod 2" using bit_rev_less [of m "i div 2"] by simp_all
  then have "bit_rev (Suc m) ?y = 2 * bit_rev m (bit_rev m (i div 2)) + i mod 2"
    using bit_rev_low [OF bit_rev_less [of "Suc m" i]] by (simp only:)
  also have "bit_rev m (bit_rev m (i div 2)) = i div 2" using Suc.prems by (intro Suc.IH) auto
  finally show ?case by simp
qed simp

lemma and_exp_zero: "(j :: nat) < 2 ^ m \<Longrightarrow> j AND 2 ^ m = 0"
  by (simp add: and_exp_eq_0_iff_not_bit bit_iff_odd)

lemma and_exp_nonzero: "(j :: nat) < 2 ^ m \<Longrightarrow> (2 ^ m + j) AND 2 ^ m \<noteq> 0"
  by (simp only: and_exp_eq_0_iff_not_bit bit_iff_odd) (simp add: div_add_self1)

lemma xor_exp:
  assumes "(j :: nat) < 2 ^ m"
  shows "j XOR 2 ^ m = 2 ^ m + j" "(2 ^ m + j) XOR 2 ^ m = j"
proof -
  have 1: "2 ^ m + j = j XOR 2 ^ m"
    using disjunctive_add_eq_xor [OF and_exp_zero [OF assms]] by (simp add: add.commute)
  then show "j XOR 2 ^ m = 2 ^ m + j" by simp
  show "(2 ^ m + j) XOR 2 ^ m = j" by (simp add: 1 xor.assoc)
qed

lemma rev_carry_step: "Suc i < 2 ^ m \<Longrightarrow> rev_carry (bit_rev m i) (drop_bit 1 (2 ^ m)) = bit_rev m (Suc i)"
proof (induction m arbitrary: i)
  case (Suc m)
  let ?r = "bit_rev m (i div 2)"
  have r: "?r < 2 ^ m" by (rule bit_rev_less)
  have half: "drop_bit 1 (2 ^ Suc m :: nat) = 2 ^ m" by (simp add: drop_bit_eq_div)
  show ?case
  proof (cases "even i")
    case True
    then have "bit_rev (Suc m) i = ?r" "bit_rev (Suc m) (Suc i) = 2 ^ m + ?r" by (simp_all add: mod_Suc)
    then show ?thesis using r by (subst rev_carry.simps) (simp only: half and_exp_zero xor_exp simp_thms if_False)
  next
    case False
    then have i: "bit_rev (Suc m) i = 2 ^ m + ?r" "bit_rev (Suc m) (Suc i) = bit_rev m (Suc (i div 2))"
      by (simp_all add: odd_iff_mod_2_eq_one mod_Suc)
    have "rev_carry (bit_rev (Suc m) i) (2 ^ m) = rev_carry ?r (drop_bit 1 (2 ^ m))"
      unfolding i using r by (subst rev_carry.simps) (simp only: and_exp_nonzero xor_exp simp_thms if_True)
    also have "\<dots> = bit_rev m (Suc (i div 2))" using Suc.prems False by (intro Suc.IH) (auto elim!: oddE)
    finally show ?thesis using i(2) half by simp
  qed
qed simp

lemma bit_reverse_loop_nth:
  assumes "length evals = 2 ^ m" and "i \<le> 2 ^ m" and "i < 2 ^ m \<Longrightarrow> j = bit_rev m i" and "p < 2 ^ m"
    and "length xs = 2 ^ m" and "\<And>p. p < 2 ^ m \<Longrightarrow> evals ! p = (if p < i \<or> bit_rev m p < i then xs ! bit_rev m p else xs ! p)"
  shows "bit_reverse_loop (2 ^ m) [i..<2 ^ m] j evals ! p = xs ! bit_rev m p"
  using assms(1-3,6)
proof (induction "2 ^ m - i" arbitrary: i j evals)
  case 0
  then show ?case using assms(4) by simp
next
  case (Suc d)
  then have i: "i < 2 ^ m" by simp
  then have j: "j = bit_rev m i" "bit_rev m j = i" "j < 2 ^ m"
    using Suc.prems(3) bit_rev_invol [OF i] bit_rev_less [of m i] by auto
  let ?e = "if i < j then swap i j evals else evals"
  have eq: "bit_rev m q = i \<longleftrightarrow> q = j" if "q < 2 ^ m" for q using that j bit_rev_invol [OF that] by auto
  have "?e ! q = (if q < Suc i \<or> bit_rev m q < Suc i then xs ! bit_rev m q else xs ! q)" if q: "q < 2 ^ m" for q
    using Suc.prems(4) [OF q] Suc.prems(4) [OF i] Suc.prems(4) [OF j(3)] Suc.prems(1) j i q eq [OF q]
    by (auto simp: swap_def nth_list_update less_Suc_eq)
  moreover have "rev_carry j (drop_bit 1 (2 ^ m)) = bit_rev m (Suc i)" if "Suc i < 2 ^ m"
    using rev_carry_step [OF that] j by simp
  ultimately have "bit_reverse_loop (2 ^ m) [Suc i..<2 ^ m] (rev_carry j (drop_bit 1 (2 ^ m))) ?e ! p = xs ! bit_rev m p"
    using Suc.hyps(2) Suc.prems(1) i by (intro Suc.hyps(1)) (auto simp: swap_def)
  then show ?case using i by (simp add: upt_conv_Cons)
qed

lemma bit_reverse_loop_length [simp]: "length (bit_reverse_loop n is j evals) = length evals"
  by (induction n "is" j evals rule: bit_reverse_loop.induct) (simp_all add: swap_def)

lemma bit_reverse_nth:
  assumes "length xs = 2 ^ m"
  shows "bit_reverse xs = map (\<lambda>p. xs ! bit_rev m p) [0..<2 ^ m]"
proof (rule nth_equalityI)
  fix p assume "p < length (bit_reverse xs)"
  then have "p < 2 ^ m" using assms by (simp add: bit_reverse_def)
  then show "bit_reverse xs ! p = map (\<lambda>p. xs ! bit_rev m p) [0..<2 ^ m] ! p"
    using bit_reverse_loop_nth [of xs m 0 0 p xs] assms by (simp add: bit_reverse_def)
qed (simp add: bit_reverse_def assms)

section \<open>Butterflies in the field\<close>

abbreviation canon :: "GoldilocksField list \<Rightarrow> bool" where
  "canon xs \<equiv> list_all canonical_gf xs"

definition vals :: "GoldilocksField list \<Rightarrow> nat \<Rightarrow> fp" where
  "vals xs p = gval (xs ! p)"

lemma canon_nth: "canon xs \<Longrightarrow> p < length xs \<Longrightarrow> canonical_gf (xs ! p)"
  by (simp add: list_all_length)

lemma canon_update: "canon xs \<Longrightarrow> canonical_gf v \<Longrightarrow> canon (xs[i := v])"
  using set_update_subset_insert [of xs i v] by (auto simp: list_all_iff)

lemma vals_inject:
  assumes "canon xs" and "canon ys" and "length xs = length ys" and "\<And>p. p < length ys \<Longrightarrow> vals xs p = vals ys p"
  shows "xs = ys"
proof (rule nth_equalityI)
  fix p assume "p < length xs"
  then show "xs ! p = ys ! p"
    using assms canon_nth [OF assms(1)] canon_nth [OF assms(2)] by (simp add: vals_def flip: gval_eq)
qed (rule assms(3))

text \<open>
  The effect of one block of butterflies at \<open>i\<close> that starts at \<open>k\<close> with twiddle \<open>w\<close>.  \<open>F\<close> and
  \<open>G\<close> are the two outputs of the butterfly, as functions of the field.
\<close>

definition block_spec :: "(fp \<Rightarrow> fp \<Rightarrow> fp \<Rightarrow> fp) \<Rightarrow> (fp \<Rightarrow> fp \<Rightarrow> fp \<Rightarrow> fp) \<Rightarrow> nat \<Rightarrow> nat \<Rightarrow> nat \<Rightarrow> fp \<Rightarrow> fp \<Rightarrow> (nat \<Rightarrow> fp) \<Rightarrow> nat \<Rightarrow> fp" where
  "block_spec F G half i k w ws X p =
    (if i + k \<le> p \<and> p < i + half then F (X p) (X (p + half)) (w * ws ^ (p - i - k))
     else if i + half + k \<le> p \<and> p < i + 2 * half then G (X (p - half)) (X p) (w * ws ^ (p - i - half - k))
     else X p)"

lemma block_spec_step:
  assumes "k < half"
  shows "block_spec F G half i k w ws X p =
    block_spec F G half i (Suc k) (w * ws) ws (X(i + k := F (X (i + k)) (X (i + k + half)) w, i + k + half := G (X (i + k)) (X (i + k + half)) w)) p"
proof -
  have pow: "ws * ws ^ (q - Suc k) = ws ^ (q - k)" if "k < q" for q
    using that by (simp add: Suc_diff_Suc flip: power_Suc)
  consider "p = i + k" | "p = i + k + half" | "i + k < p" "p < i + half" | "i + half + k < p" "p < i + 2 * half"
    | "p < i + k" | "i + half \<le> p" "p < i + half + k" | "i + 2 * half \<le> p" by linarith
  then show ?thesis
  proof cases
    case 3
    then show ?thesis using assms pow [of "p - i"] by (simp add: block_spec_def mult.assoc)
  next
    case 4
    then obtain d where p: "p = Suc (i + half + k + d)" using less_imp_Suc_add by blast
    then show ?thesis using assms 4 by (simp add: block_spec_def mult.assoc)
  qed (use assms in \<open>simp_all add: block_spec_def\<close>)
qed

text \<open>
  A stage applies the butterflies block by block.  \<open>sg\<close> is what the twiddle is multiplied with
  from one block to the next: 1 where it is reset, and the last power of the step where it is
  carried over.
\<close>

definition stage_spec :: "(fp \<Rightarrow> fp \<Rightarrow> fp \<Rightarrow> fp) \<Rightarrow> (fp \<Rightarrow> fp \<Rightarrow> fp \<Rightarrow> fp) \<Rightarrow> nat \<Rightarrow> fp \<Rightarrow> fp \<Rightarrow> (nat \<Rightarrow> fp) \<Rightarrow> nat \<Rightarrow> fp" where
  "stage_spec F G half sg ws X p =
    (let r = p mod (2 * half); t = sg ^ (p div (2 * half))
     in if r < half then F (X p) (X (p + half)) (t * ws ^ r) else G (X (p - half)) (X p) (t * ws ^ (r - half)))"

lemma block_stage_spec:
  assumes "0 < half" and "p div (2 * half) = b"
  shows "block_spec F G half (b * (2 * half)) 0 (sg ^ b) ws X p = stage_spec F G half sg ws X p"
proof -
  obtain r where r: "p mod (2 * half) = r" by blast
  then have p: "p = b * (2 * half) + r" using assms(2) by (metis div_mult_mod_eq)
  have bound: "r < 2 * half" using assms(1) r by auto
  have "stage_spec F G half sg ws X p = (if r < half then F (X p) (X (p + half)) (sg ^ b * ws ^ r)
      else G (X (p - half)) (X p) (sg ^ b * ws ^ (r - half)))"
    by (simp add: stage_spec_def r assms(2))
  then show ?thesis using bound unfolding p block_spec_def by auto
qed

lemma block_spec_cong:
  assumes "\<And>q. i \<le> q \<Longrightarrow> q < i + 2 * half \<Longrightarrow> X q = Y q" and "i \<le> p" and "p < i + 2 * half"
  shows "block_spec F G half i 0 w ws X p = block_spec F G half i 0 w ws Y p"
  using assms by (auto simp: block_spec_def)

lemma block_spec_outside: "p < i \<or> i + 2 * half \<le> p \<Longrightarrow> block_spec F G half i 0 w ws X p = X p"
  by (auto simp: block_spec_def)

definition stage_inv :: "(fp \<Rightarrow> fp \<Rightarrow> fp \<Rightarrow> fp) \<Rightarrow> (fp \<Rightarrow> fp \<Rightarrow> fp \<Rightarrow> fp) \<Rightarrow> nat \<Rightarrow> nat \<Rightarrow> fp \<Rightarrow> fp \<Rightarrow> (nat \<Rightarrow> fp) \<Rightarrow> nat \<Rightarrow> GoldilocksField list \<Rightarrow> bool" where
  "stage_inv F G n half sg ws X b es \<longleftrightarrow> canon es \<and> length es = n
    \<and> (\<forall>p<n. vals es p = (if p < b * (2 * half) then stage_spec F G half sg ws X p else X p))"

text \<open>What the loops need of a butterfly: that it computes \<open>F\<close> and \<open>G\<close>.\<close>

locale butterfly =
  fixes bf :: "GoldilocksField \<Rightarrow> GoldilocksField \<Rightarrow> GoldilocksField \<Rightarrow> GoldilocksField \<times> GoldilocksField"
    and F G :: "fp \<Rightarrow> fp \<Rightarrow> fp \<Rightarrow> fp"
  assumes bf_canonical: "canonical_gf u \<Longrightarrow> canonical_gf v \<Longrightarrow> bf u v w = (a, b) \<Longrightarrow> canonical_gf a \<and> canonical_gf b"
    and bf_gval: "canonical_gf u \<Longrightarrow> canonical_gf v \<Longrightarrow> bf u v w = (a, b)
      \<Longrightarrow> gval a = F (gval u) (gval v) (gval w) \<and> gval b = G (gval u) (gval v) (gval w)"
begin

lemma block_val:
  assumes "i + 2 * half \<le> n" and "k \<le> half" and "canonical_gf w" and "canon xs" and "length xs = n"
  shows "\<exists>w' ys. butterflies bf half i ws [k..<half] (w, xs) = (w', ys) \<and> canonical_gf w' \<and> canon ys \<and> length ys = n
    \<and> gval w' = gval w * gval ws ^ (half - k)
    \<and> (\<forall>p<n. vals ys p = block_spec F G half i k (gval w) (gval ws) (vals xs) p)"
  using assms(2-5)
proof (induction "half - k" arbitrary: k w xs)
  case 0
  then show ?case by (auto simp: block_spec_def)
next
  case (Suc d)
  have k: "k < half" using Suc.hyps(2) by simp
  obtain a b where ab: "bf (xs ! (i + k)) (xs ! (i + k + half)) w = (a, b)" by (rule prod.exhaust)
  let ?xs = "xs[i + k := a, i + k + half := b]"
  have c: "canonical_gf (xs ! (i + k))" "canonical_gf (xs ! (i + k + half))" using Suc.prems assms(1) k by (simp_all add: canon_nth)
  have canon': "canon ?xs" using Suc.prems bf_canonical [OF c ab] by (intro canon_update) simp_all
  have vals': "vals ?xs = (vals xs)(i + k := F (vals xs (i + k)) (vals xs (i + k + half)) (gval w),
      i + k + half := G (vals xs (i + k)) (vals xs (i + k + half)) (gval w))"
    using Suc.prems bf_gval [OF c ab] k assms(1) by (auto simp: vals_def fun_eq_iff nth_list_update)
  have IH: "\<exists>w' ys. butterflies bf half i ws [Suc k..<half] (gmul w ws, ?xs) = (w', ys) \<and> canonical_gf w' \<and> canon ys \<and> length ys = n
    \<and> gval w' = gval (gmul w ws) * gval ws ^ (half - Suc k)
    \<and> (\<forall>p<n. vals ys p = block_spec F G half i (Suc k) (gval (gmul w ws)) (gval ws) (vals ?xs) p)"
    using Suc.hyps(2) k canon' Suc.prems by (intro Suc.hyps(1)) (simp_all add: gf_simps)
  have eq1: "butterflies bf half i ws [k..<half] (w, xs) = butterflies bf half i ws [Suc k..<half] (gmul w ws, ?xs)"
    using k by (simp add: upt_conv_Cons ab)
  have eq2: "gval w * gval ws * gval ws ^ (half - Suc k) = gval w * gval ws ^ (half - k)"
    using k by (simp add: mult.assoc Suc_diff_Suc flip: power_Suc)
  show ?case using IH unfolding eq1 vals' gmul_gval(1) eq2 block_spec_step [OF k] .
qed

lemma stage_step:
  assumes inv: "stage_inv F G n half sg (gval ws) X b es" and w: "canonical_gf w" "gval w = sg ^ b"
    and half: "0 < half" and fits: "Suc b * (2 * half) \<le> n"
  shows "\<exists>w' es'. butterflies bf half (b * (2 * half)) ws [0..<half] (w, es) = (w', es') \<and> canonical_gf w'
    \<and> gval w' = gval w * gval ws ^ half \<and> stage_inv F G n half sg (gval ws) X (Suc b) es'"
proof -
  let ?i = "b * (2 * half)"
  have es: "canon es" "length es = n" using inv by (simp_all add: stage_inv_def)
  obtain w' es' where block: "butterflies bf half ?i ws [0..<half] (w, es) = (w', es')" "canonical_gf w'" "canon es'" "length es' = n"
      "gval w' = gval w * gval ws ^ half"
      and v: "\<And>p. p < n \<Longrightarrow> vals es' p = block_spec F G half ?i 0 (gval w) (gval ws) (vals es) p"
    using block_val [of ?i half n 0 w es ws] fits es w(1) by auto
  have "vals es' p = (if p < Suc b * (2 * half) then stage_spec F G half sg (gval ws) X p else X p)" if p: "p < n" for p
  proof -
    consider "p < ?i" | "Suc b * (2 * half) \<le> p" | "?i \<le> p" "p < ?i + 2 * half" by fastforce
    then show ?thesis
    proof cases
      case 1
      then show ?thesis using v [OF p] p inv by (simp add: block_spec_outside stage_inv_def)
    next
      case 2
      then show ?thesis using v [OF p] p inv by (simp add: block_spec_outside stage_inv_def add.commute)
    next
      case 3
      have "p div (2 * half) = b"
        using 3 half by (intro div_nat_eqI) (simp_all add: mult.commute)
      moreover have "vals es' p = block_spec F G half ?i 0 (sg ^ b) (gval ws) X p"
        unfolding v [OF p] w(2) using 3 inv fits by (intro block_spec_cong) (auto simp: stage_inv_def)
      ultimately show ?thesis using 3 half by (simp add: block_stage_spec add.commute)
    qed
  qed
  then show ?thesis using block by (auto simp: stage_inv_def)
qed

text \<open>The loop over the blocks, with the twiddle reset in every block and with the twiddle carried over.\<close>

lemma stage_reset:
  assumes "canon es" and "length es = q * (2 * half)" and "0 < half"
  shows "stage_inv F G (length es) half 1 (gval ws) (vals es) q
    (foldl (\<lambda>es i. snd (butterflies bf half i ws [0..<half] (1, es))) es (map (\<lambda>b. b * (2 * half)) [0..<q]))"
proof -
  let ?f = "\<lambda>es i. snd (butterflies bf half i ws [0..<half] (1, es))"
  have "stage_inv F G (length es) half 1 (gval ws) (vals es) b (foldl ?f es (map (\<lambda>b. b * (2 * half)) [0..<b]))" if "b \<le> q" for b
    using that
  proof (induction b)
    case (Suc b)
    then have "Suc b * (2 * half) \<le> length es" by (metis assms(2) mult_le_mono1)
    then show ?case using stage_step [OF Suc.IH gval_consts(4)] Suc.prems assms(3) by (fastforce simp: gf_simps)
  qed (simp add: stage_inv_def assms)
  then show ?thesis by simp
qed

lemma stage_carried:
  assumes "canon es" and "length es = q * (2 * half)" and "0 < half"
  shows "stage_inv F G (length es) half (gval ws ^ half) (gval ws) (vals es) q
    (snd (foldl (\<lambda>st i. butterflies bf half i ws [0..<half] st) (1, es) (map (\<lambda>b. b * (2 * half)) [0..<q])))"
proof -
  let ?f = "\<lambda>st i. butterflies bf half i ws [0..<half] st" and ?L = "\<lambda>b. map (\<lambda>b. b * (2 * half)) [0..<b]"
  have "\<exists>w es'. foldl ?f (1, es) (?L b) = (w, es') \<and> canonical_gf w \<and> gval w = (gval ws ^ half) ^ b
      \<and> stage_inv F G (length es) half (gval ws ^ half) (gval ws) (vals es) b es'" if "b \<le> q" for b
    using that
  proof (induction b)
    case (Suc b)
    then have "Suc b * (2 * half) \<le> length es" by (metis assms(2) mult_le_mono1)
    moreover obtain w es' where st: "foldl ?f (1, es) (?L b) = (w, es')" "canonical_gf w" "gval w = (gval ws ^ half) ^ b"
      "stage_inv F G (length es) half (gval ws ^ half) (gval ws) (vals es) b es'" using Suc by auto
    ultimately show ?case using stage_step [OF st(4,2,3) assms(3)] st(1,3) by (auto simp: power_commutes)
  qed (simp add: stage_inv_def assms gf_simps)
  then show ?thesis by force
qed

end

abbreviation ct_F :: "fp \<Rightarrow> fp \<Rightarrow> fp \<Rightarrow> fp" where "ct_F u v w \<equiv> u + v * w"
abbreviation ct_G :: "fp \<Rightarrow> fp \<Rightarrow> fp \<Rightarrow> fp" where "ct_G u v w \<equiv> u - v * w"

interpretation ct: butterfly ct_butterfly ct_F ct_G
  by unfold_locales (auto simp: ct_butterfly_def Let_def gf_simps)

abbreviation ct_spec :: "nat \<Rightarrow> fp \<Rightarrow> fp \<Rightarrow> (nat \<Rightarrow> fp) \<Rightarrow> nat \<Rightarrow> fp" where
  "ct_spec \<equiv> stage_spec ct_F ct_G"

lemma step_by_multiple: "0 < l \<Longrightarrow> step_by (q * l) l = map (\<lambda>b. b * l) [0..<q]"
proof -
  assume "0 < l"
  then have "(q * l + l - 1) div l = q" by (intro div_nat_eqI) (simp_all add: algebra_simps)
  then show ?thesis by (simp add: step_by_def mult.commute)
qed

lemma ct_stage_val:
  assumes "canon es" and "length es = q * (2 * half)" and "0 < half"
  shows "canon (ct_stage (2 * half) ws es)
    \<and> (\<forall>p<length es. vals (ct_stage (2 * half) ws es) p = ct_spec half 1 (gval ws) (vals es) p)"
  using ct.stage_reset [OF assms, of ws] assms by (simp add: ct_stage_def step_by_multiple stage_inv_def)

section \<open>The transform is the discrete Fourier transform\<close>

definition dft :: "fp \<Rightarrow> nat \<Rightarrow> (nat \<Rightarrow> fp) \<Rightarrow> nat \<Rightarrow> fp" where
  "dft om n x k = (\<Sum>j<n. x j * om ^ (j * k))"

text \<open>After \<open>s\<close> stages, block \<open>b\<close> holds the transform of the entries whose index is the reversal of \<open>b\<close> modulo \<open>2 ^ (m - s)\<close>.\<close>

definition partial_dft :: "fp \<Rightarrow> nat \<Rightarrow> nat \<Rightarrow> (nat \<Rightarrow> fp) \<Rightarrow> (nat \<Rightarrow> fp) \<Rightarrow> bool" where
  "partial_dft om t s x Y \<longleftrightarrow> (\<forall>b<2 ^ t. \<forall>k<2 ^ s. Y (b * 2 ^ s + k)
     = (\<Sum>j<2 ^ s. x (bit_rev t b + j * 2 ^ t) * om ^ (2 ^ t * j * k)))"

lemma sum_even_odd: "(\<Sum>j<2 * (N :: nat). f j) = (\<Sum>j<N. f (2 * j)) + (\<Sum>j<N. f (2 * j + 1) :: 'a :: comm_monoid_add)"
  by (induction N) (simp_all add: algebra_simps)

lemma partial_dft_step:
  fixes om :: fp
  assumes part: "partial_dft om (Suc t) s x Y" and root: "om ^ (2 ^ t * 2 ^ s) = - 1"
  shows "partial_dft om t (Suc s) x (ct_spec (2 ^ s) 1 (om ^ 2 ^ t) Y)"
  unfolding partial_dft_def
proof (intro allI impI)
  fix b k :: nat
  assume b: "b < 2 ^ t" and k: "k < 2 ^ Suc s"
  let ?M = "2 ^ t :: nat" and ?h = "2 ^ s :: nat"
  let ?f = "\<lambda>d j. x (bit_rev t b + (2 * j + d) * ?M)"
  have Y: "Y ((2 * b + d) * ?h + k') = (\<Sum>j<?h. ?f d j * om ^ (2 * ?M * j * k'))" if "d < 2" "k' < ?h" for d k'
  proof -
    have lt: "2 * b + d < 2 ^ Suc t" using b that by simp
    have rev: "bit_rev (Suc t) (2 * b + d) = d * ?M + bit_rev t b" using that(1) by (auto simp: less_2_cases_iff)
    have "Y ((2 * b + d) * ?h + k') = (\<Sum>j<?h. x (bit_rev (Suc t) (2 * b + d) + j * 2 ^ Suc t) * om ^ (2 ^ Suc t * j * k'))"
      using part lt that(2) unfolding partial_dft_def by blast
    then show ?thesis unfolding rev by (simp add: algebra_simps)
  qed
  have pos2: "0 < (2 :: nat)" and one2: "1 < (2 :: nat)" by simp_all
  have full: "om ^ (2 * ?M * ?h * i) = 1" for i
  proof -
    have "om ^ (2 * ?M * ?h * i) = ((om ^ (?M * ?h)) ^ 2) ^ i" by (simp only: power_mult [symmetric] ac_simps)
    then show ?thesis by (simp only: root power2_eq_square) simp
  qed
  have even: "om ^ (?M * (2 * j) * k') = om ^ (2 * ?M * j * k')" for j k'
    by (simp add: ac_simps)
  have odd: "om ^ (?M * (2 * j + 1) * k') = om ^ (2 * ?M * j * k') * (om ^ ?M) ^ k'" for j k'
  proof -
    have "?M * (2 * j + 1) * k' = 2 * ?M * j * k' + ?M * k'" by (simp add: algebra_simps)
    then show ?thesis by (simp only: power_add power_mult)
  qed
  show "ct_spec ?h 1 (om ^ ?M) Y (b * 2 ^ Suc s + k) = (\<Sum>j<2 ^ Suc s. x (bit_rev t b + j * ?M) * om ^ (?M * j * k))"
  proof (cases "k < ?h")
    case True
    have "ct_spec ?h 1 (om ^ ?M) Y (b * 2 ^ Suc s + k) = Y ((2 * b + 0) * ?h + k) + Y ((2 * b + 1) * ?h + k) * (om ^ ?M) ^ k"
      using True by (simp add: stage_spec_def algebra_simps)
    also have "\<dots> = (\<Sum>j<?h. ?f 0 j * om ^ (?M * (2 * j) * k)) + (\<Sum>j<?h. ?f 1 j * om ^ (?M * (2 * j + 1) * k))"
      unfolding Y [OF pos2 True] Y [OF one2 True] even odd by (simp only: sum_distrib_right mult.assoc)
    finally show ?thesis by (simp add: sum_even_odd algebra_simps)
  next
    case False
    define k' where "k' = k - ?h"
    then have k': "k = ?h + k'" "k' < ?h" using False k by auto
    have "ct_spec ?h 1 (om ^ ?M) Y (b * 2 ^ Suc s + k) = Y ((2 * b + 0) * ?h + k') - Y ((2 * b + 1) * ?h + k') * (om ^ ?M) ^ k'"
    proof -
      have m: "(b * 2 ^ Suc s + k) mod (2 * ?h) = ?h + k'" using k' by simp
      have d: "b * 2 ^ Suc s + k - ?h = (2 * b + 0) * ?h + k'" "(2 * b + 1) * ?h + k' = b * 2 ^ Suc s + k"
        using k' by (simp_all add: algebra_simps)
      show ?thesis unfolding stage_spec_def Let_def m d by simp
    qed
    also have "\<dots> = (\<Sum>j<?h. ?f 0 j * om ^ (?M * (2 * j) * k)) + (\<Sum>j<?h. ?f 1 j * om ^ (?M * (2 * j + 1) * k))"
    proof -
      have "om ^ (2 * ?M * j * k) = om ^ (2 * ?M * j * k')" for j
      proof -
        have "2 * ?M * j * k = 2 * ?M * ?h * j + 2 * ?M * j * k'" by (simp add: k' algebra_simps)
        then show ?thesis by (simp only: power_add full mult_1)
      qed
      moreover have "(om ^ ?M) ^ k = - ((om ^ ?M) ^ k')"
        by (simp add: k' power_add root flip: power_mult)
      ultimately show ?thesis
        unfolding Y [OF pos2 k'(2)] Y [OF one2 k'(2)] even odd
        by (simp only: sum_distrib_right mult.assoc minus_mult_right [symmetric] sum_negf diff_conv_add_uminus)
    qed
    finally show ?thesis by (simp add: sum_even_odd algebra_simps)
  qed
qed

lemma partial_dft_0: "partial_dft om m 0 x (\<lambda>p. x (bit_rev m p))"
  by (simp add: partial_dft_def)

lemma partial_dft_full: "partial_dft om 0 m x Y \<Longrightarrow> k < 2 ^ m \<Longrightarrow> Y k = dft om (2 ^ m) x k"
  unfolding partial_dft_def dft_def by (drule spec [of _ 0]) simp

lemma partial_dft_cong:
  assumes "partial_dft om t s x Y" and "\<And>p. p < 2 ^ (t + s) \<Longrightarrow> Z p = Y p"
  shows "partial_dft om t s x Z"
proof -
  have "b * 2 ^ s + k < 2 ^ (t + s)" if "b < 2 ^ t" "k < 2 ^ s" for b k :: nat
  proof -
    have "b * 2 ^ s + k < Suc b * 2 ^ s" using that by simp
    also have "\<dots> \<le> 2 ^ t * 2 ^ s" using that by (intro mult_le_mono1) simp
    finally show ?thesis by (simp add: power_add)
  qed
  then show ?thesis using assms by (simp add: partial_dft_def)
qed

lemma unat_u64_of_nat: "k < 2 ^ 64 \<Longrightarrow> unat (word_of_nat k :: u64) = k"
  by (simp add: unsigned_of_nat take_bit_eq_mod)

lemma ct_loop_dft:
  assumes "t + s = m" and "m \<le> 32" and "canon es" and "length es = 2 ^ m" and "partial_dft (gval om) t s x (vals es)"
    and "0 < m \<Longrightarrow> gval om ^ 2 ^ (m - 1) = - 1"
  shows "canon (ct_loop om (Suc s) es) \<and> length (ct_loop om (Suc s) es) = 2 ^ m
    \<and> (\<forall>k<2 ^ m. vals (ct_loop om (Suc s) es) k = dft (gval om) (2 ^ m) x k)"
  using assms(1,3-5)
proof (induction t arbitrary: s es)
  case 0
  then have "\<not> 2 ^ Suc s \<le> length es" by simp
  then show ?case using 0 partial_dft_full [of "gval om" m x "vals es"] by (subst (1 2 3) ct_loop.simps) simp
next
  case (Suc t)
  define ws where "ws = gexp om (word_of_nat (length es div 2 ^ Suc s))"
  let ?es = "ct_stage (2 ^ Suc s) ws es"
  have m: "m = t + Suc s" using Suc.prems(1) by simp
  then have len: "length es = 2 ^ t * (2 * 2 ^ s)" using Suc.prems(3) by (simp add: power_add)
  have "length es div 2 ^ Suc s = 2 ^ t" using len by simp
  moreover have "(2 :: nat) ^ t < 2 ^ 64" using m assms(2) by (intro power_strict_increasing) auto
  ultimately have ws: "gval ws = gval om ^ 2 ^ t" unfolding ws_def by (simp only: gexp_gval unat_u64_of_nat)
  have root: "gval om ^ (2 ^ t * 2 ^ s) = - 1" using assms(6) m by (simp flip: power_add)
  have stage: "canon ?es" "\<And>p. p < 2 ^ m \<Longrightarrow> vals ?es p = ct_spec (2 ^ s) 1 (gval om ^ 2 ^ t) (vals es) p"
    using ct_stage_val [OF Suc.prems(2) len, of ws] Suc.prems(3) by (simp_all add: ws)
  have part: "partial_dft (gval om) t (Suc s) x (vals ?es)"
    using partial_dft_step [OF Suc.prems(4) root] stage(2) by (rule partial_dft_cong) (simp add: m)
  have step: "ct_loop om (Suc s) es = ct_loop om (Suc (Suc s)) ?es"
    using len by (subst ct_loop.simps) (simp add: ws_def)
  show ?case unfolding step using Suc.IH [of "Suc s" ?es] m stage(1) part Suc.prems(3) by simp
qed

section \<open>Roots of unity\<close>

definition groot :: "nat \<Rightarrow> fp" where
  "groot m = 7 ^ (GN div 2 ^ m)"

lemma is_power_of_two_exp [simp]: "is_power_of_two (2 ^ m)"
  by (induction m) (simp_all add: is_power_of_two.simps)

lemma usize_trailing_zeros_exp [simp]: "usize_trailing_zeros (2 ^ m) = m"
  by (induction m) (simp_all add: usize_trailing_zeros.simps)

lemma GN_div: "m \<le> 32 \<Longrightarrow> GN div 2 ^ m = 2 ^ (32 - m) * 4294967295"
proof -
  assume "m \<le> 32"
  then have "GN = 2 ^ m * (2 ^ (32 - m) * 4294967295)" by (simp add: mult.assoc [symmetric] flip: power_add)
  then show ?thesis by (metis nonzero_mult_div_cancel_left power_not_zero zero_neq_numeral)
qed

lemma groot_half:
  assumes "0 < m" and "m \<le> 32"
  shows "groot m ^ 2 ^ (m - 1) = - 1"
proof -
  have "GN div 2 ^ m * 2 ^ (m - 1) = 2 ^ (32 - m) * 2 ^ (m - 1) * 4294967295"
    unfolding GN_div [OF assms(2)] by (simp add: ac_simps)
  also have "(2 :: nat) ^ (32 - m) * 2 ^ (m - 1) = 2 ^ 31" using assms by (simp flip: power_add)
  finally have "GN div 2 ^ m * 2 ^ (m - 1) = 9223372034707292160" by simp
  then show ?thesis unfolding groot_def power_mult [symmetric] by (simp only: seven_half)
qed

definition gomega :: "nat \<Rightarrow> GoldilocksField" where
  "gomega m = gexp 7 ((GOLDILOCKS_PRIME - 1) div word_of_nat (2 ^ m))"

lemma exp_le_32: "m \<le> 32 \<Longrightarrow> (2 :: nat) ^ m \<le> 2 ^ 32"
  by (intro power_increasing) auto

lemma unat_exp: "m \<le> 32 \<Longrightarrow> unat (word_of_nat (2 ^ m) :: u64) = 2 ^ m"
  using exp_le_32 [of m] by (intro unat_u64_of_nat) simp

lemma get_root_exp: "m \<le> 32 \<Longrightarrow> get_root_of_unity (2 ^ m) = Inr (gomega m)"
  using exp_le_32 unfolding get_root_of_unity_def gomega_def by (simp only: is_power_of_two_exp simp_thms if_True)

lemma gomega_gval: "m \<le> 32 \<Longrightarrow> gval (gomega m) = groot m"
proof -
  assume "m \<le> 32"
  moreover have "unat (GOLDILOCKS_PRIME - 1) = GN" by (simp add: GOLDILOCKS_PRIME_def)
  ultimately show ?thesis by (simp only: gomega_def gexp_gval unat_div groot_def unat_exp) (simp add: gval_def)
qed

lemma seven_nonzero: "(7 :: fp) \<noteq> 0"
proof -
  have "(of_int 7 :: fp) \<noteq> of_int 0" by (simp only: of_int_fp_eq) simp
  then show ?thesis by simp
qed

lemma groot_nonzero: "groot m \<noteq> 0"
  by (simp add: groot_def seven_nonzero)

lemma gomega_nonzero: "m \<le> 32 \<Longrightarrow> gomega m \<noteq> 0"
  using gval_nonzero gomega_gval groot_nonzero by metis

lemma fp_two: "(1 :: fp) \<noteq> - 1"
proof
  assume "(1 :: fp) = - 1"
  then have "(of_int 1 :: fp) = of_int (- 1)" by simp
  then show False by (simp only: of_int_fp_eq) simp
qed

lemma fp_root_order:
  fixes om :: fp
  assumes "om ^ 2 ^ (m - 1) = - 1" and "0 < d" and "d < 2 ^ m"
  shows "om ^ d \<noteq> 1"
proof
  assume 1: "om ^ d = 1"
  obtain t u where tu: "d = 2 ^ t * u" "odd u" using two_part [OF assms(2)] .
  have "(2 :: nat) ^ t \<le> d" using tu by (cases u) auto
  then have "(2 :: nat) ^ t < 2 ^ m" using assms(3) by linarith
  then have "t < m" by simp
  then have "d * 2 ^ (m - 1 - t) = 2 ^ (m - 1) * u"
    by (simp add: tu mult.assoc mult.commute mult.left_commute flip: power_add)
  then have "(om ^ d) ^ 2 ^ (m - 1 - t) = (om ^ 2 ^ (m - 1)) ^ u" by (simp only: power_mult [symmetric])
  then have "1 = (- 1 :: fp) ^ u" by (simp only: 1 assms(1) power_one)
  then have "1 = (- 1 :: fp)" using tu(2) by simp
  then show False using fp_two by blast
qed

lemma root_sum:
  fixes om :: fp
  assumes "0 < m \<Longrightarrow> om ^ 2 ^ (m - 1) = - 1" and "om \<noteq> 0" and "i < 2 ^ m" and "j < 2 ^ m"
  shows "(\<Sum>k<2 ^ m. om ^ (i * k) * inverse om ^ (k * j)) = (if i = j then of_nat (2 ^ m) else 0)"
proof (cases "i = j")
  case True
  have "om ^ (i * k) * inverse om ^ (k * j) = 1" for k
    using assms(2) True by (simp add: mult.commute power_inverse)
  then show ?thesis using True by simp
next
  case False
  then have m: "0 < m" using assms(3,4) by (cases m) auto
  let ?r = "om ^ i * inverse om ^ j"
  have "?r \<noteq> 1"
  proof
    assume "?r = 1"
    then have e: "om ^ i = om ^ j" using assms(2) by (simp add: divide_simps flip: divide_inverse)
    have "om ^ (max i j - min i j) = 1"
      using e assms(2) by (cases "i \<le> j") (simp_all add: power_diff max_def min_def)
    moreover have "0 < max i j - min i j" "max i j - min i j < 2 ^ m" using False assms(3,4) by auto
    ultimately show False using fp_root_order assms(1) m by blast
  qed
  moreover have "om ^ 2 ^ m = 1"
  proof -
    have "(2 :: nat) ^ m = 2 ^ (m - 1) * 2" using m by (cases m) simp_all
    then show ?thesis using assms(1) m by (simp only: power_mult) simp
  qed
  then have "om ^ (a * 2 ^ m) = 1" for a by (simp only: mult.commute [of a] power_mult power_one)
  then have "?r ^ 2 ^ m = 1" by (simp add: power_mult_distrib power_inverse flip: power_mult)
  ultimately have "(\<Sum>k<2 ^ m. ?r ^ k) = 0" using one_diff_power_eq [of ?r "2 ^ m"] by simp
  moreover have "om ^ (i * k) * inverse om ^ (k * j) = ?r ^ k" for k
    by (simp add: power_mult_distrib mult.commute flip: power_mult)
  ultimately show ?thesis using False by simp
qed

lemma dft_inverse:
  fixes om :: fp
  assumes "0 < m \<Longrightarrow> om ^ 2 ^ (m - 1) = - 1" and "om \<noteq> 0" and "j < 2 ^ m"
  shows "dft (inverse om) (2 ^ m) (dft om (2 ^ m) x) j = of_nat (2 ^ m) * x j"
proof -
  have "dft (inverse om) (2 ^ m) (dft om (2 ^ m) x) j
      = (\<Sum>k<2 ^ m. \<Sum>i<2 ^ m. x i * (om ^ (i * k) * inverse om ^ (k * j)))"
    by (simp add: dft_def sum_distrib_right mult.assoc)
  also have "\<dots> = (\<Sum>i<2 ^ m. x i * (\<Sum>k<2 ^ m. om ^ (i * k) * inverse om ^ (k * j)))"
    by (subst sum.swap) (simp add: sum_distrib_left)
  also have "\<dots> = (\<Sum>i<2 ^ m. if i = j then x i * of_nat (2 ^ m) else 0)"
    using root_sum [OF assms(1,2) _ assms(3)] by (intro sum.cong) auto
  also have "\<dots> = of_nat (2 ^ m) * x j" using assms(3) by (simp add: mult.commute)
  finally show ?thesis .
qed

section \<open>Radix-2: transform, inverse, round trip\<close>

lemma bit_reverse_vals:
  assumes "length xs = 2 ^ m" and "canon xs"
  shows "canon (bit_reverse xs)" "length (bit_reverse xs) = 2 ^ m"
    "partial_dft om m 0 (vals xs) (vals (bit_reverse xs))"
proof -
  have rev: "bit_reverse xs = map (\<lambda>p. xs ! bit_rev m p) [0..<2 ^ m]" by (rule bit_reverse_nth [OF assms(1)])
  show "canon (bit_reverse xs)" "length (bit_reverse xs) = 2 ^ m"
    using canon_nth [OF assms(2)] bit_rev_less assms(1) by (simp_all add: rev list_all_iff)
  show "partial_dft om m 0 (vals xs) (vals (bit_reverse xs))"
    by (rule partial_dft_cong [OF partial_dft_0]) (simp add: rev vals_def)
qed

lemma root_of_inverse:
  assumes "0 < m \<Longrightarrow> (om :: fp) ^ 2 ^ (m - 1) = - 1"
  shows "0 < m \<Longrightarrow> inverse om ^ 2 ^ (m - 1) = - 1"
  using assms by (simp add: power_inverse)

definition ntt_of :: "nat \<Rightarrow> GoldilocksField list \<Rightarrow> GoldilocksField list \<Rightarrow> bool" where
  "ntt_of m xs ys \<longleftrightarrow> canon ys \<and> length ys = 2 ^ m \<and> (\<forall>k<2 ^ m. vals ys k = dft (groot m) (2 ^ m) (vals xs) k)"

definition intt_of :: "nat \<Rightarrow> GoldilocksField list \<Rightarrow> GoldilocksField list \<Rightarrow> bool" where
  "intt_of m xs ys \<longleftrightarrow> canon ys \<and> length ys = 2 ^ m
    \<and> (\<forall>k<2 ^ m. of_nat (2 ^ m) * vals ys k = dft (inverse (groot m)) (2 ^ m) (vals xs) k)"

lemma forward_ntt:
  assumes "length xs = 2 ^ m" and "m \<le> 32" and "canon xs"
  shows "\<exists>ys. forward_ntt_radix2 xs = Inr ys \<and> ntt_of m xs ys"
proof (cases "m = 0")
  case True
  then show ?thesis using assms by (simp add: forward_ntt_radix2_def ntt_of_def dft_def)
next
  case False
  then have "1 < (2 :: nat) ^ m" by (intro one_less_power) auto
  then have "forward_ntt_radix2 xs = Inr (ct_loop (gomega m) 1 (bit_reverse xs))"
    by (simp add: forward_ntt_radix2_def assms(1,2) get_root_exp Let_def)
  moreover have "ntt_of m xs (ct_loop (gomega m) 1 (bit_reverse xs))"
    using ct_loop_dft [OF _ assms(2) bit_reverse_vals [OF assms(1,3)], of "gomega m"] groot_half [OF _ assms(2)] gomega_gval [OF assms(2)]
    by (simp add: ntt_of_def)
  ultimately show ?thesis by blast
qed

lemma of_nat_exp_nonzero: "m \<le> 32 \<Longrightarrow> (of_nat (2 ^ m) :: fp) \<noteq> 0"
proof -
  assume "m \<le> 32"
  from exp_le_32 [OF this] have "int (2 ^ m) \<le> 4294967296" by (simp del: of_nat_power)
  then have "int (2 ^ m) mod GP = int (2 ^ m)" by (intro mod_pos_pos_trivial) linarith+
  then have "int (2 ^ m) mod GP \<noteq> 0" by simp
  then show ?thesis by (metis Rep_fp_of_nat zero_fp.rep_eq)
qed

lemma from_u64_n:
  assumes "m \<le> 32"
  shows "gval (from_u64 (word_of_nat (2 ^ m))) = of_nat (2 ^ m)" "from_u64 (word_of_nat (2 ^ m)) \<noteq> 0"
proof -
  have "uint (word_of_nat (2 ^ m) :: u64) = int (2 ^ m)" using unat_exp [OF assms] by (metis uint_nat)
  then have "gval (word_of_nat (2 ^ m)) = of_nat (2 ^ m)" by (simp only: gval_def of_int_of_nat_eq)
  then show v: "gval (from_u64 (word_of_nat (2 ^ m))) = of_nat (2 ^ m)" by (simp only: from_u64_gval)
  show "from_u64 (word_of_nat (2 ^ m)) \<noteq> 0"
    using v of_nat_exp_nonzero [OF assms] by (intro gval_nonzero) metis
qed

lemma inverse_ntt:
  assumes "length xs = 2 ^ m" and "m \<le> 32" and "canon xs"
  shows "\<exists>ys. inverse_ntt_radix2 xs = Inr ys \<and> intt_of m xs ys"
proof (cases "m = 0")
  case True
  then show ?thesis using assms by (simp add: inverse_ntt_radix2_def intt_of_def dft_def)
next
  case False
  let ?oi = "ginv (gomega m)" and ?ni = "ginv (from_u64 (word_of_nat (2 ^ m)))"
  let ?es = "ct_loop ?oi 1 (bit_reverse xs)"
  have oi: "gval ?oi = inverse (groot m)" using gomega_gval [OF assms(2)] by (simp add: gf_simps)
  have ni: "gval ?ni = inverse (of_nat (2 ^ m))" by (simp only: ginv_gval from_u64_n [OF assms(2)])
  have "1 < (2 :: nat) ^ m" using False by (intro one_less_power) auto
  then have "\<not> (2 :: nat) ^ m \<le> 1" by simp
  then have run: "inverse_ntt_radix2 xs = Inr (map (\<lambda>x. gmul x ?ni) ?es)"
    by (simp only: inverse_ntt_radix2_def assms(1) get_root_exp [OF assms(2)] invert_ok [OF gomega_nonzero [OF assms(2)]]
      invert_ok [OF from_u64_n(2) [OF assms(2)]] and_then_Inr Let_def is_power_of_two_exp vector_ops_elementwise if_True if_False simp_thms)
  have es: "canon ?es" "length ?es = 2 ^ m" "\<And>k. k < 2 ^ m \<Longrightarrow> vals ?es k = dft (inverse (groot m)) (2 ^ m) (vals xs) k"
    using ct_loop_dft [OF _ assms(2) bit_reverse_vals [OF assms(1,3)], of ?oi] root_of_inverse [OF groot_half [OF _ assms(2)]] oi
    by simp_all
  have "intt_of m xs (map (\<lambda>x. gmul x ?ni) ?es)"
    using es ni of_nat_exp_nonzero [OF assms(2)] by (simp add: intt_of_def vals_def gf_simps list_all_iff field_simps)
  then show ?thesis using run by blast
qed

lemma dft_cong: "(\<And>j. j < n \<Longrightarrow> x j = y j) \<Longrightarrow> dft om n x k = dft om n y k"
  by (simp add: dft_def)

lemma intt_of_ntt_of:
  assumes "m \<le> 32" and "length xs = 2 ^ m" and "canon xs"
  shows "ntt_of m xs ys \<Longrightarrow> intt_of m ys zs \<Longrightarrow> zs = xs" "intt_of m xs ys \<Longrightarrow> ntt_of m ys zs \<Longrightarrow> zs = xs"
proof -
  note nz = of_nat_exp_nonzero [OF assms(1)]
  note root = groot_half [OF _ assms(1)]
  show "zs = xs" if "ntt_of m xs ys" "intt_of m ys zs"
  proof (rule vals_inject)
    fix p assume "p < length xs"
    then have p: "p < 2 ^ m" using assms(2) by simp
    have "of_nat (2 ^ m) * vals zs p = dft (inverse (groot m)) (2 ^ m) (dft (groot m) (2 ^ m) (vals xs)) p"
      using that p dft_cong [of "2 ^ m" "vals ys"] by (simp add: intt_of_def ntt_of_def)
    also have "\<dots> = of_nat (2 ^ m) * vals xs p" using root groot_nonzero p by (rule dft_inverse)
    finally show "vals zs p = vals xs p" using nz by (simp only: mult_cancel_left simp_thms)
  qed (use that assms in \<open>simp_all add: intt_of_def\<close>)
  show "zs = xs" if "intt_of m xs ys" "ntt_of m ys zs"
  proof (rule vals_inject)
    fix p assume "p < length xs"
    then have p: "p < 2 ^ m" using assms(2) by simp
    have "of_nat (2 ^ m) * vals zs p = dft (groot m) (2 ^ m) (\<lambda>j. of_nat (2 ^ m) * vals ys j) p"
      using that p by (simp add: ntt_of_def dft_def sum_distrib_left mult.assoc)
    also have "\<dots> = dft (inverse (inverse (groot m))) (2 ^ m) (dft (inverse (groot m)) (2 ^ m) (vals xs)) p"
      using that(1) dft_cong [of "2 ^ m" "\<lambda>j. of_nat (2 ^ m) * vals ys j"] by (simp add: intt_of_def)
    also have "\<dots> = of_nat (2 ^ m) * vals xs p" 
      using root_of_inverse [OF root] _ p by (rule dft_inverse) (simp_all add: groot_nonzero)
    finally show "vals zs p = vals xs p" using nz by (simp only: mult_cancel_left simp_thms)
  qed (use that assms in \<open>simp_all add: ntt_of_def\<close>)
qed

section \<open>Transposition\<close>

lemma foldl_update_const:
  assumes "\<And>x. x \<in> set L \<Longrightarrow> f (idx x) = v x" and "p < length d"
  shows "foldl (\<lambda>d x. d[idx x := v x]) d L ! p = (if p \<in> idx ` set L then f p else d ! p)"
  using assms
proof (induction L arbitrary: d)
  case (Cons x L)
  then show ?case using Cons.IH [of "d[idx x := v x]"] by (auto simp: nth_list_update)
qed simp

lemma foldl_update_length: "length (foldl (\<lambda>d x. d[idx x := v x d]) d L) = length d"
  by (induction L arbitrary: d) simp_all

lemma step_by_cover: "r < n \<Longrightarrow> \<exists>x\<in>set (step_by n 64). x \<le> r \<and> r < x + 64"
  by (rule bexI [of _ "64 * (r div 64)"]) (auto simp: step_by_def intro!: imageI)

lemma transpose_order_iff: "(r, c) \<in> set (transpose_order n1 n2) \<longleftrightarrow> r < n1 \<and> c < n2"
  using step_by_cover [of r n1] step_by_cover [of c n2] by (auto simp: transpose_order_def image_iff)

lemma matrix_transpose_ok:
  assumes "length src = n1 * n2" and "length dst = n1 * n2"
  shows "matrix_transpose src dst n1 n2 = Inr (map (\<lambda>p. src ! (p mod n1 * n2 + p div n1)) [0..<n1 * n2])"
proof -
  let ?f = "\<lambda>p. src ! (p mod n1 * n2 + p div n1)"
  let ?d = "foldl (\<lambda>d x. d[(\<lambda>(r, c). c * n1 + r) x := (\<lambda>(r, c). src ! (r * n2 + c)) x]) dst (transpose_order n1 n2)"
  have "?d = map ?f [0..<n1 * n2]"
  proof (rule nth_equalityI)
    fix p assume "p < length ?d"
    then have p: "p < n1 * n2" using assms(2) by (simp add: foldl_update_length)
    have "p mod n1 < n1" "p div n1 < n2" using p by (auto simp: less_mult_imp_div_less mult.commute intro: mod_less_divisor)
      (metis gr0I mod_less_divisor mult_0 not_less0)
    then have "(p mod n1, p div n1) \<in> set (transpose_order n1 n2)" by (simp add: transpose_order_iff)
    then have "p \<in> (\<lambda>(r, c). c * n1 + r) ` set (transpose_order n1 n2)" by force
    moreover have "?d ! p = (if p \<in> (\<lambda>(r, c). c * n1 + r) ` set (transpose_order n1 n2) then ?f p else dst ! p)"
      using p assms(2) by (intro foldl_update_const) (auto simp: transpose_order_iff)
    ultimately show "?d ! p = map ?f [0..<n1 * n2] ! p" using p by simp
  qed (simp add: foldl_update_length assms(2))
  then show ?thesis using assms by (simp add: matrix_transpose_def case_prod_beta')
qed

lemma row_index: "c < n2 \<Longrightarrow> r < n1 \<Longrightarrow> c * n1 + r < n1 * (n2 :: nat)"
proof -
  assume "c < n2" "r < n1"
  then have "c * n1 + r < Suc c * n1" by simp
  also have "\<dots> \<le> n2 * n1" using \<open>c < n2\<close> by (intro mult_le_mono1) simp
  finally show ?thesis by (simp add: mult.commute)
qed

lemma transpose_nth:
  "c < n2 \<Longrightarrow> r < n1 \<Longrightarrow> map (\<lambda>p. src ! (p mod n1 * n2 + p div n1)) [0..<n1 * n2] ! (c * n1 + r) = src ! (r * n2 + c)"
  using row_index [of c n2 r n1] by simp

section \<open>Rows and twiddles\<close>

lemma drop_replaced:
  "a + w \<le> b \<Longrightarrow> a + w \<le> length xs \<Longrightarrow> length y = w \<Longrightarrow> drop b (take a xs @ y @ drop (a + w) xs) = drop b xs"
  by simp

lemma each_row_ok:
  assumes "\<And>k. k0 \<le> k \<Longrightarrow> k < h \<Longrightarrow> f (take w (drop (k * w) xs)) = Inr (ys k) \<and> length (ys k) = w" and "length xs = h * w" and "k0 \<le> h"
  shows "\<exists>zs. each_row f w [k0..<h] xs = Inr zs \<and> length zs = h * w
    \<and> (\<forall>p<h * w. zs ! p = (if k0 * w \<le> p then ys (p div w) ! (p mod w) else xs ! p))"
  using assms
proof (induction "h - k0" arbitrary: k0 xs)
  case 0
  then show ?case by simp
next
  case (Suc d)
  then have k: "k0 < h" by simp
  let ?xs = "take (k0 * w) xs @ ys k0 @ drop ((k0 + 1) * w) xs"
  have fits: "Suc k0 * w \<le> h * w" using k by (intro mult_le_mono1) simp
  have y: "f (take w (drop (k0 * w) xs)) = Inr (ys k0)" "length (ys k0) = w" using Suc.prems(1) [OF _ k] by simp_all
  have len: "length ?xs = h * w" using fits Suc.prems(2) y(2) by simp
  have later: "take w (drop (k * w) ?xs) = take w (drop (k * w) xs)" if "k0 < k" "k < h" for k
  proof -
    have "Suc k0 * w \<le> k * w" using that by (intro mult_le_mono1) simp
    then show ?thesis using fits Suc.prems(2) y(2) drop_replaced [of "k0 * w" w "k * w" xs "ys k0"] by (simp add: add.commute)
  qed
  have rng: "get_range (k0 * w) (w + k0 * w) xs = Inr (take w (drop (k0 * w) xs))"
    using fits Suc.prems(2) by (simp add: get_range_def)
  have step: "each_row f w [k0..<h] xs = each_row f w [Suc k0..<h] ?xs"
    using k y(1) by (simp add: upt_conv_Cons rng)
  have nth: "?xs ! p = (if k0 * w \<le> p then ys (p div w) ! (p mod w) else xs ! p)" if "p < Suc k0 * w" for p
  proof (cases "k0 * w \<le> p")
    case True
    then have "p div w = k0" using that by (intro div_nat_eqI) (simp_all add: mult.commute)
    moreover from this have "p mod w = p - k0 * w" by (metis minus_div_mult_eq_mod)
    moreover have "min (h * w) (k0 * w) = k0 * w" using fits by simp
    ultimately show ?thesis using True that y(2) fits Suc.prems(2) by (simp add: nth_append) linarith
  qed (use fits Suc.prems(2) in \<open>simp add: nth_append\<close>)
  have "\<exists>zs. each_row f w [Suc k0..<h] ?xs = Inr zs \<and> length zs = h * w
    \<and> (\<forall>p<h * w. zs ! p = (if Suc k0 * w \<le> p then ys (p div w) ! (p mod w) else ?xs ! p))"
    using Suc.hyps(2) k len by (intro Suc.hyps(1)) (use later Suc.prems(1) in auto)
  then obtain zs where "each_row f w [Suc k0..<h] ?xs = Inr zs" "length zs = h * w"
    "\<And>p. p < h * w \<Longrightarrow> zs ! p = (if Suc k0 * w \<le> p then ys (p div w) ! (p mod w) else ?xs ! p)" by blast
  then show ?case unfolding step using nth by (intro exI [of _ zs]) (auto simp: not_le)
qed

lemma foldl_update_map:
  "p \<notin> idx ` set L \<Longrightarrow> foldl (\<lambda>d x. d[idx x := g x (d ! idx x)]) d L ! p = d ! p"
  "distinct (map idx L) \<Longrightarrow> x \<in> set L \<Longrightarrow> idx x < length d
    \<Longrightarrow> foldl (\<lambda>d x. d[idx x := g x (d ! idx x)]) d L ! idx x = g x (d ! idx x)"
proof (induction L arbitrary: d p x)
  case (Cons y L)
  {
    case 1
    then show ?case by (simp add: Cons.IH(1))
  next
    case 2
    show ?case
    proof (cases "x = y")
      case True
      moreover have "idx y \<notin> idx ` set L" using 2 by auto
      ultimately show ?thesis using 2 by (simp add: Cons.IH(1))
    next
      case False
      then have "x \<in> set L" using 2 by simp
      then have "idx x \<in> idx ` set L" by simp
      then have "idx x \<noteq> idx y" using 2 by auto
      then show ?thesis using 2 \<open>x \<in> set L\<close> by (simp add: Cons.IH(2))
    qed
  }
qed simp_all

lemma twiddle_all_nth:
  assumes "length xs = n1 * n2" and "c < n2" and "k < n1"
  shows "twiddle_all om n1 n2 xs ! (c * n1 + k) = gmul (xs ! (c * n1 + k)) (gexp om (word_of_nat (k * c)))"
proof -
  let ?idx = "\<lambda>(c, k). c * n1 + k"
  have inj: "inj_on ?idx (set (List.product [0..<n2] [0..<n1]))"
  proof (rule inj_onI, clarsimp)
    fix a b a' b' :: nat
    assume "b < n1" "b' < n1" "a * n1 + b = a' * n1 + b'"
    then show "a = a' \<and> b = b'"
      by (metis add.commute div_mult_self3 div_less mod_mult_self3 mod_less add_cancel_right_right not_less_zero)
  qed
  have "foldl (\<lambda>d x. d[?idx x := (\<lambda>(c, k) v. gmul v (gexp om (word_of_nat (k * c)))) x (d ! ?idx x)]) xs
      (List.product [0..<n2] [0..<n1]) ! ?idx (c, k)
    = (\<lambda>(c, k) v. gmul v (gexp om (word_of_nat (k * c)))) (c, k) (xs ! ?idx (c, k))"
    using assms inj row_index [OF assms(2,3)]
    by (intro foldl_update_map(2)) (auto simp: distinct_map distinct_product)
  then show ?thesis by (simp add: twiddle_all_def case_prod_beta')
qed

lemma twiddle_all_length [simp]: "length (twiddle_all om n1 n2 xs) = length xs"
  using foldl_update_length [of "\<lambda>(c, k). c * n1 + k" "\<lambda>(c, k) es. gmul (es ! (c * n1 + k)) (gexp om (word_of_nat (k * c)))" xs]
  by (simp add: twiddle_all_def case_prod_beta')

lemma canon_by_index:
  assumes "length xs = n1 * n2" and "\<And>c k. c < n2 \<Longrightarrow> k < n1 \<Longrightarrow> canonical_gf (xs ! (c * n1 + k))"
  shows "canon xs"
  unfolding list_all_length
proof (intro allI impI)
  fix p assume "p < length xs"
  then have "p div n1 < n2" "p mod n1 < n1"
    using assms(1) by (auto simp: less_mult_imp_div_less mult.commute intro!: mod_less_divisor gr0I)
  then show "canonical_gf (xs ! p)" using assms(2) [of "p div n1" "p mod n1"] by simp
qed

section \<open>Four steps are one transform\<close>

lemma sum_rows: "(\<Sum>j<a * b. f j) = (\<Sum>r<a. \<Sum>c<b. f (r * b + c) :: 'a :: comm_monoid_add)" for a b :: nat
proof (induction a)
  case (Suc a)
  have "(\<Sum>j<Suc a * b. f j) = (\<Sum>j<a * b. f j) + (\<Sum>j=a * b..<a * b + b. f j)"
    by (simp add: lessThan_atLeast0 sum.atLeastLessThan_concat add.commute)
  also have "(\<Sum>j=a * b..<a * b + b. f j) = (\<Sum>c<b. f (a * b + c))"
    using sum.shift_bounds_nat_ivl [of f 0 "a * b" b] by (simp add: lessThan_atLeast0 add.commute)
  finally show ?case using Suc by simp
qed simp

lemma four_step_sum:
  fixes om :: fp
  assumes "om ^ (a * b) = 1"
  shows "(\<Sum>c<b. (\<Sum>r<a. x (r * b + c) * (om ^ b) ^ (r * k1)) * om ^ (k1 * c) * (om ^ a) ^ (c * k2))
    = dft om (a * b) x (k2 * a + k1)"
proof -
  have "om ^ ((r * b + c) * (k2 * a + k1)) = (om ^ b) ^ (r * k1) * om ^ (k1 * c) * (om ^ a) ^ (c * k2)" for r c
  proof -
    have "(r * b + c) * (k2 * a + k1) = a * b * (r * k2) + (b * (r * k1) + k1 * c + a * (c * k2))" by (simp add: algebra_simps)
    moreover have "om ^ (a * b * (r * k2)) = 1" unfolding power_mult [of om "a * b"] assms by (rule power_one)
    ultimately show ?thesis by (simp only: power_add mult_1 power_mult [symmetric])
  qed
  then have "dft om (a * b) x (k2 * a + k1)
      = (\<Sum>r<a. \<Sum>c<b. x (r * b + c) * ((om ^ b) ^ (r * k1) * om ^ (k1 * c) * (om ^ a) ^ (c * k2)))"
    by (simp only: dft_def sum_rows)
  also have "\<dots> = (\<Sum>c<b. \<Sum>r<a. x (r * b + c) * ((om ^ b) ^ (r * k1) * om ^ (k1 * c) * (om ^ a) ^ (c * k2)))"
    by (rule sum.swap)
  finally show ?thesis by (simp add: sum_distrib_right mult.assoc)
qed

lemma groot_pow: "a + b \<le> 32 \<Longrightarrow> groot (a + b) ^ 2 ^ b = groot a"
proof -
  assume "a + b \<le> 32"
  then have "GN div 2 ^ (a + b) * 2 ^ b = GN div 2 ^ a"
    by (simp only: GN_div) (simp add: mult.assoc mult.commute mult.left_commute flip: power_add)
  then show ?thesis unfolding groot_def by (simp only: power_mult [symmetric])
qed

lemma groot_full: "m \<le> 32 \<Longrightarrow> groot m ^ 2 ^ m = 1"
proof -
  have "groot 0 = 1" unfolding groot_def power_0 div_by_1 using seven_nonzero by (rule fp_fermat)
  then show "m \<le> 32 \<Longrightarrow> ?thesis" using groot_pow [of 0 m] by simp
qed

text \<open>The four-step scheme with a row transform \<open>F\<close>, for the forward and the inverse transform.\<close>

lemma rows_transform:
  assumes ok: "\<And>ys. length ys = 2 ^ w \<Longrightarrow> canon ys \<Longrightarrow> \<exists>zs. F ys = Inr zs \<and> canon zs \<and> length zs = 2 ^ w
      \<and> (\<forall>k<2 ^ w. s * vals zs k = dft om (2 ^ w) (vals ys) k)"
    and xs: "length xs = h * 2 ^ w" "canon xs"
  shows "\<exists>zs. each_row F (2 ^ w) [0..<h] xs = Inr zs \<and> length zs = h * 2 ^ w \<and> canon zs
    \<and> (\<forall>r<h. \<forall>k<2 ^ w. s * vals zs (r * 2 ^ w + k) = dft om (2 ^ w) (\<lambda>j. vals xs (r * 2 ^ w + j)) k)"
proof -
  let ?w = "2 ^ w :: nat" and ?row = "\<lambda>r. take (2 ^ w) (drop (r * 2 ^ w) xs)"
  have row: "length (?row r) = ?w" "canon (?row r)" "\<And>j. j < ?w \<Longrightarrow> vals (?row r) j = vals xs (r * ?w + j)" if r: "r < h" for r
  proof -
    have "Suc r * ?w \<le> h * ?w" using r by (intro mult_le_mono1) simp
    then show "length (?row r) = ?w" using xs(1) by simp
    show "canon (?row r)" using xs(2) by (auto simp: list_all_iff dest: in_set_takeD in_set_dropD)
    show "vals (?row r) j = vals xs (r * ?w + j)" if "j < ?w" for j
    proof -
      have "r * ?w \<le> h * ?w" using r by (intro mult_le_mono1) simp
      then have "r * ?w \<le> length xs" using xs(1) by simp
      then show ?thesis using that by (simp add: vals_def)
    qed
  qed
  have "\<forall>r. \<exists>Z. r < h \<longrightarrow> F (?row r) = Inr Z \<and> canon Z \<and> length Z = ?w \<and> (\<forall>k<?w. s * vals Z k = dft om ?w (vals (?row r)) k)"
    using ok row(1,2) by blast
  from choice [OF this] obtain Z where Z: "\<And>r. r < h \<Longrightarrow> F (?row r) = Inr (Z r) \<and> canon (Z r) \<and> length (Z r) = ?w
      \<and> (\<forall>k<?w. s * vals (Z r) k = dft om ?w (vals (?row r)) k)"
    by blast
  obtain zs where zs: "each_row F ?w [0..<h] xs = Inr zs" "length zs = h * ?w"
      "\<And>p. p < h * ?w \<Longrightarrow> zs ! p = Z (p div ?w) ! (p mod ?w)"
    using each_row_ok [of 0 h F ?w xs Z] Z xs(1) by auto
  have nth: "zs ! (r * ?w + k) = Z r ! k" if "r < h" "k < ?w" for r k
    using zs(3) [of "r * ?w + k"] row_index [OF that] that by (simp add: mult.commute)
  moreover have "canon zs"
    using Z nth by (intro canon_by_index [of _ ?w h]) (auto simp: zs(2) mult.commute canon_nth)
  moreover have "dft om ?w (vals (?row r)) k = dft om ?w (\<lambda>j. vals xs (r * ?w + j)) k" if "r < h" for r k
    using row(3) [OF that] by (rule dft_cong)
  ultimately show ?thesis using Z zs(1,2) by (intro exI [of _ zs]) (simp add: vals_def)
qed

lemma vals_transpose:
  assumes "c < n2" and "r < n1"
  shows "vals (map (\<lambda>p. src ! (p mod n1 * n2 + p div n1)) [0..<n1 * n2]) (c * n1 + r) = vals src (r * n2 + c)"
  using assms by (simp add: vals_def transpose_nth)

lemma canon_transpose:
  assumes "canon src" and "length src = n1 * n2"
  shows "canon (map (\<lambda>p. src ! (p mod n1 * n2 + p div n1)) [0..<n1 * n2])"
proof (rule canon_by_index [of _ n1 n2])
  fix c k assume "c < n2" "k < n1"
  then show "canonical_gf (map (\<lambda>p. src ! (p mod n1 * n2 + p div n1)) [0..<n1 * n2] ! (c * n1 + k))"
    using assms row_index [of k n1 c n2] by (simp only: transpose_nth) (simp add: canon_nth mult.commute)
qed simp

lemma vals_twiddle:
  assumes "length xs = n1 * n2" and "c < n2" and "k < n1" and "n1 * n2 \<le> 2 ^ 32"
  shows "vals (twiddle_all om n1 n2 xs) (c * n1 + k) = vals xs (c * n1 + k) * gval om ^ (k * c)"
proof -
  have "k * c \<le> n1 * n2" using assms by (intro mult_le_mono) simp_all
  then have "unat (word_of_nat (k * c) :: u64) = k * c" using assms(4) by (intro unat_u64_of_nat) simp
  then show ?thesis by (simp only: vals_def twiddle_all_nth [OF assms(1-3)] gf_simps)
qed

lemma canon_twiddle: "length xs = n1 * n2 \<Longrightarrow> canon (twiddle_all om n1 n2 xs)"
  by (rule canon_by_index [of _ n1 n2]) (simp_all add: twiddle_all_nth gf_simps)

lemma four_step_ntt:
  assumes xs: "length xs = 2 ^ m" "canon xs" and m: "10 < m" "m \<le> 32"
  shows "\<exists>ys. cache_oblivious_4step_ntt xs = (Inr ys :: ('e, GoldilocksField list) outcome) \<and> ntt_of m xs ys"
proof -
  define m1 m2 where "m1 = m div 2" and "m2 = m - m1"
  have m12: "m = m1 + m2" "m1 \<le> 32" "m2 \<le> 32" using m by (auto simp: m1_def m2_def)
  let ?a = "2 ^ m1 :: nat" and ?b = "2 ^ m2 :: nat" and ?om = "groot m" and ?F = "forward_ntt_radix2 :: _ \<Rightarrow> ('e, _) outcome"
  have n: "(2 :: nat) ^ m = ?a * ?b" by (simp add: m12 power_add)
  have le: "?a * ?b \<le> 2 ^ 32" using exp_le_32 [OF m(2)] by (simp only: n)
  have "(2 :: nat) ^ 10 < 2 ^ m" using m(1) by (intro power_strict_increasing) simp_all
  then have big: "\<not> 2 ^ m \<le> (1024 :: nat)" by simp
  have om1: "?om ^ ?b = groot m1" using groot_pow [of m1 m2] m m12 by simp
  have om2: "?om ^ ?a = groot m2" using groot_pow [of m2 m1] m m12 by (simp add: add.commute)
  have fwd: "\<exists>zs. ?F ys = Inr zs \<and> canon zs \<and> length zs = 2 ^ w \<and> (\<forall>k<2 ^ w. 1 * vals zs k = dft (groot w) (2 ^ w) (vals ys) k)"
    if "w \<le> 32" "length ys = 2 ^ w" "canon ys" for w ys
    using forward_ntt [OF that(2,1,3)] by (auto simp: ntt_of_def)
  define t1 where "t1 = map (\<lambda>p. xs ! (p mod ?a * ?b + p div ?a)) [0..<?a * ?b]"
  have t1: "length t1 = ?b * ?a" "canon t1" "\<And>c r. c < ?b \<Longrightarrow> r < ?a \<Longrightarrow> vals t1 (c * ?a + r) = vals xs (r * ?b + c)"
    using xs n by (simp_all add: t1_def vals_transpose canon_transpose)
  obtain t2 where t2: "each_row ?F ?a [0..<?b] t1 = Inr t2" "length t2 = ?b * ?a" "canon t2"
      "\<And>c k1. c < ?b \<Longrightarrow> k1 < ?a \<Longrightarrow> vals t2 (c * ?a + k1) = dft (groot m1) ?a (\<lambda>r. vals t1 (c * ?a + r)) k1"
    using rows_transform [OF fwd [OF m12(2)] t1(1,2)] by auto
  define t3 where "t3 = twiddle_all (gomega m) ?a ?b t2"
  have t3: "length t3 = ?b * ?a" "canon t3" "\<And>c k1. c < ?b \<Longrightarrow> k1 < ?a \<Longrightarrow> vals t3 (c * ?a + k1) = vals t2 (c * ?a + k1) * ?om ^ (k1 * c)"
    using t2(2) le gomega_gval [OF m(2)] by (simp_all add: t3_def vals_twiddle canon_twiddle mult.commute)
  define t4 where "t4 = map (\<lambda>p. t3 ! (p mod ?b * ?a + p div ?b)) [0..<?b * ?a]"
  have t4: "length t4 = ?a * ?b" "canon t4" "\<And>c k1. c < ?b \<Longrightarrow> k1 < ?a \<Longrightarrow> vals t4 (k1 * ?b + c) = vals t3 (c * ?a + k1)"
    using t3 by (simp_all add: t4_def vals_transpose canon_transpose)
  obtain t5 where t5: "each_row ?F ?b [0..<?a] t4 = Inr t5" "length t5 = ?a * ?b" "canon t5"
      "\<And>k1 k2. k1 < ?a \<Longrightarrow> k2 < ?b \<Longrightarrow> vals t5 (k1 * ?b + k2) = dft (groot m2) ?b (\<lambda>c. vals t4 (k1 * ?b + c)) k2"
    using rows_transform [OF fwd [OF m12(3)] t4(1,2)] by auto
  define t6 where "t6 = map (\<lambda>p. t5 ! (p mod ?a * ?b + p div ?a)) [0..<?a * ?b]"
  have t6: "length t6 = ?a * ?b" "canon t6" "\<And>k1 k2. k1 < ?a \<Longrightarrow> k2 < ?b \<Longrightarrow> vals t6 (k2 * ?a + k1) = vals t5 (k1 * ?b + k2)"
    using t5 by (simp_all add: t6_def vals_transpose canon_transpose)
  have s1: "matrix_transpose xs (replicate (2 ^ m) 0) ?a ?b = Inr t1" and s4: "matrix_transpose t3 xs ?b ?a = Inr t4"
    and s6: "matrix_transpose t5 t3 ?a ?b = Inr t6"
    using xs(1) n t3(1) t5(2) by (simp_all add: matrix_transpose_ok t1_def t4_def t6_def mult.commute)
  have "cache_oblivious_4step_ntt xs = (Inr t6 :: ('e, _) outcome)"
    unfolding cache_oblivious_4step_ntt_def Let_def xs(1) usize_trailing_zeros_exp m1_def [symmetric] m2_def [symmetric] get_root_exp [OF m(2)]
      and_then_Inr s1 t2(1) t3_def [symmetric] s4 t5(1) s6 using big by (simp only: if_False)
  moreover have "vals t6 k = dft ?om (2 ^ m) (vals xs) k" if "k < 2 ^ m" for k
  proof -
    let ?k1 = "k mod ?a" and ?k2 = "k div ?a"
    have k: "?k1 < ?a" "?k2 < ?b" using that n by (simp_all add: less_mult_imp_div_less mult.commute)
    have "vals t6 (?k2 * ?a + ?k1) = dft (groot m2) ?b (\<lambda>c. dft (groot m1) ?a (\<lambda>r. vals xs (r * ?b + c)) ?k1 * ?om ^ (?k1 * c)) ?k2"
      unfolding t6(3) [OF k] t5(4) [OF k]
    proof (rule dft_cong)
      fix c assume c: "c < ?b"
      show "vals t4 (?k1 * ?b + c) = dft (groot m1) ?a (\<lambda>r. vals xs (r * ?b + c)) ?k1 * ?om ^ (?k1 * c)"
        unfolding t4(3) [OF c k(1)] t3(3) [OF c k(1)] t2(4) [OF c k(1)] using t1(3) [OF c] by (simp only: dft_cong [of ?a "\<lambda>r. vals t1 (c * ?a + r)" "\<lambda>r. vals xs (r * ?b + c)"])
    qed
    also have "\<dots> = dft ?om (?a * ?b) (vals xs) (?k2 * ?a + ?k1)"
      using four_step_sum [of ?om ?a ?b "vals xs" ?k1 ?k2] groot_full [OF m(2)] by (simp add: dft_def n om1 om2)
    finally show ?thesis by (simp only: n div_mult_mod_eq)
  qed
  ultimately show ?thesis using t6 n by (auto simp: ntt_of_def)
qed

lemma four_step_intt:
  assumes xs: "length xs = 2 ^ m" "canon xs" and m: "10 < m" "m \<le> 32"
  shows "\<exists>ys. cache_oblivious_4step_intt xs = (Inr ys :: ('e, GoldilocksField list) outcome) \<and> intt_of m xs ys"
proof -
  define m1 m2 where "m1 = m div 2" and "m2 = m - m1"
  have m12: "m = m1 + m2" "m1 \<le> 32" "m2 \<le> 32" using m by (auto simp: m1_def m2_def)
  let ?a = "2 ^ m1 :: nat" and ?b = "2 ^ m2 :: nat" and ?om = "inverse (groot m)" and ?F = "inverse_ntt_radix2 :: _ \<Rightarrow> ('e, _) outcome"
  have n: "(2 :: nat) ^ m = ?a * ?b" by (simp add: m12 power_add)
  have le: "?a * ?b \<le> 2 ^ 32" using exp_le_32 [OF m(2)] by (simp only: n)
  have "(2 :: nat) ^ 10 < 2 ^ m" using m(1) by (intro power_strict_increasing) simp_all
  then have big: "\<not> 2 ^ m \<le> (1024 :: nat)" by simp
  have om1: "?om ^ ?b = inverse (groot m1)" using groot_pow [of m1 m2] m m12 by (simp add: power_inverse)
  have om2: "?om ^ ?a = inverse (groot m2)" using groot_pow [of m2 m1] m m12 by (simp add: add.commute power_inverse)
  have full: "?om ^ (?b * ?a) = 1" using groot_full [OF m(2)] n by (simp add: power_inverse mult.commute)
  have inv: "\<exists>zs. ?F ys = Inr zs \<and> canon zs \<and> length zs = 2 ^ w \<and> (\<forall>k<2 ^ w. of_nat (2 ^ w) * vals zs k = dft (inverse (groot w)) (2 ^ w) (vals ys) k)"
    if "w \<le> 32" "length ys = 2 ^ w" "canon ys" for w ys
    using inverse_ntt [OF that(2,1,3)] by (auto simp: intt_of_def)
  define t1 where "t1 = map (\<lambda>p. xs ! (p mod ?b * ?a + p div ?b)) [0..<?b * ?a]"
  have t1: "length t1 = ?a * ?b" "canon t1" "\<And>k1 k2. k1 < ?a \<Longrightarrow> k2 < ?b \<Longrightarrow> vals t1 (k1 * ?b + k2) = vals xs (k2 * ?a + k1)"
    using xs n mult.commute [of ?a ?b] by (simp_all add: t1_def vals_transpose canon_transpose)
  obtain t2 where t2: "each_row ?F ?b [0..<?a] t1 = Inr t2" "length t2 = ?a * ?b" "canon t2"
      "\<And>k1 c. k1 < ?a \<Longrightarrow> c < ?b \<Longrightarrow> of_nat ?b * vals t2 (k1 * ?b + c) = dft (inverse (groot m2)) ?b (\<lambda>k2. vals t1 (k1 * ?b + k2)) c"
    using rows_transform [OF inv [OF m12(3)] t1(1,2)] by auto
  define t3 where "t3 = map (\<lambda>p. t2 ! (p mod ?a * ?b + p div ?a)) [0..<?a * ?b]"
  have t3: "length t3 = ?a * ?b" "canon t3" "\<And>c k1. c < ?b \<Longrightarrow> k1 < ?a \<Longrightarrow> vals t3 (c * ?a + k1) = vals t2 (k1 * ?b + c)"
    using t2 by (simp_all add: t3_def vals_transpose canon_transpose)
  define t4 where "t4 = twiddle_all (ginv (gomega m)) ?a ?b t3"
  have t4: "length t4 = ?b * ?a" "canon t4" "\<And>c k1. c < ?b \<Longrightarrow> k1 < ?a \<Longrightarrow> vals t4 (c * ?a + k1) = vals t3 (c * ?a + k1) * ?om ^ (k1 * c)"
    using t3(1) le gomega_gval [OF m(2)] by (simp_all add: t4_def vals_twiddle canon_twiddle gf_simps)
  obtain t5 where t5: "each_row ?F ?a [0..<?b] t4 = Inr t5" "length t5 = ?b * ?a" "canon t5"
      "\<And>c r. c < ?b \<Longrightarrow> r < ?a \<Longrightarrow> of_nat ?a * vals t5 (c * ?a + r) = dft (inverse (groot m1)) ?a (\<lambda>k1. vals t4 (c * ?a + k1)) r"
    using rows_transform [OF inv [OF m12(2)] t4(1,2)] by auto
  define t6 where "t6 = map (\<lambda>p. t5 ! (p mod ?b * ?a + p div ?b)) [0..<?b * ?a]"
  have t6: "length t6 = ?b * ?a" "canon t6" "\<And>c r. c < ?b \<Longrightarrow> r < ?a \<Longrightarrow> vals t6 (r * ?b + c) = vals t5 (c * ?a + r)"
    using t5 by (simp_all add: t6_def vals_transpose canon_transpose)
  have s1: "matrix_transpose xs (replicate (2 ^ m) 0) ?b ?a = Inr t1" and s3: "matrix_transpose t2 xs ?a ?b = Inr t3"
    and s6: "matrix_transpose t5 t2 ?b ?a = Inr t6"
    using xs(1) n t2(2) t5(2) by (simp_all add: matrix_transpose_ok t1_def t3_def t6_def mult.commute)
  have "cache_oblivious_4step_intt xs = (Inr t6 :: ('e, _) outcome)"
    unfolding cache_oblivious_4step_intt_def Let_def xs(1) usize_trailing_zeros_exp m1_def [symmetric] m2_def [symmetric] get_root_exp [OF m(2)]
      invert_ok [OF gomega_nonzero [OF m(2)]] and_then_Inr s1 t2(1) s3 t4_def [symmetric] t5(1) s6 using big by (simp only: if_False)
  moreover have "of_nat (2 ^ m) * vals t6 k = dft ?om (2 ^ m) (vals xs) k" if "k < 2 ^ m" for k
  proof -
    let ?c = "k mod ?b" and ?r = "k div ?b"
    have k: "?c < ?b" "?r < ?a" using that n by (simp_all add: less_mult_imp_div_less)
    have inner: "of_nat ?b * vals t4 (?c * ?a + k1) = dft (inverse (groot m2)) ?b (\<lambda>k2. vals xs (k2 * ?a + k1)) ?c * ?om ^ (?c * k1)" if k1: "k1 < ?a" for k1
    proof -
      have "of_nat ?b * vals t4 (?c * ?a + k1) = dft (inverse (groot m2)) ?b (\<lambda>k2. vals t1 (k1 * ?b + k2)) ?c * ?om ^ (k1 * ?c)"
        unfolding t4(3) [OF k(1) k1] t3(3) [OF k(1) k1] mult.assoc [symmetric] t2(4) [OF k1 k(1)] ..
      then show ?thesis using t1(3) [OF k1] by (simp only: mult.commute [of k1 ?c] dft_cong [of ?b "\<lambda>k2. vals t1 (k1 * ?b + k2)" "\<lambda>k2. vals xs (k2 * ?a + k1)"])
    qed
    have "of_nat (?a * ?b) * vals t6 (?r * ?b + ?c) = of_nat ?b * dft (inverse (groot m1)) ?a (\<lambda>k1. vals t4 (?c * ?a + k1)) ?r"
      unfolding t6(3) [OF k] t5(4) [OF k, symmetric] by simp
    also have "\<dots> = dft (inverse (groot m1)) ?a (\<lambda>k1. of_nat ?b * vals t4 (?c * ?a + k1)) ?r"
      by (simp only: dft_def sum_distrib_left mult.assoc)
    also have "\<dots> = dft (inverse (groot m1)) ?a (\<lambda>k1. dft (inverse (groot m2)) ?b (\<lambda>k2. vals xs (k2 * ?a + k1)) ?c * ?om ^ (?c * k1)) ?r"
      using inner by (rule dft_cong)
    also have "\<dots> = dft ?om (?b * ?a) (vals xs) (?r * ?b + ?c)"
      using four_step_sum [OF full, of "vals xs" ?c ?r] unfolding om1 om2 by (simp only: dft_def)
    finally show ?thesis by (simp only: n div_mult_mod_eq mult.commute [of ?b ?a])
  qed
  ultimately show ?thesis using t6 n by (auto simp: intt_of_def mult.commute)
qed

section \<open>Properties\<close>

text \<open>
  C14: Both forward transforms compute the discrete Fourier transform: on \<open>2 ^ m\<close> canonical elements,
  \<open>m \<le> 32\<close>, entry \<open>k\<close> of the result is the sum of \<open>x_j * w ^ (j * k)\<close> in the field, where
  \<open>w = 7 ^ ((p - 1) / 2 ^ m)\<close>.
\<close>

theorem ntt_is_dft:
  assumes "length xs = 2 ^ m" and "m \<le> 32" and "canon xs"
  shows "\<exists>ys. forward_ntt_radix2 xs = (Inr ys :: (unit, u64 list) outcome) \<and> cache_oblivious_4step_ntt xs = (Inr ys :: (unit, u64 list) outcome)
    \<and> length ys = 2 ^ m \<and> canon ys \<and> (\<forall>k<2 ^ m. gval (ys ! k) = (\<Sum>j<2 ^ m. gval (xs ! j) * (7 ^ (GN div 2 ^ m)) ^ (j * k)))"
proof -
  obtain ys where ys: "forward_ntt_radix2 xs = (Inr ys :: (unit, u64 list) outcome)" "ntt_of m xs ys"
    using forward_ntt [OF assms] by blast
  have "cache_oblivious_4step_ntt xs = (Inr ys :: (unit, u64 list) outcome)"
  proof (cases "m \<le> 10")
    case True
    then have "(2 :: nat) ^ m \<le> 2 ^ 10" by (intro power_increasing) auto
    then show ?thesis using ys(1) assms(1) by (simp add: cache_oblivious_4step_ntt_def)
  next
    case False
    then obtain zs where zs: "cache_oblivious_4step_ntt xs = (Inr zs :: (unit, u64 list) outcome)" "ntt_of m xs zs"
      using four_step_ntt [OF assms(1,3)] assms(2) by force
    have "zs = ys" using zs(2) ys(2) by (intro vals_inject) (simp_all add: ntt_of_def)
    then show ?thesis using zs(1) by simp
  qed
  then show ?thesis using ys unfolding ntt_of_def vals_def dft_def groot_def by blast
qed

theorem ntt_is_dft_witness:
  "\<exists>ys. forward_ntt_radix2 (replicate 2048 5) = (Inr ys :: (unit, u64 list) outcome)
    \<and> cache_oblivious_4step_ntt (replicate 2048 5) = (Inr ys :: (unit, u64 list) outcome) \<and> length ys = 2048"
proof -
  let ?xs = "replicate 2048 5 :: u64 list"
  have "length ?xs = 2 ^ 11" "(11 :: nat) \<le> 32" "canon ?xs"
    by (simp_all add: list_all_iff canonical_gf_def GOLDILOCKS_PRIME_def)
  from ntt_is_dft [OF this] obtain ys where "forward_ntt_radix2 ?xs = (Inr ys :: (unit, u64 list) outcome)"
    "cache_oblivious_4step_ntt ?xs = (Inr ys :: (unit, u64 list) outcome)" "length ys = 2 ^ 11" by blast
  then show ?thesis by (intro exI [of _ ys]) simp
qed

text \<open>
  The inverse transforms undo the forward ones, in both orders and for both implementations.
\<close>

theorem ntt_roundtrip:
  assumes "length xs = 2 ^ m" and "m \<le> 32" and "canon xs"
  shows "and_then (forward_ntt_radix2 xs) inverse_ntt_radix2 = (Inr xs :: (unit, u64 list) outcome)
    \<and> and_then (inverse_ntt_radix2 xs) forward_ntt_radix2 = (Inr xs :: (unit, u64 list) outcome)
    \<and> and_then (cache_oblivious_4step_ntt xs) cache_oblivious_4step_intt = (Inr xs :: (unit, u64 list) outcome)
    \<and> and_then (cache_oblivious_4step_intt xs) cache_oblivious_4step_ntt = (Inr xs :: (unit, u64 list) outcome)"
proof -
  let ?F = "forward_ntt_radix2 :: _ \<Rightarrow> (unit, u64 list) outcome" and ?G = "inverse_ntt_radix2 :: _ \<Rightarrow> (unit, u64 list) outcome"
  let ?F4 = "cache_oblivious_4step_ntt :: _ \<Rightarrow> (unit, u64 list) outcome" and ?G4 = "cache_oblivious_4step_intt :: _ \<Rightarrow> (unit, u64 list) outcome"
  have run: "\<exists>ys. ?F zs = Inr ys \<and> ntt_of m zs ys" "\<exists>ys. ?G zs = Inr ys \<and> intt_of m zs ys"
    "\<exists>ys. ?F4 zs = Inr ys \<and> ntt_of m zs ys" "\<exists>ys. ?G4 zs = Inr ys \<and> intt_of m zs ys" if "length zs = 2 ^ m" "canon zs" for zs
  proof -
    show F: "\<exists>ys. ?F zs = Inr ys \<and> ntt_of m zs ys" and G: "\<exists>ys. ?G zs = Inr ys \<and> intt_of m zs ys"
      using forward_ntt [OF that(1) assms(2) that(2)] inverse_ntt [OF that(1) assms(2) that(2)] by blast+
    have "?F4 zs = ?F zs \<and> ?G4 zs = ?G zs \<or> 10 < m"
    proof (cases "m \<le> 10")
      case True
      then have "(2 :: nat) ^ m \<le> 2 ^ 10" by (intro power_increasing) auto
      then show ?thesis using that(1) by (simp add: cache_oblivious_4step_ntt_def cache_oblivious_4step_intt_def)
    qed simp
    then show "\<exists>ys. ?F4 zs = Inr ys \<and> ntt_of m zs ys" "\<exists>ys. ?G4 zs = Inr ys \<and> intt_of m zs ys"
      using F G four_step_ntt [OF that] four_step_intt [OF that] assms(2) by metis+
  qed
  have wf: "length ys = 2 ^ m \<and> canon ys" if "ntt_of m xs ys \<or> intt_of m xs ys" for ys
    using that by (auto simp: ntt_of_def intt_of_def)
  note inv = intt_of_ntt_of [OF assms(2,1,3)]
  have pair: "and_then (f xs) g = (Inr xs :: (unit, u64 list) outcome)"
    if f: "\<exists>ys. f xs = (Inr ys :: (unit, u64 list) outcome) \<and> P ys" and wf: "\<And>ys. P ys \<Longrightarrow> length ys = 2 ^ m \<and> canon ys"
      and g: "\<And>zs. length zs = 2 ^ m \<Longrightarrow> canon zs \<Longrightarrow> \<exists>ys. g zs = (Inr ys :: (unit, u64 list) outcome) \<and> Q zs ys"
      and c: "\<And>ys zs. P ys \<Longrightarrow> Q ys zs \<Longrightarrow> zs = xs" for f g P Q
    using f wf g c by (metis and_then_Inr)
  show ?thesis
    by (intro conjI)
       (rule pair [OF run(1) _ run(2) inv(1)] pair [OF run(2) _ run(1) inv(2)] pair [OF run(3) _ run(4) inv(1)] pair [OF run(4) _ run(3) inv(2)];
        use assms wf in blast)+
qed

theorem ntt_roundtrip_witness:
  "and_then (cache_oblivious_4step_ntt (replicate 2048 5)) cache_oblivious_4step_intt = (Inr (replicate 2048 5) :: (unit, u64 list) outcome)"
proof -
  have "canon (replicate 2048 5)" by (simp add: list_all_iff canonical_gf_def GOLDILOCKS_PRIME_def)
  then show ?thesis using ntt_roundtrip [of "replicate 2048 5" 11] by simp
qed

end
