(* ===== verification/Lde.thy ===== *)
theory Lde
  imports Ntt
begin

text \<open>
  The transforms the prover really runs, \<open>compute_intt\<close> of \<open>solomon-zk/src/intt.rs\<close> and
  \<open>compute_forward_ntt\<close> of \<open>lde.rs\<close>, and the low degree extension built on them.  In contrast to
  \<open>ntt.rs\<close> they carry the twiddle from one block to the next and do not reverse the bits.
\<close>

section \<open>The code\<close>

definition gs_butterfly :: "GoldilocksField \<Rightarrow> GoldilocksField \<Rightarrow> GoldilocksField \<Rightarrow> GoldilocksField \<times> GoldilocksField" where
  "gs_butterfly u v w = (gadd u v, gmul (gsub u v) w)"

definition gs_stage :: "nat \<Rightarrow> GoldilocksField \<Rightarrow> GoldilocksField list \<Rightarrow> GoldilocksField list" where
  "gs_stage len w_step evals =
    snd (foldl (\<lambda>st i. butterflies gs_butterfly (len div 2) i w_step [0..<len div 2] st) (1, evals) (step_by (length evals) len))"

function gs_loop :: "GoldilocksField \<Rightarrow> nat \<Rightarrow> GoldilocksField list \<Rightarrow> GoldilocksField list" where
  "gs_loop root_inv len evals =
    (if len \<ge> 2
     then gs_loop root_inv (len div 2) (gs_stage len (gexp root_inv (word_of_nat (length evals div len))) evals)
     else evals)"
  by pat_completeness auto

termination gs_loop
  by (relation "measure (\<lambda>(r, len, e). len)") auto

declare gs_loop.simps [simp del]

definition compute_intt :: "GoldilocksField list \<Rightarrow> ('e, GoldilocksField list) outcome" where
  "compute_intt evals =
    (let n = length evals
     in if n \<le> 1 then Inr evals
        else and_then (get_root_of_unity n) (\<lambda>root.
             and_then (invert root) (\<lambda>root_inv.
             let evals = gs_loop root_inv n evals
             in and_then (invert (from_u64 (word_of_nat n))) (\<lambda>n_inv. Inr (map (\<lambda>e. gmul e n_inv) evals)))))"

definition ct_stage_carried :: "nat \<Rightarrow> GoldilocksField \<Rightarrow> GoldilocksField list \<Rightarrow> GoldilocksField list" where
  "ct_stage_carried len w_step evals =
    snd (foldl (\<lambda>st i. butterflies ct_butterfly (len div 2) i w_step [0..<len div 2] st) (1, evals) (step_by (length evals) len))"

lemma carried_length: "length (snd (foldl (\<lambda>st i. butterflies bf half i ws ks st) st is)) = length (snd st)"
  by (induction "is" arbitrary: st) simp_all

lemma ct_stage_carried_length [simp]: "length (ct_stage_carried len ws es) = length es"
  by (simp add: ct_stage_carried_def carried_length)

lemma gs_stage_length [simp]: "length (gs_stage len ws es) = length es"
  by (simp add: gs_stage_def carried_length)

function ct_loop_carried :: "GoldilocksField \<Rightarrow> nat \<Rightarrow> GoldilocksField list \<Rightarrow> GoldilocksField list" where
  "ct_loop_carried root s evals =
    (if 2 ^ s \<le> length evals
     then ct_loop_carried root (Suc s) (ct_stage_carried (2 ^ s) (gexp root (word_of_nat (length evals div 2 ^ s))) evals)
     else evals)"
  by pat_completeness auto

termination ct_loop_carried
proof (relation "measure (\<lambda>(root, s, evals). length evals - s)")
  fix root :: u64 and s and evals :: "u64 list"
  assume "2 ^ s \<le> length evals"
  then have "s < length evals" using less_exp [of s] by linarith
  then show "((root, Suc s, ct_stage_carried (2 ^ s) (gexp root (word_of_nat (length evals div 2 ^ s))) evals), root, s, evals)
    \<in> measure (\<lambda>(root, s, evals). length evals - s)" by simp
qed simp

declare ct_loop_carried.simps [simp del]

definition compute_forward_ntt :: "GoldilocksField list \<Rightarrow> ('e, GoldilocksField list) outcome" where
  "compute_forward_ntt evals =
    (let n = length evals
     in if n \<le> 1 then Inr evals else and_then (get_root_of_unity n) (\<lambda>root. Inr (ct_loop_carried root 1 evals)))"

text \<open>\<open>Vec::resize\<close>\<close>

definition resize :: "nat \<Rightarrow> 'a \<Rightarrow> 'a list \<Rightarrow> 'a list" where
  "resize n x xs = take n xs @ replicate (n - length xs) x"

definition generate_lde :: "GoldilocksField list \<Rightarrow> nat \<Rightarrow> ('e, GoldilocksField list) outcome" where
  "generate_lde discrete_evals blowup_factor =
    and_then (compute_intt discrete_evals) (\<lambda>coefficients.
    let extended_len = length coefficients * blowup_factor;
        coefficients = resize extended_len 0 coefficients
    in compute_forward_ntt coefficients)"

section \<open>Stages in the field\<close>

abbreviation gs_F :: "fp \<Rightarrow> fp \<Rightarrow> fp \<Rightarrow> fp" where "gs_F u v w \<equiv> u + v"
abbreviation gs_G :: "fp \<Rightarrow> fp \<Rightarrow> fp \<Rightarrow> fp" where "gs_G u v w \<equiv> (u - v) * w"

interpretation gs: butterfly gs_butterfly gs_F gs_G
  by unfold_locales (auto simp: gs_butterfly_def gf_simps)

abbreviation gs_spec :: "nat \<Rightarrow> fp \<Rightarrow> fp \<Rightarrow> (nat \<Rightarrow> fp) \<Rightarrow> nat \<Rightarrow> fp" where
  "gs_spec \<equiv> stage_spec gs_F gs_G"

lemma gs_stage_val:
  assumes "canon es" and "length es = q * (2 * half)" and "0 < half"
  shows "canon (gs_stage (2 * half) ws es)
    \<and> (\<forall>p<length es. vals (gs_stage (2 * half) ws es) p = gs_spec half (gval ws ^ half) (gval ws) (vals es) p)"
  using gs.stage_carried [OF assms, of ws] assms by (simp add: gs_stage_def step_by_multiple stage_inv_def)

lemma ct_stage_carried_val:
  assumes "canon es" and "length es = q * (2 * half)" and "0 < half"
  shows "canon (ct_stage_carried (2 * half) ws es)
    \<and> (\<forall>p<length es. vals (ct_stage_carried (2 * half) ws es) p = ct_spec half (gval ws ^ half) (gval ws) (vals es) p)"
  using ct.stage_carried [OF assms, of ws] assms by (simp add: ct_stage_carried_def step_by_multiple stage_inv_def)

lemma stage_spec_halves:
  assumes "r < half"
  shows "stage_spec F G half sg ws X (b * (2 * half) + r) = F (X (b * (2 * half) + r)) (X (b * (2 * half) + r + half)) (sg ^ b * ws ^ r)"
    "stage_spec F G half sg ws X (b * (2 * half) + r + half) = G (X (b * (2 * half) + r)) (X (b * (2 * half) + r + half)) (sg ^ b * ws ^ r)"
proof -
  have "(b * (2 * half) + r) mod (2 * half) = r" "(b * (2 * half) + r) div (2 * half) = b"
    "(b * (2 * half) + (r + half)) mod (2 * half) = r + half" "(b * (2 * half) + (r + half)) div (2 * half) = b"
    using assms by simp_all
  then show "stage_spec F G half sg ws X (b * (2 * half) + r) = F (X (b * (2 * half) + r)) (X (b * (2 * half) + r + half)) (sg ^ b * ws ^ r)"
    "stage_spec F G half sg ws X (b * (2 * half) + r + half) = G (X (b * (2 * half) + r)) (X (b * (2 * half) + r + half)) (sg ^ b * ws ^ r)"
    using assms by (simp_all add: stage_spec_def add.assoc)
qed

text \<open>Every position is in the lower or in the upper half of its block.\<close>

lemma halves_cases:
  assumes "0 < (half :: nat)"
  obtains (lower) b r where "r < half" "p = b * (2 * half) + r" | (upper) b r where "r < half" "p = b * (2 * half) + r + half"
proof (cases "p mod (2 * half) < half")
  case True
  show ?thesis by (rule lower [OF True]) (rule div_mult_mod_eq [symmetric])
next
  case False
  moreover have "p mod (2 * half) < 2 * half" using assms by simp
  ultimately have "p mod (2 * half) - half < half" "p = p div (2 * half) * (2 * half) + (p mod (2 * half) - half) + half"
    using div_mult_mod_eq [of p "2 * half"] by linarith+
  then show ?thesis by (rule upper)
qed

text \<open>A Cooley-Tukey stage with the inverse twiddles undoes a Gentleman-Sande stage, up to a factor 2.\<close>

lemma ct_gs_spec:
  assumes "0 < half" and "ws \<noteq> 0" and "sg \<noteq> 0"
  shows "ct_spec half sg ws (gs_spec half (inverse sg) (inverse ws) X) p = 2 * X p"
proof -
  have inv: "inverse sg ^ b * inverse ws ^ r * (sg ^ b * ws ^ r) = 1" for b r
    using assms by (simp add: field_simps)
  show ?thesis
  proof (cases rule: halves_cases [OF assms(1), of p, case_names lower upper])
    case (lower b r)
    let ?u = "X (b * (2 * half) + r)" and ?v = "X (b * (2 * half) + r + half)"
    have "ct_spec half sg ws (gs_spec half (inverse sg) (inverse ws) X) p
        = ?u + ?v + (?u - ?v) * (inverse sg ^ b * inverse ws ^ r * (sg ^ b * ws ^ r))"
      unfolding lower(2) by (simp only: stage_spec_halves [OF lower(1)] mult.assoc)
    then show ?thesis by (simp add: inv lower(2))
  next
    case (upper b r)
    let ?u = "X (b * (2 * half) + r)" and ?v = "X (b * (2 * half) + r + half)"
    have "ct_spec half sg ws (gs_spec half (inverse sg) (inverse ws) X) p
        = ?u + ?v - (?u - ?v) * (inverse sg ^ b * inverse ws ^ r * (sg ^ b * ws ^ r))"
      unfolding upper(2) by (simp only: stage_spec_halves [OF upper(1)] mult.assoc)
    then show ?thesis by (simp add: inv upper(2))
  qed
qed

lemma stage_spec_cong:
  assumes "0 < half" and "\<And>q. q < c * (2 * half) \<Longrightarrow> X q = Y q" and "p < c * (2 * half)"
  shows "stage_spec F G half sg ws X p = stage_spec F G half sg ws Y p"
proof -
  have in_block: "b * (2 * half) + d < c * (2 * half)" if "b * (2 * half) + r < c * (2 * half)" "d < 2 * half" for b r d
  proof -
    have "b * (2 * half) < c * (2 * half)" using that(1) by linarith
    then have "Suc b \<le> c" by simp
    then have "Suc b * (2 * half) \<le> c * (2 * half)" by (rule mult_le_mono1)
    then show ?thesis using that(2) by simp
  qed
  show ?thesis
  proof (cases rule: halves_cases [OF assms(1), of p, case_names lower upper])
    case (lower b r)
    then show ?thesis using assms(2) in_block [of b r r] in_block [of b r "r + half"] assms(3)
      unfolding lower(2) stage_spec_halves [OF lower(1)] by (simp add: add.assoc)
  next
    case (upper b r)
    then show ?thesis using assms(2) in_block [of b "r + half" r] in_block [of b "r + half" "r + half"] assms(3)
      unfolding upper(2) stage_spec_halves [OF upper(1)] by (simp add: add.assoc)
  qed
qed

lemma ct_spec_linear: "ct_spec half sg ws (\<lambda>p. c * X p) p = c * ct_spec half sg ws X p"
  by (simp add: stage_spec_def Let_def algebra_simps)

fun gs_down :: "nat \<Rightarrow> (nat \<Rightarrow> fp) \<Rightarrow> nat \<Rightarrow> fp" where
  "gs_down 0 X = X"
| "gs_down (Suc s) X = gs_down s (gs_spec (2 ^ s) (- 1) (inverse (groot (Suc s))) X)"

fun ct_up :: "nat \<Rightarrow> (nat \<Rightarrow> fp) \<Rightarrow> nat \<Rightarrow> fp" where
  "ct_up 0 X = X"
| "ct_up (Suc s) X = ct_spec (2 ^ s) (- 1) (groot (Suc s)) (ct_up s X)"

lemma ct_up_linear: "ct_up s (\<lambda>p. c * X p) = (\<lambda>p. c * ct_up s X p)"
proof (induction s)
  case (Suc s)
  show ?case by (intro ext) (simp add: Suc ct_spec_linear)
qed simp

lemma ct_up_gs_down: "ct_up s (gs_down s X) p = 2 ^ s * X p"
proof (induction s arbitrary: X p)
  case (Suc s)
  let ?Y = "gs_spec (2 ^ s) (- 1) (inverse (groot (Suc s))) X"
  have "ct_up s (gs_down s ?Y) = (\<lambda>p. 2 ^ s * ?Y p)" using Suc.IH by blast
  then have "ct_up (Suc s) (gs_down (Suc s) X) p = 2 ^ s * ct_spec (2 ^ s) (- 1) (groot (Suc s)) ?Y p"
    by (simp add: ct_spec_linear)
  also have "ct_spec (2 ^ s) (- 1) (groot (Suc s)) ?Y p = 2 * X p"
    using ct_gs_spec [of "2 ^ s" "groot (Suc s)" "- 1" X p] groot_nonzero by simp
  finally show ?case by simp
qed simp

text \<open>Zero padding: the stages up to the original length work on the original entries only, the later ones copy.\<close>

lemma ct_up_cong: "s \<le> m \<Longrightarrow> (\<And>q. q < 2 ^ m \<Longrightarrow> X q = Y q) \<Longrightarrow> p < 2 ^ m \<Longrightarrow> ct_up s X p = ct_up s Y p"
proof (induction s arbitrary: p)
  case (Suc s)
  have "(2 :: nat) ^ m = 2 ^ (m - Suc s) * (2 * 2 ^ s)" using Suc.prems(1) by (simp flip: power_Suc power_add)
  then show ?case using Suc by (auto intro!: stage_spec_cong [of _ "2 ^ (m - Suc s)"])
qed simp

lemma ct_spec_zero:
  assumes "\<And>q. c * (2 * half) \<le> q \<Longrightarrow> X q = 0" and "0 < half" and "c * (2 * half) \<le> p"
  shows "ct_spec half sg ws X p = 0"
proof (cases rule: halves_cases [OF assms(2), of p, case_names lower upper])
  case (lower b r)
  then show ?thesis using assms(1,3) unfolding lower(2) stage_spec_halves [OF lower(1)] by simp
next
  case (upper b r)
  have "c \<le> b"
  proof (rule ccontr)
    assume "\<not> c \<le> b"
    then have "Suc b * (2 * half) \<le> c * (2 * half)" by (intro mult_le_mono1) simp
    then show False using assms(3) upper by simp
  qed
  then have "c * (2 * half) \<le> b * (2 * half) + r" by (simp add: trans_le_add1)
  then show ?thesis using assms(1,3) unfolding upper(2) stage_spec_halves [OF upper(1)] by simp
qed

lemma exp_blocks: "s < m \<Longrightarrow> (2 :: nat) ^ m = 2 ^ (m - Suc s) * (2 * 2 ^ s)"
  by (simp flip: power_Suc power_add)

lemma ct_up_zero: "s \<le> m \<Longrightarrow> (\<And>q. 2 ^ m \<le> q \<Longrightarrow> X q = 0) \<Longrightarrow> 2 ^ m \<le> p \<Longrightarrow> ct_up s X p = 0"
proof (induction s arbitrary: p)
  case (Suc s)
  then show ?case using exp_blocks [of s m] by (auto intro!: ct_spec_zero [of "2 ^ (m - Suc s)"])
qed simp

lemma ct_up_copies:
  assumes "\<And>q. 2 ^ m \<le> q \<Longrightarrow> X q = 0"
  shows "ct_up (m + k) X p = (if p < 2 ^ (m + k) then ct_up m X (p mod 2 ^ m) else 0)"
proof (induction k arbitrary: p)
  case 0
  then show ?case using assms by (simp add: ct_up_zero [of m m] not_less)
next
  case (Suc k)
  let ?h = "2 ^ (m + k) :: nat"
  have mod: "(q + ?h) mod 2 ^ m = q mod 2 ^ m" for q by (simp add: power_add)
  have "0 < ?h" by simp
  show ?case
  proof (cases rule: halves_cases [OF \<open>0 < ?h\<close>, of p, case_names lower upper])
    case (lower b r)
    show ?thesis using lower(1) unfolding ct_up.simps add_Suc_right lower(2) stage_spec_halves [OF lower(1)]
      by (cases b) (simp_all add: Suc.IH)
  next
    case (upper b r)
    show ?thesis using upper(1) unfolding ct_up.simps add_Suc_right upper(2) stage_spec_halves [OF upper(1)]
      by (cases b) (simp_all add: Suc.IH mod)
  qed
qed

section \<open>The loops\<close>

lemma stage_root_val:
  assumes "M \<le> 32" and "s \<le> M" and "n = 2 ^ M"
  shows "gval (gexp om (word_of_nat (n div 2 ^ s))) = gval om ^ 2 ^ (M - s)"
proof -
  have quot: "n div 2 ^ s = 2 ^ (M - s)" unfolding assms(3) using assms(2) by (simp add: power_diff)
  have fits: "unat (word_of_nat (2 ^ (M - s)) :: u64) = 2 ^ (M - s)" using assms(1) by (intro unat_exp) simp
  show ?thesis unfolding quot gexp_gval fits ..
qed

lemma groot_stage: "M \<le> 32 \<Longrightarrow> s \<le> M \<Longrightarrow> groot M ^ 2 ^ (M - s) = groot s"
  using groot_pow [of s "M - s"] by simp

lemma stage_spec_cong_exp:
  assumes "s < m" and "\<And>q. q < 2 ^ m \<Longrightarrow> X q = Y q" and "p < 2 ^ m"
  shows "stage_spec F G (2 ^ s) sg ws X p = stage_spec F G (2 ^ s) sg ws Y p"
proof (rule stage_spec_cong [of _ "2 ^ (m - Suc s)"])
  show "X q = Y q" if "q < 2 ^ (m - Suc s) * (2 * 2 ^ s)" for q using that unfolding exp_blocks [OF assms(1), symmetric] by (rule assms(2))
  show "p < 2 ^ (m - Suc s) * (2 * 2 ^ s)" unfolding exp_blocks [OF assms(1), symmetric] by (rule assms(3))
qed simp

lemma gs_down_cong: "s \<le> m \<Longrightarrow> (\<And>q. q < 2 ^ m \<Longrightarrow> X q = Y q) \<Longrightarrow> p < 2 ^ m \<Longrightarrow> gs_down s X p = gs_down s Y p"
proof (induction s arbitrary: X Y p)
  case (Suc s)
  have "s < m" using Suc.prems(1) by simp
  then show ?case unfolding gs_down.simps using Suc.prems stage_spec_cong_exp [OF \<open>s < m\<close> Suc.prems(2)] by (intro Suc.IH) simp_all
qed simp

lemma ct_loop_carried_val:
  assumes "gval om = groot M" and "M \<le> 32" and "s \<le> M" and "length es = 2 ^ M" and "canon es"
    and "\<And>p. p < 2 ^ M \<Longrightarrow> vals es p = ct_up s Z p"
  shows "length (ct_loop_carried om (Suc s) es) = 2 ^ M \<and> canon (ct_loop_carried om (Suc s) es)
    \<and> (\<forall>p<2 ^ M. vals (ct_loop_carried om (Suc s) es) p = ct_up M Z p)"
  using assms(3-6)
proof (induction "M - s" arbitrary: s es)
  case 0
  then have "s = M" by simp
  then show ?case using 0 by (simp add: ct_loop_carried.simps)
next
  case (Suc d)
  then have s: "s < M" by simp
  define ws where "ws = gexp om (word_of_nat (length es div 2 ^ Suc s))"
  let ?es = "ct_stage_carried (2 * 2 ^ s) ws es"
  have ws: "gval ws = groot (Suc s)" unfolding ws_def using s by (simp only: stage_root_val [OF assms(2) Suc_leI Suc.prems(2)] groot_stage [OF assms(2) Suc_leI] assms(1))
  have neg: "groot (Suc s) ^ 2 ^ s = - 1" using groot_half [of "Suc s"] s assms(2) by simp
  have len: "length es = 2 ^ (M - Suc s) * (2 * 2 ^ s)" using Suc.prems(2) exp_blocks [OF s] by simp
  have stage: "canon ?es" "\<And>p. p < 2 ^ M \<Longrightarrow> vals ?es p = ct_spec (2 ^ s) (- 1) (groot (Suc s)) (vals es) p"
    using ct_stage_carried_val [OF Suc.prems(3) len, of ws] Suc.prems(2) by (simp_all add: ws neg)
  have "vals ?es p = ct_up (Suc s) Z p" if "p < 2 ^ M" for p
    unfolding stage(2) [OF that] ct_up.simps by (rule stage_spec_cong_exp [OF s Suc.prems(4) that])
  moreover have "ct_loop_carried om (Suc s) es = ct_loop_carried om (Suc (Suc s)) ?es"
  proof -
    have "(2 :: nat) ^ Suc s \<le> 2 ^ M" using s by (intro power_increasing) simp_all
    then show ?thesis using Suc.prems(2) by (subst ct_loop_carried.simps) (simp add: ws_def)
  qed
  ultimately show ?case using Suc.hyps(1) [of "Suc s" ?es] Suc.hyps(2) s stage(1) Suc.prems(2) by simp
qed

lemma gs_loop_val:
  assumes "gval oi = inverse (groot M)" and "M \<le> 32" and "s \<le> M" and "length es = 2 ^ M" and "canon es"
  shows "length (gs_loop oi (2 ^ s) es) = 2 ^ M \<and> canon (gs_loop oi (2 ^ s) es)
    \<and> (\<forall>p<2 ^ M. vals (gs_loop oi (2 ^ s) es) p = gs_down s (vals es) p)"
  using assms(3-5)
proof (induction s arbitrary: es)
  case 0
  then show ?case by (simp add: gs_loop.simps)
next
  case (Suc s)
  then have s: "s < M" by simp
  define ws where "ws = gexp oi (word_of_nat (length es div 2 ^ Suc s))"
  let ?es = "gs_stage (2 * 2 ^ s) ws es" and ?Y = "gs_spec (2 ^ s) (- 1) (inverse (groot (Suc s))) (vals es)"
  have ws: "gval ws = inverse (groot (Suc s))" unfolding ws_def
    using s by (simp only: stage_root_val [OF assms(2) Suc_leI Suc.prems(2)] groot_stage [OF assms(2) Suc_leI] assms(1) power_inverse)
  have neg: "inverse (groot (Suc s)) ^ 2 ^ s = - 1" using groot_half [of "Suc s"] s assms(2) by (simp add: power_inverse)
  have len: "length es = 2 ^ (M - Suc s) * (2 * 2 ^ s)" using Suc.prems(2) exp_blocks [OF s] by simp
  have stage: "canon ?es" "\<And>p. p < 2 ^ M \<Longrightarrow> vals ?es p = ?Y p"
    using gs_stage_val [OF Suc.prems(3) len, of ws] Suc.prems(2) by (simp_all add: ws neg)
  have "gs_loop oi (2 ^ Suc s) es = gs_loop oi (2 ^ s) ?es"
    by (subst gs_loop.simps) (simp add: ws_def)
  moreover have "gs_down s (vals ?es) p = gs_down s ?Y p" if "p < 2 ^ M" for p
    using s stage(2) that by (intro gs_down_cong [of s M]) simp_all
  ultimately show ?case using Suc.IH [of ?es] s stage(1) Suc.prems(2) by simp
qed

lemma compute_intt_val:
  assumes "length xs = 2 ^ m" and "m \<le> 32" and "canon xs"
  shows "\<exists>ys. compute_intt xs = (Inr ys :: ('e, u64 list) outcome) \<and> length ys = 2 ^ m \<and> canon ys
    \<and> (\<forall>p<2 ^ m. vals ys p = inverse (of_nat (2 ^ m)) * gs_down m (vals xs) p)"
proof (cases "m = 0")
  case True
  then show ?thesis using assms by (simp add: compute_intt_def)
next
  case False
  let ?oi = "ginv (gomega m)" and ?ni = "ginv (from_u64 (word_of_nat (2 ^ m)))"
  let ?es = "gs_loop ?oi (2 ^ m) xs"
  have oi: "gval ?oi = inverse (groot m)" using gomega_gval [OF assms(2)] by (simp add: gf_simps)
  have ni: "gval ?ni = inverse (of_nat (2 ^ m))" by (simp only: ginv_gval from_u64_n [OF assms(2)])
  have "1 < (2 :: nat) ^ m" using False by (intro one_less_power) auto
  then have "\<not> (2 :: nat) ^ m \<le> 1" by simp
  then have "compute_intt xs = (Inr (map (\<lambda>e. gmul e ?ni) ?es) :: ('e, u64 list) outcome)"
    by (simp only: compute_intt_def assms(1) get_root_exp [OF assms(2)] invert_ok [OF gomega_nonzero [OF assms(2)]]
      invert_ok [OF from_u64_n(2) [OF assms(2)]] and_then_Inr Let_def if_False)
  moreover have "length ?es = 2 ^ m" "canon ?es" "\<And>p. p < 2 ^ m \<Longrightarrow> vals ?es p = gs_down m (vals xs) p"
    using gs_loop_val [OF oi assms(2) _ assms(1,3), of m] by simp_all
  ultimately show ?thesis using ni by (intro exI [of _ "map (\<lambda>e. gmul e ?ni) ?es"]) (simp add: vals_def gf_simps list_all_iff mult.commute)
qed

lemma compute_forward_val:
  assumes "length es = 2 ^ M" and "M \<le> 32" and "canon es"
  shows "\<exists>ys. compute_forward_ntt es = (Inr ys :: ('e, u64 list) outcome) \<and> length ys = 2 ^ M \<and> canon ys
    \<and> (\<forall>p<2 ^ M. vals ys p = ct_up M (vals es) p)"
proof (cases "M = 0")
  case True
  then show ?thesis using assms by (simp add: compute_forward_ntt_def)
next
  case False
  have "1 < (2 :: nat) ^ M" using False by (intro one_less_power) auto
  then have "compute_forward_ntt es = (Inr (ct_loop_carried (gomega M) 1 es) :: ('e, u64 list) outcome)"
    by (simp add: compute_forward_ntt_def assms get_root_exp Let_def)
  then show ?thesis using ct_loop_carried_val [OF gomega_gval assms(2), of 0 es "vals es"] assms by simp
qed

lemma concat_replicate_nth: "p < c * length xs \<Longrightarrow> concat (replicate c xs) ! p = xs ! (p mod length xs)"
proof (induction c arbitrary: p)
  case (Suc c)
  then show ?case by (cases "p < length xs") (auto simp: nth_append le_mod_geq not_less)
qed simp

lemma padded_forward_vals:
  assumes "length cs = 2 ^ m" and "p < 2 ^ (m + k)" and "\<And>q. q < 2 ^ m \<Longrightarrow> vals cs q = C q" and "2 ^ (m + k) = 2 ^ m + n"
  shows "ct_up (m + k) (vals (cs @ replicate n 0)) p = ct_up m C (p mod 2 ^ m)"
proof -
  define Z where "Z q = (if q < 2 ^ m then C q else 0)" for q
  have "vals (cs @ replicate n 0) q = Z q" if q: "q < 2 ^ (m + k)" for q
    using q assms(1,3,4) by (auto simp: Z_def vals_def nth_append gval_def)
  then have "ct_up (m + k) (vals (cs @ replicate n 0)) p = ct_up (m + k) Z p"
    using assms(2) by (intro ct_up_cong [of _ "m + k"]) simp_all
  also have "\<dots> = ct_up m Z (p mod 2 ^ m)" using assms(2) by (subst ct_up_copies) (simp_all add: Z_def)
  also have "\<dots> = ct_up m C (p mod 2 ^ m)" by (intro ct_up_cong [of _ m]) (simp_all add: Z_def)
  finally show ?thesis .
qed

lemma lde_repeats:
  assumes "length xs = 2 ^ m" and "m + k \<le> 32" and "canon xs"
  shows "generate_lde xs (2 ^ k) = (Inr (concat (replicate (2 ^ k) xs)) :: ('e, u64 list) outcome)"
proof -
  have m: "m \<le> 32" using assms(2) by simp
  let ?C = "\<lambda>p. inverse (of_nat (2 ^ m)) * gs_down m (vals xs) p" and ?n = "2 ^ (m + k) - 2 ^ m :: nat"
  obtain cs where cs: "compute_intt xs = (Inr cs :: ('e, u64 list) outcome)" "length cs = 2 ^ m" "canon cs"
    "\<And>p. p < 2 ^ m \<Longrightarrow> vals cs p = ?C p"
    using compute_intt_val [OF assms(1) m assms(3)] by blast
  let ?ps = "cs @ replicate ?n 0"
  have le: "(2 :: nat) ^ m \<le> 2 ^ (m + k)" by (intro power_increasing) simp_all
  have n: "2 ^ (m + k) = 2 ^ m + ?n" using le by simp
  have ps: "length ?ps = 2 ^ (m + k)" "canon ?ps" using cs(2,3) le by (auto simp: list_all_iff canonical_gf_def GOLDILOCKS_PRIME_def)
  have resized: "resize (2 ^ m * 2 ^ k) 0 cs = ?ps" using cs(2) by (simp add: resize_def power_add)
  obtain ys where ys: "compute_forward_ntt ?ps = (Inr ys :: ('e, u64 list) outcome)" "length ys = 2 ^ (m + k)" "canon ys"
    "\<And>p. p < 2 ^ (m + k) \<Longrightarrow> vals ys p = ct_up (m + k) (vals ?ps) p"
    using compute_forward_val [OF ps(1) assms(2) ps(2)] by blast
  have "ys = concat (replicate (2 ^ k) xs)"
  proof (rule vals_inject)
    fix p assume "p < length (concat (replicate (2 ^ k) xs))"
    then have p: "p < 2 ^ k * length xs" "p < 2 ^ (m + k)" using assms(1) by (simp_all add: length_concat sum_list_replicate power_add mult.commute)
    have "vals ys p = ct_up m ?C (p mod 2 ^ m)"
      unfolding ys(4) [OF p(2)] by (rule padded_forward_vals [OF cs(2) p(2) cs(4) n])
    also have "\<dots> = inverse (of_nat (2 ^ m)) * (2 ^ m * vals xs (p mod 2 ^ m))" by (simp only: ct_up_linear ct_up_gs_down)
    also have "\<dots> = vals xs (p mod 2 ^ m)" using of_nat_exp_nonzero [OF m] by simp
    finally show "vals ys p = vals (concat (replicate (2 ^ k) xs)) p"
      using concat_replicate_nth [OF p(1)] assms(1) by (simp add: vals_def)
  qed (use ys assms in \<open>auto simp: list_all_iff length_concat sum_list_replicate power_add mult.commute\<close>)
  then show ?thesis using cs(1,2) ys(1) resized by (simp add: generate_lde_def Let_def)
qed

section \<open>Properties\<close>

text \<open>
  The low degree extension repeats its input: on \<open>2 ^ m\<close> evaluations and blow-up factor \<open>2 ^ k\<close> the
  result is \<open>2 ^ k\<close> copies of the evaluations, for every input.  No interpolation takes place,
  because the two transforms leave out the bit reversal and, placed at the end, the padding
  zeroes form blocks of their own.
\<close>

theorem generate_lde_repeats:
  assumes "length xs = 2 ^ m" and "m + k \<le> 32" and "canon xs"
  shows "generate_lde xs (2 ^ k) = (Inr (concat (replicate (2 ^ k) xs)) :: (unit, u64 list) outcome)"
  using assms by (rule lde_repeats)

theorem generate_lde_repeats_witness:
  "generate_lde [3, 1, 4, 1] 4 = (Inr [3, 1, 4, 1, 3, 1, 4, 1, 3, 1, 4, 1, 3, 1, 4, 1] :: (unit, u64 list) outcome)"
proof -
  have "canon [3, 1, 4, 1]" by (simp add: canonical_gf_def GOLDILOCKS_PRIME_def)
  then show ?thesis using generate_lde_repeats [of "[3, 1, 4, 1]" 2 2] by (simp add: eval_nat_numeral)
qed

end
