(* ===== verification/Fri.thy ===== *)
theory Fri
  imports Merkle Lde
begin

text \<open>
  The FRI prover of \<open>solomon-zk/src/fri.rs\<close>: folding of the evaluations, a Merkle commitment per
  layer, and the openings at the sampled positions.
\<close>

section \<open>The code\<close>

definition NUM_FRI_QUERIES :: nat where
  "NUM_FRI_QUERIES = 40"

record FriQueryOpening =
  index :: nat
  trace_evals :: "GoldilocksField list"
  quotient_evals :: "GoldilocksField list"
  trace_merkle_path :: "digest list"
  quotient_merkle_path :: "digest list"
  fri_merkle_paths :: "digest list list"

record FriProof =
  layer_roots :: "digest list"
  queries :: "FriQueryOpening list"
  final_poly :: GoldilocksField

record StarkProof =
  trace_root :: digest
  quotient_root :: digest
  fri_proof :: FriProof

record FriProver =
  domain_evaluations :: "GoldilocksField list"
  trace_matrix :: "GoldilocksField list list option"
  trace_layers :: "digest list list option"

definition new_fri_prover :: "GoldilocksField list \<Rightarrow> ('e, FriProver) outcome" where
  "new_fri_prover lde_evaluations =
    (if \<not> length lde_evaluations > 1 then Panicked
     else Inr \<lparr>domain_evaluations = lde_evaluations, trace_matrix = None, trace_layers = None\<rparr>)"

definition set_trace_context :: "GoldilocksField list list \<Rightarrow> digest list list \<Rightarrow> FriProver \<Rightarrow> FriProver" where
  "set_trace_context mat layers self = self\<lparr>trace_matrix := Some mat, trace_layers := Some layers\<rparr>"

definition merkleize_evals :: "hash_fn \<Rightarrow> GoldilocksField list \<Rightarrow> digest \<times> digest list list" where
  "merkleize_evals keccak256 evals =
    build_merkle_tree_from_leaves keccak256 (map (\<lambda>e. keccak256 (le_bytes 8 (unat e))) evals)"

text \<open>A \<open>for\<close> loop that pushes one result per item, and stops at the first panic.\<close>

fun traverse :: "('a \<Rightarrow> ('e, 'b) outcome) \<Rightarrow> 'a list \<Rightarrow> ('e, 'b list) outcome" where
  "traverse f [] = Inr []"
| "traverse f (x # xs) = and_then (f x) (\<lambda>y. and_then (traverse f xs) (\<lambda>ys. Inr (y # ys)))"

definition fold_pair :: "GoldilocksField \<Rightarrow> GoldilocksField \<Rightarrow> GoldilocksField \<Rightarrow> GoldilocksField list \<Rightarrow> nat \<Rightarrow> ('e, GoldilocksField) outcome" where
  "fold_pair inv2 beta omega evals i =
    (let next_len = length evals div 2;
         f_x = evals ! i;
         f_neg_x = evals ! (i + next_len);
         x = gexp omega (word_of_nat i);
         sum = gadd f_x f_neg_x;
         diff = gsub f_x f_neg_x;
         half_sum = gmul sum inv2
     in and_then (invert x) (\<lambda>x_inv.
        let half_diff_over_x = gmul (gmul diff inv2) x_inv
        in Inr (gadd half_sum (gmul beta half_diff_over_x))))"

definition fold_layer :: "GoldilocksField \<Rightarrow> GoldilocksField \<Rightarrow> nat \<Rightarrow> GoldilocksField list \<Rightarrow> ('e, GoldilocksField list) outcome" where
  "fold_layer inv2 beta current_len evals =
    and_then (get_root_of_unity current_len) (\<lambda>omega. traverse (fold_pair inv2 beta omega evals) [0..<length evals div 2])"

lemma traverse_length: "traverse f xs = Inr ys \<Longrightarrow> length ys = length xs"
  by (induction xs arbitrary: ys) (auto simp: and_then_eq_Inr)

lemma fold_layer_length: "fold_layer inv2 beta n evals = Inr ys \<Longrightarrow> length ys = length evals div 2"
  by (auto simp: fold_layer_def and_then_eq_Inr dest: traverse_length)

text \<open>The folding loop: the evaluations, the tracked length, the roots and trees so far, the transcript.\<close>

function fold_loop :: "hash_fn \<Rightarrow> GoldilocksField \<Rightarrow> GoldilocksField list \<Rightarrow> nat \<Rightarrow> digest list \<Rightarrow> digest list list list \<Rightarrow> Challenger
    \<Rightarrow> ('e, GoldilocksField list \<times> digest list \<times> digest list list list \<times> Challenger) outcome" where
  "fold_loop keccak256 inv2 current_evals current_len roots trees challenger =
    (if length current_evals > 1
     then let (beta, challenger) = sample_ext keccak256 challenger
          in and_then (fold_layer inv2 beta current_len current_evals) (\<lambda>next_evals.
             let (root, layers) = merkleize_evals keccak256 next_evals
             in fold_loop keccak256 inv2 next_evals (current_len div 2) (roots @ [root]) (trees @ [layers]) (observe_slice root challenger))
     else Inr (current_evals, roots, trees, challenger))"
  by pat_completeness auto

termination fold_loop
  by (relation "measure (\<lambda>(k, i, evals, rest). length evals)") (auto dest!: fold_layer_length)

declare fold_loop.simps [simp del]

definition open_trace :: "FriProver \<Rightarrow> digest list list \<Rightarrow> nat \<Rightarrow> ('e, GoldilocksField list \<times> digest list) outcome" where
  "open_trace self tree_0 query_index =
    (case (trace_matrix self, trace_layers self) of
      (Some tm, Some layers) \<Rightarrow>
        let trace_pow2 = (if layers \<noteq> [] then length (layers ! 0) else length tm)
        in if trace_pow2 = 0 then Panicked
           else let trace_idx = query_index mod trace_pow2;
                    evals = (if trace_idx < length tm then tm ! trace_idx
                             else let width = (if tm \<noteq> [] then length (tm ! 0) else 8) in replicate width 0)
                in and_then (generate_merkle_proof layers trace_idx) (\<lambda>path. Inr (evals, path))
    | _ \<Rightarrow> and_then (generate_merkle_proof tree_0 query_index) (\<lambda>path. Inr ([domain_evaluations self ! query_index], path)))"

definition open_query :: "FriProver \<Rightarrow> digest list list list \<Rightarrow> nat \<Rightarrow> ('e, FriQueryOpening) outcome" where
  "open_query self trees query_index =
    and_then (open_trace self (trees ! 0) query_index) (\<lambda>(evals, trace_path).
    and_then (generate_merkle_proof (trees ! 0) query_index) (\<lambda>quotient_path.
    and_then (traverse (\<lambda>(l, layer). if length layer = 0 then Panicked else generate_merkle_proof layer (drop_bit l query_index mod length layer))
        (zip [0..<length trees] trees)) (\<lambda>paths.
    Inr \<lparr>index = query_index, trace_evals = evals, quotient_evals = [domain_evaluations self ! query_index],
      trace_merkle_path = trace_path, quotient_merkle_path = quotient_path, fri_merkle_paths = paths\<rparr>)))"

fun query_loop :: "hash_fn \<Rightarrow> nat \<Rightarrow> FriProver \<Rightarrow> digest list list list \<Rightarrow> Challenger \<Rightarrow> ('e, FriQueryOpening list \<times> Challenger) outcome" where
  "query_loop keccak256 0 self trees challenger = Inr ([], challenger)"
| "query_loop keccak256 (Suc n) self trees challenger =
    (let (challenge, challenger) = sample_ext keccak256 challenger;
         query_index = unat challenge mod length (domain_evaluations self)
     in and_then (open_query self trees query_index) (\<lambda>q.
        and_then (query_loop keccak256 n self trees challenger) (\<lambda>(qs, challenger). Inr (q # qs, challenger))))"

definition fri_generate_proof :: "hash_fn \<Rightarrow> FriProver \<Rightarrow> Challenger \<Rightarrow> ('e, FriProof \<times> Challenger) outcome" where
  "fri_generate_proof keccak256 self challenger =
    (let evals = domain_evaluations self;
         (initial_root, initial_layers) = merkleize_evals keccak256 evals;
         challenger = observe_slice initial_root challenger
     in and_then (invert (from_u64 2)) (\<lambda>inv2.
        and_then (fold_loop keccak256 inv2 evals (length evals) [initial_root] [initial_layers] challenger)
          (\<lambda>(evals, roots, trees, challenger).
            if evals = [] then Panicked
            else let final_constant = evals ! 0;
                     challenger = challenger_observe final_constant challenger
                 in and_then (query_loop keccak256 NUM_FRI_QUERIES self trees challenger) (\<lambda>(qs, challenger).
                    Inr (\<lparr>layer_roots = roots, queries = qs, final_poly = final_constant\<rparr>, challenger)))))"

section \<open>One fold\<close>

text \<open>The list holds the evaluations of the polynomial with coefficients \<open>C\<close> on the subgroup of order \<open>2 ^ d\<close>.\<close>

definition evals_of :: "nat \<Rightarrow> (nat \<Rightarrow> fp) \<Rightarrow> GoldilocksField list \<Rightarrow> bool" where
  "evals_of d C es \<longleftrightarrow> length es = 2 ^ d \<and> canon es \<and> (\<forall>k<2 ^ d. vals es k = dft (groot d) (2 ^ d) C k)"

definition fold_once :: "fp \<Rightarrow> (nat \<Rightarrow> fp) \<Rightarrow> nat \<Rightarrow> fp" where
  "fold_once beta C j = C (2 * j) + beta * C (2 * j + 1)"

fun fold_coeffs :: "fp list \<Rightarrow> (nat \<Rightarrow> fp) \<Rightarrow> nat \<Rightarrow> fp" where
  "fold_coeffs [] C = C"
| "fold_coeffs (beta # betas) C = fold_coeffs betas (fold_once beta C)"

definition inv2 :: GoldilocksField where
  "inv2 = ginv (from_u64 2)"

lemma two_nonzero: "(2 :: fp) \<noteq> 0"
  using of_int_fp_eq [of 2 0] by simp

lemma gval_two: "gval (from_u64 2) = 2"
  by (simp add: gf_simps) (simp add: gval_def)

lemma inv2_gval: "gval inv2 = inverse 2" "canonical_gf inv2"
  by (simp_all add: inv2_def gf_simps gval_two del: from_u64_gval(1))

lemma invert_two: "invert (from_u64 2) = Inr inv2"
  unfolding inv2_def by (rule invert_ok, rule gval_nonzero) (simp add: gval_two two_nonzero)

lemma traverse_map: "(\<And>x. x \<in> set xs \<Longrightarrow> f x = Inr (g x)) \<Longrightarrow> traverse f xs = Inr (map g xs)"
  by (induction xs) simp_all

lemma dft_halves:
  assumes "om ^ 2 ^ d = - 1"
  shows "dft om (2 ^ Suc d) C k + dft om (2 ^ Suc d) C (k + 2 ^ d) = 2 * dft (om\<^sup>2) (2 ^ d) (\<lambda>j. C (2 * j)) k"
    "dft om (2 ^ Suc d) C k - dft om (2 ^ Suc d) C (k + 2 ^ d) = 2 * om ^ k * dft (om\<^sup>2) (2 ^ d) (\<lambda>j. C (2 * j + 1)) k"
proof -
  let ?E = "dft (om\<^sup>2) (2 ^ d) (\<lambda>j. C (2 * j)) k" and ?O = "dft (om\<^sup>2) (2 ^ d) (\<lambda>j. C (2 * j + 1)) k"
  have split: "dft om (2 ^ Suc d) C k = dft (om\<^sup>2) (2 ^ d) (\<lambda>j. C (2 * j)) k + om ^ k * dft (om\<^sup>2) (2 ^ d) (\<lambda>j. C (2 * j + 1)) k" for k
  proof -
    have "om ^ (2 * j * k) = (om\<^sup>2) ^ (j * k)" "om ^ ((2 * j + 1) * k) = om ^ k * (om\<^sup>2) ^ (j * k)" for j
      by (simp_all add: power_add distrib_right mult.assoc flip: power_mult)
    then show ?thesis unfolding dft_def power_Suc sum_even_odd sum_distrib_left by (simp only: mult.left_commute)
  qed
  have "om ^ (2 * 2 ^ d) = (om ^ 2 ^ d)\<^sup>2" by (metis mult.commute power_mult)
  then have "om ^ (2 * 2 ^ d) = 1" by (simp add: assms)
  then have "(om\<^sup>2) ^ (j * (k + 2 ^ d)) = (om\<^sup>2) ^ (j * k)" for j
    by (simp add: power_add distrib_left flip: power_mult) (metis mult.commute mult.left_commute power_mult power_one)
  then have shift: "dft (om\<^sup>2) (2 ^ d) X (k + 2 ^ d) = dft (om\<^sup>2) (2 ^ d) X k" for X by (simp add: dft_def)
  have hi: "dft om (2 ^ Suc d) C (k + 2 ^ d) = ?E - om ^ k * ?O" unfolding split [of "k + 2 ^ d"] shift by (simp add: power_add assms)
  show "dft om (2 ^ Suc d) C k + dft om (2 ^ Suc d) C (k + 2 ^ d) = 2 * ?E"
    "dft om (2 ^ Suc d) C k - dft om (2 ^ Suc d) C (k + 2 ^ d) = 2 * om ^ k * ?O"
    unfolding split [of k] hi by (simp_all add: algebra_simps)
qed

lemma fold_pair_val:
  assumes "evals_of (Suc d) C es" and "Suc d \<le> 32" and "canonical_gf beta" and "i < 2 ^ d"
  shows "\<exists>y. fold_pair inv2 beta (gomega (Suc d)) es i = (Inr y :: ('e, GoldilocksField) outcome) \<and> canonical_gf y
    \<and> gval y = dft (groot d) (2 ^ d) (fold_once (gval beta) C) i"
proof -
  define x where "x = gexp (gomega (Suc d)) (word_of_nat i)"
  let ?om = "groot (Suc d)"
  note es = assms(1) [unfolded evals_of_def]
  have h: "length es div 2 = 2 ^ d" using es by simp
  have "i < 2 ^ 64" using assms(2,4) power_increasing [of d 64 "2 :: nat"] by simp
  then have "unat (word_of_nat i :: u64) = i" by (simp add: unsigned_of_nat take_bit_nat_eq_self)
  then have x: "gval x = ?om ^ i" unfolding x_def gexp_gval(1) gomega_gval [OF assms(2)] by simp
  have xn: "x \<noteq> 0" using x groot_nonzero by (intro gval_nonzero) simp
  have can: "canonical_gf (es ! i)" "canonical_gf (es ! (i + 2 ^ d))" using es assms(4) by (simp_all add: list_all_length)
  have v: "gval (es ! i) = dft ?om (2 ^ Suc d) C i" "gval (es ! (i + 2 ^ d)) = dft ?om (2 ^ Suc d) C (i + 2 ^ d)"
    using es assms(4) by (simp_all add: vals_def)
  have om: "?om ^ 2 ^ d = - 1" "?om\<^sup>2 = groot d"
    using groot_half [of "Suc d"] groot_pow [of d 1] assms(2) by simp_all
  let ?y = "gadd (gmul (gadd (es ! i) (es ! (i + 2 ^ d))) inv2) (gmul beta (gmul (gmul (gsub (es ! i) (es ! (i + 2 ^ d))) inv2) (ginv x)))"
  have "fold_pair inv2 beta (gomega (Suc d)) es i = (Inr ?y :: ('e, GoldilocksField) outcome)"
    by (simp add: fold_pair_def h invert_ok [OF xn] Let_def flip: x_def)
  moreover have "canonical_gf ?y" by (simp add: gf_simps)
  moreover have "gval ?y = (gval (es ! i) + gval (es ! (i + 2 ^ d))) * inverse 2
      + gval beta * ((gval (es ! i) - gval (es ! (i + 2 ^ d))) * inverse 2 * inverse (?om ^ i))"
    using can by (simp add: gf_simps inv2_gval x)
  then have "gval ?y = dft (groot d) (2 ^ d) (fold_once (gval beta) C) i"
    unfolding v dft_halves [OF om(1)] om(2) using groot_nonzero [of "Suc d"] two_nonzero
    by (simp add: field_simps dft_def fold_once_def sum.distrib sum_distrib_left)
  ultimately show ?thesis by blast
qed

lemma fold_layer_val:
  assumes "evals_of (Suc d) C es" and "Suc d \<le> 32" and "canonical_gf beta"
  shows "\<exists>ys. fold_layer inv2 beta (2 ^ Suc d) es = (Inr ys :: ('e, GoldilocksField list) outcome) \<and> evals_of d (fold_once (gval beta) C) ys"
proof -
  obtain g where g: "\<And>i. i < 2 ^ d \<Longrightarrow> fold_pair inv2 beta (gomega (Suc d)) es i = (Inr (g i) :: ('e, GoldilocksField) outcome) \<and> canonical_gf (g i)
    \<and> gval (g i) = dft (groot d) (2 ^ d) (fold_once (gval beta) C) i"
    using fold_pair_val [OF assms, where 'e = 'e] by metis
  have h: "length es div 2 = 2 ^ d" using assms(1) by (simp add: evals_of_def)
  have "fold_layer inv2 beta (2 ^ Suc d) es = (Inr (map g [0..<2 ^ d]) :: ('e, GoldilocksField list) outcome)"
    unfolding fold_layer_def get_root_exp [OF assms(2)] and_then_Inr h by (rule traverse_map) (use g in simp)
  then show ?thesis using g by (intro exI [of _ "map g [0..<2 ^ d]"]) (simp add: evals_of_def vals_def list_all_iff)
qed

section \<open>All folds\<close>

text \<open>The challenges drawn between the roots of the layers.\<close>

fun betas_of :: "hash_fn \<Rightarrow> digest list \<Rightarrow> Challenger \<Rightarrow> GoldilocksField list" where
  "betas_of h [] ch = []"
| "betas_of h (root # roots) ch = fst (sample_ext h ch) # betas_of h roots (observe_slice root (snd (sample_ext h ch)))"

lemma length_betas_of [simp]: "length (betas_of h roots ch) = length roots"
  by (induction roots arbitrary: ch) simp_all

lemma sample_ext_canonical: "canonical_gf (fst (sample_ext h ch))"
  by (simp add: sample_ext_def Let_def gf_simps)

definition committed :: "hash_fn \<Rightarrow> nat \<Rightarrow> (nat \<Rightarrow> fp) \<Rightarrow> digest \<Rightarrow> digest list list \<Rightarrow> bool" where
  "committed h d C root tree \<longleftrightarrow> (\<exists>es. evals_of d C es \<and> merkleize_evals h es = (root, tree))"

lemma fold_loop_val:
  "evals_of d C es \<Longrightarrow> d \<le> 32 \<Longrightarrow>
    \<exists>c rs ts ch'. fold_loop h inv2 es (2 ^ d) roots trees ch = (Inr ([c], roots @ rs, trees @ ts, ch') :: ('e, _) outcome)
      \<and> length rs = d \<and> length ts = d \<and> canonical_gf c \<and> gval c = fold_coeffs (map gval (betas_of h rs ch)) C 0
      \<and> (\<forall>l<d. committed h (d - Suc l) (fold_coeffs (take (Suc l) (map gval (betas_of h rs ch))) C) (rs ! l) (ts ! l))"
proof (induction d arbitrary: C es roots trees ch)
  case 0
  then obtain c where c: "es = [c]" by (auto simp: evals_of_def length_Suc_conv)
  then show ?case using 0 by (subst fold_loop.simps) (simp add: evals_of_def vals_def dft_def)
next
  case (Suc d)
  obtain beta ch1 where s: "sample_ext h ch = (beta, ch1)" by (cases "sample_ext h ch")
  have b: "canonical_gf beta" using sample_ext_canonical [of h ch] s by simp
  obtain ys where ys: "fold_layer inv2 beta (2 ^ Suc d) es = (Inr ys :: ('e, GoldilocksField list) outcome)" "evals_of d (fold_once (gval beta) C) ys"
    using fold_layer_val [OF Suc.prems b] by blast
  obtain root layers where m: "merkleize_evals h ys = (root, layers)" by (cases "merkleize_evals h ys")
  obtain c rs ts ch' where r: "fold_loop h inv2 ys (2 ^ d) (roots @ [root]) (trees @ [layers]) (observe_slice root ch1)
      = (Inr ([c], (roots @ [root]) @ rs, (trees @ [layers]) @ ts, ch') :: ('e, _) outcome)"
    "length rs = d" "length ts = d" "canonical_gf c" "gval c = fold_coeffs (map gval (betas_of h rs (observe_slice root ch1))) (fold_once (gval beta) C) 0"
    "\<forall>l<d. committed h (d - Suc l) (fold_coeffs (take (Suc l) (map gval (betas_of h rs (observe_slice root ch1)))) (fold_once (gval beta) C)) (rs ! l) (ts ! l)"
    using Suc.IH [OF ys(2), of "roots @ [root]" "trees @ [layers]" "observe_slice root ch1"] Suc.prems(2) by auto
  have "1 < length es" using Suc.prems(1) one_less_power [of "2 :: nat" "Suc d"] by (simp add: evals_of_def)
  then have "fold_loop h inv2 es (2 ^ Suc d) roots trees ch = (Inr ([c], roots @ root # rs, trees @ layers # ts, ch') :: ('e, _) outcome)"
    using r(1) ys(1) by (subst fold_loop.simps) (simp add: s m Let_def)
  moreover have "committed h (Suc d - Suc l) (fold_coeffs (take (Suc l) (map gval (betas_of h (root # rs) ch))) C) ((root # rs) ! l) ((layers # ts) ! l)"
    if "l < Suc d" for l
    using that r(6) ys(2) m by (cases l) (auto simp: s committed_def)
  ultimately show ?case using r(2-5) by (intro exI [of _ c] exI [of _ "root # rs"] exI [of _ "layers # ts"] exI [of _ ch']) (simp add: s)
qed

lemma evals_of_exists:
  assumes "length es = 2 ^ M" and "M \<le> 32" and "canon es"
  shows "\<exists>C. evals_of M C es"
proof -
  define C where "C j = inverse (of_nat (2 ^ M)) * dft (inverse (groot M)) (2 ^ M) (vals es) j" for j
  have "vals es k = dft (groot M) (2 ^ M) C k" if "k < 2 ^ M" for k
  proof -
    have "dft (groot M) (2 ^ M) C k = inverse (of_nat (2 ^ M)) * dft (inverse (inverse (groot M))) (2 ^ M) (dft (inverse (groot M)) (2 ^ M) (vals es)) k"
      by (simp add: C_def dft_def [of "groot M"] sum_distrib_left mult.assoc)
    also have "dft (inverse (inverse (groot M))) (2 ^ M) (dft (inverse (groot M)) (2 ^ M) (vals es)) k = of_nat (2 ^ M) * vals es k"
      using root_of_inverse [OF groot_half [OF _ assms(2)]] groot_nonzero that by (intro dft_inverse) simp_all
    also have "inverse (of_nat (2 ^ M)) * (of_nat (2 ^ M) * vals es k) = vals es k" using of_nat_exp_nonzero [OF assms(2)] by simp
    finally show ?thesis ..
  qed
  then show ?thesis using assms by (auto simp: evals_of_def)
qed

section \<open>Openings\<close>

lemma next_pow2_id: "next_pow2 (2 ^ a) (2 ^ (a + b)) = 2 ^ (a + b)"
proof (induction b arbitrary: a)
  case 0
  show ?case by (subst next_pow2.simps) simp
next
  case (Suc b)
  have "(2 :: nat) ^ a < 2 ^ (a + Suc b)" by (intro power_strict_increasing) simp_all
  then show ?case using Suc [of "Suc a"] by (subst next_pow2.simps) (simp add: mult.commute)
qed

lemma pad_leaves_id: "length xs = 2 ^ d \<Longrightarrow> pad_leaves xs = xs"
  using next_pow2_id [of 0 d] by (simp add: pad_leaves_def)

lemma build_tree_exp: "length xs = 2 ^ d \<Longrightarrow> build_merkle_tree_from_leaves h xs = (last (levels h xs) ! 0, levels h xs)"
  using build_tree_levels [of xs h] pad_leaves_id [of xs d] by (metis length_0_conv power_not_zero zero_neq_numeral)

abbreviation leaf_hash :: "hash_fn \<Rightarrow> GoldilocksField \<Rightarrow> digest" where
  "leaf_hash h e \<equiv> h (le_bytes 8 (unat e))"

lemma merkleize_exp:
  "length es = 2 ^ d \<Longrightarrow> merkleize_evals h es = (last (levels h (map (leaf_hash h) es)) ! 0, levels h (map (leaf_hash h) es))"
  unfolding merkleize_evals_def by (rule build_tree_exp [of _ d]) simp

definition path_at :: "hash_fn \<Rightarrow> digest list \<Rightarrow> nat \<Rightarrow> digest list" where
  "path_at h xs i = siblings (butlast (levels h xs)) i"

lemma path_at_ok:
  assumes "length xs = 2 ^ d"
  shows "generate_merkle_proof (levels h xs) i = Inr (path_at h xs i)"
    "i < 2 ^ d \<Longrightarrow> length (path_at h xs i) = d"
    "i < 2 ^ d \<Longrightarrow> verify_merkle_proof h (last (levels h xs) ! 0) (xs ! i) (path_at h xs i) i"
  using tree_opens [OF assms, of i h] by (simp_all add: generate_merkle_proof_def path_at_def verify_merkle_proof_def)

text \<open>An opening that shows the right cells, with paths the checks accept.\<close>

definition opens :: "hash_fn \<Rightarrow> nat \<Rightarrow> nat \<Rightarrow> FriProver \<Rightarrow> digest \<Rightarrow> digest \<Rightarrow> FriQueryOpening \<Rightarrow> bool" where
  "opens h t M self t_root q_root q \<longleftrightarrow>
    index q < 2 ^ M \<and> trace_evals q = the (trace_matrix self) ! (index q mod 2 ^ t) \<and> length (trace_merkle_path q) = t
    \<and> verify_merkle_proof h t_root (hash_row h (trace_evals q)) (trace_merkle_path q) (index q mod 2 ^ t)
    \<and> quotient_evals q = [domain_evaluations self ! index q] \<and> length (quotient_merkle_path q) = M
    \<and> verify_merkle_proof h q_root (leaf_hash h (domain_evaluations self ! index q)) (quotient_merkle_path q) (index q)
    \<and> length (fri_merkle_paths q) = Suc M \<and> (\<forall>l\<le>M. length (fri_merkle_paths q ! l) = M - l)"

text \<open>A prover whose trace context is the tree of its matrix.\<close>

definition traced :: "hash_fn \<Rightarrow> nat \<Rightarrow> FriProver \<Rightarrow> bool" where
  "traced h t self \<longleftrightarrow> (\<exists>tm. trace_matrix self = Some tm \<and> length tm = 2 ^ t \<and> trace_layers self = Some (snd (build_merkle_tree_from_matrix h tm)))"

lemma matrix_tree: "length tm = 2 ^ t \<Longrightarrow> build_merkle_tree_from_matrix h tm
    = (last (levels h (map (hash_row h) tm)) ! 0, levels h (map (hash_row h) tm))"
  unfolding build_merkle_tree_from_matrix_def by (rule build_tree_exp [of _ t]) simp

lemma open_trace_ok:
  assumes "traced h t self" and "compute_trace_merkle_root h (the (trace_matrix self)) = t_root"
  shows "\<exists>path. open_trace self tree i = (Inr (the (trace_matrix self) ! (i mod 2 ^ t), path) :: ('e, _) outcome) \<and> length path = t
    \<and> verify_merkle_proof h t_root (hash_row h (the (trace_matrix self) ! (i mod 2 ^ t))) path (i mod 2 ^ t)"
proof -
  obtain tm where tm: "trace_matrix self = Some tm" "length tm = 2 ^ t" "trace_layers self = Some (levels h (map (hash_row h) tm))"
    using assms(1) matrix_tree by (auto simp: traced_def)
  let ?xs = "map (hash_row h) tm"
  have len: "length ?xs = 2 ^ t" using tm(2) by simp
  have root: "t_root = last (levels h ?xs) ! 0" using assms(2) tm(1) matrix_tree [OF tm(2)] by (simp add: compute_trace_merkle_root_def)
  have hd: "length (levels h ?xs ! 0) = 2 ^ t" using hd_levels [of h ?xs] tm(2) by (simp add: hd_conv_nth)
  have i: "i mod 2 ^ t < 2 ^ t" by simp
  have "open_trace self tree i = (Inr (tm ! (i mod 2 ^ t), path_at h ?xs (i mod 2 ^ t)) :: ('e, _) outcome)"
    using tm hd i by (simp add: open_trace_def Let_def path_at_ok(1) [OF len])
  then show ?thesis using path_at_ok(2,3) [OF len i, of h] tm(1,2) i by (simp add: root)
qed

lemma suc_le_exp: "Suc d \<le> 2 ^ d"
  by (rule Suc_leI [OF less_exp])

lemma fri_paths_ok:
  assumes "length trees = Suc M" and "\<And>l. l \<le> M \<Longrightarrow> \<exists>xs. length xs = 2 ^ (M - l) \<and> trees ! l = levels h xs"
  shows "\<exists>ps. traverse (\<lambda>(l, layer). if length layer = 0 then Panicked else generate_merkle_proof layer (drop_bit l i mod length layer))
        (zip [0..<length trees] trees) = (Inr ps :: ('e, digest list list) outcome)
      \<and> length ps = Suc M \<and> (\<forall>l\<le>M. length (ps ! l) = M - l)"
proof -
  obtain X where X: "\<And>l. l \<le> M \<Longrightarrow> length (X l) = 2 ^ (M - l) \<and> trees ! l = levels h (X l)" using assms(2) by metis
  have lens: "length (trees ! l) = Suc (M - l)" if "l \<le> M" for l using X [OF that] length_levels by metis
  let ?g = "\<lambda>(l, layer). path_at h (X l) (drop_bit l i mod length layer)"
  have "traverse (\<lambda>(l, layer). if length layer = 0 then Panicked else generate_merkle_proof layer (drop_bit l i mod length layer))
      (zip [0..<length trees] trees) = (Inr (map ?g (zip [0..<length trees] trees)) :: ('e, digest list list) outcome)"
  proof (rule traverse_map, clarify)
    fix l layer
    assume "(l, layer) \<in> set (zip [0..<length trees] trees)"
    then have l: "l \<le> M" "layer = levels h (X l)" using X assms(1) by (auto simp: set_zip less_Suc_eq_le simp del: upt_Suc)
    show "(if length layer = 0 then Panicked else generate_merkle_proof layer (drop_bit l i mod length layer))
      = (Inr (path_at h (X l) (drop_bit l i mod length layer)) :: ('e, digest list) outcome)"
      unfolding l(2) by (simp add: path_at_ok(1) [OF X [OF l(1), THEN conjunct1]])
  qed
  moreover have "length (map ?g (zip [0..<length trees] trees) ! l) = M - l" if "l \<le> M" for l
  proof -
    have "drop_bit l i mod Suc (M - l) < 2 ^ (M - l)" using suc_le_exp [of "M - l"] mod_less_divisor [of "Suc (M - l)" "drop_bit l i"] by linarith
    then show ?thesis using that path_at_ok(2) X [OF that] lens [OF that] assms(1) by (simp add: less_Suc_eq_le del: upt_Suc)
  qed
  ultimately show ?thesis using assms(1) by auto
qed

lemma open_query_ok:
  assumes "traced h t self" and "compute_trace_merkle_root h (the (trace_matrix self)) = t_root"
    and "length (domain_evaluations self) = 2 ^ M" and "i < 2 ^ M" and "length trees = Suc M"
    and "merkleize_evals h (domain_evaluations self) = (q_root, trees ! 0)"
    and "\<And>l. l \<le> M \<Longrightarrow> \<exists>xs. length xs = 2 ^ (M - l) \<and> trees ! l = levels h xs"
  shows "\<exists>q. open_query self trees i = (Inr q :: ('e, FriQueryOpening) outcome) \<and> index q = i \<and> opens h t M self t_root q_root q"
proof -
  obtain tp where tp: "open_trace self (trees ! 0) i = (Inr (the (trace_matrix self) ! (i mod 2 ^ t), tp) :: ('e, _) outcome)" "length tp = t"
    "verify_merkle_proof h t_root (hash_row h (the (trace_matrix self) ! (i mod 2 ^ t))) tp (i mod 2 ^ t)"
    using open_trace_ok [OF assms(1,2)] by blast
  obtain ps where ps: "traverse (\<lambda>(l, layer). if length layer = 0 then Panicked else generate_merkle_proof layer (drop_bit l i mod length layer))
      (zip [0..<length trees] trees) = (Inr ps :: ('e, digest list list) outcome)" "length ps = Suc M" "\<forall>l\<le>M. length (ps ! l) = M - l"
    using fri_paths_ok [OF assms(5,7)] by blast
  let ?xs = "map (leaf_hash h) (domain_evaluations self)"
  have len: "length ?xs = 2 ^ M" using assms(3) by simp
  have t0: "trees ! 0 = levels h ?xs" "q_root = last (levels h ?xs) ! 0" using assms(6) [symmetric] unfolding merkleize_exp [OF assms(3)] by simp_all
  have "open_query self trees i = (Inr \<lparr>index = i, trace_evals = the (trace_matrix self) ! (i mod 2 ^ t), quotient_evals = [domain_evaluations self ! i],
      trace_merkle_path = tp, quotient_merkle_path = path_at h ?xs i, fri_merkle_paths = ps\<rparr> :: ('e, FriQueryOpening) outcome)"
    unfolding open_query_def tp(1) ps(1) and_then_Inr unfolding t0(1) path_at_ok(1) [OF len] by simp
  moreover have "length (path_at h ?xs i) = M" "verify_merkle_proof h q_root (leaf_hash h (domain_evaluations self ! i)) (path_at h ?xs i) i"
    using path_at_ok(2,3) [OF len assms(4), of h] assms(3,4) by (simp_all add: t0(2))
  ultimately show ?thesis using tp(2,3) ps(2,3) assms(4) by (simp add: opens_def)
qed

lemma query_loop_ok:
  assumes "\<And>i. i < 2 ^ M \<Longrightarrow> \<exists>q. open_query self trees i = (Inr q :: ('e, FriQueryOpening) outcome) \<and> index q = i \<and> opens h t M self t_root q_root q"
    and "length (domain_evaluations self) = 2 ^ M"
  shows "\<exists>qs ch'. query_loop h n self trees ch = (Inr (qs, ch') :: ('e, _) outcome) \<and> length qs = n \<and> list_all (opens h t M self t_root q_root) qs"
proof (induction n arbitrary: ch)
  case (Suc n)
  obtain c ch1 where s: "sample_ext h ch = (c, ch1)" by (cases "sample_ext h ch")
  have "unat c mod 2 ^ M < 2 ^ M" by simp
  then obtain q where q: "open_query self trees (unat c mod 2 ^ M) = (Inr q :: ('e, FriQueryOpening) outcome)" "opens h t M self t_root q_root q"
    using assms(1) by blast
  obtain qs ch' where qs: "query_loop h n self trees ch1 = (Inr (qs, ch') :: ('e, _) outcome)" "length qs = n" "list_all (opens h t M self t_root q_root) qs"
    using Suc by blast
  show ?case using q qs by (simp add: s assms(2))
qed simp

lemma fri_proof_ok:
  assumes "evals_of M C (domain_evaluations self)" and "M \<le> 32"
    and "traced h t self" and "compute_trace_merkle_root h (the (trace_matrix self)) = t_root"
  shows "\<exists>proof ch'. fri_generate_proof h self ch = (Inr (proof, ch') :: ('e, FriProof \<times> Challenger) outcome)
    \<and> length (layer_roots proof) = Suc M
    \<and> (let bs = map gval (betas_of h (tl (layer_roots proof)) (observe_slice (hd (layer_roots proof)) ch))
       in (\<forall>l\<le>M. \<exists>tree. committed h (M - l) (fold_coeffs (take l bs) C) (layer_roots proof ! l) tree)
        \<and> canonical_gf (final_poly proof) \<and> gval (final_poly proof) = fold_coeffs bs C 0)
    \<and> length (queries proof) = 40 \<and> list_all (opens h t M self t_root (hd (layer_roots proof))) (queries proof)"
proof -
  let ?dom = "domain_evaluations self"
  have len: "length ?dom = 2 ^ M" using assms(1) by (simp add: evals_of_def)
  obtain r0 t0 where m: "merkleize_evals h ?dom = (r0, t0)" by (cases "merkleize_evals h ?dom")
  obtain c rs ts ch1 where f: "fold_loop h inv2 ?dom (2 ^ M) [r0] [t0] (observe_slice r0 ch) = (Inr ([c], [r0] @ rs, [t0] @ ts, ch1) :: ('e, _) outcome)"
    "length rs = M" "length ts = M" "canonical_gf c" "gval c = fold_coeffs (map gval (betas_of h rs (observe_slice r0 ch))) C 0"
    "\<forall>l<M. committed h (M - Suc l) (fold_coeffs (take (Suc l) (map gval (betas_of h rs (observe_slice r0 ch)))) C) (rs ! l) (ts ! l)"
    using fold_loop_val [OF assms(1,2), of h "[r0]" "[t0]" "observe_slice r0 ch"] by blast
  have com: "committed h (M - l) (fold_coeffs (take l (map gval (betas_of h rs (observe_slice r0 ch)))) C) ((r0 # rs) ! l) ((t0 # ts) ! l)" if "l \<le> M" for l
    using that f(6) assms(1) m by (cases l) (auto simp: committed_def)
  have tree: "\<exists>xs. length xs = 2 ^ (M - l) \<and> (t0 # ts) ! l = levels h xs" if l: "l \<le> M" for l
  proof -
    obtain es where "length es = 2 ^ (M - l)" "snd (merkleize_evals h es) = (t0 # ts) ! l"
      using com [OF l] unfolding committed_def evals_of_def by (metis snd_conv)
    then show ?thesis using merkleize_exp [of es "M - l" h] by (intro exI [of _ "map (leaf_hash h) es"]) simp
  qed
  have "\<exists>qs ch'. query_loop h 40 self (t0 # ts) (challenger_observe c ch1) = (Inr (qs, ch') :: ('e, _) outcome) \<and> length qs = 40
      \<and> list_all (opens h t M self t_root r0) qs"
    by (rule query_loop_ok [OF open_query_ok [OF assms(3,4) len _ _ _ tree] len]) (use f(3) m in simp_all)
  then obtain qs ch' where qs: "query_loop h NUM_FRI_QUERIES self (t0 # ts) (challenger_observe c ch1) = (Inr (qs, ch') :: ('e, _) outcome)" "length qs = 40"
      "list_all (opens h t M self t_root r0) qs" unfolding NUM_FRI_QUERIES_def by blast
  have "fri_generate_proof h self ch = (Inr (\<lparr>layer_roots = r0 # rs, queries = qs, final_poly = c\<rparr>, ch') :: ('e, FriProof \<times> Challenger) outcome)"
    using f(1) qs(1) by (simp add: fri_generate_proof_def m len invert_two Let_def)
  then show ?thesis using f(2,4,5) com qs(2,3)
    by (intro exI [of _ "\<lparr>layer_roots = r0 # rs, queries = qs, final_poly = c\<rparr>"] exI [of _ ch']) (auto simp: Let_def)
qed

section \<open>Properties\<close>

text \<open>
  C13: FRI is folded and opened correctly: for evaluations of a polynomial on the subgroup of order \<open>2 ^ M\<close> and a
  trace context of \<open>2 ^ t\<close> rows the prover returns; the root of layer \<open>l\<close> commits to the evaluations, on
  the subgroup of order \<open>2 ^ (M - l)\<close>, of the polynomial folded with the first \<open>l\<close> challenges of the
  transcript, the constant is the polynomial folded to degree 0, and each of the 40 openings shows the row and the
  evaluation at its index, with paths that the Merkle check accepts.
\<close>

theorem fri_proof_correct:
  assumes "evals_of M C (domain_evaluations self)" and "M \<le> 32"
    and "traced keccak256 t self" and "compute_trace_merkle_root keccak256 (the (trace_matrix self)) = t_root"
  shows "\<exists>proof ch'. fri_generate_proof keccak256 self ch = (Inr (proof, ch') :: (unit, FriProof \<times> Challenger) outcome)
    \<and> length (layer_roots proof) = Suc M
    \<and> (let bs = map gval (betas_of keccak256 (tl (layer_roots proof)) (observe_slice (hd (layer_roots proof)) ch))
       in (\<forall>l\<le>M. \<exists>tree. committed keccak256 (M - l) (fold_coeffs (take l bs) C) (layer_roots proof ! l) tree)
        \<and> canonical_gf (final_poly proof) \<and> gval (final_poly proof) = fold_coeffs bs C 0)
    \<and> length (queries proof) = 40 \<and> list_all (opens keccak256 t M self t_root (hd (layer_roots proof))) (queries proof)"
  using assms by (rule fri_proof_ok)

definition sample_prover :: FriProver where
  "sample_prover = \<lparr>domain_evaluations = [5, 5], trace_matrix = Some [[1], [2]],
    trace_layers = Some (snd (build_merkle_tree_from_matrix sample_hash [[1], [2]]))\<rparr>"

theorem fri_proof_correct_witness:
  "\<exists>proof ch'. fri_generate_proof sample_hash sample_prover new_challenger = (Inr (proof, ch') :: (unit, FriProof \<times> Challenger) outcome)
    \<and> final_poly proof = 5 \<and> length (layer_roots proof) = 2 \<and> length (queries proof) = 40"
proof -
  let ?C = "\<lambda>j. if j = 0 then 5 else 0 :: fp"
  have "evals_of 1 ?C (domain_evaluations sample_prover)"
  proof -
    have "{..<2 :: nat} = {0, 1}" by auto
    then have "dft (groot 1) 2 ?C k = gval 5" for k by (simp add: dft_def) (simp add: gval_def)
    moreover have "[5, 5] ! k = (5 :: GoldilocksField)" if "k < 2" for k using that by (cases k) simp_all
    ultimately show ?thesis by (simp add: evals_of_def sample_prover_def canonical_gf_def GOLDILOCKS_PRIME_def vals_def)
  qed
  moreover have "traced sample_hash 1 sample_prover" by (simp add: traced_def sample_prover_def)
  ultimately obtain p ch' where p: "fri_generate_proof sample_hash sample_prover new_challenger = (Inr (p, ch') :: (unit, FriProof \<times> Challenger) outcome)"
    "length (layer_roots p) = Suc 1" "length (queries p) = 40" "canonical_gf (final_poly p)"
    "gval (final_poly p) = fold_coeffs (map gval (betas_of sample_hash (tl (layer_roots p)) (observe_slice (hd (layer_roots p)) new_challenger))) ?C 0"
    using fri_proof_correct [of 1 ?C sample_prover sample_hash 1 _ new_challenger] by (auto simp: Let_def)
  obtain a b where "layer_roots p = [a, b]" using p(2) by (auto simp: length_Suc_conv)
  then have "gval (final_poly p) = gval 5" using p(5) by (simp add: fold_once_def) (simp add: gval_def)
  then have "final_poly p = 5" using p(4) by (subst (asm) gval_eq) (simp_all add: canonical_gf_def GOLDILOCKS_PRIME_def)
  then show ?thesis using p(1-3) by simp
qed

end
