(* ===== verification/Stark.thy ===== *)
theory Stark
  imports StarkQuotient Fri "HOL-Library.Countable"
begin

text \<open>
  The STARK prover and verifier (\<open>solomon-zk/src/prover.rs\<close>, \<open>solomon-zk/src/verifier.rs\<close>), on top of trace,
  quotient, extension, FRI and transcript.  The JSON codec of \<open>serde_json\<close> is a pair of parameters:
  \<open>to_vec\<close> (\<open>None\<close> for an error) and \<open>from_slice\<close>.
\<close>

section \<open>The prover\<close>

definition keccak_seed :: "bytes \<Rightarrow> bytes" where
  "keccak_seed public_key = (if length public_key \<ge> 32 then take 32 public_key else replicate 32 0)"

definition generate_stark_proof :: "hash_fn \<Rightarrow> (StarkProof \<Rightarrow> bytes option) \<Rightarrow> bytes \<Rightarrow> bytes \<Rightarrow> bytes \<Rightarrow> ('e, bytes) outcome" where
  "generate_stark_proof keccak256 to_vec signature public_key message =
    and_then (ingest_signature signature new_trace_builder) (\<lambda>trace_builder.
    let (trace_merkle_root, layers) = build_merkle_tree_from_matrix keccak256 (matrix trace_builder);
        challenger = observe_slice trace_merkle_root (observe_slice message (observe_slice public_key new_challenger));
        (als, challenger) = sample_alphas keccak256 4 challenger;
        (zt, challenger) = sample_ext keccak256 challenger;
        keccak_rows = generate_keccak_rows (keccak_seed public_key)
    in and_then (evaluate_with_keccak_rows \<lparr>alphas = als, zeta = zt\<rparr> (matrix trace_builder) keccak_rows) (\<lambda>q_evals.
       and_then (generate_lde q_evals 4) (\<lambda>lde_evals.
       and_then (new_fri_prover lde_evals) (\<lambda>fri_prover.
       and_then (fri_generate_proof keccak256 (set_trace_context (matrix trace_builder) layers fri_prover) challenger) (\<lambda>(fri, _).
       let q_root = (if layer_roots fri \<noteq> [] then layer_roots fri ! 0 else zero_digest);
           stark_proof = \<lparr>trace_root = trace_merkle_root, quotient_root = q_root, fri_proof = fri\<rparr>
       in Inr (case to_vec stark_proof of Some v \<Rightarrow> v | None \<Rightarrow> replicate 128 0))))))"

section \<open>The verifier\<close>

datatype StarkVerificationError = InvalidProofPayload | InvalidFieldElement | NullMerkleRoot | AlphaChallengeMismatch
  | ZetaChallengeMismatch | VanishingPolynomialZero | FriFoldingMismatch | FiatShamirIndexMismatch
  | TraceMerkleDecommitmentFailed | QuotientMerkleDecommitmentFailed | FriColinearityCheckFailed

text \<open>\<open>1 << n\<close> on \<open>usize\<close>: the shift amount is taken modulo 64.\<close>

definition usize_shl1 :: "nat \<Rightarrow> nat" where
  "usize_shl1 n = 2 ^ (n mod 64)"

fun replay_roots :: "hash_fn \<Rightarrow> nat \<Rightarrow> nat \<Rightarrow> digest list \<Rightarrow> GoldilocksField list \<Rightarrow> Challenger \<Rightarrow> GoldilocksField list \<times> Challenger" where
  "replay_roots keccak256 num_fold_rounds k [] fri_betas challenger = (fri_betas, challenger)"
| "replay_roots keccak256 num_fold_rounds k (root # roots) fri_betas challenger =
    (let challenger = observe_slice root challenger
     in if k < num_fold_rounds
        then let (beta, challenger) = sample_ext keccak256 challenger
             in replay_roots keccak256 num_fold_rounds (Suc k) roots (fri_betas @ [beta]) challenger
        else replay_roots keccak256 num_fold_rounds (Suc k) roots fri_betas challenger)"

definition check_trace :: "hash_fn \<Rightarrow> digest \<Rightarrow> FriQueryOpening \<Rightarrow> (StarkVerificationError, unit) outcome" where
  "check_trace keccak256 root query =
    (if trace_evals query = [] \<or> trace_merkle_path query = [] then Err FriColinearityCheckFailed
     else let trace_leaf = hash_row keccak256 (trace_evals query);
              trace_depth = length (trace_merkle_path query);
              trace_idx = (if trace_depth > 0 then index query mod usize_shl1 trace_depth else 0)
          in if \<not> verify_merkle_proof keccak256 root trace_leaf (trace_merkle_path query) trace_idx
             then Err TraceMerkleDecommitmentFailed else Inr ())"

definition check_quotient :: "hash_fn \<Rightarrow> digest list \<Rightarrow> FriQueryOpening \<Rightarrow> (StarkVerificationError, unit) outcome" where
  "check_quotient keccak256 roots query =
    (case roots of [] \<Rightarrow> Inr () | layer_0_root # _ \<Rightarrow>
      (case quotient_evals query of [] \<Rightarrow> Inr () | eval # _ \<Rightarrow>
        let q_leaf = keccak256 (le_bytes 8 (unat eval));
            q_depth = length (quotient_merkle_path query);
            q_idx = (if q_depth > 0 then index query mod usize_shl1 q_depth else 0)
        in if \<not> verify_merkle_proof keccak256 layer_0_root q_leaf (quotient_merkle_path query) q_idx
           then Err QuotientMerkleDecommitmentFailed else Inr ()))"

text \<open>The loop over the layers; the value it carries along is never used.\<close>

fun colinearity_loop :: "FriQueryOpening \<Rightarrow> nat \<Rightarrow> GoldilocksField list \<Rightarrow> nat \<Rightarrow> nat \<Rightarrow> (StarkVerificationError, unit) outcome" where
  "colinearity_loop query k [] current_idx current_domain_len = Inr ()"
| "colinearity_loop query k (beta # betas) current_idx current_domain_len =
    (if k + 1 \<ge> length (fri_merkle_paths query) then Inr ()
     else let half = current_domain_len div 2
          in if half = 0 then Panicked
             else let i = current_idx mod half
                  in and_then (get_root_of_unity current_domain_len) (\<lambda>omega.
                     let x = gexp omega (word_of_nat i)
                     in if k + 1 < length (fri_merkle_paths query) - 1 \<and> fri_merkle_paths query ! (k + 1) = []
                        then Err FriColinearityCheckFailed
                        else if k + 2 = length (fri_merkle_paths query) \<and> x = 0 then Err FriFoldingMismatch
                        else colinearity_loop query (k + 1) betas i half))"

definition check_colinearity :: "GoldilocksField list \<Rightarrow> FriQueryOpening \<Rightarrow> (StarkVerificationError, unit) outcome" where
  "check_colinearity fri_betas query =
    (if length (fri_merkle_paths query) \<ge> 2
     then if quotient_evals query = [] then Err FriColinearityCheckFailed
          else colinearity_loop query 0 fri_betas (index query) (usize_shl1 (length (fri_merkle_paths query)))
     else Inr ())"

fun check_queries :: "hash_fn \<Rightarrow> StarkProof \<Rightarrow> GoldilocksField list \<Rightarrow> FriQueryOpening list \<Rightarrow> (StarkVerificationError, bool) outcome" where
  "check_queries keccak256 sp fri_betas [] = Inr True"
| "check_queries keccak256 sp fri_betas (query # rest) =
    and_then (check_trace keccak256 (trace_root sp) query) (\<lambda>_.
    and_then (check_quotient keccak256 (layer_roots (fri_proof sp)) query) (\<lambda>_.
    and_then (check_colinearity fri_betas query) (\<lambda>_.
    check_queries keccak256 sp fri_betas rest)))"

definition verify_stark_proof :: "hash_fn \<Rightarrow> (bytes \<Rightarrow> StarkProof option) \<Rightarrow> bytes \<Rightarrow> bytes \<Rightarrow> bytes \<Rightarrow> (StarkVerificationError, bool) outcome" where
  "verify_stark_proof keccak256 from_slice proof_bytes public_key message =
    (case from_slice proof_bytes of None \<Rightarrow> Err InvalidProofPayload | Some sp \<Rightarrow>
     if trace_root sp = zero_digest then Err NullMerkleRoot
     else if final_poly (fri_proof sp) \<ge> GOLDILOCKS_PRIME then Err InvalidFieldElement
     else if queries (fri_proof sp) = [] then Err InvalidProofPayload
     else let challenger = observe_slice (trace_root sp) (observe_slice message (observe_slice public_key new_challenger));
              (expected_alphas, challenger) = sample_alphas keccak256 4 challenger;
              (expected_zeta, challenger) = sample_ext keccak256 challenger
          in if list_all (\<lambda>a. a = 0) expected_alphas then Err AlphaChallengeMismatch
             else if expected_zeta = 0 then Err ZetaChallengeMismatch
             else let roots = layer_roots (fri_proof sp);
                      num_fold_rounds = length roots - 1;
                      (fri_betas, challenger) = replay_roots keccak256 num_fold_rounds 0 roots [] challenger
                  in and_then (invert (from_u64 2)) (\<lambda>_. check_queries keccak256 sp fri_betas (queries (fri_proof sp))))"

section \<open>What the checks ask for\<close>

text \<open>The challenges that prover and verifier draw after the commitment to the trace.\<close>

definition challenges :: "hash_fn \<Rightarrow> bytes \<Rightarrow> bytes \<Rightarrow> digest \<Rightarrow> GoldilocksField list \<times> GoldilocksField" where
  "challenges h public_key message root =
    (let (als, ch) = sample_alphas h 4 (observe_slice root (observe_slice message (observe_slice public_key new_challenger)))
     in (als, fst (sample_ext h ch)))"

definition challenges_ok :: "GoldilocksField list \<times> GoldilocksField \<Rightarrow> bool" where
  "challenges_ok c \<longleftrightarrow> (\<exists>a\<in>set (fst c). a \<noteq> 0) \<and> snd c \<noteq> 0"

definition trace_opened :: "hash_fn \<Rightarrow> digest \<Rightarrow> FriQueryOpening \<Rightarrow> bool" where
  "trace_opened h root q \<longleftrightarrow> trace_evals q \<noteq> [] \<and> trace_merkle_path q \<noteq> []
    \<and> verify_merkle_proof h root (hash_row h (trace_evals q)) (trace_merkle_path q) (index q mod 2 ^ (length (trace_merkle_path q) mod 64))"

definition quotient_opened :: "hash_fn \<Rightarrow> digest list \<Rightarrow> FriQueryOpening \<Rightarrow> bool" where
  "quotient_opened h roots q \<longleftrightarrow> roots = [] \<or> quotient_evals q = []
    \<or> verify_merkle_proof h (hd roots) (leaf_hash h (hd (quotient_evals q))) (quotient_merkle_path q)
        (if quotient_merkle_path q = [] then 0 else index q mod 2 ^ (length (quotient_merkle_path q) mod 64))"

text \<open>Of the layers of FRI only the number of paths and their being non-empty is looked at.\<close>

definition rounds_ok :: "nat \<Rightarrow> nat \<Rightarrow> nat \<Rightarrow> FriQueryOpening \<Rightarrow> bool" where
  "rounds_ok e k rounds q \<longleftrightarrow>
    (rounds = 0 \<or> e \<le> 32 \<and> rounds \<le> e)
    \<and> (\<forall>j<rounds. k + j + 1 < length (fri_merkle_paths q) - 1 \<longrightarrow> fri_merkle_paths q ! (k + j + 1) \<noteq> [])"

definition layers_shaped :: "nat \<Rightarrow> FriQueryOpening \<Rightarrow> bool" where
  "layers_shaped n_roots q \<longleftrightarrow> length (fri_merkle_paths q) < 2
    \<or> quotient_evals q \<noteq> [] \<and> rounds_ok (length (fri_merkle_paths q) mod 64) 0 (min (n_roots - 1) (length (fri_merkle_paths q) - 1)) q"

lemma rounds_ok_Suc:
  "rounds_ok e k (Suc r) q \<longleftrightarrow> (\<exists>e'. e = Suc e' \<and> e \<le> 32 \<and> rounds_ok e' (Suc k) r q)
    \<and> (k + 1 < length (fri_merkle_paths q) - 1 \<longrightarrow> fri_merkle_paths q ! (k + 1) \<noteq> [])"
  unfolding rounds_ok_def All_less_Suc2 by (cases e) (auto simp: add.assoc)

lemma gexp_root_nonzero: "m \<le> 32 \<Longrightarrow> gexp (gomega m) w \<noteq> 0"
  by (rule gval_nonzero) (simp add: gexp_gval gomega_gval groot_nonzero)

lemma colinearity_step:
  assumes "k + 1 < length (fri_merkle_paths q)"
  shows "colinearity_loop q k (b # bs) idx (2 ^ 0) = Panicked"
    "Suc e \<le> 32 \<Longrightarrow> colinearity_loop q k (b # bs) idx (2 ^ Suc e) =
      (if k + 1 < length (fri_merkle_paths q) - 1 \<and> fri_merkle_paths q ! (k + 1) = [] then Err FriColinearityCheckFailed
       else colinearity_loop q (Suc k) bs (idx mod 2 ^ e) (2 ^ e))"
    "\<not> Suc e \<le> 32 \<Longrightarrow> colinearity_loop q k (b # bs) idx (2 ^ Suc e) = Panicked"
proof -
  show "colinearity_loop q k (b # bs) idx (2 ^ 0) = Panicked" using assms by simp
  have half: "(2 :: nat) ^ Suc e div 2 = 2 ^ e" by simp
  show "colinearity_loop q k (b # bs) idx (2 ^ Suc e) =
      (if k + 1 < length (fri_merkle_paths q) - 1 \<and> fri_merkle_paths q ! (k + 1) = [] then Err FriColinearityCheckFailed
       else colinearity_loop q (Suc k) bs (idx mod 2 ^ e) (2 ^ e))" if e: "Suc e \<le> 32"
    unfolding colinearity_loop.simps half get_root_exp [OF e] using assms gexp_root_nonzero [OF e] by (simp add: Let_def)
  show "colinearity_loop q k (b # bs) idx (2 ^ Suc e) = Panicked" if "\<not> Suc e \<le> 32"
  proof -
    have "\<not> (2 :: nat) ^ Suc e \<le> 2 ^ 32" using that power_increasing_iff [of "2 :: nat" "Suc e" 32] by (simp del: power_Suc power_increasing_iff)
    then have "get_root_of_unity (2 ^ Suc e) = (Panicked :: (StarkVerificationError, u64) outcome)"
      by (simp only: get_root_of_unity_def simp_thms if_False)
    then show ?thesis unfolding colinearity_loop.simps half using assms by (simp add: Let_def)
  qed
qed

lemma colinearity_loop_ok:
  "colinearity_loop q k bs idx (2 ^ e) = Inr () \<longleftrightarrow> rounds_ok e k (min (length bs) (length (fri_merkle_paths q) - Suc k)) q"
proof (induction bs arbitrary: k idx e)
  case Nil
  show ?case by (simp add: rounds_ok_def)
next
  case (Cons b bs)
  let ?n = "length (fri_merkle_paths q)"
  show ?case
  proof (cases "k + 1 \<ge> ?n")
    case True
    then show ?thesis by (simp add: rounds_ok_def)
  next
    case False
    then have r: "min (length (b # bs)) (?n - Suc k) = Suc (min (length bs) (?n - Suc (Suc k)))" by simp
    have k: "k + 1 < ?n" using False by simp
    show ?thesis
    proof (cases e)
      case 0
      then show ?thesis unfolding r rounds_ok_Suc using colinearity_step(1) [OF k] by simp
    next
      case (Suc e')
      show ?thesis unfolding r rounds_ok_Suc Suc
        by (cases "Suc e' \<le> 32") (auto simp: colinearity_step(2,3) [OF k] Cons simp del: power_Suc colinearity_loop.simps)
    qed
  qed
qed

lemma check_trace_ok: "check_trace h root q = Inr () \<longleftrightarrow> trace_opened h root q"
  by (simp add: check_trace_def trace_opened_def Let_def usize_shl1_def)

lemma check_quotient_ok: "check_quotient h roots q = Inr () \<longleftrightarrow> quotient_opened h roots q"
  by (auto simp: check_quotient_def quotient_opened_def Let_def usize_shl1_def split: list.splits)

lemma check_colinearity_ok: "check_colinearity bs q = Inr () \<longleftrightarrow> layers_shaped (Suc (length bs)) q"
  unfolding check_colinearity_def layers_shaped_def usize_shl1_def colinearity_loop_ok by (simp add: colinearity_loop_ok)

lemma check_queries_ok:
  "check_queries h p bs qs = Inr b \<longleftrightarrow> b \<and> list_all (\<lambda>q. trace_opened h (trace_root p) q \<and> quotient_opened h (layer_roots (fri_proof p)) q
    \<and> layers_shaped (Suc (length bs)) q) qs"
  by (induction qs) (auto simp: and_then_eq_Inr check_trace_ok [symmetric] check_quotient_ok [symmetric] check_colinearity_ok [symmetric])

lemma length_replay: "length (fst (replay_roots h n k roots bs ch)) = length bs + min (length roots) (n - k)"
proof (induction roots arbitrary: k bs ch)
  case (Cons root roots)
  show ?case by (cases "k < n") (auto simp: Let_def split_def Cons)
qed simp

lemma layers_shaped_rounds: "n - 1 = m - 1 \<Longrightarrow> layers_shaped n q \<longleftrightarrow> layers_shaped m q"
  by (simp add: layers_shaped_def)

lemma stark_accepts_iff:
  "verify_stark_proof keccak256 from_slice bs public_key message = Inr b \<longleftrightarrow>
    b \<and> (\<exists>p. from_slice bs = Some p \<and> trace_root p \<noteq> zero_digest \<and> canonical_gf (final_poly (fri_proof p)) \<and> queries (fri_proof p) \<noteq> []
      \<and> challenges_ok (challenges keccak256 public_key message (trace_root p))
      \<and> list_all (\<lambda>q. trace_opened keccak256 (trace_root p) q \<and> quotient_opened keccak256 (layer_roots (fri_proof p)) q
          \<and> layers_shaped (length (layer_roots (fri_proof p))) q) (queries (fri_proof p)))"
proof (cases "from_slice bs")
  case None
  then show ?thesis by (simp add: verify_stark_proof_def)
next
  case (Some p)
  let ?ch = "observe_slice (trace_root p) (observe_slice message (observe_slice public_key new_challenger))" and ?roots = "layer_roots (fri_proof p)"
  obtain als ch1 where a: "sample_alphas keccak256 4 ?ch = (als, ch1)" by (cases "sample_alphas keccak256 4 ?ch")
  obtain z ch2 where z: "sample_ext keccak256 ch1 = (z, ch2)" by (cases "sample_ext keccak256 ch1")
  obtain betas ch3 where r: "replay_roots keccak256 (length ?roots - 1) 0 ?roots [] ch2 = (betas, ch3)" by (cases "replay_roots keccak256 (length ?roots - 1) 0 ?roots [] ch2")
  have "length betas = min (length ?roots) (length ?roots - 1)" using length_replay [of keccak256 "length ?roots - 1" 0 ?roots "[]" ch2] unfolding r by simp
  then have shaped: "layers_shaped (Suc (length betas)) q \<longleftrightarrow> layers_shaped (length ?roots) q" for q by (intro layers_shaped_rounds) simp
  have ok: "challenges_ok (challenges keccak256 public_key message (trace_root p)) \<longleftrightarrow> \<not> list_all (\<lambda>a. a = 0) als \<and> z \<noteq> 0"
    by (auto simp: challenges_ok_def challenges_def a z list_all_iff)
  show ?thesis using check_queries_ok [of keccak256 p betas "queries (fri_proof p)" b]
    by (auto simp: verify_stark_proof_def Some a z r invert_two Let_def canonical_gf_def not_le shaped ok simp del: One_nat_def)
qed

text \<open>The trace root of a signature.\<close>

definition root_of_signature :: "hash_fn \<Rightarrow> bytes \<Rightarrow> digest" where
  "root_of_signature h signature =
    (case ingest_signature signature new_trace_builder :: (unit, TraceBuilder) outcome of
      Inl e \<Rightarrow> zero_digest | Inr tb \<Rightarrow> compute_trace_merkle_root h (matrix tb))"

lemma opens_accepted:
  assumes "opens h t M self t_root (hd roots) q" and "0 < t" and "t < 64" and "0 < M" and "M \<le> 31" and "length roots = Suc M"
    and "the (trace_matrix self) ! (index q mod 2 ^ t) \<noteq> []"
  shows "trace_opened h t_root q \<and> quotient_opened h roots q \<and> layers_shaped (length roots) q"
proof -
  note o = assms(1) [unfolded opens_def]
  have tr: "trace_opened h t_root q" using o assms(2,3,7) by (auto simp: trace_opened_def)
  have "M mod 64 = M" using assms(5) by simp
  then have qu: "quotient_opened h roots q" using o assms(4) by (auto simp: quotient_opened_def)
  have ne: "fri_merkle_paths q ! (j + 1) \<noteq> []" if "j < M" "j + 1 < Suc M - 1" for j
  proof -
    have "length (fri_merkle_paths q ! (j + 1)) = M - (j + 1)" using o that by simp
    then show ?thesis using that by auto
  qed
  have "Suc M mod 64 = Suc M" using assms(5) by simp
  then have "layers_shaped (length roots) q" using o ne assms(4-6) by (auto simp: layers_shaped_def rounds_ok_def)
  then show ?thesis using tr qu by blast
qed

lemma keccak_rows_24: "length (generate_keccak_rows seed) = 24"
  using keccak_rows_loop_eq [OF length_seed_state, of 0 seed] by (simp add: generate_keccak_rows_def del: upt_Suc upt_rec_numeral)

text \<open>The steps of the prover before FRI, on a signature of the right length and off the domain.\<close>

lemma prover_extension:
  assumes "gval (snd c) ^ 262144 \<noteq> 1" and "length (fst c) = 4" and "length mat = 1024"
  obtains q_evals lde where
    "evaluate_with_keccak_rows \<lparr>alphas = fst c, zeta = snd c\<rparr> mat (generate_keccak_rows seed) = (Inr q_evals :: ('e, GoldilocksField list) outcome)"
    "generate_lde q_evals 4 = (Inr lde :: ('e, GoldilocksField list) outcome)" "length lde = 2 ^ 20" "canon lde"
proof -
  obtain es where es: "evaluate_with_keccak_rows \<lparr>alphas = fst c, zeta = snd c\<rparr> mat (generate_keccak_rows seed) = (Inr es :: ('e, GoldilocksField list) outcome)"
    "length es = 262144" "canon es"
    by (rule evaluate_domain [of "\<lparr>alphas = fst c, zeta = snd c\<rparr>" mat "generate_keccak_rows seed"]) (use assms keccak_rows_24 in simp_all)
  have "generate_lde es (2 ^ 2) = (Inr (concat (replicate (2 ^ 2) es)) :: ('e, GoldilocksField list) outcome)"
    using es(2,3) by (intro lde_repeats [of _ 18]) simp_all
  moreover have "length (concat (replicate (2 ^ 2) es)) = 2 ^ 20" using es(2) by (simp add: length_concat sum_list_replicate)
  moreover have "canon (concat (replicate (2 ^ 2) es))" using es(3) by (auto simp: list_all_iff)
  ultimately show ?thesis using that [OF es(1), of "concat (replicate (2 ^ 2) es)"] by simp
qed

lemma length_sample_alphas: "length (fst (sample_alphas h n ch)) = n"
  by (induction n arbitrary: ch) (auto simp: Let_def split_def)

section \<open>Properties\<close>


lemma signature_matrix:
  assumes "length signature = 3309"
  shows "\<exists>mat. ingest_signature signature new_trace_builder = (Inr \<lparr>matrix = mat\<rparr> :: (StarkVerificationError, TraceBuilder) outcome) \<and>
    length mat = 2 ^ 10 \<and> (\<forall>i<1024. mat ! i \<noteq> []) \<and> root_of_signature keccak256 signature = compute_trace_merkle_root keccak256 mat"
proof -
  obtain rows where run: "ingest_signature signature new_trace_builder = (Inr \<lparr>matrix = rows @ replicate 384 (replicate 8 0)\<rparr> :: (StarkVerificationError, TraceBuilder) outcome)"
    and rows: "length rows = 640" "list_all (\<lambda>row. length row = 8 \<and> list_all canonical_gf row) rows"
    using ingest_ok [OF assms] by blast
  define mat where "mat = rows @ replicate 384 (replicate 8 0 :: GoldilocksField list)"
  have "length mat = 2 ^ 10" "\<forall>i<1024. mat ! i \<noteq> []"
    using rows by (auto simp: mat_def nth_append list_all_length)
  moreover have "ingest_signature signature new_trace_builder = (Inr \<lparr>matrix = mat\<rparr> :: (unit, TraceBuilder) outcome)"
    using run by (simp add: mat_def ingest_signature_def assms Let_def)
  then have "root_of_signature keccak256 signature = compute_trace_merkle_root keccak256 mat"
    by (simp add: root_of_signature_def)
  ultimately show ?thesis using run unfolding mat_def by blast
qed

text \<open>A run of the prover up to the encoding, and what its openings satisfy.\<close>

lemma honest_run:
  assumes "length signature = 3309" and root: "root = root_of_signature keccak256 signature"
    and off: "gval (snd (challenges keccak256 public_key message root)) ^ 262144 \<noteq> 1"
  obtains fri self mat where "length (layer_roots fri) = Suc 20" "canonical_gf (final_poly fri)" "queries fri \<noteq> []"
    "list_all (opens keccak256 10 20 self root (hd (layer_roots fri))) (queries fri)"
    "trace_matrix self = Some mat" "\<forall>i<1024. mat ! i \<noteq> []"
    "\<And>to_vec bs. to_vec \<lparr>trace_root = root, quotient_root = layer_roots fri ! 0, fri_proof = fri\<rparr> = Some bs \<Longrightarrow>
      generate_stark_proof keccak256 to_vec signature public_key message = (Inr bs :: (StarkVerificationError, bytes) outcome)"
proof -
  obtain mat where run: "ingest_signature signature new_trace_builder = (Inr \<lparr>matrix = mat\<rparr> :: (StarkVerificationError, TraceBuilder) outcome)"
    and mat: "length mat = 2 ^ 10" "\<forall>i<1024. mat ! i \<noteq> []" and "root = compute_trace_merkle_root keccak256 mat"
    using signature_matrix [OF assms(1), of keccak256] root by blast
  then obtain layers where tree: "build_merkle_tree_from_matrix keccak256 mat = (root, layers)"
    by (cases "build_merkle_tree_from_matrix keccak256 mat") (simp add: compute_trace_merkle_root_def)
  let ?ch = "observe_slice root (observe_slice message (observe_slice public_key new_challenger))"
  obtain als ch1 where a: "sample_alphas keccak256 4 ?ch = (als, ch1)" by (cases "sample_alphas keccak256 4 ?ch")
  obtain z ch2 where z: "sample_ext keccak256 ch1 = (z, ch2)" by (cases "sample_ext keccak256 ch1")
  have c: "challenges keccak256 public_key message root = (als, z)" by (simp add: challenges_def a z)
  have "length als = 4" using length_sample_alphas [of keccak256 4 ?ch] by (simp add: a)
  then obtain q_evals lde where q: "evaluate_with_keccak_rows \<lparr>alphas = als, zeta = z\<rparr> mat (generate_keccak_rows (keccak_seed public_key)) = (Inr q_evals :: (StarkVerificationError, _) outcome)"
    "generate_lde q_evals 4 = (Inr lde :: (StarkVerificationError, _) outcome)" "length lde = 2 ^ 20" "canon lde"
    using prover_extension [of "(als, z)" mat "keccak_seed public_key"] off mat(1) by (auto simp: c)
  define self where "self = set_trace_context mat layers \<lparr>domain_evaluations = lde, trace_matrix = None, trace_layers = None\<rparr>"
  have self: "domain_evaluations self = lde" "trace_matrix self = Some mat" "traced keccak256 10 self"
    using mat(1) tree by (simp_all add: self_def set_trace_context_def traced_def)
  obtain C where "evals_of 20 C lde" using evals_of_exists [OF q(3) _ q(4)] by auto
  then obtain fri ch' where f: "fri_generate_proof keccak256 self ch2 = (Inr (fri, ch') :: (StarkVerificationError, _) outcome)"
    "length (layer_roots fri) = Suc 20" "canonical_gf (final_poly fri)" "length (queries fri) = 40" "list_all (opens keccak256 10 20 self root (hd (layer_roots fri))) (queries fri)"
    using fri_proof_ok [of 20 C self keccak256 10 root ch2] self tree by (auto simp: Let_def compute_trace_merkle_root_def)
  have "new_fri_prover lde = (Inr \<lparr>domain_evaluations = lde, trace_matrix = None, trace_layers = None\<rparr> :: (StarkVerificationError, _) outcome)"
    "layer_roots fri \<noteq> []" "queries fri \<noteq> []" using q(3) f(2,4) by (auto simp: new_fri_prover_def)
  then have "generate_stark_proof keccak256 to_vec signature public_key message = (Inr bs :: (StarkVerificationError, bytes) outcome)"
    if "to_vec \<lparr>trace_root = root, quotient_root = layer_roots fri ! 0, fri_proof = fri\<rparr> = Some bs" for to_vec bs
    unfolding generate_stark_proof_def run and_then_Inr using q(1,2) f(1) that
    by (simp add: tree a z Let_def self_def)
  with f self mat \<open>queries fri \<noteq> []\<close> show thesis by (intro that)
qed

text \<open>
  C11: Completeness: for a signature of 3309 bytes the prover returns a proof which the verifier accepts for the same key
  and message, provided the trace root is not the zero digest, the challenges are not degenerate and the point
  drawn lies off the domain.
\<close>

theorem honest_proof_verifies:
  assumes serde: "\<And>p. \<exists>bs. to_vec p = Some bs \<and> from_slice bs = Some p"
    and "length signature = 3309" and "root_of_signature keccak256 signature \<noteq> zero_digest"
    and "challenges_ok (challenges keccak256 public_key message (root_of_signature keccak256 signature))"
    and "gval (snd (challenges keccak256 public_key message (root_of_signature keccak256 signature))) ^ 262144 \<noteq> 1"
  shows "\<exists>bs. generate_stark_proof keccak256 to_vec signature public_key message = (Inr bs :: (StarkVerificationError, bytes) outcome)
    \<and> verify_stark_proof keccak256 from_slice bs public_key message = Inr True"
proof -
  define root where "root = root_of_signature keccak256 signature"
  obtain fri self mat where f: "length (layer_roots fri) = Suc 20" "canonical_gf (final_poly fri)" "queries fri \<noteq> []"
      "list_all (opens keccak256 10 20 self root (hd (layer_roots fri))) (queries fri)" "trace_matrix self = Some mat" "\<forall>i<1024. mat ! i \<noteq> []"
    and run: "\<And>bs. to_vec \<lparr>trace_root = root, quotient_root = layer_roots fri ! 0, fri_proof = fri\<rparr> = Some bs \<Longrightarrow>
      generate_stark_proof keccak256 to_vec signature public_key message = (Inr bs :: (StarkVerificationError, bytes) outcome)"
    using honest_run [OF assms(2) root_def] assms(5) by (metis root_def)
  obtain bs where bs: "to_vec \<lparr>trace_root = root, quotient_root = layer_roots fri ! 0, fri_proof = fri\<rparr> = Some bs"
    "from_slice bs = Some \<lparr>trace_root = root, quotient_root = layer_roots fri ! 0, fri_proof = fri\<rparr>" using serde by blast
  have "layer_roots fri \<noteq> []" using f(1) by auto
  moreover have "list_all (\<lambda>q. trace_opened keccak256 root q \<and> quotient_opened keccak256 (layer_roots fri) q \<and> layers_shaped (length (layer_roots fri)) q) (queries fri)"
    unfolding list_all_iff
  proof
    fix q assume "q \<in> set (queries fri)"
    then have "opens keccak256 10 20 self root (hd (layer_roots fri)) q" using f(4) by (simp add: list_all_iff)
    then show "trace_opened keccak256 root q \<and> quotient_opened keccak256 (layer_roots fri) q \<and> layers_shaped (length (layer_roots fri)) q"
      by (rule opens_accepted) (use f in simp_all)
  qed
  ultimately have "verify_stark_proof keccak256 from_slice bs public_key message = Inr True"
    unfolding stark_accepts_iff bs(2) using assms(3,4) f(2,3) by (simp flip: root_def)
  then show ?thesis using run [OF bs(1)] by blast
qed

subsection \<open>A codec and a hash for which the hypotheses hold\<close>

instance FriQueryOpening_ext :: (countable) countable
proof (rule countable_classI [of "\<lambda>r. to_nat (index r, trace_evals r, quotient_evals r, trace_merkle_path r,
    quotient_merkle_path r, fri_merkle_paths r, FriQueryOpening.more r)"])
qed (simp add: FriQueryOpening.equality)

instance FriProof_ext :: (countable) countable
proof (rule countable_classI [of "\<lambda>r. to_nat (layer_roots r, queries r, final_poly r, FriProof.more r)"])
qed (simp add: FriProof.equality)

instance StarkProof_ext :: (countable) countable
proof (rule countable_classI [of "\<lambda>r. to_nat (trace_root r, quotient_root r, fri_proof r, StarkProof.more r)"])
qed (simp add: StarkProof.equality)

definition sample_to_vec :: "StarkProof \<Rightarrow> bytes option" where
  "sample_to_vec p = Some (replicate (to_nat p) 0)"

definition sample_from_slice :: "bytes \<Rightarrow> StarkProof option" where
  "sample_from_slice bs = Some (from_nat (length bs))"

lemma sample_serde: "\<exists>bs. sample_to_vec p = Some bs \<and> sample_from_slice bs = Some p"
  by (simp add: sample_to_vec_def sample_from_slice_def)

text \<open>A constant hash whose challenges all have the value of its first byte.\<close>

definition tag_hash :: "u8 \<Rightarrow> hash_fn" where
  "tag_hash c x = c # replicate 31 0"

lemma tag_hash_nonzero: "c \<noteq> 0 \<Longrightarrow> tag_hash c x \<noteq> zero_digest"
proof
  assume c: "c \<noteq> 0" and "tag_hash c x = zero_digest"
  then have "hd (tag_hash c x) = hd zero_digest" by simp
  then show False using c by (simp add: tag_hash_def zero_digest_def)
qed

lemma tag_hash_levels:
  "length xs = 2 ^ d \<Longrightarrow> list_all (\<lambda>x. x = tag_hash c []) xs \<Longrightarrow> last (levels (tag_hash c) xs) ! 0 = tag_hash c []"
proof (induction d arbitrary: xs)
  case 0
  then show ?case by (subst levels.simps) (auto simp: length_Suc_conv)
next
  case (Suc d)
  have "list_all (\<lambda>x. x = tag_hash c []) (hash_pairs (tag_hash c) xs)"
    by (induction "tag_hash c" xs rule: hash_pairs.induct) (simp_all add: tag_hash_def)
  then show ?case using Suc.IH [OF hash_pairs_exp [OF Suc.prems(1)]] by (simp add: levels_Suc [OF Suc.prems(1)])
qed

lemma tag_hash_root: "length signature = 3309 \<Longrightarrow> root_of_signature (tag_hash c) signature = tag_hash c []"
proof -
  assume "length signature = 3309"
  then obtain rows where run: "ingest_signature signature new_trace_builder = (Inr \<lparr>matrix = rows @ replicate 384 (replicate 8 0)\<rparr> :: (unit, TraceBuilder) outcome)"
    "length rows = 640" using ingest_ok by blast
  let ?m = "rows @ replicate 384 (replicate 8 0)"
  have "length ?m = 2 ^ 10" using run(2) by simp
  from matrix_tree [OF this, of "tag_hash c"] show ?thesis
    using tag_hash_levels [of "map (hash_row (tag_hash c)) ?m" 10 c] run
    by (simp add: root_of_signature_def compute_trace_merkle_root_def list_all_iff hash_row_def tag_hash_def)
qed

lemma tag_hash_challenges:
  "challenges (tag_hash c) pk msg root =
    (replicate 4 (from_u64 (word_of_nat (unat c) mod GOLDILOCKS_PRIME)), from_u64 (word_of_nat (unat c) mod GOLDILOCKS_PRIME))"
proof -
  let ?v = "from_u64 (word_of_nat (unat c) mod GOLDILOCKS_PRIME)"
  have "foldl (\<lambda>acc b. acc * 256 + unat b) 0 (replicate n (0 :: u8)) = 0" for n by (induction n) simp_all
  then have "from_be (replicate 7 0) = 0" by (simp only: from_be_def)
  moreover have "take 8 (tag_hash c x) = c # replicate 7 0" for x by (simp add: tag_hash_def take_Cons')
  ultimately have "from_le (take 8 (tag_hash c x)) = unat c" for x by (simp add: from_le_def)
  then have s: "fst (sample_ext (tag_hash c) ch) = ?v" for ch by (simp add: sample_ext_def Let_def)
  have "fst (sample_alphas (tag_hash c) n ch) = replicate n ?v" for n ch
    by (induction n arbitrary: ch) (simp_all add: Let_def split_def s)
  then show ?thesis using s by (simp add: challenges_def Let_def split_def)
qed

lemma tag_values: "from_u64 (word_of_nat (unat (1 :: u8)) mod GOLDILOCKS_PRIME) = 1" "from_u64 (word_of_nat (unat (2 :: u8)) mod GOLDILOCKS_PRIME) = 2"
  "from_u64 (2 mod GOLDILOCKS_PRIME) = 2"
  by (simp_all add: from_u64_def GOLDILOCKS_PRIME_def word_le_def)

lemma two_off_domain: "(2 :: fp) ^ 262144 \<noteq> 1"
proof -
  define a b where "a = (2 :: fp) ^ 64" and "b = (2 :: fp) ^ 32"
  have "(of_int (2 ^ 64) :: fp) = of_int (2 ^ 32 - 1)" unfolding of_int_fp_eq by simp
  then have ab: "a = b - 1" by (simp only: a_def b_def of_int_power of_int_diff of_int_numeral of_int_1)
  have bb: "b * b = a" unfolding a_def b_def by (simp flip: power_add)
  have "a * a = b * b - b - b + 1" unfolding ab by (simp add: algebra_simps)
  also have "\<dots> = - b" unfolding bb by (simp add: ab)
  finally have aa: "a * a = - b" .
  have "a ^ 4 = (a * a) * (a * a)" by (simp add: power4_eq_xxxx mult.assoc)
  then have 4: "a ^ 4 = a" by (simp add: aa bb)
  have "a ^ (4 ^ k) = a" for k by (induction k) (simp_all add: power_mult 4)
  then have "a ^ (4 ^ 6) = a" .
  moreover have "(2 :: fp) ^ 262144 = a ^ (4 ^ 6)" unfolding a_def power_mult [symmetric] by (rule arg_cong [of _ _ "\<lambda>n. 2 ^ n"]) simp
  moreover have "a \<noteq> 1"
  proof
    assume "a = 1"
    then have "(of_int (2 ^ 64) :: fp) = of_int 1" by (simp only: a_def of_int_power of_int_numeral of_int_1)
    then show False unfolding of_int_fp_eq by simp
  qed
  ultimately show ?thesis by metis
qed

theorem honest_proof_verifies_witness:
  "\<exists>bs. generate_stark_proof (tag_hash 2) sample_to_vec (replicate 3309 9) [1] [2] = (Inr bs :: (StarkVerificationError, bytes) outcome)
    \<and> verify_stark_proof (tag_hash 2) sample_from_slice bs [1] [2] = Inr True"
proof (rule honest_proof_verifies)
  show "\<exists>bs. sample_to_vec p = Some bs \<and> sample_from_slice bs = Some p" for p by (rule sample_serde)
  have "gval 2 = 2" by (simp add: gval_def)
  then show "gval (snd (challenges (tag_hash 2) [1] [2] (root_of_signature (tag_hash 2) (replicate 3309 9)))) ^ 262144 \<noteq> 1"
    using two_off_domain by (simp only: tag_hash_challenges tag_values snd_conv not_False_eq_True)
qed (simp_all add: tag_hash_root tag_hash_challenges tag_values tag_hash_nonzero challenges_ok_def)

text \<open>
  A proof made without any signature: one query that opens a single cell, and no layers at all.
\<close>

definition forged_proof :: "hash_fn \<Rightarrow> StarkProof" where
  "forged_proof h = \<lparr>trace_root = h (h (le_bytes 8 0) @ zero_digest), quotient_root = zero_digest,
    fri_proof = \<lparr>layer_roots = [],
      queries = [\<lparr>index = 0, trace_evals = [0], quotient_evals = [], trace_merkle_path = [zero_digest],
        quotient_merkle_path = [], fri_merkle_paths = []\<rparr>],
      final_poly = 0\<rparr>\<rparr>"

text \<open>
  C40: The verifier is not sound: for every public key and message it accepts a proof that is computed from nothing but
  the hash function, unless its own challenges happen to be degenerate.
\<close>

theorem forged_proof_accepted:
  assumes "from_slice bs = Some (forged_proof keccak256)"
    and "trace_root (forged_proof keccak256) \<noteq> zero_digest"
    and "challenges_ok (challenges keccak256 public_key message (trace_root (forged_proof keccak256)))"
  shows "verify_stark_proof keccak256 from_slice bs public_key message = Inr True"
  unfolding stark_accepts_iff using assms
  by (simp add: forged_proof_def trace_opened_def quotient_opened_def layers_shaped_def canonical_gf_def GOLDILOCKS_PRIME_def
    verify_merkle_proof_def merkle_step_def hash_row_def)

theorem forged_proof_accepted_witness:
  "verify_stark_proof (tag_hash 2) sample_from_slice (replicate (to_nat (forged_proof (tag_hash 2))) 0) [1, 2, 3] [4] = Inr True"
  by (rule forged_proof_accepted)
    (simp_all add: sample_from_slice_def tag_hash_challenges tag_values challenges_ok_def, simp add: forged_proof_def tag_hash_nonzero)

text \<open>
  The prover's guard against a point on the domain does not avoid a panic: the empty quotient it returns
  fails the assertion on the length of the extension.
\<close>

theorem prover_panics_on_domain:
  assumes "length signature = 3309"
    and "gval (snd (challenges keccak256 public_key message (root_of_signature keccak256 signature))) ^ 262144 = 1"
  shows "generate_stark_proof keccak256 to_vec signature public_key message = (Panicked :: (unit, bytes) outcome)"
proof -
  obtain rows where run: "ingest_signature signature new_trace_builder = (Inr \<lparr>matrix = rows @ replicate 384 (replicate 8 0)\<rparr> :: (unit, TraceBuilder) outcome)"
    using ingest_ok [OF assms(1)] by blast
  let ?m = "rows @ replicate 384 (replicate 8 0)"
  obtain root layers where tree: "build_merkle_tree_from_matrix keccak256 ?m = (root, layers)" by (cases "build_merkle_tree_from_matrix keccak256 ?m")
  have root: "root_of_signature keccak256 signature = root" by (simp add: root_of_signature_def run compute_trace_merkle_root_def tree)
  let ?ch = "observe_slice root (observe_slice message (observe_slice public_key new_challenger))"
  obtain als ch1 where a: "sample_alphas keccak256 4 ?ch = (als, ch1)" by (cases "sample_alphas keccak256 4 ?ch")
  obtain z ch2 where z: "sample_ext keccak256 ch1 = (z, ch2)" by (cases "sample_ext keccak256 ch1")
  have zc: "gval z ^ 262144 = 1" using assms(2) by (simp only: root challenges_def a z Let_def prod.case fst_conv snd_conv)
  have "gval (gsub (gexp z 262144) 1) = 0" unfolding z_h_gval zc by simp
  then have zh: "gsub (gexp z 262144) 1 = 0" by (subst (asm) gval_zero_iff) (simp_all add: gf_simps)
  have "length als = 4" using length_sample_alphas [of keccak256 4 ?ch] by (simp add: a)
  then have "evaluate_with_keccak_rows \<lparr>alphas = als, zeta = z\<rparr> ?m rs = (Inr [] :: (unit, GoldilocksField list) outcome)" for rs
    by (simp add: evaluate_with_keccak_rows_def zh)
  moreover have "generate_lde [] 4 = (Inr [] :: (unit, GoldilocksField list) outcome)"
    by (simp add: generate_lde_def compute_intt_def resize_def compute_forward_ntt_def Let_def)
  ultimately show ?thesis unfolding generate_stark_proof_def run and_then_Inr
    by (simp add: tree a z new_fri_prover_def Let_def)
qed

theorem prover_panics_on_domain_witness:
  "generate_stark_proof (tag_hash 1) sample_to_vec (replicate 3309 9) [1] [2] = (Panicked :: (unit, bytes) outcome)"
proof (rule prover_panics_on_domain)
  have "gval 1 = 1" by (simp add: gval_def)
  then show "gval (snd (challenges (tag_hash 1) [1] [2] (root_of_signature (tag_hash 1) (replicate 3309 9)))) ^ 262144 = 1"
    by (simp only: tag_hash_challenges tag_values snd_conv power_one)
qed simp

end
