(* ===== verification/Tunnel.thy ===== *)
theory Tunnel
  imports Sign
begin

text \<open>
  The hybrid tunnel (\<open>solomon-core/src/tls_tunnel.rs\<close>): key exchange over X25519 and ML-KEM-768, the SHAKE-256 key
  derivation, the deterministic generator, the frame ciphers, and the server that ends a tunnel and
  forwards frames to a plaintext back end.

  The curve, the KEM and AES-GCM are packages: they are fields of the record \<open>tunnel_crypto\<close>, over the type of the decapsulation keys.
\<close>

section \<open>Key exchange\<close>

datatype TlsTunnelError =
  HandshakeFailed string | DecapsulationFailed | InvalidFrame | AuthenticationFailed | TunnelIoError | KemError

record DeterministicRng =
  rng_sponge :: KeccakSponge

definition rng_new :: "bytes \<Rightarrow> DeterministicRng option" where
  "rng_new seed = do { sponge \<leftarrow> absorb new_shake256 seed; Some \<lparr>rng_sponge = sponge\<rparr> }"

definition rng_fill_bytes :: "DeterministicRng \<Rightarrow> nat \<Rightarrow> (DeterministicRng \<times> bytes) option" where
  "rng_fill_bytes rng n = do { (sponge, dest) \<leftarrow> squeeze (rng_sponge rng) n; Some (rng\<lparr>rng_sponge := sponge\<rparr>, dest) }"

definition rng_next_u32 :: "DeterministicRng \<Rightarrow> (DeterministicRng \<times> u32) option" where
  "rng_next_u32 rng = do { (rng, buf) \<leftarrow> rng_fill_bytes rng 4; Some (rng, word_of_nat (from_le buf)) }"

definition rng_next_u64 :: "DeterministicRng \<Rightarrow> (DeterministicRng \<times> u64) option" where
  "rng_next_u64 rng = do { (rng, buf) \<leftarrow> rng_fill_bytes rng 8; Some (rng, word_of_nat (from_le buf)) }"

record 'dk tunnel_crypto =
  scalar_mult :: "bytes \<Rightarrow> bytes \<Rightarrow> bytes"
  kem_generate :: "DeterministicRng \<Rightarrow> 'dk \<times> bytes"
  kem_encapsulate :: "bytes \<Rightarrow> DeterministicRng \<Rightarrow> (bytes \<times> bytes) option"
  kem_decapsulate :: "'dk \<Rightarrow> bytes \<Rightarrow> bytes option"
  aes_encrypt :: "bytes \<Rightarrow> bytes \<Rightarrow> bytes \<Rightarrow> bytes option"
  aes_decrypt :: "bytes \<Rightarrow> bytes \<Rightarrow> bytes \<Rightarrow> bytes option"

record TunnelPublicKey =
  x25519_pk :: bytes
  ml_kem_pk_bytes :: bytes

record 'dk TunnelPrivateKey =
  x25519_sk :: bytes
  ml_kem_sk :: 'dk

record HybridCiphertext =
  x25519_ephemeral_pk :: bytes
  ml_kem_ct_bytes :: bytes

definition clamp_scalar :: "bytes \<Rightarrow> bytes" where
  "clamp_scalar sk =
    (let sk = sk[0 := sk ! 0 AND 248]; sk = sk[31 := sk ! 31 AND 127] in sk[31 := sk ! 31 OR 64])"

definition x25519_basepoint :: bytes where
  "x25519_basepoint = 9 # replicate 31 0"

text \<open>The operating system's random bytes are arguments, \<open>None\<close> is a panic of the sponge.\<close>

definition generate_tunnel_keypair :: "'dk tunnel_crypto \<Rightarrow> bytes \<Rightarrow> bytes \<Rightarrow> ('dk TunnelPrivateKey \<times> TunnelPublicKey) option" where
  "generate_tunnel_keypair c x25519_seed kem_seed =
    do { let sk = clamp_scalar x25519_seed;
         let pk = scalar_mult c sk x25519_basepoint;
         rng \<leftarrow> rng_new kem_seed;
         let (decaps_key, encaps_key) = kem_generate c rng;
         Some (\<lparr>x25519_sk = sk, ml_kem_sk = decaps_key\<rparr>, \<lparr>x25519_pk = pk, ml_kem_pk_bytes = encaps_key\<rparr>) }"

definition kdf_label :: bytes where
  "kdf_label = as_bytes (rlit ''SOLOMON_POST_QUANTUM_HYBRID_KDF_V1'')"

definition client_encapsulate :: "'dk tunnel_crypto \<Rightarrow> bytes \<Rightarrow> bytes \<Rightarrow> TunnelPublicKey \<Rightarrow> (TlsTunnelError + HybridCiphertext \<times> bytes) option" where
  "client_encapsulate c x25519_seed kem_coins server_pk =
    (let client_sk = clamp_scalar x25519_seed;
         client_pk = scalar_mult c client_sk x25519_basepoint;
         classical_ss = scalar_mult c client_sk (x25519_pk server_pk)
     in if length (ml_kem_pk_bytes server_pk) \<noteq> 1184 then Some (Inl KemError)
        else do { rng \<leftarrow> rng_new kem_coins;
          case kem_encapsulate c (ml_kem_pk_bytes server_pk) rng of
            None \<Rightarrow> Some (Inl KemError)
          | Some (kem_ct, kem_ss) \<Rightarrow> do {
              final_session_key \<leftarrow> shake256_of [classical_ss, kem_ss, kdf_label] 32;
              Some (Inr (\<lparr>x25519_ephemeral_pk = client_pk, ml_kem_ct_bytes = kem_ct\<rparr>, final_session_key)) } })"

definition server_decapsulate :: "'dk tunnel_crypto \<Rightarrow> 'dk TunnelPrivateKey \<Rightarrow> HybridCiphertext \<Rightarrow> (TlsTunnelError + bytes) option" where
  "server_decapsulate c server_sk ct =
    (let classical_ss = scalar_mult c (x25519_sk server_sk) (x25519_ephemeral_pk ct)
     in if length (ml_kem_ct_bytes ct) \<noteq> 1088 then Some (Inl DecapsulationFailed)
        else case kem_decapsulate c (ml_kem_sk server_sk) (ml_kem_ct_bytes ct) of
          None \<Rightarrow> Some (Inl DecapsulationFailed)
        | Some kem_ss \<Rightarrow> do {
            final_session_key \<leftarrow> shake256_of [classical_ss, kem_ss, kdf_label] 32;
            Some (Inr final_session_key) })"

section \<open>Frames\<close>

definition frame_nonce :: "u64 \<Rightarrow> bytes" where
  "frame_nonce seq = replicate 4 0 @ be_bytes 8 (unat seq)"

definition encrypt_pq_frame :: "'dk tunnel_crypto \<Rightarrow> bytes \<Rightarrow> bytes \<Rightarrow> u64 \<Rightarrow> TlsTunnelError + bytes" where
  "encrypt_pq_frame c payload session_key seq =
    (if length session_key \<noteq> 32 then Inl (HandshakeFailed ''Invalid session key length'')
     else case aes_encrypt c session_key (frame_nonce seq) payload of None \<Rightarrow> Inl AuthenticationFailed | Some ct \<Rightarrow> Inr ct)"

definition decrypt_pq_frame :: "'dk tunnel_crypto \<Rightarrow> bytes \<Rightarrow> bytes \<Rightarrow> u64 \<Rightarrow> TlsTunnelError + bytes" where
  "decrypt_pq_frame c ciphertext session_key seq =
    (if length session_key \<noteq> 32 then Inl (HandshakeFailed ''Invalid session key length'')
     else case aes_decrypt c session_key (frame_nonce seq) ciphertext of None \<Rightarrow> Inl AuthenticationFailed | Some pt \<Rightarrow> Inr pt)"

definition stream_label :: bytes where
  "stream_label = as_bytes (rlit ''SOLOMON_PQ_SESSION_STREAM_CIPHER'')"

definition apply_pq_stream_cipher :: "bytes \<Rightarrow> bytes \<Rightarrow> u64 \<Rightarrow> bytes option" where
  "apply_pq_stream_cipher payload session_key seq =
    do { keystream \<leftarrow> shake256_of [session_key, be_bytes 8 (unat seq), stream_label] (length payload);
         Some (map (\<lambda>i. payload ! i XOR keystream ! i) [0..<length payload]) }"

section \<open>The server\<close>

text \<open>
  A stream that is read is the list of the bytes its peer sends before the end; \<open>read_exact\<close> fails when fewer are left.  A stream that is written
  is the list of the bytes that leave; \<open>wr n\<close> is the number of bytes after which the \<open>n\<close>-th write fails, \<open>None\<close> when it succeeds.
\<close>

definition read_exact :: "nat \<Rightarrow> bytes \<Rightarrow> (bytes \<times> bytes) option" where
  "read_exact n input = (if n \<le> length input then Some (take n input, drop n input) else None)"

function relay_frames :: "bytes \<Rightarrow> (nat \<Rightarrow> nat option) \<Rightarrow> u64 \<Rightarrow> nat \<Rightarrow> bytes \<Rightarrow> bytes option" where
  "relay_frames key wr seq n input =
    (case read_exact 2 input of
      None \<Rightarrow> Some []
    | Some (len_buf, rest) \<Rightarrow>
      (case read_exact (from_be len_buf) rest of
        None \<Rightarrow> Some []
      | Some (frame, rest) \<Rightarrow> do {
          out \<leftarrow> apply_pq_stream_cipher frame key seq;
          case wr n of
            Some k \<Rightarrow> Some (take k len_buf)
          | None \<Rightarrow> (case wr (Suc n) of
              Some k \<Rightarrow> Some (len_buf @ take k out)
            | None \<Rightarrow> do { later \<leftarrow> relay_frames key wr (seq + 1) (n + 2) rest; Some (len_buf @ out @ later) }) }))"
  by pat_completeness auto

termination relay_frames
  by (relation "measure (\<lambda>(key, wr, seq, n, input). length input)") (auto simp: read_exact_def split: if_splits)

declare relay_frames.simps [simp del]

definition tunnel_hello :: "TunnelPublicKey \<Rightarrow> bytes" where
  "tunnel_hello pk = x25519_pk pk @ be_bytes 2 (length (ml_kem_pk_bytes pk) mod 2 ^ 16) @ ml_kem_pk_bytes pk"

definition read_ciphertext :: "bytes \<Rightarrow> (HybridCiphertext \<times> bytes) option" where
  "read_ciphertext input =
    do { (x25519_ct, input) \<leftarrow> read_exact 32 input;
         (kem_ct_len_buf, input) \<leftarrow> read_exact 2 input;
         (kem_ct_bytes, input) \<leftarrow> read_exact (from_be kem_ct_len_buf) input;
         Some (\<lparr>x25519_ephemeral_pk = x25519_ct, ml_kem_ct_bytes = kem_ct_bytes\<rparr>, input) }"

text \<open>What the environment of one connection does: the writes to the client, to the back end, and the connection to the latter.\<close>

record tunnel_env =
  hello_write :: "nat option"
  client_writes :: "nat \<Rightarrow> nat option"
  backend_writes :: "nat \<Rightarrow> nat option"
  backend_connects :: bool

text \<open>The bytes sent to the client and to the back end over one accepted connection.  The counter of a release build wraps.\<close>

definition serve_tunnel_client :: "'dk tunnel_crypto \<Rightarrow> tunnel_env \<Rightarrow> 'dk TunnelPrivateKey \<Rightarrow> TunnelPublicKey \<Rightarrow> bytes \<Rightarrow> bytes \<Rightarrow> (bytes \<times> bytes) option" where
  "serve_tunnel_client c env sk pk client_in backend_in =
    (case hello_write env of
      Some k \<Rightarrow> Some (take k (tunnel_hello pk), [])
    | None \<Rightarrow>
      (case read_ciphertext client_in of
        None \<Rightarrow> Some (tunnel_hello pk, [])
      | Some (hybrid_ct, client_in) \<Rightarrow> do {
          derived \<leftarrow> server_decapsulate c sk hybrid_ct;
          case derived of
            Inl _ \<Rightarrow> Some (tunnel_hello pk, [])
          | Inr session_key \<Rightarrow>
              if \<not> backend_connects env then Some (tunnel_hello pk, [])
              else do {
                to_backend \<leftarrow> relay_frames session_key (backend_writes env) 0 0 client_in;
                to_client \<leftarrow> relay_frames session_key (client_writes env) 0x8000000000000000 0 backend_in;
                Some (tunnel_hello pk @ to_client, to_backend) } }))"

section \<open>What the server computes\<close>

definition xor_bytes :: "bytes \<Rightarrow> bytes \<Rightarrow> bytes" where
  "xor_bytes xs ys = map2 (XOR) xs ys"

definition keystream_input :: "bytes \<Rightarrow> u64 \<Rightarrow> bytes" where
  "keystream_input key seq = key @ be_bytes 8 (unat seq) @ stream_label"

definition keystream :: "bytes \<Rightarrow> u64 \<Rightarrow> nat \<Rightarrow> bytes" where
  "keystream key seq n = shake_spec 136 (keystream_input key seq) n"

definition stream_crypt :: "bytes \<Rightarrow> u64 \<Rightarrow> bytes \<Rightarrow> bytes" where
  "stream_crypt key seq p = xor_bytes p (keystream key seq (length p))"

text \<open>The frames of one direction under consecutive numbers.\<close>

fun crypt_frames :: "(u64 \<Rightarrow> bytes \<Rightarrow> bytes) \<Rightarrow> u64 \<Rightarrow> bytes list \<Rightarrow> bytes list" where
  "crypt_frames crypt seq [] = []"
| "crypt_frames crypt seq (p # ps) = crypt seq p # crypt_frames crypt (seq + 1) ps"

definition wire :: "bytes list \<Rightarrow> bytes" where
  "wire ps = concat (map (\<lambda>p. be_bytes 2 (length p) @ p) ps)"

definition incomplete :: "bytes \<Rightarrow> bool" where
  "incomplete rest \<longleftrightarrow> length rest < 2 \<or> length rest < 2 + from_be (take 2 rest)"

lemma wire_simps [simp]: "wire [] = []" "wire (p # ps) = be_bytes 2 (length p) @ p @ wire ps"
  by (simp_all add: wire_def)

lemma length_keystream [simp]: "length (keystream key seq n) = n"
  by (simp add: keystream_def)

lemma length_xor_bytes [simp]: "length (xor_bytes xs ys) = min (length xs) (length ys)"
  by (simp add: xor_bytes_def)

lemma xor_bytes_cancel: "length ks = length p \<Longrightarrow> xor_bytes (xor_bytes p ks) ks = p"
  by (rule nth_equalityI) (simp_all add: xor_bytes_def xor.assoc)

lemma xor_bytes_swap: "length ks = length p \<Longrightarrow> length d = length p \<Longrightarrow> xor_bytes (xor_bytes p d) ks = xor_bytes (xor_bytes p ks) d"
  by (rule nth_equalityI) (simp_all add: xor_bytes_def ac_simps)

lemma apply_cipher_xor: "apply_pq_stream_cipher p key seq = Some (stream_crypt key seq p)"
proof -
  have "map (\<lambda>i. p ! i XOR keystream key seq (length p) ! i) [0..<length p] = xor_bytes p (keystream key seq (length p))"
    by (rule nth_equalityI) (simp_all add: xor_bytes_def)
  then show ?thesis by (simp add: apply_pq_stream_cipher_def shake256_of_spec stream_crypt_def keystream_def keystream_input_def)
qed

text \<open>What the two ends of a tunnel rely on: a frame cipher keeps the length, and applied twice it is the identity.\<close>

locale frame_cipher =
  fixes crypt :: "u64 \<Rightarrow> bytes \<Rightarrow> bytes"
  assumes crypt_twice: "crypt seq (crypt seq p) = p"
    and crypt_length: "length (crypt seq p) = length p"
begin

lemma frame_lengths: "list_all P (map length (crypt_frames crypt seq ps)) = list_all P (map length ps)"
  by (induction ps arbitrary: seq) (simp_all add: crypt_length)

lemma frames_twice: "crypt_frames crypt seq (crypt_frames crypt seq ps) = ps"
  by (induction ps arbitrary: seq) (simp_all add: crypt_twice)

end

interpretation stream: frame_cipher "stream_crypt key" for key
  by unfold_locales (simp_all add: stream_crypt_def xor_bytes_cancel)

lemma crypt_frames_tampered:
  "list_all2 (\<lambda>p d. length d = length p) ps ds \<Longrightarrow>
    crypt_frames (stream_crypt key) seq (map2 xor_bytes (crypt_frames (stream_crypt key) seq ps) ds) = map2 xor_bytes ps ds"
  by (induction ps ds arbitrary: seq rule: list_all2_induct) (simp_all add: stream_crypt_def xor_bytes_swap xor_bytes_cancel)

lemma relay_incomplete: "incomplete rest \<Longrightarrow> relay_frames key wr seq n rest = Some []"
  by (subst relay_frames.simps) (auto simp: incomplete_def read_exact_def)

lemma relay_wire:
  assumes "list_all (\<lambda>n. n < 65536) (map length ps)" and "incomplete rest"
  shows "relay_frames key (\<lambda>_. None) seq n (wire ps @ rest) = Some (wire (crypt_frames (stream_crypt key) seq ps))"
  using assms(1)
proof (induction ps arbitrary: seq n)
  case Nil
  then show ?case using relay_incomplete [OF assms(2)] by simp
next
  case (Cons p ps)
  have "from_be (be_bytes 2 (length p)) = length p" using Cons.prems by (simp add: from_be_be_bytes)
  then have "relay_frames key (\<lambda>_. None) seq n (wire (p # ps) @ rest)
      = do { later \<leftarrow> relay_frames key (\<lambda>_. None) (seq + 1) (n + 2) (wire ps @ rest);
             Some (be_bytes 2 (length p) @ stream_crypt key seq p @ later) }"
    by (subst relay_frames.simps) (simp add: read_exact_def apply_cipher_xor)
  also have "\<dots> = Some (wire (crypt_frames (stream_crypt key) seq (p # ps)))" using Cons by (simp add: stream.crypt_length)
  finally show ?case .
qed

text \<open>The client hello a peer sends for a ciphertext.\<close>

definition ciphertext_bytes :: "HybridCiphertext \<Rightarrow> bytes" where
  "ciphertext_bytes ct = x25519_ephemeral_pk ct @ be_bytes 2 (length (ml_kem_ct_bytes ct)) @ ml_kem_ct_bytes ct"

lemma read_ciphertext_bytes:
  "length (x25519_ephemeral_pk ct) = 32 \<Longrightarrow> length (ml_kem_ct_bytes ct) < 65536 \<Longrightarrow> read_ciphertext (ciphertext_bytes ct @ rest) = Some (ct, rest)"
  by (simp add: read_ciphertext_def ciphertext_bytes_def read_exact_def from_be_be_bytes)

section \<open>What the packages promise\<close>

text \<open>Diffie-Hellman: multiplications of the base point by two scalars commute, and points have 32 bytes.\<close>

definition dh_ok :: "'dk tunnel_crypto \<Rightarrow> bool" where
  "dh_ok c \<longleftrightarrow> (\<forall>a b. scalar_mult c a (scalar_mult c b x25519_basepoint) = scalar_mult c b (scalar_mult c a x25519_basepoint))
    \<and> (\<forall>a p. length (scalar_mult c a p) = 32)"

text \<open>ML-KEM-768: encoded keys and ciphertexts have their sizes, and decapsulation returns the encapsulated secret.\<close>

definition kem_ok :: "'dk tunnel_crypto \<Rightarrow> bool" where
  "kem_ok c \<longleftrightarrow> (\<forall>rng. case kem_generate c rng of (dk, ek) \<Rightarrow> length ek = 1184
    \<and> (\<forall>rng' ct ss. kem_encapsulate c ek rng' = Some (ct, ss) \<longrightarrow> length ct = 1088 \<and> kem_decapsulate c dk ct = Some ss))"

lemma server_derives_client_key:
  assumes "dh_ok c" and "kem_ok c" and "generate_tunnel_keypair c xs ks = Some (sk, pk)"
    and "client_encapsulate c xc kc pk = Some (Inr (ct, key))"
  shows "server_decapsulate c sk ct = Some (Inr key) \<and> length (x25519_ephemeral_pk ct) = 32 \<and> length (ml_kem_ct_bytes ct) = 1088"
proof -
  obtain rng where rng: "rng_new ks = Some rng" using assms(3) by (auto simp: generate_tunnel_keypair_def Let_def bind_eq_Some_conv)
  obtain dk ek where gen: "kem_generate c rng = (dk, ek)" by (cases "kem_generate c rng")
  have keys: "x25519_sk sk = clamp_scalar xs" "ml_kem_sk sk = dk" "x25519_pk pk = scalar_mult c (clamp_scalar xs) x25519_basepoint" "ml_kem_pk_bytes pk = ek"
    using assms(3) rng gen by (auto simp: generate_tunnel_keypair_def Let_def)
  from assms(4) obtain rng' kct kss where enc: "kem_encapsulate c ek rng' = Some (kct, kss)"
    and ct: "ct = \<lparr>x25519_ephemeral_pk = scalar_mult c (clamp_scalar xc) x25519_basepoint, ml_kem_ct_bytes = kct\<rparr>"
    and key: "shake256_of [scalar_mult c (clamp_scalar xc) (x25519_pk pk), kss, kdf_label] 32 = Some key"
    by (auto simp: client_encapsulate_def Let_def keys bind_eq_Some_conv split: if_splits option.splits)
  have "length kct = 1088 \<and> kem_decapsulate c dk kct = Some kss"
    using assms(2) enc spec [OF assms(2) [unfolded kem_ok_def], of rng] gen by simp
  moreover have "scalar_mult c (clamp_scalar xs) (scalar_mult c (clamp_scalar xc) x25519_basepoint) = scalar_mult c (clamp_scalar xc) (x25519_pk pk)"
    using assms(1) by (simp add: dh_ok_def keys)
  ultimately show ?thesis using key assms(1) by (simp add: server_decapsulate_def ct keys dh_ok_def Let_def)
qed

section \<open>Properties\<close>

text \<open>
  C17: A tunnel is transparent: a client that encapsulates against the server's key derives the server's session key, and when
  nothing fails on the way the back end receives exactly the frames the client encrypted under consecutive numbers from zero, and the client receives
  the back end's frames encrypted from number \<open>2 ^ 63\<close>, which it decrypts to what the back end sent.  A last frame that
  is cut off is not forwarded.
\<close>

theorem tunnel_transparent:
  assumes "dh_ok c" and "kem_ok c" and "generate_tunnel_keypair c xs ks = Some (sk, pk)"
    and "client_encapsulate c xc kc pk = Some (Inr (ct, key))"
    and "list_all (\<lambda>n. n < 65536) (map length (ps @ qs))" and "incomplete partial" and "incomplete partial'"
  shows "\<exists>answers. serve_tunnel_client c \<lparr>hello_write = None, client_writes = (\<lambda>_. None), backend_writes = (\<lambda>_. None), backend_connects = True\<rparr> sk pk
      (ciphertext_bytes ct @ wire (crypt_frames (stream_crypt key) 0 ps) @ partial) (wire qs @ partial') = Some (tunnel_hello pk @ wire answers, wire ps)
    \<and> crypt_frames (stream_crypt key) 0x8000000000000000 answers = qs"
proof -
  note key = server_derives_client_key [OF assms(1-4)]
  have "list_all (\<lambda>n. n < 65536) (map length (crypt_frames (stream_crypt key) 0 ps))" "list_all (\<lambda>n. n < 65536) (map length qs)"
    using assms(5) by (simp_all add: stream.frame_lengths)
  note rw = relay_wire [OF this(1) assms(6), of key 0 0] relay_wire [OF this(2) assms(7), of key "0x8000000000000000" 0]
  show ?thesis using key rw by (intro exI [of _ "crypt_frames (stream_crypt key) 0x8000000000000000 qs"])
    (simp add: serve_tunnel_client_def read_ciphertext_bytes stream.frames_twice)
qed

text \<open>Packages with the assumed behaviour: addition of byte strings, and a KEM with one secret.\<close>

definition sample_crypto :: "unit tunnel_crypto" where
  "sample_crypto = \<lparr>scalar_mult = (\<lambda>a p. map (\<lambda>i. p ! i + a ! i) [0..<32]), kem_generate = (\<lambda>_. ((), replicate 1184 0)),
    kem_encapsulate = (\<lambda>_ _. Some (replicate 1088 0, replicate 32 7)), kem_decapsulate = (\<lambda>_ _. Some (replicate 32 7)),
    aes_encrypt = (\<lambda>_ _ p. Some p), aes_decrypt = (\<lambda>_ _ p. Some p)\<rparr>"

lemma sample_crypto_ok: "dh_ok sample_crypto" "kem_ok sample_crypto"
  by (simp_all add: sample_crypto_def dh_ok_def kem_ok_def algebra_simps)

lemma rng_new_ok: "\<exists>rng. rng_new seed = Some rng"
proof -
  have "wf_sponge new_shake256" "\<not> squeezing new_shake256" by (simp_all add: new_shake256_def sponge_new_def wf_sponge_def)
  from absorb_bytes [OF this] show ?thesis by (simp add: rng_new_def)
qed

lemma sample_exchange:
  "\<exists>sk pk ct key. generate_tunnel_keypair sample_crypto xs ks = Some (sk, pk) \<and> client_encapsulate sample_crypto xc kc pk = Some (Inr (ct, key))"
  using rng_new_ok [of ks] rng_new_ok [of kc]
  by (fastforce simp: generate_tunnel_keypair_def client_encapsulate_def sample_crypto_def shake256_of_spec Let_def)

theorem tunnel_transparent_witness:
  "\<exists>sk pk ct key answers. serve_tunnel_client sample_crypto \<lparr>hello_write = None, client_writes = (\<lambda>_. None), backend_writes = (\<lambda>_. None), backend_connects = True\<rparr> sk pk
      (ciphertext_bytes ct @ wire (crypt_frames (stream_crypt key) 0 [[1, 2, 3], []]) @ [0]) (wire [[4]] @ []) = Some (tunnel_hello pk @ wire answers, wire [[1, 2, 3], []])
    \<and> crypt_frames (stream_crypt key) 0x8000000000000000 answers = [[4]]"
proof -
  obtain sk pk ct key where "generate_tunnel_keypair sample_crypto (replicate 32 1) (replicate 64 2) = Some (sk, pk)"
    "client_encapsulate sample_crypto (replicate 32 3) (replicate 32 4) pk = Some (Inr (ct, key))"
    using sample_exchange by blast
  then have "\<exists>answers. serve_tunnel_client sample_crypto \<lparr>hello_write = None, client_writes = (\<lambda>_. None), backend_writes = (\<lambda>_. None), backend_connects = True\<rparr> sk pk
      (ciphertext_bytes ct @ wire (crypt_frames (stream_crypt key) 0 [[1, 2, 3], []]) @ [0]) (wire [[4]] @ []) = Some (tunnel_hello pk @ wire answers, wire [[1, 2, 3], []])
    \<and> crypt_frames (stream_crypt key) 0x8000000000000000 answers = [[4]]"
    by (rule tunnel_transparent [OF sample_crypto_ok]) (simp_all add: incomplete_def)
  then show ?thesis by blast
qed

text \<open>
  The frames are not authenticated: whatever bits an attacker on the network flips in the frames of a client, the server forwards the plaintext
  with the same bits flipped, and no error is raised.
\<close>

theorem tunnel_malleable:
  assumes "list_all2 (\<lambda>p d. length d = length p) ps ds" and "list_all (\<lambda>n. n < 65536) (map length ps)"
  shows "relay_frames key (\<lambda>_. None) seq 0 (wire (map2 xor_bytes (crypt_frames (stream_crypt key) seq ps) ds)) = Some (wire (map2 xor_bytes ps ds))"
proof -
  have "list_all (\<lambda>n. n < 65536) (map length (map2 xor_bytes (crypt_frames (stream_crypt key) seq ps) ds))"
    using assms
  proof (induction ps ds arbitrary: seq rule: list_all2_induct)
    case (Cons p ps d ds)
    then show ?case by (simp add: stream.crypt_length)
  qed simp
  from relay_wire [OF this, of "[]" key seq 0] show ?thesis using crypt_frames_tampered [OF assms(1)] by (simp add: incomplete_def)
qed

theorem tunnel_malleable_witness:
  "relay_frames [] (\<lambda>_. None) 0 0 (wire (map2 xor_bytes (crypt_frames (stream_crypt []) 0 [[1, 2]]) [[0, 255]])) = Some (wire (map2 xor_bytes [[1, 2]] [[0, 255]]))"
  by (rule tunnel_malleable) simp_all

text \<open>
  No keystream is used twice within a session: the strings hashed for the first \<open>2 ^ 63\<close> frames of the two directions are pairwise
  different.
\<close>

theorem keystreams_distinct:
  assumes "n \<le> 2 ^ 63" and "m \<le> 2 ^ 63"
  shows "distinct (map (\<lambda>i. keystream_input key (word_of_nat i)) [0..<n] @ map (\<lambda>i. keystream_input key (0x8000000000000000 + word_of_nat i)) [0..<m])"
proof -
  have inj: "seq = seq'" if "keystream_input key seq = keystream_input key seq'" for seq seq'
  proof -
    have "be_bytes 8 (unat seq) = be_bytes 8 (unat seq')" using that by (simp add: keystream_input_def)
    then have "unat seq mod 256 ^ 8 = unat seq' mod 256 ^ 8" by (metis from_be_be_bytes)
    then show ?thesis using unsigned_less [of seq, where 'a = nat] unsigned_less [of seq', where 'a = nat] by (simp add: word_unat_eq_iff)
  qed
  have low: "unat (word_of_nat i :: u64) = i" if "i < 2 ^ 63" for i
    using that by (simp add: unat_of_nat)
  have high: "unat (0x8000000000000000 + word_of_nat i :: u64) = 2 ^ 63 + i" if "i < 2 ^ 63" for i
    using that by (simp add: unat_word_ariths unat_of_nat)
  have ne: "keystream_input key a \<noteq> keystream_input key b" if "unat a \<noteq> unat b" for a b
    using inj [of a b] that by blast
  have low_inj: "i = j" if "i < n" "j < n" "keystream_input key (word_of_nat i) = keystream_input key (word_of_nat j)" for i j
    using ne [of "word_of_nat i" "word_of_nat j"] that assms(1) by (auto simp: low)
  have high_inj: "i = j" if "i < m" "j < m" "keystream_input key (0x8000000000000000 + word_of_nat i) = keystream_input key (0x8000000000000000 + word_of_nat j)" for i j
    using ne [of "0x8000000000000000 + word_of_nat i" "0x8000000000000000 + word_of_nat j"] that assms(2) by (auto simp: high)
  have apart: "keystream_input key (word_of_nat i) \<noteq> keystream_input key (0x8000000000000000 + word_of_nat j)" if "i < n" "j < m" for i j
    using ne [of "word_of_nat i" "0x8000000000000000 + word_of_nat j"] that assms by (simp add: low high)
  show ?thesis unfolding distinct_append distinct_map
    by (intro conjI inj_onI) (auto intro: low_inj high_inj dest: apart)
qed

theorem keystreams_distinct_witness:
  "distinct (map (\<lambda>i. keystream_input [] (word_of_nat i)) [0..<3] @ map (\<lambda>i. keystream_input [] (0x8000000000000000 + word_of_nat i)) [0..<2])"
  by (rule keystreams_distinct) simp_all

end
