(* ===== verification/SwitchConfig.thy ===== *)
theory SwitchConfig
  imports Licensing Compliance
begin

text \<open>
  The routing table of the sponsor banks: the fallback of \<open>proxy.rs\<close>, the loop that
  synchronises it with the control plane, and the control plane's side (\<open>api.rs\<close>): the endpoint that
  publishes the table, the ledger of node keys and the fleet dashboard.

  Parsing and printing of JSON belong to the package \<open>serde_json\<close>: they are the parameters \<open>json_parse\<close> and \<open>json_print\<close> over the type of its values.
\<close>

section \<open>Definitions\<close>

subsection \<open>JSON values\<close>

datatype json =
    JNull
  | JBool bool
  | JInt int
  | JFloat rstr
  | JString rstr
  | JArray "json list"
  | JObject "(rstr \<times> json) list"

fun json_get :: "rstr \<Rightarrow> json \<Rightarrow> json option" where
  "json_get key (JObject kvs) = map_of kvs key"
| "json_get key _ = None"

fun as_str :: "json \<Rightarrow> rstr option" where
  "as_str (JString s) = Some s"
| "as_str _ = None"

fun as_u64 :: "json \<Rightarrow> u64 option" where
  "as_u64 (JInt n) = (if 0 \<le> n \<and> n < 2 ^ 64 then Some (word_of_int n) else None)"
| "as_u64 _ = None"

subsection \<open>The routing table\<close>

record SponsorBankConfig =
  iso_version :: rstr
  pqc_snark_field :: rstr
  pqc_field_number :: u8
  max_buffer_size :: u64
  encoding :: rstr
  strip_headers :: "rstr list"

type_synonym iso_config = "rstr \<rightharpoonup> SponsorBankConfig"

definition fallback_iso_config :: iso_config where
  "fallback_iso_config =
    [rlit ''bank_A_tcs_bancs'' \<mapsto> \<lparr>iso_version = rlit ''1987'', pqc_snark_field = rlit ''Field 112 (Additional Data - National)'',
       pqc_field_number = 112, max_buffer_size = 256, encoding = rlit ''EBCDIC'',
       strip_headers = [rlit ''X-PQC-Metadata'', rlit ''Fintech-Telemetry'']\<rparr>,
     rlit ''bank_B_finacle'' \<mapsto> \<lparr>iso_version = rlit ''1993'', pqc_snark_field = rlit ''Field 123 (Reserved for Private Use)'',
       pqc_field_number = 123, max_buffer_size = 150, encoding = rlit ''ASCII'', strip_headers = [rlit ''X-Signature-Raw'']\<rparr>]"

text \<open>\<open>file\<close> is the configuration file, if it can be read, and \<open>config_of\<close> its deserialization.\<close>

definition load_iso_config :: "(rstr \<Rightarrow> iso_config option) \<Rightarrow> rstr option \<Rightarrow> iso_config" where
  "load_iso_config config_of file =
    (case Option.bind file config_of of Some config \<Rightarrow> config | None \<Rightarrow> fallback_iso_config)"

definition parse_strip_headers :: "rstr \<Rightarrow> rstr list" where
  "parse_strip_headers strip = filter (\<lambda>s. s \<noteq> []) (map trim (split_on 44 strip))"

subsection \<open>Synchronisation\<close>

text \<open>One entry of the list: skipped when a field is missing or its back end is not in India.\<close>

definition config_of_item :: "(rstr \<Rightarrow> rstr) \<Rightarrow> json \<Rightarrow> (rstr \<times> SponsorBankConfig) option" where
  "config_of_item to_lowercase item = do {
     bank \<leftarrow> Option.bind (json_get (rlit ''sponsor_bank'') item) as_str;
     ver \<leftarrow> Option.bind (json_get (rlit ''iso_version'') item) as_str;
     field \<leftarrow> Option.bind (json_get (rlit ''pqc_field_number'') item) as_u64;
     enc \<leftarrow> Option.bind (json_get (rlit ''encoding'') item) as_str;
     buf \<leftarrow> Option.bind (json_get (rlit ''max_buffer_size'') item) as_u64;
     strip \<leftarrow> Option.bind (json_get (rlit ''strip_headers'') item) as_str;
     let config = \<lparr>iso_version = ver, pqc_snark_field = rlit ''Field '' @ dec_digits (unat field), pqc_field_number = ucast field,
       max_buffer_size = buf, encoding = enc, strip_headers = parse_strip_headers strip\<rparr>;
     case Option.bind (json_get (rlit ''backend_url'') item) as_str of
       None \<Rightarrow> Some (bank, config)
     | Some target_backend \<Rightarrow>
         (case check_data_localization to_lowercase target_backend of
            Rejected _ \<Rightarrow> None
          | Approved \<Rightarrow> Some (bank, config))
   }"

definition apply_item :: "(rstr \<Rightarrow> rstr) \<Rightarrow> json \<Rightarrow> iso_config \<Rightarrow> iso_config" where
  "apply_item to_lowercase item cfg =
    (case config_of_item to_lowercase item of None \<Rightarrow> cfg | Some (bank, config) \<Rightarrow> cfg(bank \<mapsto> config))"

definition config_mac :: "bytes \<Rightarrow> bytes \<Rightarrow> rstr option" where
  "config_mac secret configs_bytes = map_option to_hex (shake256_of [secret, configs_bytes] 32)"

record json_codec =
  json_parse :: "bytes \<Rightarrow> json option"
  json_print :: "json \<Rightarrow> bytes option"

text \<open>One round.  \<open>response\<close> is the body of a successful answer, \<open>None\<close> otherwise; the result is \<open>None\<close> only if the sponge panics.\<close>

definition config_sync_round :: "json_codec \<Rightarrow> (rstr \<Rightarrow> rstr) \<Rightarrow> bytes \<Rightarrow> bytes option \<Rightarrow> iso_config \<Rightarrow> iso_config option" where
  "config_sync_round codec to_lowercase secret response cfg =
    (case Option.bind response (json_parse codec) of
       None \<Rightarrow> Some cfg
     | Some envelope \<Rightarrow>
     (case Option.bind (json_get (rlit ''mac'') envelope) as_str of
        None \<Rightarrow> Some cfg
      | Some mac_hex \<Rightarrow>
      (case json_get (rlit ''configs'') envelope of
         None \<Rightarrow> Some cfg
       | Some configs_val \<Rightarrow> do {
           let configs_bytes = (case json_print codec configs_val of Some b \<Rightarrow> b | None \<Rightarrow> []);
           expected_mac_hex \<leftarrow> config_mac secret configs_bytes;
           if mac_hex \<noteq> expected_mac_hex then Some cfg
           else Some (case configs_val of JArray configs \<Rightarrow> fold (apply_item to_lowercase) configs cfg | _ \<Rightarrow> cfg)
         })))"

text \<open>The loop over the answers it gets; without a secret it returns at once.\<close>

fun sync_rounds :: "json_codec \<Rightarrow> (rstr \<Rightarrow> rstr) \<Rightarrow> bytes \<Rightarrow> bytes option list \<Rightarrow> iso_config \<Rightarrow> iso_config option" where
  "sync_rounds codec to_lowercase secret [] cfg = Some cfg"
| "sync_rounds codec to_lowercase secret (r # rs) cfg =
    Option.bind (config_sync_round codec to_lowercase secret r cfg) (sync_rounds codec to_lowercase secret rs)"

definition run_switch_config_sync_loop :: "json_codec \<Rightarrow> (rstr \<Rightarrow> rstr) \<Rightarrow> rstr option \<Rightarrow> bytes option list \<Rightarrow> iso_config \<Rightarrow> iso_config option" where
  "run_switch_config_sync_loop codec to_lowercase secret_env responses cfg =
    (case secret_env of
       None \<Rightarrow> Some cfg
     | Some s \<Rightarrow> if s = [] then Some cfg else sync_rounds codec to_lowercase (as_bytes s) responses cfg)"

subsection \<open>The control plane\<close>

record SwitchConfigRecord =
  row_sponsor_bank :: rstr
  row_iso_version :: rstr
  row_pqc_field_number :: int
  row_encoding :: rstr
  row_max_buffer_size :: int
  row_strip_headers :: rstr

definition switch_config_json :: "SwitchConfigRecord \<Rightarrow> json" where
  "switch_config_json r = JObject
    [(rlit ''sponsor_bank'', JString (row_sponsor_bank r)), (rlit ''iso_version'', JString (row_iso_version r)),
     (rlit ''pqc_field_number'', JInt (row_pqc_field_number r)), (rlit ''encoding'', JString (row_encoding r)),
     (rlit ''max_buffer_size'', JInt (row_max_buffer_size r)), (rlit ''strip_headers'', JString (row_strip_headers r))]"

text \<open>The rows of the query, if it succeeds.\<close>

definition get_switch_configs :: "SwitchConfigRecord list option \<Rightarrow> StatusCode + json" where
  "get_switch_configs rows =
    (case rows of None \<Rightarrow> Inl INTERNAL_SERVER_ERROR | Some configs \<Rightarrow> Inr (JArray (map switch_config_json configs)))"

record PkiNodeRecord =
  pki_license_id :: rstr
  ml_dsa_pk :: rstr
  endpoint_url :: "rstr option"
  is_trusted :: int

type_synonym pki_nodes = "rstr \<rightharpoonup> PkiNodeRecord"

text \<open>The insertion replaces the row of the node; the licence is a foreign key.\<close>

definition register_pki_node :: "db_env \<Rightarrow> clients \<Rightarrow> rstr \<Rightarrow> rstr \<Rightarrow> rstr \<Rightarrow> rstr option \<Rightarrow> pki_nodes \<Rightarrow> (StatusCode + unit) \<times> pki_nodes" where
  "register_pki_node env db node_id license_id pk endpoint nodes =
    (if \<not> update_ok env \<or> db license_id = None then (Inl INTERNAL_SERVER_ERROR, nodes)
     else (Inr (), nodes(node_id \<mapsto> \<lparr>pki_license_id = license_id, ml_dsa_pk = pk, endpoint_url = endpoint, is_trusted = 1\<rparr>)))"

definition list_pki_nodes :: "db_env \<Rightarrow> pki_nodes \<Rightarrow> StatusCode + pki_nodes" where
  "list_pki_nodes env nodes =
    (if \<not> fetch_ok env then Inl INTERNAL_SERVER_ERROR
     else Inr (\<lambda>n. case nodes n of None \<Rightarrow> None | Some r \<Rightarrow> if is_trusted r = 1 then Some r else None))"

record DashboardFleetNode =
  node_name :: rstr
  node_license :: rstr
  node_fp :: rstr
  node_status :: rstr

text \<open>The two slices of a long fingerprint panic inside a character.\<close>

definition fleet_fingerprint :: "rstr \<Rightarrow> rstr option" where
  "fleet_fingerprint fp_full =
    (if str_len fp_full > 18
     then do { front \<leftarrow> str_slice 0 10 fp_full;
               back \<leftarrow> str_slice (str_len fp_full - 8) (str_len fp_full) fp_full;
               Some (front @ rlit ''...'' @ back) }
     else Some fp_full)"

definition fleet_node :: "(rstr \<Rightarrow> rstr option) \<Rightarrow> rstr \<Rightarrow> DBClient \<Rightarrow> DashboardFleetNode option" where
  "fleet_node name_of license r = do {
     fp_display \<leftarrow> fleet_fingerprint (case bound_fingerprint r of Some fp \<Rightarrow> fp | None \<Rightarrow> rlit ''8f9a2b7c4d5e8f9a2bb5c7d8e9'');
     Some \<lparr>node_name = (case name_of license of Some n \<Rightarrow> n | None \<Rightarrow> rlit ''Proxy Shield Enclave''), node_license = license,
       node_fp = fp_display, node_status = (if is_active r = 1 then rlit ''Online'' else rlit ''Suspended'')\<rparr>
   }"

text \<open>\<open>ids\<close> are the licences of the table in ascending order, \<open>name_of\<close> its column \<open>name\<close>; \<open>None\<close> is a panic.\<close>

definition dashboard_fleet_handler :: "db_env \<Rightarrow> (rstr \<Rightarrow> rstr option) \<Rightarrow> rstr list \<Rightarrow> clients \<Rightarrow> (StatusCode + DashboardFleetNode list) option" where
  "dashboard_fleet_handler env name_of ids db =
    (if \<not> fetch_ok env then Some (Inl INTERNAL_SERVER_ERROR)
     else map_option Inr (those (map (\<lambda>license. fleet_node name_of license (the (db license))) ids)))"

text \<open>The update touches only a time stamp, which the table here does not hold.\<close>

definition dashboard_sync_handler :: "db_env \<Rightarrow> rstr \<Rightarrow> clients \<Rightarrow> (StatusCode + bool \<times> rstr \<times> rstr) \<times> clients" where
  "dashboard_sync_handler env license_id db =
    (if \<not> update_ok env then (Inl INTERNAL_SERVER_ERROR, db)
     else (Inr (True, license_id, rlit ''Configuration hot-reloaded across edge mesh''), db))"

definition healthz_handler :: "bool \<Rightarrow> nat \<times> json" where
  "healthz_handler db_answers =
    (if db_answers
     then (200, JObject [(rlit ''status'', JString (rlit ''UP'')), (rlit ''database'', JString (rlit ''connected'')), (rlit ''version'', JString (rlit ''1.0.0''))])
     else (503, JObject [(rlit ''status'', JString (rlit ''DOWN'')), (rlit ''database'', JString (rlit ''disconnected''))]))"

text \<open>The counts of the queries; a query that fails counts zero.\<close>

definition cloud_metrics_lines :: "nat option \<Rightarrow> nat option \<Rightarrow> nat option \<Rightarrow> nat option \<Rightarrow> rstr list" where
  "cloud_metrics_lines clients_count pki_count switch_count latest_epoch =
    (let n = (\<lambda>c. dec_digits (case c of Some k \<Rightarrow> k | None \<Rightarrow> 0)) in
     [rlit ''# HELP solomon_cloud_active_clients_total Total number of active licensed client proxies'',
      rlit ''# TYPE solomon_cloud_active_clients_total gauge'',
      rlit ''solomon_cloud_active_clients_total '' @ n clients_count,
      rlit ''# HELP solomon_cloud_pki_nodes_registered Total number of registered trusted PQC nodes'',
      rlit ''# TYPE solomon_cloud_pki_nodes_registered gauge'',
      rlit ''solomon_cloud_pki_nodes_registered '' @ n pki_count,
      rlit ''# HELP solomon_cloud_switch_configs_active Number of active dynamic switch routing rules'',
      rlit ''# TYPE solomon_cloud_switch_configs_active gauge'',
      rlit ''solomon_cloud_switch_configs_active '' @ n switch_count,
      rlit ''# HELP solomon_cloud_global_ai_model_epoch Current aggregated global AI model version/epoch'',
      rlit ''# TYPE solomon_cloud_global_ai_model_epoch gauge'',
      rlit ''solomon_cloud_global_ai_model_epoch '' @ n latest_epoch])"

text \<open>The telemetry of the dashboard: three draws of the random generator, and the claim that they are live.\<close>

definition dashboard_telemetry_handler :: "nat \<Rightarrow> nat \<Rightarrow> nat \<Rightarrow> nat \<times> nat \<times> nat \<times> bool" where
  "dashboard_telemetry_handler last_interval last_bytes active = (last_interval, last_bytes, active, True)"

text \<open>
  The master key of the control plane: read from its file, or drawn and written at the first start.  The result is the seed and the file; \<open>None\<close> is a panic, when a file is too
  short or cannot be written.
\<close>

definition load_or_init :: "bytes option \<Rightarrow> bytes \<Rightarrow> bool \<Rightarrow> (bytes \<times> bytes) option" where
  "load_or_init file drawn write_ok =
    (case file of
       Some key_bytes \<Rightarrow> if length key_bytes < 32 then None else Some (take 32 key_bytes, key_bytes)
     | None \<Rightarrow> if write_ok then Some (drawn, drawn) else None)"

section \<open>What synchronisation accepts\<close>

text \<open>The entries of an answer that carries the MAC of its list under the shared secret.\<close>

definition authentic_items :: "json_codec \<Rightarrow> bytes \<Rightarrow> bytes option \<Rightarrow> json list" where
  "authentic_items codec secret response =
    (case Option.bind response (json_parse codec) of
       Some envelope \<Rightarrow>
         (case (json_get (rlit ''mac'') envelope, json_get (rlit ''configs'') envelope) of
            (Some (JString mac), Some (JArray items)) \<Rightarrow>
              if mac = to_hex (shake_spec 136 (secret @ (case json_print codec (JArray items) of Some b \<Rightarrow> b | None \<Rightarrow> [])) 32) then items else []
          | _ \<Rightarrow> [])
     | None \<Rightarrow> [])"

lemma round_applies:
  "config_sync_round codec lc secret response cfg = Some (fold (apply_item lc) (authentic_items codec secret response) cfg)"
proof (cases "Option.bind response (json_parse codec)")
  case None
  then show ?thesis by (simp add: config_sync_round_def authentic_items_def)
next
  case (Some envelope)
  show ?thesis
  proof (cases "Option.bind (json_get (rlit ''mac'') envelope) as_str")
    case None
    then show ?thesis using Some by (auto simp: config_sync_round_def authentic_items_def split: option.splits json.splits)
  next
    case (Some mac)
    then have m: "json_get (rlit ''mac'') envelope = Some (JString mac)"
      by (cases "json_get (rlit ''mac'') envelope"; cases "the (json_get (rlit ''mac'') envelope)") auto
    show ?thesis using m \<open>Option.bind response (json_parse codec) = Some envelope\<close>
      by (auto simp: config_sync_round_def authentic_items_def config_mac_def shake256_of_spec Let_def split: option.split json.split)
  qed
qed

lemma rounds_apply:
  "sync_rounds codec lc secret responses cfg = Some (fold (apply_item lc) (concat (map (authentic_items codec secret) responses)) cfg)"
  by (induction responses arbitrary: cfg) (simp_all add: round_applies)

lemma item_of_row:
  assumes "0 \<le> row_pqc_field_number r" and "row_pqc_field_number r < 2 ^ 64" and "0 \<le> row_max_buffer_size r" and "row_max_buffer_size r < 2 ^ 64"
  shows "config_of_item lc (switch_config_json r) = Some (row_sponsor_bank r,
    \<lparr>iso_version = row_iso_version r, pqc_snark_field = rlit ''Field '' @ dec_digits (nat (row_pqc_field_number r)),
     pqc_field_number = word_of_int (row_pqc_field_number r), max_buffer_size = word_of_int (row_max_buffer_size r),
     encoding = row_encoding r, strip_headers = parse_strip_headers (row_strip_headers r)\<rparr>)"
proof -
  have "unat (word_of_int (row_pqc_field_number r) :: u64) = nat (row_pqc_field_number r)"
    using assms(1,2) by (simp add: unat_eq_nat_uint uint_word_of_int)
  moreover have "(ucast (word_of_int (row_pqc_field_number r) :: u64) :: u8) = word_of_int (row_pqc_field_number r)"
    by (simp add: unsigned_word_eqI ucast_down_wi is_down)
  moreover have "map_of [(rlit ''sponsor_bank'', a), (rlit ''iso_version'', b), (rlit ''pqc_field_number'', c), (rlit ''encoding'', d),
      (rlit ''max_buffer_size'', e), (rlit ''strip_headers'', f)] (rlit ''backend_url'') = None" for a b c d e f :: json
    by (simp add: rlit_def)
  ultimately show ?thesis using assms by (simp add: config_of_item_def switch_config_json_def rlit_def)
qed

section \<open>Properties\<close>

text \<open>
  C28: Only authenticated entries reach the routing table: whatever the answers, the table after the loop is the table before
  with the entries of those answers applied whose list carries its MAC under the shared secret, in their order.  Without a secret nothing changes.
\<close>

theorem config_sync_authentic:
  "run_switch_config_sync_loop codec lc secret responses cfg = Some (case secret of
      None \<Rightarrow> cfg
    | Some s \<Rightarrow> if s = [] then cfg else fold (apply_item lc) (concat (map (authentic_items codec (as_bytes s)) responses)) cfg)"
  by (simp add: run_switch_config_sync_loop_def rounds_apply split: option.split)

text \<open>
  The control plane's own answer is never applied: its endpoint publishes the bare list of rows, the proxy asks for an object with a MAC, so a
  synchronisation with it leaves every table as it was.
\<close>

theorem cloud_configs_ignored:
  assumes "get_switch_configs rows = Inr answer" and "json_print codec answer = Some body" and "json_parse codec body = Some answer"
  shows "config_sync_round codec lc secret (Some body) cfg = Some cfg"
  using assms by (auto simp: get_switch_configs_def config_sync_round_def split: option.splits)

definition seeded_rows :: "SwitchConfigRecord list" where
  "seeded_rows =
    [\<lparr>row_sponsor_bank = rlit ''bank_A_tcs_bancs'', row_iso_version = rlit ''1987'', row_pqc_field_number = 112, row_encoding = rlit ''EBCDIC'',
      row_max_buffer_size = 256, row_strip_headers = rlit ''X-PQC-Metadata,Fintech-Telemetry''\<rparr>,
     \<lparr>row_sponsor_bank = rlit ''bank_B_finacle'', row_iso_version = rlit ''1993'', row_pqc_field_number = 123, row_encoding = rlit ''ASCII'',
      row_max_buffer_size = 150, row_strip_headers = rlit ''X-Signature-Raw''\<rparr>]"

definition one_value_codec :: "json \<Rightarrow> json_codec" where
  "one_value_codec v = \<lparr>json_parse = (\<lambda>b. if b = [1] then Some v else None), json_print = (\<lambda>w. if w = v then Some [1] else Some [2])\<rparr>"

theorem cloud_configs_ignored_witness:
  "config_sync_round (one_value_codec (JArray (map switch_config_json seeded_rows))) id [7] (Some [1]) fallback_iso_config = Some fallback_iso_config"
  by (rule cloud_configs_ignored [of "Some seeded_rows" "JArray (map switch_config_json seeded_rows)"])
    (simp_all add: get_switch_configs_def one_value_codec_def)

text \<open>
  The field number of a published row is cut to eight bits without a check: a row with number \<open>n\<close> is configured under the name \<open>Field n\<close>, but
  messages are enriched in field \<open>n mod 256\<close>.
\<close>

theorem field_number_truncated:
  assumes "0 \<le> row_pqc_field_number r" and "row_pqc_field_number r < 2 ^ 64" and "0 \<le> row_max_buffer_size r" and "row_max_buffer_size r < 2 ^ 64"
  shows "\<exists>config. apply_item lc (switch_config_json r) cfg (row_sponsor_bank r) = Some config
    \<and> pqc_snark_field config = rlit ''Field '' @ dec_digits (nat (row_pqc_field_number r))
    \<and> uint (pqc_field_number config) = row_pqc_field_number r mod 256"
  by (simp add: apply_item_def item_of_row [OF assms] uint_word_of_int)

theorem field_number_truncated_witness:
  "\<exists>config. apply_item id (switch_config_json ((hd seeded_rows)\<lparr>row_pqc_field_number := 368\<rparr>)) fallback_iso_config (row_sponsor_bank ((hd seeded_rows)\<lparr>row_pqc_field_number := 368\<rparr>)) = Some config
    \<and> pqc_snark_field config = rlit ''Field '' @ dec_digits (nat (row_pqc_field_number ((hd seeded_rows)\<lparr>row_pqc_field_number := 368\<rparr>)))
    \<and> uint (pqc_field_number config) = row_pqc_field_number ((hd seeded_rows)\<lparr>row_pqc_field_number := 368\<rparr>) mod 256"
  by (rule field_number_truncated) (simp_all add: seeded_rows_def)

text \<open>
  The ledger of node keys belongs to whoever writes last: a registration under any known licence replaces the key of a node
  registered under another one, and the ledger then reports the new key as trusted.
\<close>

theorem pki_key_replaced:
  assumes "update_ok env" and "fetch_ok env" and "db license = Some c"
  shows "\<exists>ledger. list_pki_nodes env (snd (register_pki_node env db node license pk endpoint nodes)) = Inr ledger
    \<and> map_option ml_dsa_pk (ledger node) = Some pk \<and> (\<forall>other. other \<noteq> node \<longrightarrow> ledger other = (case nodes other of Some r \<Rightarrow> if is_trusted r = 1 then Some r else None | None \<Rightarrow> None))"
  using assms by (auto simp: list_pki_nodes_def register_pki_node_def split: option.split)

theorem pki_key_replaced_witness:
  "\<exists>ledger. list_pki_nodes \<lparr>fetch_ok = True, update_ok = True\<rparr> (snd (register_pki_node \<lparr>fetch_ok = True, update_ok = True\<rparr>
      [rlit ''ENT-2'' \<mapsto> \<lparr>bound_fingerprint = None, is_active = 1\<rparr>] (rlit ''node'') (rlit ''ENT-2'') (rlit ''bb'') None
      [rlit ''node'' \<mapsto> \<lparr>pki_license_id = rlit ''ENT-1'', ml_dsa_pk = rlit ''aa'', endpoint_url = None, is_trusted = 1\<rparr>])) = Inr ledger
    \<and> map_option ml_dsa_pk (ledger (rlit ''node'')) = Some (rlit ''bb'')
    \<and> (\<forall>other. other \<noteq> rlit ''node'' \<longrightarrow> ledger other = (case [rlit ''node'' \<mapsto> \<lparr>pki_license_id = rlit ''ENT-1'', ml_dsa_pk = rlit ''aa'', endpoint_url = None, is_trusted = 1\<rparr>] other of
        Some r \<Rightarrow> if is_trusted r = 1 then Some r else None | None \<Rightarrow> None))"
  by (rule pki_key_replaced [where c = "\<lparr>bound_fingerprint = None, is_active = 1\<rparr>"]) simp_all

text \<open>
  A fingerprint can take the dashboard down: a client of an unbound licence that presents a string with a character across
  its tenth byte is accepted and bound, and from then on the fleet view panics on the slice, whatever else the table holds.
\<close>

definition multibyte_fingerprint :: rstr where
  "multibyte_fingerprint = replicate 9 97 @ 233 # replicate 10 97"

theorem fingerprint_breaks_dashboard:
  assumes "db license = Some c" and "is_active c \<noteq> 0" and "bound_fingerprint c = None" and "fetch_ok env" and "update_ok env" and "license \<in> set ids"
  shows "case authenticate_client env license multibyte_fingerprint db of
    (r, db') \<Rightarrow> r = Inr () \<and> dashboard_fleet_handler env name_of ids db' = None"
proof -
  let ?db = "db(license \<mapsto> c\<lparr>bound_fingerprint := Some multibyte_fingerprint\<rparr>)"
  have auth: "authenticate_client env license multibyte_fingerprint db = (Inr (), ?db)"
    using assms by (simp add: authenticate_client_def auth_lookup_def auth_bind_def)
  have "fleet_fingerprint multibyte_fingerprint = None"
    by (simp add: fleet_fingerprint_def multibyte_fingerprint_def str_len_def str_slice_def utf8_len_def eval_nat_numeral)
  then have "fleet_node name_of license (the (?db license)) = None" by (simp add: fleet_node_def)
  then have "those (map (\<lambda>l. fleet_node name_of l (the (?db l))) ids) = None"
    using assms(6) by (induction ids) (auto split: option.splits)
  then show ?thesis using assms(4) by (simp add: auth dashboard_fleet_handler_def)
qed

theorem fingerprint_breaks_dashboard_witness:
  "case authenticate_client \<lparr>fetch_ok = True, update_ok = True\<rparr> (rlit ''ENT-1'') multibyte_fingerprint [rlit ''ENT-1'' \<mapsto> \<lparr>bound_fingerprint = None, is_active = 1\<rparr>] of
    (r, db') \<Rightarrow> r = Inr () \<and> dashboard_fleet_handler \<lparr>fetch_ok = True, update_ok = True\<rparr> (\<lambda>_. None) [rlit ''ENT-1''] db' = None"
  by (rule fingerprint_breaks_dashboard [where c = "\<lparr>bound_fingerprint = None, is_active = 1\<rparr>"]) simp_all

text \<open>The master key survives restarts: once a start has stored its key, every later start loads the same one.\<close>

theorem master_key_stable:
  assumes "length drawn = 32" and "load_or_init file drawn write_ok = Some (key, file')"
  shows "load_or_init (Some file') drawn' write_ok' = Some (key, file')"
  using assms by (auto simp: load_or_init_def split: option.splits if_splits)

end
