(* ===== verification/Batch.thy ===== *)
theory Batch
  imports ProxyIso Merkle
begin

text \<open>
  The batch accumulator (\<open>solomon-core/src/zk/batch.rs\<close>): transactions wait in a bounded channel, a
  background worker collects them into batches, aggregates each batch into a Merkle tree of SHAKE-256
  hashes behind a panic boundary, and spools a batch whose aggregation panics to a dead-letter file.

  Producers, worker, clock and disk interleave freely: a run is a list of events, each event one push, the closing
  of the channel, or one iteration of the worker's loop with what the operating system answers.
\<close>

section \<open>Aggregation of a batch\<close>

definition DEFAULT_BATCH_SIZE :: nat where "DEFAULT_BATCH_SIZE = 16"
definition DEFAULT_BATCH_WINDOW_MS :: nat where "DEFAULT_BATCH_WINDOW_MS = 5"
definition DEFAULT_CHANNEL_CAPACITY :: nat where "DEFAULT_CHANNEL_CAPACITY = 10000"

definition dummy_transaction :: TransactionRecord where
  "dummy_transaction = \<lparr>tx_payload = replicate 32 0, tx_public_key = replicate 1952 0, tx_signature = replicate 3309 0\<rparr>"

definition pad_batch :: "TransactionRecord list \<Rightarrow> (TransactionRecord \<times> bool) list" where
  "pad_batch batch =
    (let target_pow2 = next_pow2 1 (max (length batch) DEFAULT_BATCH_SIZE)
     in map (\<lambda>tx. (tx, False)) batch @ replicate (target_pow2 - length batch) (dummy_transaction, True))"

text \<open>The aggregation returns \<open>None\<close> when it panics.  The injected panic exists in debug builds only.\<close>

definition batch_leaf :: "bool \<Rightarrow> nat \<Rightarrow> TransactionRecord \<times> bool \<Rightarrow> digest option" where
  "batch_leaf debug i = (\<lambda>(tx, is_padding).
    if debug \<and> tx_payload tx = as_bytes (rlit ''POISON_PILL'') then None
    else if is_padding then shake256_of [as_bytes (rlit ''PADDING''), [word_of_nat i]] 32
    else shake256_of [tx_payload tx] 32)"

fun batch_pairs :: "digest list \<Rightarrow> digest list option" where
  "batch_pairs [] = Some []"
| "batch_pairs [a] = do { parent \<leftarrow> shake256_of [a, a] 32; Some [parent] }"
| "batch_pairs (a # b # rest) = do { parent \<leftarrow> shake256_of [a, b] 32; parents \<leftarrow> batch_pairs rest; Some (parent # parents) }"

lemma batch_pairs_length: "batch_pairs xs = Some ys \<Longrightarrow> length ys = Suc (length xs) div 2"
  by (induction xs arbitrary: ys rule: batch_pairs.induct) (auto simp: bind_eq_Some_conv)

function batch_layers :: "digest list list \<Rightarrow> digest list \<Rightarrow> (digest list \<times> digest list list) option" where
  "batch_layers layers current_layer =
    (if length current_layer > 1
     then do { next_layer \<leftarrow> batch_pairs current_layer; batch_layers (layers @ [next_layer]) next_layer }
     else Some (current_layer, layers))"
  by pat_completeness auto

termination batch_layers
  by (relation "measure (\<lambda>(layers, current). length current)") (auto dest!: batch_pairs_length)

declare batch_layers.simps [simp del]

definition build_merkle_tree :: "bool \<Rightarrow> (TransactionRecord \<times> bool) list \<Rightarrow> (digest \<times> digest list list) option" where
  "build_merkle_tree debug padded_batch =
    do { leaves \<leftarrow> those (map (\<lambda>(i, entry). batch_leaf debug i entry) (zip [0..<length padded_batch] padded_batch));
         (current_layer, layers) \<leftarrow> batch_layers [leaves] leaves;
         if current_layer = [] then None
         else Some (current_layer ! 0, map (siblings (butlast layers)) [0..<length padded_batch]) }"

section \<open>Channel and worker\<close>

datatype BatchIngressError = QueueFull | WorkerDisconnected

record BatchProofRecord =
  batch_id :: nat
  batch_merkle_root :: digest
  transaction_count :: nat
  batch_timestamp :: nat

text \<open>
  The accumulator with its channel, the worker's buffer, the shared counters and the dead-letter files.
  \<open>worker_panics\<close> is the static \<open>CONSECUTIVE_WORKER_PANICS\<close>.
\<close>

record accumulator =
  channel_queue :: "TransactionRecord list"
  channel_capacity :: nat
  channel_closed :: bool
  worker_alive :: bool
  worker_panics :: nat
  in_flight_buffer :: "TransactionRecord list"
  target_size :: nat
  panics_total :: nat
  batches_processed :: nat
  latest_batch :: "BatchProofRecord option"
  wal_files :: "rstr \<Rightarrow> bytes option"

definition batch_with_config :: "nat \<Rightarrow> nat \<Rightarrow> accumulator" where
  "batch_with_config n capacity = \<lparr>channel_queue = [], channel_capacity = capacity, channel_closed = False, worker_alive = True,
    worker_panics = 0, in_flight_buffer = [], target_size = n, panics_total = 0, batches_processed = 0,
    latest_batch = None, wal_files = (\<lambda>_. None)\<rparr>"

definition new_batch_accumulator :: accumulator where
  "new_batch_accumulator = batch_with_config DEFAULT_BATCH_SIZE DEFAULT_CHANNEL_CAPACITY"

definition try_push :: "TransactionRecord \<Rightarrow> accumulator \<Rightarrow> (BatchIngressError + unit) \<times> accumulator" where
  "try_push tx s =
    (if worker_panics s \<ge> 5 then (Inl WorkerDisconnected, s)
     else if \<not> worker_alive s then (Inl WorkerDisconnected, s)
     else if length (channel_queue s) \<ge> channel_capacity s then (Inl QueueFull, s)
     else (Inr (), s\<lparr>channel_queue := channel_queue s @ [tx]\<rparr>))"

text \<open>The synchronous wrapper: its push ignores the outcome.\<close>

definition sync_with_config :: "nat \<Rightarrow> accumulator" where
  "sync_with_config n = batch_with_config n DEFAULT_CHANNEL_CAPACITY"

definition sync_push :: "TransactionRecord \<Rightarrow> accumulator \<Rightarrow> TransactionRecord list option \<times> accumulator" where
  "sync_push tx s = (None, snd (try_push tx s))"

text \<open>
  What an iteration of the worker meets: whether the batch window has run out, the milliseconds since the epoch
  (\<open>None\<close> before it), whether the dead-letter file opens, and how much of a write reaches it.
\<close>

record worker_env =
  window_expired :: bool
  epoch_millis :: "nat option"
  wal_opens :: bool
  wal_stored :: "bytes \<Rightarrow> bytes"

definition wal_name :: "nat \<Rightarrow> rstr" where
  "wal_name ms = rlit ''solomon_dlq_'' @ dec_digits ms @ rlit ''.wal''"

definition wal_append :: "worker_env \<Rightarrow> rstr \<Rightarrow> bytes \<Rightarrow> accumulator \<Rightarrow> accumulator" where
  "wal_append env name data s =
    s\<lparr>wal_files := (wal_files s)(name \<mapsto> (case wal_files s name of None \<Rightarrow> [] | Some old \<Rightarrow> old) @ wal_stored env data)\<rparr>"

definition spool_batch :: "(TransactionRecord list \<Rightarrow> bytes option) \<Rightarrow> worker_env \<Rightarrow> nat \<Rightarrow> TransactionRecord list \<Rightarrow> accumulator \<Rightarrow> accumulator" where
  "spool_batch bincode env ms batch s =
    (if wal_opens env
     then let serialized = (case bincode batch of Some b \<Rightarrow> b | None \<Rightarrow> []);
              len_prefix = le_bytes 4 (length serialized mod 2 ^ 32)
          in wal_append env (wal_name ms) serialized (wal_append env (wal_name ms) len_prefix s)
     else s)"

definition process_batch :: "bool \<Rightarrow> (TransactionRecord list \<Rightarrow> bytes option) \<Rightarrow> worker_env \<Rightarrow> TransactionRecord list \<Rightarrow> accumulator \<Rightarrow> accumulator" where
  "process_batch debug bincode env batch s =
    (case build_merkle_tree debug (pad_batch batch) of
      Some (root, _) \<Rightarrow>
        let ts = (case epoch_millis env of Some ms \<Rightarrow> ms div 1000 | None \<Rightarrow> 0);
            proof_record = \<lparr>batch_id = batches_processed s, batch_merkle_root = root, transaction_count = length batch, batch_timestamp = ts\<rparr>
        in s\<lparr>worker_panics := 0, batches_processed := batches_processed s + 1, latest_batch := Some proof_record\<rparr>
    | None \<Rightarrow>
        let s = s\<lparr>worker_panics := worker_panics s + 1, panics_total := panics_total s + 1\<rparr>
        in (case epoch_millis env of
             None \<Rightarrow> s\<lparr>worker_alive := False\<rparr>
           | Some ms \<Rightarrow> spool_batch bincode env ms batch s))"

definition flush_if_due :: "bool \<Rightarrow> (TransactionRecord list \<Rightarrow> bytes option) \<Rightarrow> worker_env \<Rightarrow> bool \<Rightarrow> accumulator \<Rightarrow> accumulator \<times> TransactionRecord list option" where
  "flush_if_due debug bincode env timeout_expired s =
    (if length (in_flight_buffer s) \<ge> target_size s \<or> timeout_expired \<and> in_flight_buffer s \<noteq> []
     then let batch_to_process = in_flight_buffer s
          in (process_batch debug bincode env batch_to_process (s\<lparr>in_flight_buffer := []\<rparr>), Some batch_to_process)
     else (s, None))"

text \<open>
  One iteration; the second result is the batch handed to the aggregation, if any.  The receiver is polled
  before the timer; with an open empty channel and no timer due the worker waits.
\<close>

definition worker_iteration :: "bool \<Rightarrow> (TransactionRecord list \<Rightarrow> bytes option) \<Rightarrow> worker_env \<Rightarrow> accumulator \<Rightarrow> accumulator \<times> TransactionRecord list option" where
  "worker_iteration debug bincode env s =
    (if \<not> worker_alive s then (s, None)
     else if worker_panics s \<ge> 5 then (s\<lparr>worker_panics := 0\<rparr>, None)
     else (case channel_queue s of
        tx # rest \<Rightarrow> flush_if_due debug bincode env False (s\<lparr>channel_queue := rest, in_flight_buffer := in_flight_buffer s @ [tx]\<rparr>)
      | [] \<Rightarrow>
          if channel_closed s then (s\<lparr>worker_alive := False\<rparr>, None)
          else if window_expired env \<and> in_flight_buffer s \<noteq> [] then flush_if_due debug bincode env True s
          else (s, None)))"

datatype batch_event = Push TransactionRecord | CloseChannel | Work worker_env

text \<open>
  A run returns the accumulator, the accepted transactions in their order and the batches handed over.  The channel closes
  when the last producer is gone, so there are no pushes afterwards.
\<close>

fun batch_run :: "bool \<Rightarrow> (TransactionRecord list \<Rightarrow> bytes option) \<Rightarrow> batch_event list \<Rightarrow> accumulator
    \<Rightarrow> accumulator \<times> TransactionRecord list \<times> TransactionRecord list list" where
  "batch_run debug bincode [] s = (s, [], [])"
| "batch_run debug bincode (Push tx # es) s =
    (if channel_closed s then batch_run debug bincode es s
     else case try_push tx s of
      (Inr _, s') \<Rightarrow> let (s'', acc, fl) = batch_run debug bincode es s' in (s'', tx # acc, fl)
    | (Inl _, s') \<Rightarrow> batch_run debug bincode es s')"
| "batch_run debug bincode (CloseChannel # es) s = batch_run debug bincode es (s\<lparr>channel_closed := True\<rparr>)"
| "batch_run debug bincode (Work env # es) s =
    (case worker_iteration debug bincode env s of
      (s', None) \<Rightarrow> batch_run debug bincode es s'
    | (s', Some b) \<Rightarrow> let (s'', acc, fl) = batch_run debug bincode es s' in (s'', acc, b # fl))"

section \<open>The tree of a batch\<close>

definition shake32 :: hash_fn where
  "shake32 x = shake_spec 136 x 32"

lemma shake256_of_32: "shake256_of parts 32 = Some (shake32 (concat parts))"
  by (simp add: shake256_of_spec shake32_def)

lemma length_shake32 [simp]: "length (shake32 x) = 32"
  by (simp add: shake32_def)

lemma batch_pairs_even: "even (length xs) \<Longrightarrow> batch_pairs xs = Some (hash_pairs shake32 xs)"
  by (induction xs rule: batch_pairs.induct) (simp_all add: shake256_of_32)

lemma batch_layers_levels:
  "length xs = 2 ^ d \<Longrightarrow> batch_layers layers xs = Some (last (levels shake32 xs), layers @ tl (levels shake32 xs))"
proof (induction d arbitrary: layers xs)
  case 0
  then show ?case by (simp add: batch_layers.simps levels.simps)
next
  case (Suc d)
  let ?ys = "hash_pairs shake32 xs"
  have ev: "even (length xs)" using Suc.prems by simp
  have "1 < length xs" using Suc.prems one_less_power [of "2 :: nat" "Suc d"] by simp
  moreover have "levels shake32 ?ys = ?ys # tl (levels shake32 ?ys)"
    using hd_levels [of shake32 ?ys] list.collapse [OF levels_nonempty, of shake32 ?ys] by simp
  ultimately show ?case using Suc.IH [OF hash_pairs_exp [OF Suc.prems], of "layers @ [?ys]"]
    by (subst batch_layers.simps) (simp add: batch_pairs_even [OF ev] levels_Suc [OF Suc.prems])
qed

definition leaf_of :: "nat \<Rightarrow> TransactionRecord \<times> bool \<Rightarrow> digest" where
  "leaf_of i entry = shake32 (if snd entry then as_bytes (rlit ''PADDING'') @ [word_of_nat i] else tx_payload (fst entry))"

definition batch_leaves :: "(TransactionRecord \<times> bool) list \<Rightarrow> digest list" where
  "batch_leaves padded = map (\<lambda>i. leaf_of i (padded ! i)) [0..<length padded]"

definition poisoned :: "(TransactionRecord \<times> bool) list \<Rightarrow> bool" where
  "poisoned padded = list_ex (\<lambda>(tx, _). tx_payload tx = as_bytes (rlit ''POISON_PILL'')) padded"

lemma those_map: "those (map f xs) = (if list_all (\<lambda>x. f x \<noteq> None) xs then Some (map (\<lambda>x. the (f x)) xs) else None)"
  by (induction xs) (auto split: option.splits)

lemma batch_leaf_some: "\<not> (debug \<and> tx_payload (fst entry) = as_bytes (rlit ''POISON_PILL'')) \<Longrightarrow> batch_leaf debug i entry = Some (leaf_of i entry)"
  by (cases entry) (auto simp: batch_leaf_def leaf_of_def shake256_of_32)

lemma batch_leaves_ok:
  "\<not> (debug \<and> poisoned padded) \<Longrightarrow>
    those (map (\<lambda>(i, entry). batch_leaf debug i entry) (zip [0..<length padded] padded)) = Some (batch_leaves padded)"
proof -
  assume clean: "\<not> (debug \<and> poisoned padded)"
  have "batch_leaf debug i (padded ! i) = Some (leaf_of i (padded ! i))" if "i < length padded" for i
  proof (rule batch_leaf_some)
    show "\<not> (debug \<and> tx_payload (fst (padded ! i)) = as_bytes (rlit ''POISON_PILL''))"
      using clean that unfolding poisoned_def list_ex_length by (auto simp: split_def)
  qed
  moreover have "map (\<lambda>(i, entry). batch_leaf debug i entry) (zip [0..<length padded] padded)
      = map (\<lambda>i. batch_leaf debug i (padded ! i)) [0..<length padded]"
    by (rule nth_equalityI) simp_all
  ultimately show ?thesis by (simp add: those_map list_all_iff batch_leaves_def)
qed

lemma batch_leaves_poisoned:
  assumes "poisoned padded"
  shows "build_merkle_tree True padded = None"
proof -
  obtain i where i: "i < length padded" "tx_payload (fst (padded ! i)) = as_bytes (rlit ''POISON_PILL'')"
    using assms unfolding poisoned_def list_ex_length by (auto simp: split_def)
  then have "batch_leaf True i (padded ! i) = None" by (simp add: batch_leaf_def split_def)
  then have "\<not> list_all (\<lambda>x. (case x of (i, entry) \<Rightarrow> batch_leaf True i entry) \<noteq> None) (zip [0..<length padded] padded)"
    using i(1) by (auto simp: list_all_length)
  then show ?thesis by (simp add: build_merkle_tree_def those_map)
qed

lemma pad_batch_exp: "\<exists>d. length (pad_batch batch) = 2 ^ d"
  using next_pow2_exp [of 0 "max (length batch) DEFAULT_BATCH_SIZE"] by (auto simp: pad_batch_def Let_def)

lemma length_last_levels: "length xs = 2 ^ d \<Longrightarrow> length (last (levels h xs)) = 1"
proof (induction d arbitrary: xs)
  case 0
  then show ?case by (simp add: levels.simps)
next
  case (Suc d)
  then show ?case by (simp add: levels_Suc)
qed

lemma build_tree_ok:
  assumes "\<not> (debug \<and> poisoned padded)" and "length padded = 2 ^ d"
  shows "build_merkle_tree debug padded = Some (last (levels shake32 (batch_leaves padded)) ! 0,
    map (siblings (butlast (levels shake32 (batch_leaves padded)))) [0..<2 ^ d])"
proof -
  let ?xs = "batch_leaves padded"
  have len: "length ?xs = 2 ^ d" using assms(2) by (simp add: batch_leaves_def)
  have "?xs # tl (levels shake32 ?xs) = levels shake32 ?xs"
    using hd_levels [of shake32 ?xs] list.collapse [OF levels_nonempty, of shake32 ?xs] by simp
  moreover have "last (levels shake32 ?xs) \<noteq> []" using length_last_levels [OF len, of shake32] by auto
  ultimately show ?thesis unfolding build_merkle_tree_def batch_leaves_ok [OF assms(1)]
    using assms(2) batch_layers_levels [OF len, of "[?xs]"] by simp
qed

section \<open>Steps of the worker\<close>

lemma process_batch_frame [simp]:
  "channel_queue (process_batch debug bincode env b s) = channel_queue s"
  "in_flight_buffer (process_batch debug bincode env b s) = in_flight_buffer s"
  "target_size (process_batch debug bincode env b s) = target_size s"
  "channel_capacity (process_batch debug bincode env b s) = channel_capacity s"
  "channel_closed (process_batch debug bincode env b s) = channel_closed s"
  by (simp_all add: process_batch_def spool_batch_def wal_append_def Let_def split: option.splits prod.splits)

lemma process_batch_count:
  "batches_processed (process_batch debug bincode env b s) + panics_total (process_batch debug bincode env b s)
    = Suc (batches_processed s + panics_total s)"
  by (simp add: process_batch_def spool_batch_def wal_append_def Let_def split: option.splits prod.splits)

lemma process_batch_panics: "worker_panics (process_batch debug bincode env b s) \<le> Suc (worker_panics s)"
  by (simp add: process_batch_def spool_batch_def wal_append_def Let_def split: option.splits prod.splits)

lemma process_batch_release:
  "worker_panics (process_batch False bincode env b s) = 0" "worker_alive (process_batch False bincode env b s) = worker_alive s"
proof -
  obtain d where "length (pad_batch b) = 2 ^ d" using pad_batch_exp by blast
  from build_tree_ok [OF _ this, of False] show "worker_panics (process_batch False bincode env b s) = 0"
    "worker_alive (process_batch False bincode env b s) = worker_alive s"
    by (simp_all add: process_batch_def Let_def)
qed

text \<open>What an iteration does to the transactions: they move on, in their order.\<close>

lemma worker_moves:
  assumes "worker_iteration debug bincode env s = (s', out)"
  shows "in_flight_buffer s @ channel_queue s = (case out of None \<Rightarrow> [] | Some b \<Rightarrow> b) @ in_flight_buffer s' @ channel_queue s'"
  using assms by (auto simp: worker_iteration_def flush_if_due_def Let_def split: if_splits list.splits)

definition batch_inv :: "accumulator \<Rightarrow> bool" where
  "batch_inv s \<longleftrightarrow> length (channel_queue s) \<le> channel_capacity s \<and> length (in_flight_buffer s) < target_size s \<and> worker_panics s \<le> 5"

lemma worker_inv:
  assumes "worker_iteration debug bincode env s = (s', out)" and "batch_inv s"
  shows "batch_inv s' \<and> channel_capacity s' = channel_capacity s \<and> target_size s' = target_size s
    \<and> batches_processed s' + panics_total s' = batches_processed s + panics_total s + (case out of None \<Rightarrow> 0 | Some _ \<Rightarrow> 1)
    \<and> (\<forall>b. out = Some b \<longrightarrow> 0 < length b \<and> length b \<le> target_size s)"
  using assms process_batch_panics [of debug bincode env]
  by (fastforce simp: worker_iteration_def flush_if_due_def batch_inv_def process_batch_count Let_def split: if_splits list.splits
    intro: le_trans)

text \<open>A run step by step: an event, then the rest.\<close>

fun batch_step :: "bool \<Rightarrow> (TransactionRecord list \<Rightarrow> bytes option) \<Rightarrow> batch_event \<Rightarrow> accumulator
    \<Rightarrow> accumulator \<times> TransactionRecord list \<times> TransactionRecord list list" where
  "batch_step debug bincode (Push tx) s =
    (if channel_closed s then (s, [], [])
     else case try_push tx s of (Inr _, s') \<Rightarrow> (s', [tx], []) | (Inl _, s') \<Rightarrow> (s', [], []))"
| "batch_step debug bincode CloseChannel s = (s\<lparr>channel_closed := True\<rparr>, [], [])"
| "batch_step debug bincode (Work env) s =
    (case worker_iteration debug bincode env s of (s', None) \<Rightarrow> (s', [], []) | (s', Some b) \<Rightarrow> (s', [], [b]))"

lemma batch_run_Cons:
  "batch_run debug bincode (e # es) s = (case batch_step debug bincode e s of (s1, acc1, fl1) \<Rightarrow>
    case batch_run debug bincode es s1 of (s2, acc2, fl2) \<Rightarrow> (s2, acc1 @ acc2, fl1 @ fl2))"
  by (cases e) (auto split: prod.splits sum.splits option.splits)

lemma batch_step_moves:
  "batch_step debug bincode e s = (s', acc, fl) \<Longrightarrow>
    in_flight_buffer s @ channel_queue s @ acc = concat fl @ in_flight_buffer s' @ channel_queue s'"
  by (cases e) (auto simp: try_push_def dest!: worker_moves split: if_splits prod.splits option.splits)

lemma batch_step_inv:
  assumes "batch_step debug bincode e s = (s', acc, fl)" and "batch_inv s"
  shows "batch_inv s' \<and> channel_capacity s' = channel_capacity s \<and> target_size s' = target_size s
    \<and> batches_processed s' + panics_total s' = batches_processed s + panics_total s + length fl
    \<and> (\<forall>b \<in> set fl. 0 < length b \<and> length b \<le> target_size s)"
proof (cases e)
  case (Push tx)
  then show ?thesis using assms by (auto simp: try_push_def batch_inv_def split: if_splits)
next
  case CloseChannel
  then show ?thesis using assms by (auto simp: batch_inv_def)
next
  case (Work env)
  obtain s1 out where w: "worker_iteration debug bincode env s = (s1, out)" by (cases "worker_iteration debug bincode env s")
  then show ?thesis using worker_inv [OF w assms(2)] assms(1) Work by (cases out) auto
qed

lemma batch_run_moves:
  "batch_run debug bincode es s = (s', acc, fl) \<Longrightarrow>
    in_flight_buffer s @ channel_queue s @ acc = concat fl @ in_flight_buffer s' @ channel_queue s'"
proof (induction es arbitrary: s acc fl)
  case (Cons e es)
  obtain s1 a1 f1 where st: "batch_step debug bincode e s = (s1, a1, f1)" by (cases "batch_step debug bincode e s")
  obtain s2 a2 f2 where rn: "batch_run debug bincode es s1 = (s2, a2, f2)" by (cases "batch_run debug bincode es s1")
  have eq: "s' = s2" "acc = a1 @ a2" "fl = f1 @ f2" using Cons.prems st rn unfolding batch_run_Cons by simp_all
  have "in_flight_buffer s @ channel_queue s @ acc = concat f1 @ in_flight_buffer s1 @ channel_queue s1 @ a2"
    using batch_step_moves [OF st] unfolding eq by (simp flip: append_assoc)
  also have "\<dots> = concat fl @ in_flight_buffer s' @ channel_queue s'" using Cons.IH [of s1 a2 f2] rn unfolding eq by simp
  finally show ?case .
qed simp

lemma batch_run_inv:
  "batch_run debug bincode es s = (s', acc, fl) \<Longrightarrow> batch_inv s \<Longrightarrow>
    batch_inv s' \<and> channel_capacity s' = channel_capacity s \<and> target_size s' = target_size s
    \<and> batches_processed s' + panics_total s' = batches_processed s + panics_total s + length fl
    \<and> (\<forall>b \<in> set fl. 0 < length b \<and> length b \<le> target_size s)"
proof (induction es arbitrary: s acc fl)
  case (Cons e es)
  obtain s1 a1 f1 where st: "batch_step debug bincode e s = (s1, a1, f1)" by (cases "batch_step debug bincode e s")
  obtain s2 a2 f2 where rn: "batch_run debug bincode es s1 = (s2, a2, f2)" by (cases "batch_run debug bincode es s1")
  have eq: "s' = s2" "fl = f1 @ f2" using Cons.prems(1) st rn unfolding batch_run_Cons by simp_all
  show ?case using batch_step_inv [OF st Cons.prems(2)] Cons.IH [of s1 a2 f2] rn unfolding eq by auto
qed simp

text \<open>A release build, with the batch window run out: the worker works off the channel and the buffer.\<close>

lemma worker_release:
  assumes "worker_iteration False bincode env s = (s', out)" and "worker_alive s" and "worker_panics s < 5"
    and "\<not> channel_closed s" and "window_expired env"
  shows "worker_alive s' \<and> worker_panics s' < 5 \<and> \<not> channel_closed s' \<and> length (channel_queue s') = length (channel_queue s) - 1
    \<and> (channel_queue s = [] \<longrightarrow> in_flight_buffer s' = [])"
  using assms by (auto simp: worker_iteration_def flush_if_due_def Let_def process_batch_release split: if_splits list.splits)

lemma batch_run_drains:
  assumes "worker_alive s" and "worker_panics s < 5" and "\<not> channel_closed s" and "length (channel_queue s) < length envs"
    and "list_all window_expired envs"
  shows "\<exists>s' fl. batch_run False bincode (map Work envs) s = (s', [], fl) \<and> channel_queue s' = [] \<and> in_flight_buffer s' = []"
  using assms
proof (induction envs arbitrary: s)
  case (Cons env envs)
  obtain s1 out where w: "worker_iteration False bincode env s = (s1, out)" by (cases "worker_iteration False bincode env s")
  note st = worker_release [OF w Cons.prems(1-3)]
  show ?case
  proof (cases "length (channel_queue s1) < length envs")
    case True
    then obtain s' fl where "batch_run False bincode (map Work envs) s1 = (s', [], fl)" "channel_queue s' = []" "in_flight_buffer s' = []"
      using Cons.IH [of s1] st Cons.prems(5) by auto
    then show ?thesis using w by (cases out) (auto simp: split_def)
  next
    case False
    have "length (channel_queue s1) = length (channel_queue s) - 1" using st Cons.prems(5) by simp
    moreover have "length (channel_queue s) < Suc (length envs)" using Cons.prems(4) by simp
    ultimately have "length envs = 0" "length (channel_queue s) = 0" using False by linarith+
    then have "envs = []" "channel_queue s = []" by simp_all
    then show ?thesis using w st Cons.prems(5) by (cases out) auto
  qed
qed simp

section \<open>Properties\<close>


text \<open>
  C19: Bounds of every run of an accumulator with a positive batch size: the channel stays within its capacity,
  the buffer below the batch size, the panic count within the limit of the circuit breaker, every batch handed over has between one and \<open>target_size\<close>
  transactions, and each of them is counted once, as processed or as panicked.
\<close>

theorem batch_bounds:
  assumes "0 < n"
  shows "case batch_run debug bincode es (batch_with_config n capacity) of (s, acc, flushed) \<Rightarrow>
    length (channel_queue s) \<le> capacity \<and> length (in_flight_buffer s) < n \<and> worker_panics s \<le> 5
    \<and> list_all (\<lambda>b. 0 < length b \<and> length b \<le> n) flushed
    \<and> batches_processed s + panics_total s = length flushed"
proof -
  obtain s acc fl where r: "batch_run debug bincode es (batch_with_config n capacity) = (s, acc, fl)"
    by (cases "batch_run debug bincode es (batch_with_config n capacity)")
  have "batch_inv (batch_with_config n capacity)" using assms by (simp add: batch_inv_def batch_with_config_def)
  from batch_run_inv [OF r this] show ?thesis unfolding r
    by (simp add: batch_inv_def batch_with_config_def list_all_iff)
qed

definition sample_tx :: "u8 \<Rightarrow> TransactionRecord" where
  "sample_tx b = \<lparr>tx_payload = [b], tx_public_key = [], tx_signature = []\<rparr>"

definition sample_worker_env :: worker_env where
  "sample_worker_env = \<lparr>window_expired = True, epoch_millis = Some 1700000000000, wal_opens = True, wal_stored = id\<rparr>"

theorem batch_bounds_witness:
  "case batch_run True (\<lambda>_. None) [Push (sample_tx 1), Push (sample_tx 2), Push (sample_tx 3), Work sample_worker_env] (batch_with_config 2 2) of (s, acc, flushed) \<Rightarrow>
    length (channel_queue s) \<le> 2 \<and> length (in_flight_buffer s) < 2 \<and> worker_panics s \<le> 5
    \<and> list_all (\<lambda>b. 0 < length b \<and> length b \<le> 2) flushed
    \<and> batches_processed s + panics_total s = length flushed"
  by (rule batch_bounds) simp

text \<open>
  Progress of a release build: a worker whose circuit breaker is closed hands over everything that
  waits in the channel and in the buffer within one iteration more than there are waiting transactions, once the batch window runs out.
\<close>

theorem batch_drains:
  assumes "worker_alive s" and "worker_panics s < 5" and "\<not> channel_closed s" and "length (channel_queue s) < length envs"
    and "list_all window_expired envs"
  shows "\<exists>s' flushed. batch_run False bincode (map Work envs) s = (s', [], flushed)
    \<and> concat flushed = in_flight_buffer s @ channel_queue s \<and> channel_queue s' = [] \<and> in_flight_buffer s' = []"
proof -
  obtain s' fl where "batch_run False bincode (map Work envs) s = (s', [], fl)" "channel_queue s' = []" "in_flight_buffer s' = []"
    using batch_run_drains [OF assms] by blast
  with batch_run_moves [OF this(1)] show ?thesis by simp
qed

theorem batch_drains_witness:
  "\<exists>s' flushed. batch_run False (\<lambda>_. None) (map Work [sample_worker_env, sample_worker_env]) ((batch_with_config 2 2)\<lparr>channel_queue := [sample_tx 1]\<rparr>) = (s', [], flushed)
    \<and> concat flushed = in_flight_buffer ((batch_with_config 2 2)\<lparr>channel_queue := [sample_tx 1]\<rparr>) @ channel_queue ((batch_with_config 2 2)\<lparr>channel_queue := [sample_tx 1]\<rparr>)
    \<and> channel_queue s' = [] \<and> in_flight_buffer s' = []"
  by (rule batch_drains) (simp_all add: batch_with_config_def sample_worker_env_def)

text \<open>
  Every inclusion proof of a batch verifies: unless the batch holds the injected panic of a debug build, the aggregation of
  the padded batch returns a root and one proof per entry, and the proof of each transaction leads from the hash of
  its payload to the root.
\<close>

theorem batch_inclusion_verifies:
  assumes "\<not> (debug \<and> poisoned (pad_batch batch))"
  shows "\<exists>root proofs. build_merkle_tree debug (pad_batch batch) = Some (root, proofs) \<and> length proofs = length (pad_batch batch)
    \<and> list_all (\<lambda>i. verify_merkle_proof shake32 root (shake32 (tx_payload (batch ! i))) (proofs ! i) i) [0..<length batch]"
proof -
  obtain d where d: "length (pad_batch batch) = 2 ^ d" using pad_batch_exp by blast
  let ?xs = "batch_leaves (pad_batch batch)"
  have len: "length ?xs = 2 ^ d" using d by (simp add: batch_leaves_def)
  have "length batch \<le> 2 ^ d" unfolding d [symmetric] by (simp add: pad_batch_def Let_def)
  moreover have "?xs ! i = shake32 (tx_payload (batch ! i))" if "i < length batch" for i
    using that by (simp add: batch_leaves_def leaf_of_def pad_batch_def Let_def nth_append)
  ultimately have "verify_merkle_proof shake32 (last (levels shake32 ?xs) ! 0) (shake32 (tx_payload (batch ! i)))
      (siblings (butlast (levels shake32 ?xs)) i) i" if "i < length batch" for i
    using tree_opens [OF len, of i shake32] that by (simp add: verify_merkle_proof_def)
  then show ?thesis using build_tree_ok [OF assms d] d \<open>length batch \<le> 2 ^ d\<close> by (simp add: list_all_iff)
qed

theorem batch_inclusion_verifies_witness:
  "\<exists>root proofs. build_merkle_tree True (pad_batch [sample_tx 1]) = Some (root, proofs) \<and> length proofs = length (pad_batch [sample_tx 1])
    \<and> list_all (\<lambda>i. verify_merkle_proof shake32 root (shake32 (tx_payload ([sample_tx 1] ! i))) (proofs ! i) i) [0..<length [sample_tx 1]]"
proof (rule batch_inclusion_verifies)
  have "as_bytes (rlit ''POISON_PILL'') \<noteq> [1]" "as_bytes (rlit ''POISON_PILL'') \<noteq> replicate 32 0" by code_simp+
  then show "\<not> (True \<and> poisoned (pad_batch [sample_tx 1]))"
    by (auto simp: poisoned_def pad_batch_def sample_tx_def dummy_transaction_def Let_def list_ex_iff)
qed

text \<open>
  Closing the channel loses the buffer: when the last producer goes away the worker works off the channel, but what is
  then left in its buffer, fewer transactions than a batch, is never handed over.
\<close>

theorem shutdown_drops_buffer:
  assumes "worker_alive s" and "worker_panics s < 5" and "channel_closed s" and "channel_queue s = []"
  shows "\<exists>s'. batch_run debug bincode (Work env # es) s = (s', [], []) \<and> in_flight_buffer s' = in_flight_buffer s \<and> \<not> worker_alive s'"
proof -
  have "\<exists>s'. batch_run debug bincode es t = (s', [], []) \<and> in_flight_buffer s' = in_flight_buffer t \<and> \<not> worker_alive s'"
    if "\<not> worker_alive t" "channel_closed t" for t
    using that
  proof (induction es arbitrary: t)
    case (Cons e es)
    have "\<exists>t1. batch_step debug bincode e t = (t1, [], []) \<and> in_flight_buffer t1 = in_flight_buffer t \<and> \<not> worker_alive t1 \<and> channel_closed t1"
      using Cons.prems by (cases e) (auto simp: worker_iteration_def)
    then show ?case using Cons.IH unfolding batch_run_Cons by fastforce
  qed simp
  from this [of "s\<lparr>worker_alive := False\<rparr>"] show ?thesis using assms by (simp add: worker_iteration_def)
qed

theorem shutdown_drops_buffer_witness:
  "\<exists>s'. batch_run False (\<lambda>_. None) [Work sample_worker_env, Work sample_worker_env] ((batch_with_config 2 2)\<lparr>channel_closed := True, in_flight_buffer := [sample_tx 1]\<rparr>) = (s', [], [])
    \<and> in_flight_buffer s' = in_flight_buffer ((batch_with_config 2 2)\<lparr>channel_closed := True, in_flight_buffer := [sample_tx 1]\<rparr>) \<and> \<not> worker_alive s'"
  by (rule shutdown_drops_buffer) (simp_all add: batch_with_config_def)

end
