(* ===== verification/HttpProxy.thy ===== *)
theory HttpProxy
  imports SwitchConfig Batch Stark Ebcdic "HOL-Library.AList"
begin

text \<open>
  The HTTP side of the proxy (\<open>proxy.rs\<close>): the transparent handler with its licence gate, signing, batching, proofs, repacking for
  the sponsor bank and forwarding; health, metrics, and the bearer-token guard of the operator endpoints.

  A request is handled in one step on the shared state.  JSON, the HTTP types, Ed25519 and Keccak-256 belong to packages:
  they are the fields of \<open>http_packages\<close>.  What the network, the clock and the disk do is \<open>http_env\<close>.
\<close>

section \<open>Definitions\<close>

subsection \<open>Requests, state and environment\<close>

text \<open>Header names are in lower case, as the header map keeps them; \<open>req_body\<close> is \<open>None\<close> when reading the body fails.\<close>

record http_request =
  req_method :: rstr
  req_path_and_query :: "rstr option"
  req_headers :: "(rstr \<times> bytes) list"
  req_body :: "bytes option"

record outbound =
  out_method :: rstr
  out_uri :: rstr
  out_headers :: "(rstr \<times> bytes) list"
  out_body :: bytes

record http_response =
  resp_status :: nat
  resp_headers :: "(rstr \<times> bytes) list"
  resp_body :: bytes

record http_packages =
  codec :: json_codec
  header_to_str :: "bytes \<Rightarrow> rstr option"
  zk_json :: "ZkAuthorizationProof \<Rightarrow> bytes option"
  keccak :: hash_fn
  stark_to_vec :: "StarkProof \<Rightarrow> bytes option"
  stark_from_slice :: "bytes \<Rightarrow> StarkProof option"
  node_ed :: ed25519

record http_state =
  hp_proxy :: ProxyState
  hp_heartbeat :: heartbeat
  hp_config :: iso_config
  hp_batch :: accumulator
  hp_audit :: "(logger_config \<times> worker) option"
  hp_detector :: AnomalyDetector
  hybrid_mode :: bool
  ed25519_seed :: bytes
  backend_url :: rstr
  active_requests :: nat
  total_requests :: nat
  last_request_bytes :: nat
  last_request_interval_ms :: nat

text \<open>\<open>upstream\<close> is the answer of the back end, if there is one: status, headers, and the body unless reading it fails.\<close>

record http_env =
  http_now :: u64
  interval_ms :: nat
  stark_latency_us :: nat
  stark_latency_ms :: u64
  upstream :: "outbound \<Rightarrow> (nat \<times> (rstr \<times> bytes) list \<times> bytes option) option"
  audit_io :: io_env
  emit_ok :: bool
  routes_order :: "(rstr \<times> u64 list) list \<Rightarrow> (rstr \<times> u64 list) list"

subsection \<open>Repacking for the sponsor bank\<close>

definition default_bank :: rstr where "default_bank = rlit ''bank_A_tcs_bancs''"

definition sponsor_bank_of :: "http_packages \<Rightarrow> http_request \<Rightarrow> bytes \<Rightarrow> rstr" where
  "sponsor_bank_of p req body =
    (case Option.bind (map_of (req_headers req) (rlit ''x-sponsor-bank'')) (header_to_str p) of
       Some s \<Rightarrow> s
     | None \<Rightarrow> (case Option.bind (json_parse (codec p) body) (\<lambda>v. Option.bind (json_get (rlit ''sponsor_bank'') v) as_str) of
         Some sb \<Rightarrow> sb
       | None \<Rightarrow> default_bank))"

text \<open>Assignment through an index: \<open>null\<close> becomes an object, any other value that is not an object panics.\<close>

fun json_set :: "rstr \<Rightarrow> json \<Rightarrow> json \<Rightarrow> json option" where
  "json_set key v (JObject kvs) = Some (JObject (AList.update key v kvs))"
| "json_set key v JNull = Some (JObject [(key, v)])"
| "json_set key v _ = None"

definition encode_proof :: "rstr \<Rightarrow> bytes \<Rightarrow> rstr" where
  "encode_proof enc zk_bytes =
    (if enc = rlit ''EBCDIC'' then to_hex (ascii_to_ebcdic (as_bytes (to_hex zk_bytes))) else to_hex zk_bytes)"

definition repack :: "http_packages \<Rightarrow> SponsorBankConfig \<Rightarrow> bytes \<Rightarrow> bytes \<Rightarrow> (StatusCode, bytes) outcome" where
  "repack p bank_config zk_bytes body =
    (case json_parse (codec p) body of
       None \<Rightarrow> Inr body
     | Some v \<Rightarrow>
         let encoded_proof = encode_proof (encoding bank_config) zk_bytes in
         if str_len encoded_proof > unat (max_buffer_size bank_config) then Err PAYLOAD_TOO_LARGE
         else (case json_set (pqc_snark_field bank_config) (JString encoded_proof) v of
             None \<Rightarrow> Panicked
           | Some v' \<Rightarrow> Inr (case json_print (codec p) v' of Some new_bytes \<Rightarrow> new_bytes | None \<Rightarrow> body)))"

text \<open>The body to forward and the headers to strip.\<close>

definition route_body :: "http_packages \<Rightarrow> iso_config \<Rightarrow> rstr \<Rightarrow> bytes \<Rightarrow> bytes \<Rightarrow> (StatusCode, bytes \<times> rstr list) outcome" where
  "route_body p cfg sponsor_bank zk_bytes body =
    (case cfg sponsor_bank of
       None \<Rightarrow> Inr (body, [])
     | Some bank_config \<Rightarrow> (case repack p bank_config zk_bytes body of
         Inl f \<Rightarrow> Inl f
       | Inr final_body \<Rightarrow> Inr (final_body, strip_headers bank_config)))"

subsection \<open>The outbound request\<close>

definition ascii_lower :: "rstr \<Rightarrow> rstr" where
  "ascii_lower s = map (\<lambda>c. if 65 \<le> c \<and> c \<le> 90 then c + 32 else c) s"

definition header_kept :: "rstr list \<Rightarrow> rstr \<Rightarrow> bool" where
  "header_kept strip name \<longleftrightarrow> name \<noteq> rlit ''host'' \<and> name \<noteq> rlit ''content-length''
    \<and> \<not> list_ex (\<lambda>h. ascii_lower h = ascii_lower name) strip"

record proof_headers =
  ph_signature :: bytes
  ph_fingerprint :: bytes
  ph_zk :: bytes
  ph_stark_root :: rstr
  ph_fri :: rstr

definition hybrid_header :: "http_packages \<Rightarrow> http_state \<Rightarrow> bytes \<Rightarrow> bytes \<Rightarrow> (rstr \<times> bytes) list" where
  "hybrid_header p st pk body =
    (if hybrid_mode st
     then let ed_pk = ed_public (node_ed p) (ed25519_seed st);
              m_composite = construct_composite_message ed_pk pk body;
              ed_sig = ed_sign (node_ed p) (ed25519_seed st) m_composite
          in [(rlit ''x-solomon-hybrid-sig'', as_bytes (to_hex ed_sig))]
     else [])"

definition solomon_headers :: "http_env \<Rightarrow> proof_headers \<Rightarrow> (rstr \<times> bytes) list" where
  "solomon_headers env ph =
    [(rlit ''x-solomon-pq-sig'', as_bytes (to_hex (ph_signature ph))),
     (rlit ''x-solomon-pq-sig-fingerprint'', as_bytes (to_hex (ph_fingerprint ph))),
     (rlit ''x-solomon-zk-auth'', ph_zk ph),
     (rlit ''x-solomon-stark-root'', as_bytes (ph_stark_root ph)),
     (rlit ''x-solomon-fri-commitment'', as_bytes (ph_fri ph)),
     (rlit ''x-solomon-proof-time-us'', as_bytes (dec_digits (stark_latency_us env)))]"

definition outbound_request :: "http_packages \<Rightarrow> http_env \<Rightarrow> http_state \<Rightarrow> http_request \<Rightarrow> proof_headers \<Rightarrow> bytes \<Rightarrow> bytes \<Rightarrow> bytes \<Rightarrow> rstr list \<Rightarrow> outbound" where
  "outbound_request p env st req ph pk body final_body strip =
    \<lparr>out_method = req_method req,
     out_uri = backend_url st @ (case req_path_and_query req of Some pq \<Rightarrow> pq | None \<Rightarrow> []),
     out_headers = filter (\<lambda>(name, value). header_kept strip name) (req_headers req) @ solomon_headers env ph @ hybrid_header p st pk body,
     out_body = final_body\<rparr>"

subsection \<open>The handler\<close>

definition MAX_BODY_BYTES :: nat where "MAX_BODY_BYTES = 1024 * 1024"

definition begin_request :: "http_env \<Rightarrow> http_state \<Rightarrow> http_state" where
  "begin_request env st = st\<lparr>active_requests := active_requests st + 1, total_requests := total_requests st + 1,
     last_request_interval_ms := interval_ms env\<rparr>"

definition end_request :: "http_state \<Rightarrow> http_state" where
  "end_request st = st\<lparr>active_requests := active_requests st - 1\<rparr>"

definition http_audit_event :: "http_env \<Rightarrow> http_state \<Rightarrow> bytes \<Rightarrow> rstr \<Rightarrow> audit_event" where
  "http_audit_event env st sig_hash sponsor_bank =
    \<lparr>ev_id = rlit ''tx-'' @ to_hex (take 8 sig_hash), ev_route = sponsor_bank,
     ev_profile = \<lparr>algorithm_suite = (if hybrid_mode st then rlit ''ML-DSA-65 + Ed25519 (RFC 9591)'' else rlit ''ML-DSA-65 (FIPS 204)''),
       hybrid_verified = hybrid_mode st, starks_proven = True, proof_latency_ms = stark_latency_ms env\<rparr>,
     ev_region = rlit ''IN-MUM-01'', ev_action = SuccessForwarded\<rparr>"

text \<open>After a forwarded request: the anomaly detector and the audit record, whose hash is the receipt.\<close>

definition audit_success :: "http_env \<Rightarrow> bytes \<Rightarrow> rstr \<Rightarrow> http_state \<Rightarrow> http_state \<times> rstr option" where
  "audit_success env sig_hash sponsor_bank st =
    (case hp_audit st of
       None \<Rightarrow> (st, None)
     | Some (cfg, w) \<Rightarrow>
         let st = st\<lparr>hp_detector := observe (routes_order env) SuccessForwarded sponsor_bank (http_now env) (hp_detector st)\<rparr> in
         if emit_ok env
         then let (w', rec) = log_event cfg (audit_io env) (http_audit_event env st sig_hash sponsor_bank) w
              in (st\<lparr>hp_audit := Some (cfg, w')\<rparr>, Some (current_hash rec))
         else (st, None))"

type_synonym http_result = "http_state \<times> outbound option \<times> (StatusCode, http_response) outcome"

definition forward :: "http_env \<Rightarrow> http_state \<Rightarrow> bytes \<Rightarrow> rstr \<Rightarrow> outbound \<Rightarrow> http_result" where
  "forward env st sig_hash sponsor_bank out =
    (case upstream env out of
       None \<Rightarrow> (end_request st, Some out, Err BAD_GATEWAY)
     | Some (status, headers, None) \<Rightarrow> (end_request st, Some out, Err INTERNAL_SERVER_ERROR)
     | Some (status, headers, Some response_body) \<Rightarrow>
         let (st, receipt) = audit_success env sig_hash sponsor_bank st in
         (end_request st, Some out,
          Inr \<lparr>resp_status = status,
               resp_headers = headers @ (case receipt of Some r \<Rightarrow> [(rlit ''x-solomon-audit-receipt'', as_bytes r)] | None \<Rightarrow> []),
               resp_body = response_body\<rparr>))"

text \<open>The two header values of the STARK proof.\<close>

definition stark_headers :: "http_packages \<Rightarrow> bytes \<Rightarrow> rstr \<times> rstr" where
  "stark_headers p stark_proof =
    (case stark_from_slice p stark_proof of
       Some parsed \<Rightarrow> (to_hex (trace_root parsed), to_hex (le_bytes 8 (unat (final_poly (fri_proof parsed)))))
     | None \<Rightarrow> (to_hex (replicate 32 0), to_hex (replicate 8 0)))"

text \<open>From the signature to the answer: proofs, repacking, forwarding.\<close>

definition prove_and_forward :: "http_packages \<Rightarrow> http_env \<Rightarrow> http_state \<Rightarrow> http_request \<Rightarrow> bytes \<Rightarrow> bytes \<Rightarrow> bytes \<Rightarrow> http_result option" where
  "prove_and_forward p env st req body sig pk = do {
     sig_hash \<leftarrow> shake256_of [sig] 32;
     zk \<leftarrow> zk_generate (node_identity (hp_proxy st)) (proxy_fingerprint (hp_proxy st)) sig_hash;
     case (generate_stark_proof (keccak p) (stark_to_vec p) sig pk body :: (unit, bytes) outcome) of
       Inl _ \<Rightarrow> Some (st, None, Panicked)
     | Inr stark_proof \<Rightarrow>
         let (stark_root_hex, fri_constant_hex) = stark_headers p stark_proof in
         (case zk_json p zk of
            None \<Rightarrow> Some (end_request st, None, Err INTERNAL_SERVER_ERROR)
          | Some zk_bytes \<Rightarrow>
              let sponsor_bank = sponsor_bank_of p req body in
              (case route_body p (hp_config st) sponsor_bank zk_bytes body of
                 Inl Panic \<Rightarrow> Some (st, None, Panicked)
               | Inl (Fail code) \<Rightarrow> Some (end_request st, None, Err code)
               | Inr (final_body, strip) \<Rightarrow> do {
                   fp \<leftarrow> shake256_of [sig] 32;
                   let ph = \<lparr>ph_signature = sig, ph_fingerprint = fp, ph_zk = zk_bytes, ph_stark_root = stark_root_hex, ph_fri = fri_constant_hex\<rparr>;
                   Some (forward env st sig_hash sponsor_bank (outbound_request p env st req ph pk body final_body strip))
                 }))
   }"

text \<open>A panic of the handler leaves its request counted as active.\<close>

definition proxy_handler :: "http_packages \<Rightarrow> http_env \<Rightarrow> http_state \<Rightarrow> http_request \<Rightarrow> http_result option" where
  "proxy_handler p env st req =
    (let (hb_status, mgr) = get_status (http_now env) (hp_heartbeat st);
         st = st\<lparr>hp_heartbeat := mgr\<rparr>
     in if \<not> status_operational hb_status then Some (st, None, Err SERVICE_UNAVAILABLE)
        else let st = begin_request env st in
          case req_body req of
            None \<Rightarrow> Some (end_request st, None, Err PAYLOAD_TOO_LARGE)
          | Some body \<Rightarrow>
              if length body > MAX_BODY_BYTES then Some (end_request st, None, Err PAYLOAD_TOO_LARGE)
              else let st = st\<lparr>last_request_bytes := length body\<rparr> in do {
                signed \<leftarrow> sign_guarded (hp_proxy st) body;
                case signed of
                  Inl Panic \<Rightarrow> Some (st, None, Panicked)
                | Inl (Fail _) \<Rightarrow> Some (end_request st, None, Err INTERNAL_SERVER_ERROR)
                | Inr (sig, pk) \<Rightarrow>
                    if extract_features_panics body then Some (st, None, Panicked)
                    else let tx = \<lparr>tx_payload = body, tx_public_key = pk, tx_signature = sig\<rparr> in
                      prove_and_forward p env (st\<lparr>hp_batch := snd (try_push tx (hp_batch st))\<rparr>) req body sig pk
              })"

subsection \<open>Health, metrics and operator access\<close>

fun health_status :: "HeartbeatStatus \<Rightarrow> nat \<times> json" where
  "health_status (Active last_synced valid_until) = (200, JObject
     [(rlit ''status'', JString (rlit ''healthy'')), (rlit ''heartbeat'', JString (rlit ''active'')),
      (rlit ''last_synced_epoch'', JInt (uint last_synced)), (rlit ''valid_until_epoch'', JInt (uint valid_until))])"
| "health_status (GracePeriod last_synced grace_until remaining) = (200, JObject
     [(rlit ''status'', JString (rlit ''degraded_grace_period'')), (rlit ''heartbeat'', JString (rlit ''offline_grace_active'')),
      (rlit ''last_synced_epoch'', JInt (uint last_synced)), (rlit ''grace_until_epoch'', JInt (uint grace_until)),
      (rlit ''grace_remaining_seconds'', JInt (uint remaining))])"
| "health_status (ExpiredFailClosed last_synced expired_at) = (503, JObject
     [(rlit ''status'', JString (rlit ''fail_closed_expired'')), (rlit ''heartbeat'', JString (rlit ''grace_period_expired'')),
      (rlit ''last_synced_epoch'', JInt (uint last_synced)), (rlit ''expired_at_epoch'', JInt (uint expired_at)),
      (rlit ''error'', JString (rlit ''72-hour offline grace period exceeded without token renewal''))])"

definition audit_healthy :: "http_state \<Rightarrow> bool" where
  "audit_healthy st = (case hp_audit st of None \<Rightarrow> True | Some (cfg, w) \<Rightarrow> w_healthy w)"

definition health_handler :: "u64 \<Rightarrow> http_state \<Rightarrow> (nat \<times> json) \<times> http_state" where
  "health_handler now st =
    (if \<not> audit_healthy st
     then ((503, JObject [(rlit ''status'', JString (rlit ''audit_degraded'')),
       (rlit ''error'', JString (rlit ''Audit logger background worker failed to write '' @ 8212 # rlit '' RBI compliance cannot be maintained.''))]), st)
     else let (status, mgr) = get_status now (hp_heartbeat st) in (health_status status, st\<lparr>hp_heartbeat := mgr\<rparr>))"

fun status_code_of :: "HeartbeatStatus \<Rightarrow> nat" where
  "status_code_of (Active _ _) = 1"
| "status_code_of (GracePeriod _ _ _) = 2"
| "status_code_of (ExpiredFailClosed _ _) = 0"

definition metrics_lines :: "nat \<Rightarrow> nat \<Rightarrow> nat \<Rightarrow> nat \<Rightarrow> nat \<Rightarrow> rstr list" where
  "metrics_lines active requests_total last_bytes last_interval hb_state_val =
    [rlit ''# HELP solomon_active_requests Number of requests currently being processed'',
     rlit ''# TYPE solomon_active_requests gauge'',
     rlit ''solomon_active_requests '' @ dec_digits active,
     rlit ''# HELP solomon_processed_requests_total Total number of requests processed by Solomon'',
     rlit ''# TYPE solomon_processed_requests_total counter'',
     rlit ''solomon_processed_requests_total '' @ dec_digits requests_total,
     rlit ''# HELP solomon_last_request_bytes Payload byte size of the last processed request'',
     rlit ''# TYPE solomon_last_request_bytes gauge'',
     rlit ''solomon_last_request_bytes '' @ dec_digits last_bytes,
     rlit ''# HELP solomon_last_packet_interval_ms Time interval in ms since the previous packet'',
     rlit ''# TYPE solomon_last_packet_interval_ms gauge'',
     rlit ''solomon_last_packet_interval_ms '' @ dec_digits last_interval,
     rlit ''# HELP solomon_heartbeat_status Current heartbeat status (1=Active, 2=GracePeriod, 0=ExpiredFailClosed)'',
     rlit ''# TYPE solomon_heartbeat_status gauge'',
     rlit ''solomon_heartbeat_status '' @ dec_digits hb_state_val]"

definition metrics_handler :: "u64 \<Rightarrow> http_state \<Rightarrow> rstr \<times> http_state" where
  "metrics_handler now st =
    (let (hb_status, mgr) = get_status now (hp_heartbeat st)
     in (concat (map (\<lambda>l. l @ [10]) (metrics_lines (active_requests st) (total_requests st) (last_request_bytes st)
           (last_request_interval_ms st) (status_code_of hb_status))), st\<lparr>hp_heartbeat := mgr\<rparr>))"

text \<open>\<open>mac\<close> is the address of a network interface, if one is found.\<close>

definition generate_hardware_fingerprint :: "rstr \<Rightarrow> bytes option \<Rightarrow> rstr \<Rightarrow> rstr \<Rightarrow> bytes option" where
  "generate_hardware_fingerprint arch mac os family =
    shake256_of [as_bytes arch, (case mac of Some m \<Rightarrow> m | None \<Rightarrow> as_bytes (rlit ''SOLOMON_DEFAULT_MAC'')), as_bytes os, as_bytes family] 32"

definition SOLOMON_MASTER_PUBLIC_KEY_BYTES :: bytes where
  "SOLOMON_MASTER_PUBLIC_KEY_BYTES =
    [138, 136, 227, 221, 116, 9, 241, 149, 253, 82, 219, 45, 60, 186, 93, 114,
     202, 103, 9, 191, 29, 148, 18, 27, 243, 116, 136, 1, 180, 15, 111, 92]"

definition get_master_public_key :: "rstr option \<Rightarrow> (unit, bytes) outcome" where
  "get_master_public_key key_env =
    (case key_env of
       None \<Rightarrow> Inr SOLOMON_MASTER_PUBLIC_KEY_BYTES
     | Some hex_str \<Rightarrow> (case parse_hex 32 hex_str of
         Inl f \<Rightarrow> Inl f
       | Inr None \<Rightarrow> Inr SOLOMON_MASTER_PUBLIC_KEY_BYTES
       | Inr (Some bytes) \<Rightarrow> Inr bytes))"

definition verify_epoch_signature :: "ed25519 \<Rightarrow> rstr option \<Rightarrow> bytes \<Rightarrow> bytes \<Rightarrow> (unit, bool) outcome" where
  "verify_epoch_signature ed key_env token signature_bytes =
    (case get_master_public_key key_env of
       Inl f \<Rightarrow> Inl f
     | Inr master_pk \<Rightarrow> Inr (verify_epoch_signature_with_pk ed token signature_bytes master_pk))"

record IamAccessRecord =
  timestamp_utc_secs :: u64
  iam_endpoint :: rstr
  operator_token_hash :: rstr
  source_ip :: "rstr option"
  mfa_verified :: bool
  access_granted :: bool
  iam_reason :: rstr

text \<open>
  \<open>token_env\<close> is the configured token, \<open>auth_header\<close> the text of the header if there is one, \<open>sha256_hex\<close> the package's hash; \<open>log_opens\<close> whether the access
  log can be created and opened, which the constructor of the logger expects.  The result: the decision, and what is logged.
\<close>

definition require_metrics_auth :: "(bytes \<Rightarrow> rstr) \<Rightarrow> rstr option \<Rightarrow> bool \<Rightarrow> u64 \<Rightarrow> rstr \<Rightarrow> rstr option \<Rightarrow> (StatusCode, unit) outcome \<times> IamAccessRecord list" where
  "require_metrics_auth sha256_hex token_env log_opens now path auth_header =
    (let expected = (case token_env of Some t \<Rightarrow> t | None \<Rightarrow> []);
         header = (case auth_header of Some h \<Rightarrow> h | None \<Rightarrow> [])
     in if expected = [] then (Err UNAUTHORIZED, [])
        else if take 7 header \<noteq> rlit ''Bearer ''
        then (if \<not> log_opens then (Panicked, [])
              else (Err UNAUTHORIZED, [\<lparr>timestamp_utc_secs = now, iam_endpoint = path, operator_token_hash = rlit ''missing_or_malformed_header'',
                source_ip = None, mfa_verified = False, access_granted = False, iam_reason = rlit ''missing_bearer_prefix''\<rparr>]))
        else let provided = drop 7 header;
                 exp_bytes = as_bytes expected;
                 prov_bytes = as_bytes provided;
                 diff = (if length exp_bytes \<noteq> length prov_bytes then 1 else ct_diff (length exp_bytes) exp_bytes prov_bytes);
                 granted = (diff = 0)
          in if \<not> log_opens then (Panicked, [])
             else (if granted then Inr () else Err FORBIDDEN,
               [\<lparr>timestamp_utc_secs = now, iam_endpoint = path, operator_token_hash = sha256_hex prov_bytes, source_ip = None,
                 mfa_verified = granted, access_granted = granted,
                 iam_reason = (if granted then rlit ''valid_bearer_token'' else rlit ''invalid_token'')\<rparr>]))"

section \<open>The outcomes of the handler\<close>

lemma end_request_active [simp]: "active_requests (end_request st) = active_requests st - 1" "total_requests (end_request st) = total_requests st"
  by (simp_all add: end_request_def)

lemma audit_success_counts [simp]:
  "active_requests (fst (audit_success env h bank st)) = active_requests st" "total_requests (fst (audit_success env h bank st)) = total_requests st"
  by (simp_all add: audit_success_def Let_def split: option.split prod.split)

lemma forward_counts:
  "forward env st h bank out = (st', fw, r) \<Longrightarrow>
    active_requests st' = active_requests st - 1 \<and> total_requests st' = total_requests st \<and> fw = Some out \<and> r \<noteq> Panicked"
  by (auto simp: forward_def Let_def split_def split: option.splits)

text \<open>The shape of what happens after signing: a panic, a refusal, or one forwarded request.\<close>

lemma prove_and_forward_cases:
  assumes "prove_and_forward p env st req body sig pk = Some (st', fw, r)"
  obtains (panic) "st' = st" "fw = None" "r = Panicked"
  | (refused) code where "st' = end_request st" "fw = None" "r = Err code"
  | (passed) zk zk_bytes final strip ph h where "route_body p (hp_config st) (sponsor_bank_of p req body) zk_bytes body = Inr (final, strip)"
      "ph_signature ph = sig" "ph_zk ph = zk_bytes"
      "forward env st h (sponsor_bank_of p req body) (outbound_request p env st req ph pk body final strip) = (st', fw, r)"
      "zk_generate (node_identity (hp_proxy st)) (proxy_fingerprint (hp_proxy st)) (shake_spec 136 sig 32) = Some zk" "zk_json p zk = Some zk_bytes"
proof -
  let ?h = "shake_spec 136 sig 32"
  obtain zk where zk: "zk_generate (node_identity (hp_proxy st)) (proxy_fingerprint (hp_proxy st)) ?h = Some zk"
    by (simp add: zk_generate_def shake256_of_spec)
  show thesis
  proof (cases "generate_stark_proof (keccak p) (stark_to_vec p) sig pk body :: (unit, bytes) outcome")
    case (Inl f)
    then show thesis using assms zk panic by (simp add: prove_and_forward_def shake256_of_spec)
  next
    case stark: (Inr stark_proof)
    show thesis
    proof (cases "zk_json p zk")
      case None
      then show thesis using assms zk stark refused by (auto simp: prove_and_forward_def shake256_of_spec split_def)
    next
      case zb: (Some zk_bytes)
      show thesis
      proof (cases "route_body p (hp_config st) (sponsor_bank_of p req body) zk_bytes body")
        case (Inl f)
        then show thesis using assms zk stark zb panic refused
          by (cases f) (auto simp: prove_and_forward_def shake256_of_spec split_def Let_def)
      next
        case (Inr fs)
        obtain final strip where fs: "fs = (final, strip)" by (cases fs)
        let ?ph = "\<lparr>ph_signature = sig, ph_fingerprint = ?h, ph_zk = zk_bytes, ph_stark_root = fst (stark_headers p stark_proof), ph_fri = snd (stark_headers p stark_proof)\<rparr>"
        have "forward env st ?h (sponsor_bank_of p req body) (outbound_request p env st req ?ph pk body final strip) = (st', fw, r)"
          using assms zk stark zb Inr fs by (simp add: prove_and_forward_def shake256_of_spec split_def Let_def)
        then show thesis using Inr fs zk zb passed [of zk_bytes final strip ?ph ?h zk] by simp
      qed
    qed
  qed
qed

text \<open>A signed request of an operational proxy, and the two counters.\<close>

lemma handler_signed:
  assumes "proxy_handler p env st req = Some (st', fw, r)" and "is_operational (http_now env) (hp_heartbeat st)"
    and "req_body req = Some body" and "length body \<le> MAX_BODY_BYTES" and "sign_guarded (hp_proxy st) body = Some (Inr (sig, pk))"
    and "\<not> extract_features_panics body"
  obtains st1 where "prove_and_forward p env st1 req body sig pk = Some (st', fw, r)"
    "active_requests st1 = active_requests st + 1" "total_requests st1 = total_requests st + 1" "hybrid_mode st1 = hybrid_mode st"
    "ed25519_seed st1 = ed25519_seed st" "backend_url st1 = backend_url st" "hp_config st1 = hp_config st" "hp_proxy st1 = hp_proxy st"
proof -
  obtain status mgr where hb: "get_status (http_now env) (hp_heartbeat st) = (status, mgr)" by (cases "get_status (http_now env) (hp_heartbeat st)")
  define st1 where "st1 = (begin_request env (st\<lparr>hp_heartbeat := mgr\<rparr>))\<lparr>last_request_bytes := length body,
    hp_batch := snd (try_push \<lparr>tx_payload = body, tx_public_key = pk, tx_signature = sig\<rparr> (hp_batch st))\<rparr>"
  have "prove_and_forward p env st1 req body sig pk = Some (st', fw, r)"
    using assms hb by (simp add: proxy_handler_def is_operational_def Let_def begin_request_def st1_def)
  then show thesis by (rule that) (simp_all add: st1_def begin_request_def)
qed

lemma handler_early:
  assumes "proxy_handler p env st req = Some (st', fw, r)" and "is_operational (http_now env) (hp_heartbeat st)"
    and "\<nexists>body sig pk. req_body req = Some body \<and> length body \<le> MAX_BODY_BYTES \<and> sign_guarded (hp_proxy st) body = Some (Inr (sig, pk)) \<and> \<not> extract_features_panics body"
  shows "fw = None \<and> total_requests st' = total_requests st + 1
    \<and> (r = Panicked \<and> active_requests st' = active_requests st + 1 \<or> (\<exists>code. r = Err code) \<and> active_requests st' = active_requests st)"
proof -
  obtain status mgr where hb: "get_status (http_now env) (hp_heartbeat st) = (status, mgr)" by (cases "get_status (http_now env) (hp_heartbeat st)")
  show ?thesis
  proof (cases "req_body req")
    case None
    then show ?thesis using assms(1,2) hb by (auto simp: proxy_handler_def is_operational_def Let_def begin_request_def)
  next
    case (Some body)
    show ?thesis
    proof (cases "length body \<le> MAX_BODY_BYTES")
      case True
      with assms(1,2) Some hb obtain signed where sg: "sign_guarded (hp_proxy st) body = Some signed"
        by (auto simp: proxy_handler_def is_operational_def Let_def begin_request_def bind_eq_Some_conv)
      then show ?thesis using assms Some hb True
        by (cases signed; cases "projl signed") (auto simp: proxy_handler_def is_operational_def Let_def begin_request_def)
    qed (use assms(1,2) hb Some in \<open>auto simp: proxy_handler_def is_operational_def Let_def begin_request_def\<close>)
  qed
qed

lemma handler_gated:
  assumes "proxy_handler p env st req = Some (st', fw, r)" and "\<not> is_operational (http_now env) (hp_heartbeat st)"
  shows "fw = None \<and> r = Err SERVICE_UNAVAILABLE \<and> active_requests st' = active_requests st \<and> total_requests st' = total_requests st"
  using assms by (auto simp: proxy_handler_def is_operational_def split_def Let_def)

lemma handler_cases:
  assumes "proxy_handler p env st req = Some (st', fw, r)"
  obtains (early) "fw = None" "r = Panicked \<and> active_requests st' = active_requests st + 1 \<or> (\<exists>code. r = Err code) \<and> active_requests st' = active_requests st"
  | (passed) body sig pk zk zk_bytes final strip ph st1 where
      "is_operational (http_now env) (hp_heartbeat st)" "req_body req = Some body" "length body \<le> MAX_BODY_BYTES"
      "sign_guarded (hp_proxy st) body = Some (Inr (sig, pk))"
      "route_body p (hp_config st) (sponsor_bank_of p req body) zk_bytes body = Inr (final, strip)"
      "ph_signature ph = sig" "fw = Some (outbound_request p env st1 req ph pk body final strip)"
      "active_requests st' = active_requests st" "r \<noteq> Panicked"
      "zk_generate (node_identity (hp_proxy st)) (proxy_fingerprint (hp_proxy st)) (shake_spec 136 sig 32) = Some zk" "zk_json p zk = Some zk_bytes"
proof (cases "is_operational (http_now env) (hp_heartbeat st)")
  case False
  then show thesis using handler_gated [OF assms] early by simp
next
  case op: True
  show thesis
  proof (cases "\<exists>body sig pk. req_body req = Some body \<and> length body \<le> MAX_BODY_BYTES \<and> sign_guarded (hp_proxy st) body = Some (Inr (sig, pk)) \<and> \<not> extract_features_panics body")
    case False
    then show thesis using handler_early [OF assms op] early by blast
  next
    case True
    then obtain body sig pk where b: "req_body req = Some body" "length body \<le> MAX_BODY_BYTES" "sign_guarded (hp_proxy st) body = Some (Inr (sig, pk))"
      "\<not> extract_features_panics body" by blast
    from handler_signed [OF assms op this] obtain st1 where pf: "prove_and_forward p env st1 req body sig pk = Some (st', fw, r)"
      and st1: "active_requests st1 = active_requests st + 1" "hp_config st1 = hp_config st" "hp_proxy st1 = hp_proxy st" by blast
    from pf show thesis
    proof (cases rule: prove_and_forward_cases)
      case (passed zk zk_bytes final strip ph h)
      from forward_counts [OF passed(4)] show thesis
        using that(2) [OF op b(1-3) passed(1) [unfolded st1] passed(2)] passed(5,6) st1 by simp
    qed (use early st1 in auto)
  qed
qed

section \<open>Printed proofs\<close>

text \<open>The compact text that the JSON package prints for an authorization proof.\<close>

fun json_numbers :: "bytes \<Rightarrow> rstr" where
  "json_numbers [] = []"
| "json_numbers [b] = dec_digits (unat b)"
| "json_numbers (b # bs) = dec_digits (unat b) @ 44 # json_numbers bs"

definition json_array :: "bytes \<Rightarrow> rstr" where
  "json_array bs = rlit ''['' @ json_numbers bs @ rlit '']''"

definition json_key :: "string \<Rightarrow> rstr" where
  "json_key name = [34] @ rlit name @ [34, 58]"

definition zk_proof_text :: "ZkAuthorizationProof \<Rightarrow> rstr" where
  "zk_proof_text zk = rlit ''{'' @ json_key ''identity_commitment'' @ json_array (identity_commitment zk) @ [44]
    @ json_key ''attestation_hash'' @ json_array (attestation_hash zk) @ [44]
    @ json_key ''state_commitment'' @ json_array (state_commitment zk) @ [44]
    @ json_key ''proof_elements'' @ json_array (proof_elements zk) @ rlit ''}''"

lemma dec_digits_at_least_one: "1 \<le> length (dec_digits n)"
  by (induction n rule: dec_digits.induct) (simp add: dec_digits.simps)

lemma length_json_numbers: "2 * length bs \<le> Suc (length (json_numbers bs))"
proof (induction bs rule: json_numbers.induct)
  case (3 b c bs)
  then show ?case using dec_digits_at_least_one [of "unat b"] by simp
qed (use dec_digits_at_least_one in \<open>simp_all add: Suc_le_eq\<close>)

lemma length_as_bytes_ge: "length s \<le> length (as_bytes s)"
  by (induction s) (auto simp: as_bytes_def utf8_encode_char_def)

lemma str_len_to_hex: "str_len (to_hex bs) = 2 * length bs"
proof -
  have "utf8_len c = 1" if "c \<in> set (to_hex bs)" for c
    using that to_hex_ascii [of bs] by (auto simp: list_all_iff utf8_len_def)
  then have "str_len (to_hex bs) = length (to_hex bs)" by (simp add: str_len_def sum_list_triv cong: map_cong)
  then show ?thesis by (simp add: length_to_hex)
qed

lemma length_ascii_to_ebcdic: "length (ascii_to_ebcdic xs) = length xs"
proof -
  have "length (ascii_to_ebcdic_loop xs acc) = length acc + length xs" for acc by (induction xs arbitrary: acc) simp_all
  then show ?thesis by (simp add: ascii_to_ebcdic_def)
qed

lemma encoded_proof_long: "2 * length zk_bytes \<le> str_len (encode_proof enc zk_bytes)"
  using length_as_bytes_ge [of "to_hex zk_bytes"]
  by (simp add: encode_proof_def str_len_to_hex length_ascii_to_ebcdic length_to_hex)

lemma proof_text_long:
  assumes "length (identity_commitment zk) = 32" and "length (attestation_hash zk) = 32" and "length (state_commitment zk) = 32" and "length (proof_elements zk) = 32"
  shows "252 \<le> length (as_bytes (zk_proof_text zk))"
proof -
  have "63 \<le> length (json_numbers bs)" if "length bs = 32" for bs using length_json_numbers [of bs] that by simp
  from this [OF assms(1)] this [OF assms(2)] this [OF assms(3)] this [OF assms(4)]
  have "252 \<le> length (zk_proof_text zk)" by (simp add: zk_proof_text_def json_array_def)
  then show ?thesis using length_as_bytes_ge le_trans by blast
qed

lemma fallback_banks: "fallback_iso_config bank = Some config \<Longrightarrow> unat (max_buffer_size config) \<le> 256"
  by (auto simp: fallback_iso_config_def split: if_splits)

section \<open>Properties\<close>

text \<open>
  The gauge of active requests: a request that ends leaves it as it was, on every path through the handler.  A panic leaves
  the request counted for ever.
\<close>

theorem http_gauge:
  "pred_option (\<lambda>(st', fw, r). active_requests st' = active_requests st + (if r = Panicked then 1 else 0)) (proxy_handler p env st req)"
proof -
  have "active_requests st' = active_requests st + (if r = Panicked then 1 else 0)" if "proxy_handler p env st req = Some (st', fw, r)" for st' fw r
    using that by (cases rule: handler_cases) auto
  then show ?thesis by (auto simp: option.pred_set)
qed

text \<open>
  C16: What reaches the back end: only requests of an operational proxy with a body of at most one mebibyte, with a signature of the
  unmodified body in a header of their own that verifies under the node's key, the headers of the client that are not stripped, and the client's body itself unless a bank is
  configured for it.
\<close>

theorem http_forwards_signed:
  "pred_option (\<lambda>(st', fw, r). pred_option (\<lambda>out. \<exists>body sig pk.
      is_operational (http_now env) (hp_heartbeat st) \<and> req_body req = Some body \<and> length body \<le> 1048576
      \<and> get_public_key (keystore (hp_proxy st)) = Inr pk \<and> verify pk body sig = Some (Inr True)
      \<and> (rlit ''x-solomon-pq-sig'', as_bytes (to_hex sig)) \<in> set (out_headers out)
      \<and> (case hp_config st (sponsor_bank_of p req body) of
           None \<Rightarrow> out_body out = body
         | Some c \<Rightarrow> out_body out = body \<or> (\<exists>v. json_parse (codec p) body = Some v))) fw) (proxy_handler p env st req)"
proof -
  have "\<exists>body sig pk. is_operational (http_now env) (hp_heartbeat st) \<and> req_body req = Some body \<and> length body \<le> 1048576
      \<and> get_public_key (keystore (hp_proxy st)) = Inr pk \<and> verify pk body sig = Some (Inr True)
      \<and> (rlit ''x-solomon-pq-sig'', as_bytes (to_hex sig)) \<in> set (out_headers out)
      \<and> (case hp_config st (sponsor_bank_of p req body) of
           None \<Rightarrow> out_body out = body
         | Some c \<Rightarrow> out_body out = body \<or> (\<exists>v. json_parse (codec p) body = Some v))"
    if "proxy_handler p env st req = Some (st', Some out, r)" for st' out r
    using that
  proof (cases rule: handler_cases)
    case (passed body sig pk zk zk_bytes final strip ph st1)
    have "case hp_config st (sponsor_bank_of p req body) of None \<Rightarrow> out_body out = body
         | Some c \<Rightarrow> out_body out = body \<or> (\<exists>v. json_parse (codec p) body = Some v)"
      using passed(5,7) by (auto simp: outbound_request_def route_body_def repack_def split: option.splits sum.splits)
    then show ?thesis using passed
      by (intro exI [of _ body] exI [of _ sig] exI [of _ pk]) (simp add: sign_guarded_ok outbound_request_def solomon_headers_def MAX_BODY_BYTES_def)
  qed simp
  then show ?thesis by (auto simp: option.pred_set)
qed

text \<open>
  A client speaks first under the proxy's own header names: a header of the client that the bank does not strip is forwarded before those of the
  proxy, so its value is the first one under that name, the signature header included.
\<close>

theorem client_header_shadows:
  assumes "map_of (req_headers req) name = Some v" and "name \<noteq> rlit ''host''" and "name \<noteq> rlit ''content-length''"
    and "hp_config st (sponsor_bank_of p req body) = None" and "req_body req = Some body"
  shows "pred_option (\<lambda>(st', fw, r). pred_option (\<lambda>out. map_of (out_headers out) name = Some v) fw) (proxy_handler p env st req)"
proof -
  have kept: "map_of (filter (\<lambda>(n, value). header_kept [] n) hs) name = map_of hs name" for hs :: "(rstr \<times> bytes) list"
    using assms(2,3) by (induction hs) (auto simp: header_kept_def)
  have "map_of (out_headers out) name = Some v" if "proxy_handler p env st req = Some (st', Some out, r)" for st' out r
    using that
  proof (cases rule: handler_cases)
    case (passed body' sig pk zk zk_bytes final strip ph st1)
    then show ?thesis using assms(1,4,5) by (simp add: outbound_request_def route_body_def kept)
  qed simp
  then show ?thesis by (auto simp: option.pred_set)
qed


text \<open>Concrete packages, state and request.\<close>

definition sample_packages :: http_packages where
  "sample_packages = \<lparr>codec = one_value_codec (JObject []), header_to_str = (\<lambda>b. Some (map unat b)), zk_json = (\<lambda>zk. Some (as_bytes (zk_proof_text zk))),
    keccak = sample_hash, stark_to_vec = (\<lambda>_. None), stark_from_slice = (\<lambda>_. None), node_ed = sample_ed25519\<rparr>"

definition sample_http_state :: http_state where
  "sample_http_state = \<lparr>hp_proxy = sample_proxy, hp_heartbeat = (hb_start [])\<lparr>last_synced_epoch := 1000\<rparr>, hp_config = fallback_iso_config, hp_batch = new_batch_accumulator, hp_audit = None,
    hp_detector = detector_new, hybrid_mode = False, ed25519_seed = [], backend_url = [], active_requests = 0, total_requests = 0,
    last_request_bytes = 0, last_request_interval_ms = 0\<rparr>"

definition sample_http_env :: http_env where
  "sample_http_env = \<lparr>http_now = 1000, interval_ms = 5, stark_latency_us = 10, stark_latency_ms = 0, upstream = (\<lambda>_. Some (200, [], Some [])),
    audit_io = \<lparr>now_us = 0, now_secs = 0, open_ok = True, reopen_ok = True, seal_ok = True, pending_ok = (\<lambda>_. True), line_ok = True, flush_ok = True, listing = []\<rparr>,
    emit_ok = True, routes_order = id\<rparr>"

definition sample_request :: http_request where
  "sample_request = \<lparr>req_method = rlit ''POST'', req_path_and_query = None, req_headers = [(rlit ''x-solomon-pq-sig'', [1])], req_body = Some [1]\<rparr>"

theorem client_header_shadows_witness:
  "pred_option (\<lambda>(st', fw, r). pred_option (\<lambda>out. map_of (out_headers out) (rlit ''x-solomon-pq-sig'') = Some [1]) fw)
    (proxy_handler sample_packages sample_http_env (sample_http_state\<lparr>hp_config := (\<lambda>_. None)\<rparr>) sample_request)"
  by (rule client_header_shadows [where body = "[1]"]) (simp_all add: sample_request_def rlit_def)


text \<open>
  Operator access: with a token configured and a log that opens, the guard lets exactly the requests through whose header is the token behind the
  word Bearer, and logs each attempt once with its outcome.  Without a token everything is refused, and the attempt is not logged.
\<close>

theorem metrics_auth_exact:
  "require_metrics_auth sha token True now path header = (case token of
      Some t \<Rightarrow> if t = [] then (Err UNAUTHORIZED, [])
        else (let h = (case header of Some h \<Rightarrow> h | None \<Rightarrow> []); granted = (take 7 h = rlit ''Bearer '' \<and> as_bytes (drop 7 h) = as_bytes t);
                  bearer = (take 7 h = rlit ''Bearer '')
          in (if granted then Inr () else if bearer then Err FORBIDDEN else Err UNAUTHORIZED,
            [\<lparr>timestamp_utc_secs = now, iam_endpoint = path,
              operator_token_hash = (if bearer then sha (as_bytes (drop 7 h)) else rlit ''missing_or_malformed_header''),
              source_ip = None, mfa_verified = granted, access_granted = granted,
              iam_reason = (if granted then rlit ''valid_bearer_token'' else if bearer then rlit ''invalid_token'' else rlit ''missing_bearer_prefix'')\<rparr>]))
    | None \<Rightarrow> (Err UNAUTHORIZED, []))"
  by (auto simp: require_metrics_auth_def ct_diff_zero Let_def split: option.split)

text \<open>The health endpoint answers 200 exactly while the audit worker is healthy and the heartbeat is operational; the handler itself asks for the latter only.\<close>

theorem health_matches_gate:
  "fst (fst (health_handler now st)) = 200 \<longleftrightarrow> audit_healthy st \<and> is_operational now (hp_heartbeat st)"
proof -
  have "fst (health_status s) = 200 \<longleftrightarrow> status_operational s" for s by (cases s) simp_all
  then show ?thesis by (simp add: health_handler_def is_operational_def split_def Let_def)
qed

end
