(* ===== verification/Reports.thy ===== *)
theory Reports
  imports HttpProxy
begin

text \<open>
  The regulatory reports (\<open>audit/bcp_dr.rs\<close>, \<open>audit/vapt.rs\<close>, \<open>audit/sar.rs\<close>, and the inspector endpoint of \<open>proxy.rs\<close>) and the configuration from the
  environment (\<open>config.rs\<close>).  The bill of materials is a constant document; its JSON value is an argument.
\<close>

section \<open>Definitions\<close>

subsection \<open>Recovery objectives\<close>

record BcpDrState =
  dr_drill_utc :: u64
  dr_drill_passed :: bool
  dr_wal_failover_utc :: u64
  dr_backup_verified_utc :: u64

definition bcp_dr_new :: BcpDrState where
  "bcp_dr_new = \<lparr>dr_drill_utc = 0, dr_drill_passed = False, dr_wal_failover_utc = 0, dr_backup_verified_utc = 0\<rparr>"

record BcpDrReport =
  bcp_generated_at :: u64
  bcp_system_name :: rstr
  rto_target_seconds :: u64
  rpo_target_seconds :: u64
  last_dr_drill_utc_secs :: u64
  last_dr_drill_outcome :: rstr
  last_wal_failover_utc_secs :: u64
  last_backup_verified_utc_secs :: u64
  next_scheduled_dr_drill_utc_secs :: u64
  wal_enabled :: bool
  audit_log_backup_enabled :: bool
  current_audit_segment_count :: u64

definition generate_report :: "u64 \<Rightarrow> BcpDrState \<Rightarrow> u64 \<Rightarrow> BcpDrReport" where
  "generate_report now st audit_segment_count =
    (let drill_utc = dr_drill_utc st in
     \<lparr>bcp_generated_at = now, bcp_system_name = rlit ''Project Solomon PQ Switch'', rto_target_seconds = 14400, rpo_target_seconds = 5,
      last_dr_drill_utc_secs = drill_utc,
      last_dr_drill_outcome = (if drill_utc = 0 then rlit ''NEVER'' else if dr_drill_passed st then rlit ''PASS'' else rlit ''FAIL''),
      last_wal_failover_utc_secs = dr_wal_failover_utc st, last_backup_verified_utc_secs = dr_backup_verified_utc st,
      next_scheduled_dr_drill_utc_secs = (if drill_utc > 0 then drill_utc + 180 * 24 * 3600 else now + 180 * 24 * 3600),
      wal_enabled = True, audit_log_backup_enabled = True, current_audit_segment_count = audit_segment_count\<rparr>)"

definition bcp_json :: "BcpDrReport \<Rightarrow> json" where
  "bcp_json r = JObject
    [(rlit ''generated_at_utc_secs'', JInt (uint (bcp_generated_at r))), (rlit ''system_name'', JString (bcp_system_name r)),
     (rlit ''rto_target_seconds'', JInt (uint (rto_target_seconds r))), (rlit ''rpo_target_seconds'', JInt (uint (rpo_target_seconds r))),
     (rlit ''last_dr_drill_utc_secs'', JInt (uint (last_dr_drill_utc_secs r))), (rlit ''last_dr_drill_outcome'', JString (last_dr_drill_outcome r)),
     (rlit ''last_wal_failover_utc_secs'', JInt (uint (last_wal_failover_utc_secs r))),
     (rlit ''last_backup_verified_utc_secs'', JInt (uint (last_backup_verified_utc_secs r))),
     (rlit ''next_scheduled_dr_drill_utc_secs'', JInt (uint (next_scheduled_dr_drill_utc_secs r))),
     (rlit ''wal_enabled'', JBool (wal_enabled r)), (rlit ''audit_log_backup_enabled'', JBool (audit_log_backup_enabled r)),
     (rlit ''current_audit_segment_count'', JInt (uint (current_audit_segment_count r)))]"

subsection \<open>Security findings\<close>

datatype VaptSeverity = Critical | High | Medium | Low | Informational

datatype VaptStatus = VaptOpen | InRemediation | VaptClosed | VaptAccepted

record VaptFinding =
  finding_id :: rstr
  vapt_title :: rstr
  vapt_description :: rstr
  severity :: VaptSeverity
  vapt_status :: VaptStatus
  affected_component :: rstr
  cve_id :: "rstr option"
  detected_at_utc_secs :: u64
  remediation_deadline_utc_secs :: "u64 option"
  closed_at_utc_secs :: "u64 option"
  auditor_name :: rstr
  cert_in_empanelled :: bool
  vapt_notes :: "rstr option"

record VaptRegistry =
  all_findings :: "VaptFinding list"

definition vapt_new :: VaptRegistry where "vapt_new = \<lparr>all_findings = []\<rparr>"

definition add_finding :: "VaptFinding \<Rightarrow> VaptRegistry \<Rightarrow> VaptRegistry" where
  "add_finding finding reg = reg\<lparr>all_findings := all_findings reg @ [finding]\<rparr>"

definition open_findings :: "VaptRegistry \<Rightarrow> VaptFinding list" where
  "open_findings reg = filter (\<lambda>f. vapt_status f = VaptOpen \<or> vapt_status f = InRemediation) (all_findings reg)"

definition vapt_count :: "(VaptFinding \<Rightarrow> bool) \<Rightarrow> VaptRegistry \<Rightarrow> nat" where
  "vapt_count P reg = length (filter P (all_findings reg))"

definition vapt_summary :: "VaptRegistry \<Rightarrow> json" where
  "vapt_summary reg = JObject
    [(rlit ''total'', JInt (int (length (all_findings reg)))),
     (rlit ''open'', JInt (int (vapt_count (\<lambda>f. vapt_status f = VaptOpen) reg))),
     (rlit ''in_remediation'', JInt (int (vapt_count (\<lambda>f. vapt_status f = InRemediation) reg))),
     (rlit ''closed'', JInt (int (vapt_count (\<lambda>f. vapt_status f = VaptClosed) reg))),
     (rlit ''critical_open'', JInt (int (vapt_count (\<lambda>f. severity f = Critical \<and> vapt_status f = VaptOpen) reg)))]"

subsection \<open>The system audit report\<close>

record SarSnapshot =
  sar_generated_at :: u64
  sar_system_name :: rstr
  regulatory_framework :: rstr
  audit_chain_head_hash :: rstr
  total_audit_segments :: u64
  total_incidents_detected :: u64
  total_anomaly_alerts :: u64
  sar_cbom :: json
  sar_bcp_dr :: json
  sar_vapt_summary :: json
  data_localization_compliant :: bool
  iam_mfa_enforced :: bool
  pqc_algorithms :: "rstr list"
  ed25519_seal_signature :: rstr

definition sar_framework :: rstr where
  "sar_framework = rlit ''RBI Master Direction on IT Governance 2023 + Cyber Resilience 2024''"

definition sar_algorithms :: "rstr list" where
  "sar_algorithms = [rlit ''ML-DSA-65 (FIPS 204)'', rlit ''SHAKE-256 (FIPS 202)'', rlit ''Ed25519 (FIPS 186-5)'']"

text \<open>\<open>json_text\<close> is the package's compact text of a value, \<open>sign_fn\<close> the signing closure.\<close>

definition generate_sar :: "(json \<Rightarrow> rstr) \<Rightarrow> u64 \<Rightarrow> rstr \<Rightarrow> u64 \<Rightarrow> u64 \<Rightarrow> u64 \<Rightarrow> json \<Rightarrow> json \<Rightarrow> json \<Rightarrow> AuditHasher \<Rightarrow> (bytes \<Rightarrow> rstr) \<Rightarrow> SarSnapshot" where
  "generate_sar json_text now head_hash segment_count incidents n_alerts cbom_json bcp_dr_json vapt sar_hasher sign_fn =
    (let unsigned = JObject
       [(rlit ''generated_at_utc_secs'', JInt (uint now)), (rlit ''system_name'', JString (rlit ''Project Solomon PQ Switch'')),
        (rlit ''regulatory_framework'', JString sar_framework), (rlit ''audit_chain_head_hash'', JString head_hash),
        (rlit ''total_audit_segments'', JInt (uint segment_count)), (rlit ''total_incidents_detected'', JInt (uint incidents)),
        (rlit ''total_anomaly_alerts'', JInt (uint n_alerts)), (rlit ''cbom'', cbom_json), (rlit ''bcp_dr'', bcp_dr_json),
        (rlit ''vapt_summary'', vapt), (rlit ''data_localization_compliant'', JBool True), (rlit ''iam_mfa_enforced'', JBool True),
        (rlit ''pqc_algorithms'', JArray (map JString sar_algorithms))];
         digest_hex = hex_digest sar_hasher [as_bytes (json_text unsigned)];
         signature = sign_fn (as_bytes digest_hex)
     in \<lparr>sar_generated_at = now, sar_system_name = rlit ''Project Solomon PQ Switch'', regulatory_framework = sar_framework,
         audit_chain_head_hash = head_hash, total_audit_segments = segment_count, total_incidents_detected = incidents,
         total_anomaly_alerts = n_alerts, sar_cbom = cbom_json, sar_bcp_dr = bcp_dr_json, sar_vapt_summary = vapt,
         data_localization_compliant = True, iam_mfa_enforced = True, pqc_algorithms = sar_algorithms, ed25519_seal_signature = signature\<rparr>)"

text \<open>What the inspector endpoint reads beside the state of the handler; \<open>insp_sha256\<close> is the function of the package \<open>sha2\<close>.\<close>

record inspector_state =
  insp_cbom :: json
  insp_bcp :: BcpDrState
  insp_vapt :: VaptRegistry
  incident_count :: u64
  insp_sha256 :: "bytes \<Rightarrow> bytes"

definition rbi_inspector_handler :: "ed25519 \<Rightarrow> (json \<Rightarrow> rstr) \<Rightarrow> u64 \<Rightarrow> inspector_state \<Rightarrow> http_state \<Rightarrow> SarSnapshot" where
  "rbi_inspector_handler ed json_text now insp st =
    (let head_hash = (case hp_audit st of Some (cfg, w) \<Rightarrow> w_last_hash w | None \<Rightarrow> GENESIS_HASH);
         sar_hasher = (case hp_audit st of Some (cfg, w) \<Rightarrow> cfg_hasher cfg | None \<Rightarrow> Sha256AuditHasher (insp_sha256 insp))
     in generate_sar json_text now head_hash 0 (incident_count insp) (total_alerts (hp_detector st)) (insp_cbom insp)
          (bcp_json (generate_report now (insp_bcp insp) 0)) (vapt_summary (insp_vapt insp)) sar_hasher
          (\<lambda>bytes. hex_encode (ed_sign ed (ed25519_seed st) bytes)))"

subsection \<open>Configuration from the environment\<close>

text \<open>\<open>env\<close> are the variables that are set and valid Unicode; the parsers of addresses and the lower-case map are arguments.\<close>

record 'addr SolomonProxyConfig =
  proxy_bind_addr :: 'addr
  proxy_http_port :: u16
  config_backend_url :: rstr
  receiving_proxy_port :: u16
  control_plane_url :: rstr
  config_sync_interval_sec :: u64
  config_license_id :: rstr
  metrics_enabled :: bool
  metrics_port :: u16
  keystore_path :: rstr
  keystore_passphrase :: rstr

text \<open>\<open>str::parse\<close> to an unsigned integer of \<open>bits\<close> bits: an optional plus sign and decimal digits, in range.\<close>

definition parse_uint :: "nat \<Rightarrow> rstr \<Rightarrow> nat option" where
  "parse_uint bits s =
    (let ds = (if s \<noteq> [] \<and> hd s = 43 then tl s else s)
     in if ds \<noteq> [] \<and> list_all is_ascii_digit ds \<and> dec_value ds < 2 ^ bits then Some (dec_value ds) else None)"

definition env_port :: "(rstr \<rightharpoonup> rstr) \<Rightarrow> rstr \<Rightarrow> nat \<Rightarrow> u16" where
  "env_port env key fallback =
    (case Option.bind (env key) (parse_uint 16) of Some p \<Rightarrow> word_of_nat p | None \<Rightarrow> word_of_nat fallback)"

definition env_or :: "(rstr \<rightharpoonup> rstr) \<Rightarrow> rstr \<Rightarrow> rstr \<Rightarrow> rstr" where
  "env_or env key fallback = (case env key of Some v \<Rightarrow> v | None \<Rightarrow> fallback)"

definition config_from_env :: "(rstr \<Rightarrow> 'addr option) \<Rightarrow> (rstr \<Rightarrow> rstr) \<Rightarrow> (rstr \<rightharpoonup> rstr) \<Rightarrow> 'addr SolomonProxyConfig option" where
  "config_from_env parse_addr to_lowercase env = do {
     bind_addr \<leftarrow> (case parse_addr (env_or env (rlit ''SOLOMON_PROXY_BIND_ADDR'') (rlit ''0.0.0.0:8080'')) of
       Some a \<Rightarrow> Some a | None \<Rightarrow> parse_addr (rlit ''0.0.0.0:8080''));
     let receiving = env_port env (rlit ''SOLOMON_RECEIVING_PROXY_PORT'') 8082;
     Some \<lparr>proxy_bind_addr = bind_addr,
       proxy_http_port = env_port env (rlit ''SOLOMON_PROXY_HTTP_PORT'') 8081,
       config_backend_url = (case env (rlit ''SOLOMON_BACKEND_URL'') of
         Some u \<Rightarrow> u
       | None \<Rightarrow> env_or env (rlit ''BACKEND_URL'') (rlit ''http://127.0.0.1:'' @ dec_digits (unat receiving))),
       receiving_proxy_port = receiving,
       control_plane_url = env_or env (rlit ''SOLOMON_CONTROL_PLANE_URL'') (rlit ''http://127.0.0.1:9000''),
       config_sync_interval_sec = (case Option.bind (env (rlit ''CONFIG_SYNC_INTERVAL_SEC'')) (parse_uint 64) of Some n \<Rightarrow> word_of_nat n | None \<Rightarrow> 60),
       config_license_id = env_or env (rlit ''SOLOMON_LICENSE_ID'') (rlit ''ENT-5821''),
       metrics_enabled = (case env (rlit ''SOLOMON_METRICS_ENABLED'') of
         Some v \<Rightarrow> v \<noteq> rlit ''0'' \<and> to_lowercase v \<noteq> rlit ''false''
       | None \<Rightarrow> True),
       metrics_port = env_port env (rlit ''SOLOMON_METRICS_PORT'') 9100,
       keystore_path = env_or env (rlit ''SOLOMON_KEYSTORE_PATH'') (rlit ''keystore/solomon_keystore.bin''),
       keystore_passphrase = env_or env (rlit ''SOLOMON_KEYSTORE_PASSPHRASE'') (rlit ''SolomonEnterpriseDefaultKey2026!'')\<rparr>
   }"

section \<open>Properties\<close>

text \<open>The summary accounts for every finding except the accepted ones, and the open list is the first two groups.\<close>

theorem vapt_summary_complete:
  "length (all_findings reg) = vapt_count (\<lambda>f. vapt_status f = VaptOpen) reg + vapt_count (\<lambda>f. vapt_status f = InRemediation) reg
      + vapt_count (\<lambda>f. vapt_status f = VaptClosed) reg + vapt_count (\<lambda>f. vapt_status f = VaptAccepted) reg
    \<and> length (open_findings reg) = vapt_count (\<lambda>f. vapt_status f = VaptOpen) reg + vapt_count (\<lambda>f. vapt_status f = InRemediation) reg"
proof -
  have "length fs = length (filter (\<lambda>f. vapt_status f = VaptOpen) fs) + length (filter (\<lambda>f. vapt_status f = InRemediation) fs)
      + length (filter (\<lambda>f. vapt_status f = VaptClosed) fs) + length (filter (\<lambda>f. vapt_status f = VaptAccepted) fs)" for fs :: "VaptFinding list"
  proof (induction fs)
    case (Cons f fs)
    then show ?case by (cases "vapt_status f") simp_all
  qed simp
  moreover have "length (filter (\<lambda>f. vapt_status f = VaptOpen \<or> vapt_status f = InRemediation) fs)
      = length (filter (\<lambda>f. vapt_status f = VaptOpen) fs) + length (filter (\<lambda>f. vapt_status f = InRemediation) fs)" for fs :: "VaptFinding list"
    by (induction fs) auto
  ultimately show ?thesis unfolding vapt_count_def open_findings_def by blast
qed

text \<open>
  What an inspector is told does not depend on what is true: every snapshot claims compliant data localization, enforced multi-factor access and no
  audit segments, whatever the state of the node.
\<close>

theorem inspector_claims_constant:
  "let s = rbi_inspector_handler ed json_text now insp st in
    data_localization_compliant s \<and> iam_mfa_enforced s \<and> total_audit_segments s = 0
    \<and> audit_chain_head_hash s = (case hp_audit st of Some (cfg, w) \<Rightarrow> w_last_hash w | None \<Rightarrow> GENESIS_HASH)"
  by (simp add: rbi_inspector_handler_def generate_sar_def Let_def)

text \<open>
  The seal of a snapshot verifies over the digest of all its other fields: whoever rebuilds the unsigned document from the snapshot and
  checks the signature under the node's key accepts it.
\<close>

definition sar_unsigned :: "SarSnapshot \<Rightarrow> json" where
  "sar_unsigned s = JObject
    [(rlit ''generated_at_utc_secs'', JInt (uint (sar_generated_at s))), (rlit ''system_name'', JString (sar_system_name s)),
     (rlit ''regulatory_framework'', JString (regulatory_framework s)), (rlit ''audit_chain_head_hash'', JString (audit_chain_head_hash s)),
     (rlit ''total_audit_segments'', JInt (uint (total_audit_segments s))), (rlit ''total_incidents_detected'', JInt (uint (total_incidents_detected s))),
     (rlit ''total_anomaly_alerts'', JInt (uint (total_anomaly_alerts s))), (rlit ''cbom'', sar_cbom s), (rlit ''bcp_dr'', sar_bcp_dr s),
     (rlit ''vapt_summary'', sar_vapt_summary s), (rlit ''data_localization_compliant'', JBool (data_localization_compliant s)),
     (rlit ''iam_mfa_enforced'', JBool (iam_mfa_enforced s)), (rlit ''pqc_algorithms'', JArray (map JString (pqc_algorithms s)))]"

theorem sar_seal_verifies:
  assumes "ed25519_correct ed" and "hp_audit st = Some (cfg, w)"
  shows "\<exists>sig. ed25519_seal_signature (rbi_inspector_handler ed json_text now insp st) = hex_encode sig
    \<and> ed_verify ed (ed_public ed (ed25519_seed st))
        (as_bytes (hex_digest (cfg_hasher cfg) [as_bytes (json_text (sar_unsigned (rbi_inspector_handler ed json_text now insp st)))])) sig"
  using assms by (auto simp: rbi_inspector_handler_def generate_sar_def sar_unsigned_def ed25519_correct_def Let_def)

text \<open>A node without a passphrase in its environment protects its keys with the one in the source.\<close>

theorem default_passphrase_public:
  assumes "env (rlit ''SOLOMON_KEYSTORE_PASSPHRASE'') = None" and "config_from_env parse_addr lc env = Some c"
  shows "keystore_passphrase c = rlit ''SolomonEnterpriseDefaultKey2026!''"
  using assms by (auto simp: config_from_env_def env_or_def Let_def bind_eq_Some_conv)

end
