(* ===== verification/Spec2Isabelle.thy ===== *)
theory Spec2Isabelle
  imports Iso8583 Ebcdic Hybrid AuditRecovery Compliance Licensing ProxyIso Stark Tunnel Reports
begin

text \<open>
  Project Solomon: a verification development

  The program is a payment proxy.  It reads ISO 8583 messages from a switch, signs them with
  ML-DSA-65 (FIPS 204), adds the signature and an authorization proof to a private field, and forwards
  them; a receiving proxy checks and strips that field before the core banking host sees the message.
  A second front end does the same for HTTP requests.  Around these paths are the cryptographic engine,
  the key stores, the audit trail with its hash chain, two compliance guards, the licence heartbeat with
  its cloud control plane, an accumulator that aggregates transactions in batches, a hybrid tunnel, and a
  STARK prover.

  \<^bold>\<open>Theories and sources\<close> (paths under \<open>src/solomon-core/src\<close> unless a crate is named).

  \<^item> Prelude: machine words, byte strings, results and panics, the parts of the Rust standard library
    the sources use (slices, UTF-8, \<open>parse\<close>, \<open>format!\<close>, \<open>from_str_radix\<close>, byte orders, saturating
    arithmetic) and the lemmas shared by the components.
  \<^item> Bcd (\<open>bcd.rs\<close>), Ebcdic (\<open>ebcdic.rs\<close>), Iso8583 and Calendar (\<open>iso8583.rs\<close>): the wire formats.  A
    message is its MTI and a map from field numbers to bytes; each parser and serializer is one
    definition, errors and panics included.
  \<^item> Scalar (\<open>crypto/scalar.rs\<close>), Poly and Rounding (\<open>crypto/poly.rs\<close>, vectors of \<open>crypto/matrix.rs\<close>),
    Packing and HintCodec (\<open>crypto/packing.rs\<close>), Shake (\<open>crypto/shake.rs\<close>), Sampling
    (\<open>crypto/matrix.rs\<close>, samplers of \<open>crypto/sign.rs\<close>), Sign (\<open>crypto/sign.rs\<close>, \<open>crypto/nist_api.rs\<close>),
    Hybrid (\<open>crypto/hybrid.rs\<close>): the signature engine, on 32- and 64-bit words as the code has them.
  \<^item> KeyStore (\<open>hsm.rs\<close>, \<open>crypto/audited_mldsa.rs\<close>): the key storage trait, its back ends, the key file, the
    tenant registry.
  \<^item> AuditChain (\<open>audit/record.rs\<close>, \<open>audit/chain.rs\<close>, \<open>audit/crypto_traits.rs\<close>), AuditLogger
    (\<open>audit/logger.rs\<close>), Compliance (\<open>audit/anomaly.rs\<close>, \<open>audit/data_localization.rs\<close>).
  \<^item> Heartbeat (\<open>crypto/heartbeat.rs\<close>, \<open>heartbeat.rs\<close>, \<open>crypto/str_enc.rs\<close>) and Licensing (\<open>solomon-cloud/src/api.rs\<close>,
    \<open>solomon-cloud/src/crypto.rs\<close>, the renewal loop of \<open>proxy.rs\<close>).
  \<^item> ProxyIso (\<open>proxy.rs\<close>, the slicing of \<open>ai/feature.rs\<close>): the ISO 8583 TCP proxy in its three modes, on top
    of all of the above.
  \<^item> Goldilocks (\<open>solomon-zk/src/field.rs\<close>), Simd (\<open>simd\<close>), Ntt and Lde (\<open>ntt.rs\<close>, \<open>intt.rs\<close>, \<open>lde.rs\<close>), Merkle
    (\<open>merkle.rs\<close>, \<open>challenger.rs\<close>), Trace (\<open>trace.rs\<close>), StarkQuotient (\<open>air.rs\<close>, \<open>quotient.rs\<close>), Fri
    (\<open>fri.rs\<close>), Stark (\<open>prover.rs\<close>, \<open>verifier.rs\<close>): the proof system.
  \<^item> Batch (\<open>zk/batch.rs\<close>): channel, worker, aggregation and dead-letter files of the batch accumulator.
  \<^item> Tunnel (\<open>tls_tunnel.rs\<close>): key exchange, derivation, frame ciphers and the forwarding server.
  \<^item> SwitchConfig (\<open>proxy.rs\<close>, \<open>solomon-cloud/src/api.rs\<close>, \<open>solomon-cloud/src/crypto.rs\<close>): the routing table, its
    synchronisation, and the control plane's configurations, key ledger, fleet view and master key file.
  \<^item> AuditRecovery (\<open>audit/logger.rs\<close>): how a restarted logger finds the end of its chain.
  \<^item> HttpProxy (\<open>proxy.rs\<close>, \<open>audit/iam.rs\<close>): the HTTP handler, health, metrics and operator access.
  \<^item> Reports (\<open>audit/bcp_dr.rs\<close>, \<open>audit/vapt.rs\<close>, \<open>audit/sar.rs\<close>, \<open>config.rs\<close>): the regulatory documents, their
    endpoint, and the configuration from the environment.

  \<^bold>\<open>Conventions.\<close>  A struct is a record, an enum a datatype.  Arithmetic wraps as in a release build.  A
  result is a sum with the error on the left; where the code can panic the error side is
  \<open>fault\<close>, whose \<open>Panic\<close> is never confused with an error the code returns.  A loop whose end depends on
  random bytes is a \<open>partial_function\<close> in the option monad: \<open>None\<close> means that it does not return.  All other
  loops are total; no definition uses fuel.  State that the code keeps behind locks and atomics is
  passed explicitly.  What the operating system answers (clock, files, sockets, database) is an argument
  of the step that asks, so a theorem over all sequences of arguments covers every behaviour of the
  environment.  Third-party crates (Ed25519, SHA-256, AES-GCM, \<open>ml-dsa\<close>, \<open>sha3\<close>, \<open>serde_json\<close>,
  \<open>bincode\<close>) are parameters, and what a theorem needs of them is a named hypothesis.

  \<^bold>\<open>Interfaces.\<close>  A contract that several operations share, or that one component relies on, is a locale:
  \<open>field_codec\<close> (Iso8583) for the field encodings of the two wire formats; \<open>group_codec\<close> (Packing) for the
  bit packings of keys and signatures; \<open>butterfly_kernel\<close> (Poly) and \<open>butterfly\<close> (Ntt) for the transforms
  over the two fields, each interpreted for the forward and the inverse butterfly; \<open>lane_op\<close> and its
  extension \<open>packed_op\<close> (Simd) for the vector engines; \<open>audit_hasher\<close> (AuditChain) for the hasher trait,
  discharged for SHA-256 and SHAKE-256; \<open>key_storage\<close> (KeyStore) for what the proxy needs of a key store, discharged for
  the memory-pinned one; \<open>frame_cipher\<close> (Tunnel) for what the copy loops need of a cipher, discharged for the
  key stream.  The theorems over the program use the interpretations only.

  \<^bold>\<open>What is shown.\<close>

  \<^item> Wire formats: serialize then parse is the schema's normal form, in the ASCII and the AS2805 format;
    the ASCII parser accepts only normal forms and never panics; the AS2805 parser panics exactly on
    the inputs stated; the field 7 test means what it says on the calendar.
  \<^item> Signature engine: the Keccak permutation is that of FIPS 202 and the sponge computes SHAKE for all
    inputs, however they are split; the shuffled NTT and its inverse cancel; Montgomery reduction,
    rounding and hints meet their specifications; the samplers return exactly the accepted part of the
    stream; encodings are canonical; a released signature has verified under the re-derived and the
    stored key; signing returns the first accepted attempt; generate, sign, verify agrees end to end,
    also for the hybrid scheme.
  \<^item> Audit: the verifier accepts exactly the linked chains and names the first bad record; two accepted chains
    with the same head have the same bytes unless records of theirs collide under the hash; the
    worker's answers form one chain under every behaviour of disk and clock, and nothing is lost
    while writes succeed.  Alerts are rate-limited, the detector's memory is bounded, the
    localization filter decides the published policy.
  \<^item> Licensing: what the control plane issues the proxy accepts; a licence stays bound to its first fingerprint;
    an operational proxy has accepted a token within 96 hours, in every run with restarts, lost files and
    clock jumps; exactly which cache files revive a proxy.
  \<^item> Proxy: ingress and receiving compose to the identity on messages; the receiving mode forwards only
    what it accepted, and the exact condition of acceptance; the monitor mode forwards the
    client's bytes unchanged; nothing is forwarded without a licence.  The HTTP handler forwards only while
    the heartbeat is operational, with a verified signature of the unmodified body.  Synchronisation of the
    routing table applies exactly the authentic answers.
  \<^item> Proof system: the field operations are those of the Goldilocks field, on every engine but one; the transforms
    are the discrete Fourier transform and its inverse; a Merkle root binds its leaves; the FRI openings
    verify; the prover's proofs are accepted; the exact condition under which the verifier
    accepts, and a forged proof that meets it.
  \<^item> Batches: under every interleaving of producers, worker, clock and disk no accepted transaction is
    lost, doubled or reordered while the channel is open; channel, buffer, batches and panics stay
    within their bounds; every leaf opens against the root.
  \<^item> Tunnel: client and server derive the same key and the frames arrive unchanged in both directions.
  \<^item> Restart: a logger that finds its last record goes on with one chain.
  \<^item> Reports: every finding is counted once; the seal of a snapshot verifies under the node key.

  Theorems without a claim number next to these state further facts of the components, among them the
  defects that modelling showed: the signature of a PQC field is optional
  (\<open>unsigned_message_accepted\<close>), first use can be raced (\<open>tofu_race\<close>), a failed drain loses audit lines
  (\<open>failed_drain_loses_line\<close>), record hashes are unframed (\<open>compute_hash_unframed\<close>), the localization
  filter approves public addresses (\<open>public_address_approved\<close>), \<open>parse_hex\<close> can panic (\<open>parse_hex_panics\<close>),
  feature extraction panics on multi-byte text (\<open>multibyte_field7_panics\<close>), the AVX-512 product is not the
  field's (\<open>avx512_mul_differs\<close>), the extension repeats the trace (\<open>generate_lde_repeats\<close>), shutdown drops the
  buffered transactions (\<open>shutdown_drops_buffer\<close>), tunnel frames are malleable (\<open>tunnel_malleable\<close>), the
  control plane's configurations are never applied (\<open>cloud_configs_ignored\<close>), an empty segment restarts the
  chain (\<open>empty_segment_restarts_chain\<close>), headers of the client shadow those of the proxy
  (\<open>client_header_shadows\<close>), and the inspector snapshot states constants (\<open>inspector_claims_constant\<close>).

  \<^bold>\<open>Not modelled.\<close>  Memory erasure, page locking and fences (no functional effect); timing;
  the floating-point parts: anomaly scoring, feature values, inference, training and the aggregation of
  model weights; start-up, listeners and command lines; the text of error and log messages; files that
  only receive lines (incident and access logs, the logger's companion metadata); the constant bill of
  materials; the database schema.  In the logger, a removal of an old segment is taken to succeed.  In
  the ISO 8583 proxy, a failed write to the back end is treated as the back end being unreachable.  A
  request of the HTTP proxy is one step: two requests interleave only between steps.

  What is left is of these kinds: it has no behaviour over the values the model has, or it is
  arithmetic on floating-point numbers, for which none of the theories used here has a model.
\<close>

end
